(* ===== verification/Prelude.thy ===== *)
theory Prelude
  imports
    Main
    "HOL-Library.List_Lexorder"
    "HOL-Library.Char_ord"
    "HOL-Library.Product_Lexorder"
    "HOL-Library.Word"
    "HOL-Library.Multiset"
begin

text \<open>
  What every component of the development shares: the ordered map and the ordered
  set of the Rust standard library (\<open>BTreeMap\<close>, \<open>BTreeSet\<close>) with their lemmas, the
  result type of a fallible function, UTF-8 strings and the scalar values they encode,
  and the explicit worklist of an expression walk.  A Rust \<open>String\<close> is a \<^typ>\<open>string\<close>
  of UTF-8 bytes, so its length is \<open>String::len\<close> and the lexicographic order of
  \<open>List_Lexorder\<close> over the byte order of \<open>Char_ord\<close> is the derived \<open>Ord\<close>.
\<close>

named_theorems bt_simps
  \<open>lookups and key sets of the ordered map\<close>
named_theorems bt_eval
  \<open>equations that evaluate closed ordered maps\<close>
named_theorems result_simps
  \<open>inversion of successful and failed results\<close>

section \<open>Results\<close>

text \<open>A fallible function returns \<open>Inl\<close> of its error or \<open>Inr\<close> of its value.\<close>

definition and_then :: "'e + 'a \<Rightarrow> ('a \<Rightarrow> 'e + 'b) \<Rightarrow> 'e + 'b" where
  "and_then r f = (case r of Inl e \<Rightarrow> Inl e | Inr x \<Rightarrow> f x)"

definition ok_or :: "'e \<Rightarrow> 'a option \<Rightarrow> 'e + 'a" where
  "ok_or e x = (case x of None \<Rightarrow> Inl e | Some y \<Rightarrow> Inr y)"

definition map_err :: "('e \<Rightarrow> 'f) \<Rightarrow> 'e + 'a \<Rightarrow> 'f + 'a" where
  "map_err f r = (case r of Inl e \<Rightarrow> Inl (f e) | Inr x \<Rightarrow> Inr x)"

definition guard :: "bool \<Rightarrow> 'e \<Rightarrow> 'e + unit" where
  "guard b e = (if b then Inl e else Inr ())"

fun try_all :: "('a \<Rightarrow> 'e + unit) \<Rightarrow> 'a list \<Rightarrow> 'e + unit" where
  "try_all f [] = Inr ()"
| "try_all f (x # xs) = (case f x of Inl e \<Rightarrow> Inl e | Inr u \<Rightarrow> try_all f xs)"

lemma and_then_simps [simp]:
  "and_then (Inl e) f = Inl e" "and_then (Inr x) f = f x"
  by (simp_all add: and_then_def)

lemma and_then_Inr [result_simps]:
  "and_then r f = Inr y \<longleftrightarrow> (\<exists>x. r = Inr x \<and> f x = Inr y)"
  by (cases r) auto

lemma and_then_unit_Inr [result_simps]:
  "and_then r (\<lambda>u. s) = Inr y \<longleftrightarrow> (\<exists>x. r = Inr x) \<and> s = Inr y"
  by (cases r) auto

lemma ok_or_simps [simp]: "ok_or e None = Inl e" "ok_or e (Some x) = Inr x"
  by (simp_all add: ok_or_def)

lemma ok_or_Inr [result_simps]: "ok_or e x = Inr y \<longleftrightarrow> x = Some y"
  by (cases x) auto

lemma map_err_simps [simp]: "map_err f (Inl e) = Inl (f e)" "map_err f (Inr x) = Inr x"
  by (simp_all add: map_err_def)

lemma map_err_Inr [result_simps]: "map_err f r = Inr y \<longleftrightarrow> r = Inr y"
  by (cases r) auto

lemma if_Inl_Inr [result_simps]: "(if b then Inl e else r) = Inr y \<longleftrightarrow> \<not> b \<and> r = Inr y"
  by simp

lemma guard_Inr [result_simps]: "guard b e = Inr u \<longleftrightarrow> \<not> b"
  by (simp add: guard_def)

lemma guard_simps [simp]: "guard True e = Inl e" "guard False e = Inr ()"
  by (simp_all add: guard_def)

lemma try_all_Inr [result_simps]:
  "try_all f xs = Inr u \<longleftrightarrow> (\<forall>x\<in>set xs. f x = Inr ())"
  by (induction xs) (auto split: sum.splits)

section \<open>Ordered sets\<close>

text \<open>
  A \<open>BTreeSet\<close> that is only iterated is the strictly increasing list of its elements.
\<close>

definition ord_set :: "'a::linorder list \<Rightarrow> 'a list" where
  "ord_set xs = sort (remdups xs)"

lemma set_ord_set [simp]: "set (ord_set xs) = set xs"
  by (simp add: ord_set_def)

lemma distinct_ord_set [simp]: "distinct (ord_set xs)"
  by (simp add: ord_set_def)

lemma sorted_ord_set [simp]: "sorted (ord_set xs)"
  by (simp add: ord_set_def)

lemma strict_sorted_distinct:
  "sorted_wrt (<) (xs :: 'a::linorder list) \<longleftrightarrow> sorted xs \<and> distinct xs"
  by (simp add: strict_sorted_iff)

lemma strict_sorted_ord_set [simp]: "sorted_wrt (<) (ord_set xs)"
  by (simp add: strict_sorted_distinct)

lemma ord_set_cong: "set xs = set ys \<Longrightarrow> ord_set xs = ord_set ys"
  by (metis distinct_ord_set set_ord_set sorted_distinct_set_unique sorted_ord_set)

lemma ord_set_sorted: "sorted_wrt (<) xs \<Longrightarrow> ord_set xs = xs"
  by (metis strict_sorted_distinct strict_sorted_ord_set set_ord_set
      sorted_distinct_set_unique)

section \<open>Ordered maps\<close>

text \<open>
  A \<open>BTreeMap\<close> is its list of entries in strictly increasing key order.  Two maps with
  the same lookups are therefore equal, as \<open>PartialEq\<close> of the Rust type has it.
\<close>

typedef (overloaded) ('k::linorder, 'v) btree =
  "{xs :: ('k \<times> 'v) list. sorted_wrt (<) (map fst xs)}"
  morphisms bt_entries BTree
  by (rule exI [of _ "[]"]) simp

setup_lifting type_definition_btree

lemma bt_entries_sorted [simp]: "sorted_wrt (<) (map fst (bt_entries m))"
  using bt_entries [of m] by simp

lemma bt_entries_distinct [simp]: "distinct (map fst (bt_entries m))"
  using bt_entries_sorted [of m] unfolding strict_sorted_distinct by blast

fun ins_entry :: "'k::linorder \<Rightarrow> 'v \<Rightarrow> ('k \<times> 'v) list \<Rightarrow> ('k \<times> 'v) list" where
  "ins_entry k v [] = [(k, v)]"
| "ins_entry k v ((a, b) # xs) =
     (if k < a then (k, v) # (a, b) # xs
      else if k = a then (k, v) # xs
      else (a, b) # ins_entry k v xs)"

lemma keys_ins_entry: "set (map fst (ins_entry k v xs)) = insert k (set (map fst xs))"
proof (induction xs)
  case (Cons e xs)
  then show ?case by (cases e) (simp add: insert_commute)
qed simp

lemma sorted_ins_entry:
  "sorted_wrt (<) (map fst xs) \<Longrightarrow> sorted_wrt (<) (map fst (ins_entry k v xs))"
proof (induction xs)
  case (Cons e xs)
  obtain a b where e: "e = (a, b)" by force
  have "\<And>y. y \<in> set (map fst (ins_entry k v xs)) \<Longrightarrow> y = k \<or> y \<in> set (map fst xs)"
    unfolding keys_ins_entry by simp
  with Cons e show ?case by (fastforce simp: image_iff)
qed simp

lemma map_of_ins_entry:
  "sorted_wrt (<) (map fst xs) \<Longrightarrow> map_of (ins_entry k v xs) = (map_of xs)(k \<mapsto> v)"
  by (induction xs) (auto simp: fun_eq_iff)

lift_definition bt_empty :: "('k::linorder, 'v) btree" is "[]"
  by simp

lift_definition bt_insert :: "'k::linorder \<Rightarrow> 'v \<Rightarrow> ('k, 'v) btree \<Rightarrow> ('k, 'v) btree"
  is ins_entry
  by (rule sorted_ins_entry)

lift_definition bt_filter ::
    "('k::linorder \<Rightarrow> 'v \<Rightarrow> bool) \<Rightarrow> ('k, 'v) btree \<Rightarrow> ('k, 'v) btree"
  is "\<lambda>P. filter (\<lambda>(k, v). P k v)"
  by (auto simp: sorted_wrt_map intro: sorted_wrt_filter)

lift_definition bt_map ::
    "('k::linorder \<Rightarrow> 'v \<Rightarrow> 'w) \<Rightarrow> ('k, 'v) btree \<Rightarrow> ('k, 'w) btree"
  is "\<lambda>f. map (\<lambda>(k, v). (k, f k v))"
  by (simp add: sorted_wrt_map case_prod_beta)

definition bt_remove :: "'k::linorder \<Rightarrow> ('k, 'v) btree \<Rightarrow> ('k, 'v) btree" where
  "bt_remove k = bt_filter (\<lambda>a v. a \<noteq> k)"

definition bt_get :: "('k::linorder, 'v) btree \<Rightarrow> 'k \<Rightarrow> 'v option" where
  "bt_get m = map_of (bt_entries m)"

definition bt_keys :: "('k::linorder, 'v) btree \<Rightarrow> 'k list" where
  "bt_keys m = map fst (bt_entries m)"

definition bt_values :: "('k::linorder, 'v) btree \<Rightarrow> 'v list" where
  "bt_values m = map snd (bt_entries m)"

definition bt_contains :: "('k::linorder, 'v) btree \<Rightarrow> 'k \<Rightarrow> bool" where
  "bt_contains m k = (bt_get m k \<noteq> None)"

definition bt_of_list :: "('k::linorder \<times> 'v) list \<Rightarrow> ('k, 'v) btree" where
  "bt_of_list xs = foldl (\<lambda>m (k, v). bt_insert k v m) bt_empty xs"

definition bt_filter_map ::
    "('k::linorder \<Rightarrow> 'v \<Rightarrow> 'w option) \<Rightarrow> ('k, 'v) btree \<Rightarrow> ('k, 'w) btree" where
  "bt_filter_map f m = bt_map (\<lambda>k v. the (f k v)) (bt_filter (\<lambda>k v. f k v \<noteq> None) m)"

text \<open>\<open>entry(k).or_default().push(x)\<close> on a map of vectors.\<close>

definition bt_push :: "'k::linorder \<Rightarrow> 'v \<Rightarrow> ('k, 'v list) btree \<Rightarrow> ('k, 'v list) btree" where
  "bt_push k x m = bt_insert k (case bt_get m k of None \<Rightarrow> [x] | Some xs \<Rightarrow> xs @ [x]) m"

definition bt_group :: "('a \<Rightarrow> 'k::linorder) \<Rightarrow> ('a \<Rightarrow> 'v) \<Rightarrow> 'a list \<Rightarrow> ('k, 'v list) btree" where
  "bt_group key val xs = foldl (\<lambda>m x. bt_push (key x) (val x) m) bt_empty xs"

subsection \<open>Evaluation\<close>

lemma bt_entries_eval [bt_eval]:
  "bt_entries bt_empty = []"
  "bt_entries (bt_insert k v m) = ins_entry k v (bt_entries m)"
  "bt_entries (bt_filter P m) = filter (\<lambda>(k, v). P k v) (bt_entries m)"
  "bt_entries (bt_map f m) = map (\<lambda>(k, v). (k, f k v)) (bt_entries m)"
  by (transfer, simp)+

declare bt_get_def [bt_eval] bt_keys_def [bt_eval] bt_values_def [bt_eval]
  bt_contains_def [bt_eval] bt_of_list_def [bt_eval] bt_remove_def [bt_eval]
  bt_filter_map_def [bt_eval] bt_push_def [bt_eval] bt_group_def [bt_eval]

lemma bt_entries_inj [bt_eval]: "m = n \<longleftrightarrow> bt_entries m = bt_entries n"
  by (simp add: bt_entries_inject)

subsection \<open>Lookups\<close>

lemma bt_get_empty [simp]: "bt_get bt_empty k = None"
  by (simp add: bt_get_def bt_entries_eval)

lemma bt_get_insert [simp]:
  "bt_get (bt_insert k v m) a = (if a = k then Some v else bt_get m a)"
  by (simp add: bt_get_def bt_entries_eval map_of_ins_entry)

lemma bt_get_eq_Some: "bt_get m k = Some v \<longleftrightarrow> (k, v) \<in> set (bt_entries m)"
  by (simp add: bt_get_def map_of_eq_Some_iff)

lemma bt_get_filter [simp]:
  "bt_get (bt_filter P m) k = (case bt_get m k of None \<Rightarrow> None
     | Some v \<Rightarrow> if P k v then Some v else None)"
proof (cases "bt_get m k")
  case None
  then have "\<And>v. (k, v) \<notin> set (bt_entries m)" by (simp add: bt_get_eq_Some flip: bt_get_eq_Some)
  then have "\<And>v. bt_get (bt_filter P m) k \<noteq> Some v"
    by (simp add: bt_get_eq_Some bt_entries_eval)
  then show ?thesis using None by (cases "bt_get (bt_filter P m) k") auto
next
  case (Some v)
  then have in_m: "(k, v) \<in> set (bt_entries m)" by (simp add: bt_get_eq_Some)
  show ?thesis
  proof (cases "P k v")
    case True
    with in_m have "bt_get (bt_filter P m) k = Some v"
      by (simp add: bt_get_eq_Some bt_entries_eval)
    with Some True show ?thesis by simp
  next
    case False
    have "\<And>w. bt_get (bt_filter P m) k \<noteq> Some w"
      using Some False by (auto simp: bt_get_eq_Some bt_entries_eval)
        (metis bt_get_eq_Some option.inject)
    then show ?thesis using Some False by (cases "bt_get (bt_filter P m) k") auto
  qed
qed

lemma bt_get_map [simp]: "bt_get (bt_map f m) k = map_option (f k) (bt_get m k)"
proof -
  have "map_of (map (\<lambda>(k, v). (k, f k v)) xs) k = map_option (f k) (map_of xs k)" for xs
    by (induction xs) auto
  then show ?thesis by (simp add: bt_get_def bt_entries_eval)
qed

lemma bt_get_remove [simp]:
  "bt_get (bt_remove k m) a = (if a = k then None else bt_get m a)"
  by (auto simp: bt_remove_def split: option.splits)

lemma bt_get_filter_map [simp]:
  "bt_get (bt_filter_map f m) k = (case bt_get m k of None \<Rightarrow> None | Some v \<Rightarrow> f k v)"
  by (auto simp: bt_filter_map_def split: option.splits)

lemma sorted_assoc_unique:
  assumes "sorted_wrt (<) (map fst xs)" "sorted_wrt (<) (map fst ys)" "set xs = set ys"
  shows "(xs :: ('k::linorder \<times> 'v) list) = ys"
proof -
  have keys: "map fst xs = map fst ys"
    using assms by (metis list.set_map sorted_distinct_set_unique strict_sorted_distinct)
  have "distinct (map fst xs)" using assms(1) by (simp add: strict_sorted_distinct)
  then have inj: "inj_on fst (set xs)" by (simp add: distinct_map)
  have "inj_on fst (set xs \<union> set ys)" using inj assms(3) by simp
  then show ?thesis using keys by (rule map_inj_on [rotated])
qed

lemma btree_eqI:
  assumes "\<And>k. bt_get m k = bt_get n k"
  shows "m = n"
proof -
  have "set (bt_entries m) = set (bt_entries n)"
    using assms by (auto simp flip: bt_get_eq_Some)
  then have "bt_entries m = bt_entries n"
    by (intro sorted_assoc_unique) simp_all
  then show ?thesis by (simp add: bt_entries_inject)
qed

lemma btree_eq_iff: "m = n \<longleftrightarrow> (\<forall>k. bt_get m k = bt_get n k)"
  using btree_eqI by blast

subsection \<open>Keys and entries\<close>

lemma bt_keys_sorted [simp]: "sorted_wrt (<) (bt_keys m)"
  by (simp add: bt_keys_def)

lemma bt_keys_distinct [simp]: "distinct (bt_keys m)"
  by (simp add: bt_keys_def)

lemma set_bt_keys: "k \<in> set (bt_keys m) \<longleftrightarrow> bt_get m k \<noteq> None"
  by (force simp: bt_keys_def bt_get_eq_Some)

lemma bt_contains_iff [simp]: "bt_contains m k \<longleftrightarrow> bt_get m k \<noteq> None"
  by (simp add: bt_contains_def)

lemma bt_entries_iff: "(k, v) \<in> set (bt_entries m) \<longleftrightarrow> bt_get m k = Some v"
  by (simp add: bt_get_eq_Some)

lemma bt_entries_ball:
  "(\<forall>e\<in>set (bt_entries m). P e) \<longleftrightarrow> (\<forall>k v. bt_get m k = Some v \<longrightarrow> P (k, v))"
  by (auto simp: bt_get_eq_Some)

lemma bt_entries_bex:
  "(\<exists>e\<in>set (bt_entries m). P e) \<longleftrightarrow> (\<exists>k v. bt_get m k = Some v \<and> P (k, v))"
  by (force simp: bt_get_eq_Some)

lemma bt_contains_fun: "bt_contains m = (\<lambda>k. bt_get m k \<noteq> None)"
  by (simp add: fun_eq_iff)

lemma bt_values_ball:
  "(\<forall>v\<in>set (bt_values m). P v) \<longleftrightarrow> (\<forall>k v. bt_get m k = Some v \<longrightarrow> P v)"
  by (auto simp: bt_values_def bt_get_eq_Some)

lemma in_bt_values: "v \<in> set (bt_values m) \<longleftrightarrow> (\<exists>k. bt_get m k = Some v)"
  by (force simp: bt_values_def bt_get_eq_Some)

lemma bt_values_bex:
  "(\<exists>v\<in>set (bt_values m). P v) \<longleftrightarrow> (\<exists>k v. bt_get m k = Some v \<and> P v)"
  using in_bt_values [of _ m] by blast

lemma bt_keys_insert_set: "set (bt_keys (bt_insert k v m)) = insert k (set (bt_keys m))"
  by (auto simp: set_bt_keys split: if_splits)

lemma bt_get_foldl_insert:
  "distinct (map fst xs) \<Longrightarrow>
   bt_get (foldl (\<lambda>m (k, v). bt_insert k v m) m xs) a =
     (case map_of xs a of None \<Rightarrow> bt_get m a | Some v \<Rightarrow> Some v)"
proof (induction xs arbitrary: m)
  case (Cons e xs)
  obtain k v where e: "e = (k, v)" by force
  from Cons.prems e have "map_of xs k = None" by (simp add: map_of_eq_None_iff)
  with Cons e show ?case by (simp split: option.split)
qed simp

lemma bt_get_of_list:
  "distinct (map fst xs) \<Longrightarrow> bt_get (bt_of_list xs) = map_of xs"
  by (auto simp: bt_of_list_def bt_get_foldl_insert fun_eq_iff split: option.splits)

lemma bt_of_entries [simp]: "bt_of_list (bt_entries m) = m"
  by (rule btree_eqI) (simp add: bt_get_of_list, simp add: bt_get_def)

subsection \<open>Grouping\<close>

lemma bt_get_push:
  "bt_get (bt_push k x m) a =
     (if a = k then Some (case bt_get m k of None \<Rightarrow> [x] | Some xs \<Rightarrow> xs @ [x])
      else bt_get m a)"
  by (simp add: bt_push_def)

lemma bt_get_group_from:
  "bt_get (foldl (\<lambda>m x. bt_push (key x) (val x) m) m xs) k =
     (case filter (\<lambda>x. key x = k) xs of [] \<Rightarrow> bt_get m k
      | ys \<Rightarrow> Some ((case bt_get m k of None \<Rightarrow> [] | Some zs \<Rightarrow> zs) @ map val ys))"
  by (induction xs arbitrary: m) (auto simp: bt_get_push split: option.splits list.splits)

lemma bt_get_group:
  "bt_get (bt_group key val xs) k =
     (case filter (\<lambda>x. key x = k) xs of [] \<Rightarrow> None | ys \<Rightarrow> Some (map val ys))"
  by (auto simp: bt_group_def bt_get_group_from split: list.splits)

lemma bt_get_group_Some:
  "bt_get (bt_group key val xs) k = Some ys \<longleftrightarrow>
     ys \<noteq> [] \<and> ys = map val (filter (\<lambda>x. key x = k) xs)"
  by (auto simp: bt_get_group split: list.splits)

lemma filter_key_unique:
  assumes "distinct xs"
  shows "(\<forall>k. length (filter (\<lambda>x. f x = k) xs) \<le> 1) \<longleftrightarrow> inj_on f (set xs)"
proof
  assume le: "\<forall>k. length (filter (\<lambda>x. f x = k) xs) \<le> 1"
  show "inj_on f (set xs)"
  proof (rule inj_onI, rule ccontr)
    fix x y
    assume xy: "x \<in> set xs" "y \<in> set xs" "f x = f y" "x \<noteq> y"
    then have "{x, y} \<subseteq> set (filter (\<lambda>z. f z = f x) xs)" by auto
    then have "card {x, y} \<le> card (set (filter (\<lambda>z. f z = f x) xs))"
      by (intro card_mono) auto
    also have "\<dots> \<le> length (filter (\<lambda>z. f z = f x) xs)" by (rule card_length)
    finally show False using le xy by (metis One_nat_def card_2_iff not_less_eq_eq numeral_2_eq_2 order.trans)
  qed
next
  assume inj: "inj_on f (set xs)"
  show "\<forall>k. length (filter (\<lambda>x. f x = k) xs) \<le> 1"
  proof
    fix k
    let ?ys = "filter (\<lambda>x. f x = k) xs"
    have "length ?ys = card (set ?ys)"
      using assms by (metis distinct_card distinct_filter)
    also have "\<dots> \<le> 1"
      using inj by (simp add: card_le_Suc0_iff_eq inj_on_def)
    finally show "length ?ys \<le> 1" .
  qed
qed

text \<open>Equality of two maps, computed from the order of the keys.\<close>

instantiation btree :: (linorder, equal) equal
begin

definition equal_btree :: "('a, 'b) btree \<Rightarrow> ('a, 'b) btree \<Rightarrow> bool" where
  "equal_btree m n \<longleftrightarrow>
     list_all2 (\<lambda>(a, v) (b, w). a \<le> b \<and> b \<le> a \<and> v = w) (bt_entries m) (bt_entries n)"

instance
proof
  fix m n :: "('a, 'b) btree"
  have "list_all2 (\<lambda>(a, v) (b, w). a \<le> b \<and> b \<le> a \<and> v = w) xs ys \<longleftrightarrow> xs = ys"
    for xs ys :: "('a \<times> 'b) list"
    by (induction xs arbitrary: ys) (auto simp: list_all2_Cons1 intro: antisym)
  then show "equal_class.equal m n \<longleftrightarrow> m = n"
    by (simp add: equal_btree_def bt_entries_inject)
qed

end

end
