(* ===== verification/RustStr.thy ===== *)
theory RustStr
  imports Prelude
begin

text \<open>
  The part of \<open>str\<close> and \<open>char\<close> of the Rust standard library that the crates use: the
  scalar values a UTF-8 string encodes, trimming, the ASCII classes, splitting, and
  decimal rendering.  A scalar value is a \<^typ>\<open>nat\<close>; a string is its UTF-8 bytes.
\<close>

section \<open>UTF-8\<close>

definition byte :: "char \<Rightarrow> nat" where
  "byte c = of_char c"

definition is_scalar :: "nat \<Rightarrow> bool" where
  "is_scalar c \<longleftrightarrow> c < 55296 \<or> (57344 \<le> c \<and> c < 1114112)"

definition utf8_scalar :: "nat \<Rightarrow> string" where
  "utf8_scalar c =
     (if c < 128 then [char_of c]
      else if c < 2048 then [char_of (192 + c div 64), char_of (128 + c mod 64)]
      else if c < 65536 then
        [char_of (224 + c div 4096), char_of (128 + c div 64 mod 64), char_of (128 + c mod 64)]
      else
        [char_of (240 + c div 262144), char_of (128 + c div 4096 mod 64),
         char_of (128 + c div 64 mod 64), char_of (128 + c mod 64)])"

definition utf8 :: "nat list \<Rightarrow> string" where
  "utf8 cs = concat (map utf8_scalar cs)"

text \<open>\<open>str::chars\<close>; the bytes of a valid string never reach the empty branches.\<close>

fun chars :: "string \<Rightarrow> nat list" where
  "chars [] = []"
| "chars (a # s) =
     (if byte a < 128 then byte a # chars s
      else if byte a < 224 then
        (case s of b # t \<Rightarrow> ((byte a - 192) * 64 + (byte b - 128)) # chars t | _ \<Rightarrow> [])
      else if byte a < 240 then
        (case s of b # c # t \<Rightarrow>
           ((byte a - 224) * 4096 + (byte b - 128) * 64 + (byte c - 128)) # chars t
         | _ \<Rightarrow> [])
      else
        (case s of b # c # d # t \<Rightarrow>
           ((byte a - 240) * 262144 + (byte b - 128) * 4096 + (byte c - 128) * 64
             + (byte d - 128)) # chars t
         | _ \<Rightarrow> []))"

definition valid_utf8 :: "string \<Rightarrow> bool" where
  "valid_utf8 s \<longleftrightarrow> list_all is_scalar (chars s) \<and> utf8 (chars s) = s"

lemma byte_char_of [simp]: "byte (char_of n) = n mod 256"
  by (simp add: byte_def)

lemma byte_less [simp]: "byte c < 256"
  by (simp add: byte_def)

lemma char_of_byte [simp]: "char_of (byte c) = c"
  by (simp add: byte_def)

lemma split_64: "c div 4096 * 4096 + c div 64 mod 64 * 64 + c mod 64 = (c::nat)"
proof -
  have a: "c div 4096 = c div 64 div 64" by (simp add: div_mult2_eq [symmetric])
  have "c div 64 div 64 * 64 + c div 64 mod 64 = c div 64" by (rule div_mult_mod_eq)
  moreover have "c div 64 * 64 + c mod 64 = c" by (rule div_mult_mod_eq)
  ultimately show ?thesis unfolding a by linarith
qed

lemma split_64':
  "c div 262144 * 262144 + c div 4096 mod 64 * 4096 + c div 64 mod 64 * 64 + c mod 64 = (c::nat)"
proof -
  have a: "c div 262144 = c div 4096 div 64" by (simp add: div_mult2_eq [symmetric])
  have "c div 4096 div 64 * 64 + c div 4096 mod 64 = c div 4096" by (rule div_mult_mod_eq)
  with split_64 [of c] show ?thesis unfolding a by linarith
qed

lemma chars_1: "byte a < 128 \<Longrightarrow> chars (a # s) = byte a # chars s"
  by simp

lemma chars_2:
  "128 \<le> byte a \<Longrightarrow> byte a < 224 \<Longrightarrow>
   chars (a # b # s) = ((byte a - 192) * 64 + (byte b - 128)) # chars s"
  by simp

lemma chars_3:
  "224 \<le> byte a \<Longrightarrow> byte a < 240 \<Longrightarrow>
   chars (a # b # c # s) =
     ((byte a - 224) * 4096 + (byte b - 128) * 64 + (byte c - 128)) # chars s"
  by simp

lemma chars_4:
  "240 \<le> byte a \<Longrightarrow>
   chars (a # b # c # d # s) =
     ((byte a - 240) * 262144 + (byte b - 128) * 4096 + (byte c - 128) * 64 + (byte d - 128))
       # chars s"
  by simp

declare chars.simps(2) [simp del]

lemma byte_plus: "k + n < 256 \<Longrightarrow> byte (char_of (k + n)) = k + n"
  by simp

lemma chars_utf8_scalar:
  assumes "is_scalar c"
  shows "chars (utf8_scalar c @ s) = c # chars s"
proof -
  have lt: "c < 1114112" using assms by (auto simp: is_scalar_def)
  have m: "c mod 64 < 64" "c div 64 mod 64 < 64" "c div 4096 mod 64 < 64" by simp_all
  have b: "byte (char_of (128 + c mod 64)) = 128 + c mod 64"
    "byte (char_of (128 + c div 64 mod 64)) = 128 + c div 64 mod 64"
    "byte (char_of (128 + c div 4096 mod 64)) = 128 + c div 4096 mod 64"
    using m by (intro byte_plus; linarith)+
  consider "c < 128" | "128 \<le> c" "c < 2048" | "2048 \<le> c" "c < 65536" | "65536 \<le> c"
    by linarith
  then show ?thesis
  proof cases
    case 1
    then show ?thesis by (simp add: utf8_scalar_def chars_1)
  next
    case 2
    then have d: "c div 64 < 32" by (simp add: less_mult_imp_div_less)
    then have a: "byte (char_of (192 + c div 64)) = 192 + c div 64" by (intro byte_plus) linarith
    have u: "utf8_scalar c = [char_of (192 + c div 64), char_of (128 + c mod 64)]"
      using 2 by (simp add: utf8_scalar_def)
    show ?thesis
      unfolding u append_Cons append_Nil using d by (subst chars_2) (simp_all only: a b, auto)
  next
    case 3
    then have d: "c div 4096 < 16" by (simp add: less_mult_imp_div_less)
    then have a: "byte (char_of (224 + c div 4096)) = 224 + c div 4096" by (intro byte_plus) linarith
    have u: "utf8_scalar c =
        [char_of (224 + c div 4096), char_of (128 + c div 64 mod 64), char_of (128 + c mod 64)]"
      using 3 by (simp add: utf8_scalar_def)
    show ?thesis
      unfolding u append_Cons append_Nil using d split_64 [of c]
      by (subst chars_3) (simp_all only: a b, auto)
  next
    case 4
    then have d: "c div 262144 < 5" using lt by (simp add: less_mult_imp_div_less)
    then have a: "byte (char_of (240 + c div 262144)) = 240 + c div 262144"
      by (intro byte_plus) linarith
    have u: "utf8_scalar c = [char_of (240 + c div 262144), char_of (128 + c div 4096 mod 64),
        char_of (128 + c div 64 mod 64), char_of (128 + c mod 64)]"
      using 4 by (simp add: utf8_scalar_def)
    show ?thesis
      unfolding u append_Cons append_Nil using d split_64' [of c]
      by (subst chars_4) (simp_all only: a b, auto)
  qed
qed

lemma chars_utf8: "list_all is_scalar cs \<Longrightarrow> chars (utf8 cs) = cs"
proof (induction cs)
  case (Cons c cs)
  then have "chars (utf8_scalar c @ utf8 cs) = c # chars (utf8 cs)"
    by (intro chars_utf8_scalar) simp
  with Cons show ?case by (simp add: utf8_def)
qed (simp add: utf8_def)

lemma valid_utf8_utf8: "list_all is_scalar cs \<Longrightarrow> valid_utf8 (utf8 cs)"
  by (simp add: valid_utf8_def chars_utf8)

lemma utf8_chars: "valid_utf8 s \<Longrightarrow> utf8 (chars s) = s"
  by (simp add: valid_utf8_def)

lemma utf8_scalar_nonempty [simp]: "utf8_scalar c \<noteq> []"
  by (simp add: utf8_scalar_def)

lemma utf8_Nil_iff [simp]: "utf8 cs = [] \<longleftrightarrow> cs = []"
  by (cases cs) (simp_all add: utf8_def)

lemma utf8_inject:
  "list_all is_scalar cs \<Longrightarrow> list_all is_scalar ds \<Longrightarrow> utf8 cs = utf8 ds \<longleftrightarrow> cs = ds"
  by (metis chars_utf8)

lemma chars_ascii: "list_all (\<lambda>c. byte c < 128) s \<Longrightarrow> chars s = map byte s"
  by (induction s) (simp_all add: chars_1)

lemma valid_utf8_ascii: "list_all (\<lambda>c. byte c < 128) s \<Longrightarrow> valid_utf8 s"
proof -
  assume ascii: "list_all (\<lambda>c. byte c < 128) s"
  have "utf8 (map byte s) = s" using ascii
    by (induction s) (simp_all add: utf8_def utf8_scalar_def)
  moreover have "list_all is_scalar (map byte s)" using ascii
    by (induction s) (simp_all add: is_scalar_def)
  ultimately show ?thesis using ascii by (simp add: valid_utf8_def chars_ascii)
qed

section \<open>Trimming and character classes\<close>

definition trim_scalars :: "(nat \<Rightarrow> bool) \<Rightarrow> nat list \<Rightarrow> nat list" where
  "trim_scalars p cs = rev (dropWhile p (rev (dropWhile p cs)))"

definition trim_matches :: "(nat \<Rightarrow> bool) \<Rightarrow> string \<Rightarrow> string" where
  "trim_matches p s = utf8 (trim_scalars p (chars s))"

definition is_ascii_digit :: "char \<Rightarrow> bool" where
  "is_ascii_digit c \<longleftrightarrow> 48 \<le> byte c \<and> byte c \<le> 57"

definition is_ascii_lowercase :: "char \<Rightarrow> bool" where
  "is_ascii_lowercase c \<longleftrightarrow> 97 \<le> byte c \<and> byte c \<le> 122"

definition is_ascii_uppercase :: "char \<Rightarrow> bool" where
  "is_ascii_uppercase c \<longleftrightarrow> 65 \<le> byte c \<and> byte c \<le> 90"

definition is_ascii_alphanumeric :: "char \<Rightarrow> bool" where
  "is_ascii_alphanumeric c \<longleftrightarrow> is_ascii_digit c \<or> is_ascii_lowercase c \<or> is_ascii_uppercase c"

definition to_ascii_lowercase :: "char \<Rightarrow> char" where
  "to_ascii_lowercase c = (if is_ascii_uppercase c then char_of (byte c + 32) else c)"

definition eq_ignore_ascii_case :: "string \<Rightarrow> string \<Rightarrow> bool" where
  "eq_ignore_ascii_case s t \<longleftrightarrow> map to_ascii_lowercase s = map to_ascii_lowercase t"

text \<open>The Unicode \<open>White_Space\<close> property, which \<open>str::trim\<close> strips.\<close>

definition is_white_space :: "nat \<Rightarrow> bool" where
  "is_white_space c \<longleftrightarrow>
     (9 \<le> c \<and> c \<le> 13) \<or> c = 32 \<or> c = 133 \<or> c = 160 \<or> c = 5760 \<or>
     (8192 \<le> c \<and> c \<le> 8202) \<or> c = 8232 \<or> c = 8233 \<or> c = 8239 \<or> c = 8287 \<or> c = 12288"

definition str_trim :: "string \<Rightarrow> string" where
  "str_trim s = trim_matches is_white_space s"

lemma trim_scalars_empty_iff: "trim_scalars p cs = [] \<longleftrightarrow> (\<forall>c\<in>set cs. p c)"
proof
  assume "trim_scalars p cs = []"
  then have "\<forall>c\<in>set (rev (dropWhile p cs)). p c"
    by (simp add: trim_scalars_def del: set_rev)
  then have "\<forall>c\<in>set (dropWhile p cs). p c" by simp
  moreover have "dropWhile p cs \<noteq> [] \<Longrightarrow> \<not> p (hd (dropWhile p cs))"
    by (rule hd_dropWhile)
  ultimately have "dropWhile p cs = []"
    by (metis list.set_sel(1))
  then show "\<forall>c\<in>set cs. p c" by simp
next
  assume "\<forall>c\<in>set cs. p c"
  then show "trim_scalars p cs = []"
    by (auto simp: trim_scalars_def dest: set_dropWhileD)
qed

lemma set_trim_scalars: "set (trim_scalars p cs) \<subseteq> set cs"
  by (auto simp: trim_scalars_def dest!: set_dropWhileD)

lemma trim_scalars_id_iff:
  "trim_scalars p cs = cs \<longleftrightarrow> cs = [] \<or> (\<not> p (hd cs) \<and> \<not> p (last cs))"
proof (cases cs)
  case (Cons c ds)
  show ?thesis
  proof (cases "p c")
    case True
    then have "length (trim_scalars p cs) \<le> length ds"
      using Cons by (simp add: trim_scalars_def)
        (metis length_dropWhile_le length_rev order.trans)
    then have "trim_scalars p cs \<noteq> cs" using Cons by auto
    with True Cons show ?thesis by simp
  next
    case False
    then have t: "trim_scalars p cs = rev (dropWhile p (rev cs))"
      using Cons by (simp add: trim_scalars_def)
    have "dropWhile p (rev cs) = rev cs \<longleftrightarrow> \<not> p (last cs)"
      using Cons by (metis dropWhile_eq_self_iff hd_rev list.discI rev_is_Nil_conv)
    then show ?thesis using False Cons t by (metis list.sel(1) list.discI rev_swap)
  qed
qed (simp add: trim_scalars_def)

lemma chars_trim_matches:
  "valid_utf8 s \<Longrightarrow> chars (trim_matches p s) = trim_scalars p (chars s)"
proof -
  assume "valid_utf8 s"
  then have "list_all is_scalar (trim_scalars p (chars s))"
    using set_trim_scalars [of p "chars s"] by (auto simp: valid_utf8_def list_all_iff)
  then show ?thesis by (simp add: trim_matches_def chars_utf8)
qed

lemma trim_matches_id_iff:
  "valid_utf8 s \<Longrightarrow> trim_matches p s = s \<longleftrightarrow> trim_scalars p (chars s) = chars s"
  by (metis chars_trim_matches trim_matches_def utf8_chars)

section \<open>Decimal rendering\<close>

fun show_nat :: "nat \<Rightarrow> string" where
  "show_nat n = (if n < 10 then [char_of (48 + n)] else show_nat (n div 10) @ [char_of (48 + n mod 10)])"

declare show_nat.simps [simp del]

text \<open>\<open>{:0w}\<close>: at least \<open>w\<close> digits, padded with zeros.\<close>

definition show_padded :: "nat \<Rightarrow> nat \<Rightarrow> string" where
  "show_padded w n = replicate (w - length (show_nat n)) (CHR ''0'') @ show_nat n"

text \<open>The value of a run of ASCII digits.\<close>

definition digits_value :: "string \<Rightarrow> nat" where
  "digits_value s = foldl (\<lambda>v c. v * 10 + (byte c - 48)) 0 s"

lemma byte_zero [simp]: "byte (CHR ''0'') = 48"
  by (simp add: byte_def)

lemma digits_value_snoc: "digits_value (s @ [c]) = digits_value s * 10 + (byte c - 48)"
  by (simp add: digits_value_def)

lemma is_ascii_digit_char_of [simp]: "(n::nat) < 10 \<Longrightarrow> is_ascii_digit (char_of (48 + n))"
  by (simp add: is_ascii_digit_def)

lemma is_ascii_digit_zero [simp]: "is_ascii_digit (CHR ''0'')"
  by (simp add: is_ascii_digit_def)

lemma is_ascii_digitD:
  "is_ascii_digit c \<Longrightarrow> 48 \<le> byte c" "is_ascii_digit c \<Longrightarrow> byte c \<le> 57"
  "is_ascii_digit c \<Longrightarrow> byte c - 48 < 10"
  by (auto simp: is_ascii_digit_def)

lemma show_nat_digits: "list_all is_ascii_digit (show_nat n)"
proof (induction n rule: show_nat.induct)
  case (1 n)
  show ?case
    using 1 by (subst show_nat.simps) simp
qed

lemma digits_value_show_nat: "digits_value (show_nat n) = n"
proof (induction n rule: show_nat.induct)
  case (1 n)
  show ?case
  proof (cases "n < 10")
    case True
    then show ?thesis by (subst show_nat.simps) (simp add: digits_value_def)
  next
    case False
    then have "show_nat n = show_nat (n div 10) @ [char_of (48 + n mod 10)]"
      by (subst show_nat.simps) simp
    then show ?thesis using 1 [OF False] by (simp add: digits_value_snoc)
  qed
qed

lemma digits_value_zeros: "digits_value (replicate k (CHR ''0'') @ s) = digits_value s"
  by (induction k) (simp_all add: digits_value_def)

lemma digits_value_padded: "digits_value (show_padded w n) = n"
  by (simp add: show_padded_def digits_value_zeros digits_value_show_nat)

lemma show_padded_digits: "list_all is_ascii_digit (show_padded w n)"
  using show_nat_digits [of n] by (auto simp: show_padded_def list.pred_set)

lemma length_show_nat: "n < 10 ^ k \<Longrightarrow> 0 < k \<Longrightarrow> length (show_nat n) \<le> k"
proof (induction n arbitrary: k rule: show_nat.induct)
  case (1 n)
  show ?case
  proof (cases "n < 10")
    case True
    with 1 show ?thesis by (subst show_nat.simps) simp
  next
    case False
    from 1(3) obtain j where k: "k = Suc j" by (cases k) auto
    have "j \<noteq> 0" using 1(2) False k by (auto intro: ccontr)
    with k have k: "k = Suc j" "0 < j" by simp_all
    from 1(2) k have "n div 10 < 10 ^ j" by (simp add: less_mult_imp_div_less mult.commute)
    then have "length (show_nat (n div 10)) \<le> j" using 1(1) [OF False] k by simp
    with False k show ?thesis by (subst show_nat.simps) simp
  qed
qed

lemma length_show_padded: "n < 10 ^ w \<Longrightarrow> 0 < w \<Longrightarrow> length (show_padded w n) = w"
  using length_show_nat [of n w] by (simp add: show_padded_def)

text \<open>A run of \<open>w\<close> digits is the padded rendering of its value.\<close>

lemma digits_value_less:
  "list_all is_ascii_digit s \<Longrightarrow> digits_value s < 10 ^ length s"
proof (induction s rule: rev_induct)
  case (snoc c s)
  then have "digits_value s < 10 ^ length s" "byte c - 48 < 10"
    using is_ascii_digitD(3) [of c] by simp_all
  then show ?case by (simp add: digits_value_snoc)
qed (simp add: digits_value_def)

lemma digits_unique:
  "list_all is_ascii_digit s \<Longrightarrow> list_all is_ascii_digit t \<Longrightarrow> length s = length t \<Longrightarrow>
   digits_value s = digits_value t \<Longrightarrow> s = t"
proof (induction s arbitrary: t rule: rev_induct)
  case (snoc c s)
  then obtain u d where t: "t = u @ [d]"
    by (metis append_butlast_last_id length_append_singleton list.size(3) nat.distinct(1))
  from snoc.prems t have c: "48 \<le> byte c" "byte c - 48 < 10" and d: "48 \<le> byte d" "byte d - 48 < 10"
    using is_ascii_digitD [of c] is_ascii_digitD [of d] by simp_all
  from snoc.prems t have eq: "digits_value s * 10 + (byte c - 48) = digits_value u * 10 + (byte d - 48)"
    by (simp add: digits_value_snoc)
  with c d have "digits_value s = digits_value u" "byte c = byte d" by presburger+
  moreover have "c = d" using \<open>byte c = byte d\<close> by (metis char_of_byte)
  ultimately show ?case using snoc t by simp
qed simp

lemma show_padded_value:
  assumes "list_all is_ascii_digit s" "s \<noteq> []"
  shows "show_padded (length s) (digits_value s) = s"
proof (rule digits_unique)
  show "length (show_padded (length s) (digits_value s)) = length s"
    using assms digits_value_less by (intro length_show_padded) auto
qed (use assms show_padded_digits digits_value_padded in auto)

end
