(* ===== verification/Binary64.thy ===== *)
theory Binary64
  imports RustStr
begin

text \<open>
  The \<open>f64\<close> of the Rust standard library: the bit pattern, the IEEE and the total order,
  the correctly rounded conversion from a decimal, \<open>str::parse::<f64>\<close> and \<open>Display\<close>.  A
  magnitude is the pattern without its sign bit; magnitudes are ordered as the values
  they denote, and their values are whole multiples of the least subnormal, 2 to the
  minus 1074.
\<close>

datatype f64 = F64 (f64_bits: "64 word")

datatype ordering = Ord_Less | Ord_Equal | Ord_Greater

definition cmp_of :: "'a::linorder \<Rightarrow> 'a \<Rightarrow> ordering" where
  "cmp_of a b = (if a < b then Ord_Less else if a = b then Ord_Equal else Ord_Greater)"

section \<open>Sign and magnitude\<close>

definition f64_sign :: "f64 \<Rightarrow> bool" where
  "f64_sign x \<longleftrightarrow> 2 ^ 63 \<le> unat (f64_bits x)"

definition f64_mag :: "f64 \<Rightarrow> nat" where
  "f64_mag x = unat (f64_bits x) mod 2 ^ 63"

definition f64_make :: "bool \<Rightarrow> nat \<Rightarrow> f64" where
  "f64_make neg m = F64 (of_nat ((if neg then 2 ^ 63 else 0) + m))"

text \<open>The magnitude of infinity: all exponent bits set, no fraction bit.\<close>

definition inf_mag :: nat where
  "inf_mag = 2047 * 2 ^ 52"

definition f64_is_finite :: "f64 \<Rightarrow> bool" where
  "f64_is_finite x \<longleftrightarrow> f64_mag x < inf_mag"

definition f64_is_nan :: "f64 \<Rightarrow> bool" where
  "f64_is_nan x \<longleftrightarrow> inf_mag < f64_mag x"

definition f64_is_zero :: "f64 \<Rightarrow> bool" where
  "f64_is_zero x \<longleftrightarrow> f64_mag x = 0"

abbreviation f64_zero :: f64 where
  "f64_zero \<equiv> F64 0"

lemma f64_mag_less: "f64_mag x < 2 ^ 63"
  by (simp add: f64_mag_def)

lemma f64_bits_split: "unat (f64_bits x) = (if f64_sign x then 2 ^ 63 else 0) + f64_mag x"
proof -
  have b: "unat (f64_bits x) < 2 ^ 64" using unsigned_less [of "f64_bits x"] by simp
  show ?thesis
  proof (cases "f64_sign x")
    case True
    then have ge: "2 ^ 63 \<le> unat (f64_bits x)" by (simp add: f64_sign_def)
    then have "unat (f64_bits x) mod 2 ^ 63 = unat (f64_bits x) - 2 ^ 63"
      using b by (subst le_mod_geq) simp_all
    then show ?thesis using True ge by (simp add: f64_mag_def)
  next
    case False
    then show ?thesis by (simp add: f64_sign_def f64_mag_def)
  qed
qed

lemma f64_eqI: "f64_sign x = f64_sign y \<Longrightarrow> f64_mag x = f64_mag y \<Longrightarrow> x = y"
  by (metis f64.expand f64_bits_split word_unat_eq_iff)

lemma f64_make_parts:
  assumes "m < 2 ^ 63"
  shows "f64_sign (f64_make neg m) = neg" "f64_mag (f64_make neg m) = m"
proof -
  let ?n = "(if neg then 2 ^ 63 else 0) + m"
  have lt: "?n < 2 ^ 64" using assms by simp
  have "unat (of_nat ?n :: 64 word) = ?n"
    unfolding unsigned_of_nat take_bit_eq_mod using lt by (simp only: len_bit0 len_num1) simp
  then show "f64_sign (f64_make neg m) = neg" "f64_mag (f64_make neg m) = m"
    using assms by (simp_all add: f64_sign_def f64_mag_def f64_make_def)
qed

lemma f64_zero_parts [simp]: "f64_sign f64_zero = False" "f64_mag f64_zero = 0"
  by (simp_all add: f64_sign_def f64_mag_def)

section \<open>Comparison\<close>

text \<open>\<open>f64::total_cmp\<close>: negative patterns in reverse below the positive ones.\<close>

definition f64_total_key :: "f64 \<Rightarrow> int" where
  "f64_total_key x = (if f64_sign x then - 1 - int (f64_mag x) else int (f64_mag x))"

text \<open>IEEE comparison: the two zeros are equal and a NaN compares with nothing.\<close>

definition f64_value_key :: "f64 \<Rightarrow> int" where
  "f64_value_key x = (if f64_sign x then - int (f64_mag x) else int (f64_mag x))"

definition f64_partial_cmp :: "f64 \<Rightarrow> f64 \<Rightarrow> ordering option" where
  "f64_partial_cmp x y =
     (if f64_is_nan x \<or> f64_is_nan y then None
      else Some (cmp_of (f64_value_key x) (f64_value_key y)))"

definition f64_eq :: "f64 \<Rightarrow> f64 \<Rightarrow> bool" where
  "f64_eq x y \<longleftrightarrow> f64_partial_cmp x y = Some Ord_Equal"

lemma f64_total_key_inject: "f64_total_key x = f64_total_key y \<longleftrightarrow> x = y"
proof
  assume "f64_total_key x = f64_total_key y"
  then have "f64_sign x = f64_sign y \<and> f64_mag x = f64_mag y"
    by (auto simp: f64_total_key_def split: if_splits)
  then show "x = y" by (blast intro: f64_eqI)
qed simp

lemma cmp_of_simps:
  "cmp_of a b = Ord_Less \<longleftrightarrow> a < b" "cmp_of a b = Ord_Equal \<longleftrightarrow> a = b"
  "cmp_of a b = Ord_Greater \<longleftrightarrow> b < a"
  by (auto simp: cmp_of_def)

lemma f64_eq_iff:
  "f64_eq x y \<longleftrightarrow> \<not> f64_is_nan x \<and> \<not> f64_is_nan y \<and> (x = y \<or> f64_mag x = 0 \<and> f64_mag y = 0)"
proof -
  have "f64_value_key x = f64_value_key y \<longleftrightarrow> x = y \<or> f64_mag x = 0 \<and> f64_mag y = 0"
    by (auto simp: f64_value_key_def intro: f64_eqI split: if_splits)
  then show ?thesis by (auto simp: f64_eq_def f64_partial_cmp_def cmp_of_simps)
qed

instantiation f64 :: linorder
begin

definition less_eq_f64 :: "f64 \<Rightarrow> f64 \<Rightarrow> bool" where
  "less_eq_f64 x y \<longleftrightarrow> f64_total_key x \<le> f64_total_key y"

definition less_f64 :: "f64 \<Rightarrow> f64 \<Rightarrow> bool" where
  "less_f64 x y \<longleftrightarrow> f64_total_key x < f64_total_key y"

instance
  by standard (auto simp: less_eq_f64_def less_f64_def f64_total_key_inject)

end

section \<open>Correct rounding\<close>

text \<open>The multiple of the least subnormal a finite magnitude denotes.\<close>

definition mag_units :: "nat \<Rightarrow> nat" where
  "mag_units m =
     (if m < 2 ^ 53 then m else (2 ^ 52 + m mod 2 ^ 52) * 2 ^ (m div 2 ^ 52 - 1))"

fun bit_length :: "nat \<Rightarrow> nat" where
  "bit_length n = (if n = 0 then 0 else Suc (bit_length (n div 2)))"

declare bit_length.simps [simp del]

definition round_half_even :: "nat \<Rightarrow> nat \<Rightarrow> nat" where
  "round_half_even num den =
     (let q = num div den; r = num mod den in
      if 2 * r < den then q else if den < 2 * r then q + 1 else if even q then q else q + 1)"

text \<open>The magnitude nearest \<open>num / den\<close> units, ties to even; beyond the greatest it is infinity.\<close>

definition round_units :: "nat \<Rightarrow> nat \<Rightarrow> nat" where
  "round_units num den =
     (let e = bit_length (num div den) - 53 in
      min inf_mag (e * 2 ^ 52 + round_half_even num (den * 2 ^ e)))"

text \<open>The magnitude nearest \<open>d\<close> times ten to the power \<open>e\<close>.\<close>

definition round_decimal :: "nat \<Rightarrow> int \<Rightarrow> nat" where
  "round_decimal d e =
     (if 0 \<le> e then round_units (d * 10 ^ nat e * 2 ^ 1074) 1
      else round_units (d * 2 ^ 1074) (10 ^ nat (- e)))"

lemma bit_length_base [simp]: "bit_length 0 = 0" "bit_length (Suc 0) = 1"
proof -
  show zero: "bit_length 0 = 0" by (subst bit_length.simps) simp
  show "bit_length (Suc 0) = 1" by (subst bit_length.simps) (simp add: zero)
qed

lemma bit_length_step: "1 < n \<Longrightarrow> bit_length n = Suc (bit_length (n div 2))"
  by (subst bit_length.simps) simp

lemma bit_length_bounds:
  "n \<noteq> 0 \<Longrightarrow> 2 ^ (bit_length n - 1) \<le> n" "n < 2 ^ bit_length n"
proof -
  have "(n \<noteq> 0 \<longrightarrow> 0 < bit_length n \<and> 2 ^ (bit_length n - 1) \<le> n) \<and> n < 2 ^ bit_length n"
  proof (induction n rule: bit_length.induct)
    case (1 n)
    show ?case
    proof (cases "n = 0 \<or> n = 1")
      case True
      then show ?thesis by auto
    next
      case False
      then have s: "bit_length n = Suc (bit_length (n div 2))" by (intro bit_length_step) linarith
      from False have "n div 2 \<noteq> 0" by auto
      with 1 False have lo: "0 < bit_length (n div 2)" "2 ^ (bit_length (n div 2) - 1) \<le> n div 2"
        and hi: "n div 2 < 2 ^ bit_length (n div 2)" by auto
      have "(2::nat) ^ bit_length (n div 2) = 2 * 2 ^ (bit_length (n div 2) - 1)"
        using lo(1) by (cases "bit_length (n div 2)") auto
      then have "2 ^ bit_length (n div 2) \<le> n" using lo(2) by linarith
      with s hi show ?thesis by auto
    qed
  qed
  then show "n \<noteq> 0 \<Longrightarrow> 2 ^ (bit_length n - 1) \<le> n" "n < 2 ^ bit_length n" by blast+
qed

lemma bit_length_unique: "2 ^ k \<le> n \<Longrightarrow> n < 2 ^ Suc k \<Longrightarrow> bit_length n = Suc k"
proof -
  assume lo: "2 ^ k \<le> n" and hi: "n < 2 ^ Suc k"
  have "0 < (2::nat) ^ k" by simp
  with lo have n: "n \<noteq> 0" by linarith
  have "(2::nat) ^ k < 2 ^ bit_length n" using lo bit_length_bounds(2) [of n] by linarith
  then have "k < bit_length n" by simp
  moreover have "(2::nat) ^ (bit_length n - 1) < 2 ^ Suc k"
    using hi bit_length_bounds(1) [OF n] by linarith
  then have "bit_length n - 1 < Suc k" by (simp del: power_Suc)
  ultimately show ?thesis by linarith
qed

lemma bit_length_le: "n < 2 ^ k \<Longrightarrow> bit_length n - k = 0"
proof (cases "n = 0")
  case False
  assume "n < 2 ^ k"
  with bit_length_bounds(1) [OF False] have "(2::nat) ^ (bit_length n - 1) < 2 ^ k" by linarith
  then have "bit_length n - 1 < k" by simp
  then show ?thesis by simp
qed simp

text \<open>Rounding an exact value gives its own magnitude back.\<close>

lemma round_units_exact:
  assumes "m < inf_mag" "0 < den"
  shows "round_units (mag_units m * den) den = m"
proof -
  have half: "round_half_even (a * b) b = a" if "0 < b" for a b :: nat
    using that by (simp add: round_half_even_def)
  show ?thesis
  proof (cases "m < 2 ^ 53")
    case True
    have e: "bit_length m - 53 = 0" by (rule bit_length_le [OF True])
    have u: "mag_units m = m" using True by (simp add: mag_units_def)
    have q: "m * den div den = m" using assms(2) by simp
    show ?thesis using assms half [of den m]
      unfolding round_units_def Let_def u q e by simp
  next
    case False
    define e where "e = m div 2 ^ 52 - 1"
    define f where "f = 2 ^ 52 + m mod 2 ^ 52"
    have e1: "1 \<le> e" using False unfolding e_def by (simp add: le_div_geq)
    have m: "m = e * 2 ^ 52 + f"
    proof -
      have "m div 2 ^ 52 = e + 1" using e1 unfolding e_def by linarith
      then show ?thesis unfolding f_def using div_mult_mod_eq [of m "2 ^ 52"]
        by (metis add.assoc add.commute add_mult_distrib mult_1)
    qed
    have "m mod 2 ^ 52 < 2 ^ 52" by simp
    then have f: "2 ^ 52 \<le> f" "f < 2 ^ 53" unfolding f_def by simp_all
    have u: "mag_units m = f * 2 ^ e" using False by (simp add: mag_units_def f_def e_def)
    have q: "f * 2 ^ e * den div den = f * 2 ^ e" using assms(2) by simp
    have lo: "2 ^ (52 + e) \<le> f * 2 ^ e" unfolding power_add by (rule mult_le_mono1 [OF f(1)])
    have "f * 2 ^ e < 2 ^ 53 * 2 ^ e" by (rule mult_less_mono1 [OF f(2)]) simp
    then have hi: "f * 2 ^ e < 2 ^ Suc (52 + e)" unfolding power_add [symmetric] by simp
    have b: "bit_length (f * 2 ^ e) - 53 = e" using bit_length_unique [OF lo hi] by simp
    have c: "f * 2 ^ e * den = f * (den * 2 ^ e)" by (simp only: ac_simps)
    have "round_half_even (f * 2 ^ e * den) (den * 2 ^ e) = f"
      unfolding c using assms(2) by (intro half) simp
    then show ?thesis using assms(1) m unfolding round_units_def Let_def u q b by simp
  qed
qed

section \<open>Parsing\<close>

text \<open>
  \<open>str::parse::<f64>\<close>: an optional sign, then \<open>inf\<close>, \<open>infinity\<close>, \<open>nan\<close> in any case, or
  digits with an optional fraction and exponent and at least one digit before the
  exponent.
\<close>

fun span_digits :: "string \<Rightarrow> string \<times> string" where
  "span_digits [] = ([], [])"
| "span_digits (c # s) =
     (if is_ascii_digit c then (c # fst (span_digits s), snd (span_digits s)) else ([], c # s))"

definition strip_sign :: "string \<Rightarrow> bool \<times> string" where
  "strip_sign s = (case s of [] \<Rightarrow> (False, [])
     | c # t \<Rightarrow> if c = CHR ''-'' then (True, t) else if c = CHR ''+'' then (False, t) else (False, s))"

definition parse_exponent :: "string \<Rightarrow> int option" where
  "parse_exponent s = (case s of [] \<Rightarrow> Some 0
     | c # t \<Rightarrow>
         if c \<noteq> CHR ''e'' \<and> c \<noteq> CHR ''E'' then None
         else (case strip_sign t of (neg, ds) \<Rightarrow>
           if ds = [] \<or> \<not> list_all is_ascii_digit ds then None
           else Some ((if neg then -1 else 1) * int (digits_value ds))))"

definition parse_decimal :: "string \<Rightarrow> nat option" where
  "parse_decimal s =
     (case span_digits s of (whole, rest) \<Rightarrow>
      case (case rest of c # t \<Rightarrow> if c = CHR ''.'' then span_digits t else ([], rest)
            | [] \<Rightarrow> ([], [])) of (frac, rest') \<Rightarrow>
        if whole = [] \<and> frac = [] then None
        else map_option (\<lambda>e. round_decimal (digits_value (whole @ frac)) (e - int (length frac)))
               (parse_exponent rest'))"

definition nan_mag :: nat where
  "nan_mag = inf_mag + 2 ^ 51"

definition parse_f64 :: "string \<Rightarrow> f64 option" where
  "parse_f64 s = (case strip_sign s of (neg, t) \<Rightarrow>
     if eq_ignore_ascii_case t ''inf'' \<or> eq_ignore_ascii_case t ''infinity''
     then Some (f64_make neg inf_mag)
     else if eq_ignore_ascii_case t ''nan'' then Some (f64_make neg nan_mag)
     else map_option (f64_make neg) (parse_decimal t))"

section \<open>Display\<close>

text \<open>
  \<open>Display for f64\<close> prints the shortest run of digits that parses back to the value, the
  nearest one of that length, in positional notation.  The value of a magnitude is
  \<open>mag_units m\<close> times 2 to the minus 1074; \<open>candidate\<close> looks for an integer \<open>d\<close> whose
  multiple of the power \<open>e\<close> of ten parses back.
\<close>

definition candidate :: "nat \<Rightarrow> int \<Rightarrow> nat option" where
  "candidate m e =
     (let u = mag_units m;
          num = (if 0 \<le> e then u else u * 10 ^ nat (- e));
          den = 2 ^ 1074 * (if 0 \<le> e then 10 ^ nat e else 1);
          lo = num div den; r = num mod den;
          lo_ok = round_decimal lo e = m; hi_ok = round_decimal (lo + 1) e = m in
      if lo_ok \<and> hi_ok then Some (if 2 * r < den then lo else lo + 1)
      else if lo_ok then Some lo else if hi_ok then Some (lo + 1) else None)"

text \<open>The exponents are tried from the coarsest, so the first success is the shortest.\<close>

fun shortest_from :: "nat \<Rightarrow> int \<Rightarrow> nat \<Rightarrow> (nat \<times> int) option" where
  "shortest_from m e 0 = None"
| "shortest_from m e (Suc fuel) =
     (case candidate m e of Some d \<Rightarrow> Some (d, e) | None \<Rightarrow> shortest_from m (e - 1) fuel)"

definition shortest_decimal :: "nat \<Rightarrow> nat \<times> int" where
  "shortest_decimal m = (if m = 0 then (0, 0)
     else case shortest_from m 308 1400 of Some r \<Rightarrow> r | None \<Rightarrow> (0, 0))"

definition show_positional :: "nat \<Rightarrow> int \<Rightarrow> string" where
  "show_positional d e =
     (if 0 \<le> e then show_nat d @ (if d = 0 then [] else replicate (nat e) (CHR ''0''))
      else let k = nat (- e); p = show_padded (k + 1) d; w = length p - k in
        take w p @ CHR ''.'' # drop w p)"

definition display_f64 :: "f64 \<Rightarrow> string" where
  "display_f64 x =
     (if f64_is_nan x then ''NaN''
      else (if f64_sign x then ''-'' else []) @
        (if f64_mag x = inf_mag then ''inf''
         else case shortest_decimal (f64_mag x) of (d, e) \<Rightarrow> show_positional d e))"

end
