(* ===== verification/Scalars.thy ===== *)
theory Scalars
  imports Binary64
begin

text \<open>
  The scalar values of \<open>semantic-core/src/model.rs\<close>: the finite number with one zero, and
  the civil date with its exact \<open>YYYY-MM-DD\<close> spelling.
\<close>

section \<open>Numbers\<close>

datatype number = Number (number_get: f64)

definition number_new :: "f64 \<Rightarrow> number option" where
  "number_new v =
     (if \<not> f64_is_finite v then None
      else Some (Number (if f64_is_zero v then f64_zero else v)))"

text \<open>What \<open>Number::new\<close> establishes: finite, and zero only with the positive sign.\<close>

definition number_ok :: "number \<Rightarrow> bool" where
  "number_ok n \<longleftrightarrow> f64_is_finite (number_get n) \<and>
     (f64_is_zero (number_get n) \<longrightarrow> number_get n = f64_zero)"

text \<open>\<open>total_cmp\<close>, the order of the \<open>Ord\<close> instance.\<close>

definition number_le :: "number \<Rightarrow> number \<Rightarrow> bool" where
  "number_le x y \<longleftrightarrow> number_get x \<le> number_get y"

instantiation number :: linorder
begin

definition less_eq_number :: "number \<Rightarrow> number \<Rightarrow> bool" where
  "less_eq_number x y \<longleftrightarrow> number_le x y"

definition less_number :: "number \<Rightarrow> number \<Rightarrow> bool" where
  "less_number x y \<longleftrightarrow> number_get x < number_get y"

instance
  by standard (auto simp: less_eq_number_def number_le_def less_number_def number.expand)

end

lemma number_new_ok: "number_new v = Some n \<Longrightarrow> number_ok n"
  by (auto simp: number_new_def number_ok_def f64_is_zero_def f64_is_finite_def inf_mag_def
      split: if_splits)

lemma number_new_get: "number_ok n \<Longrightarrow> number_new (number_get n) = Some n"
  by (cases n) (auto simp: number_new_def number_ok_def)

text \<open>On canonical numbers the bit order and equality are the IEEE ones.\<close>

lemma number_ok_not_nan: "number_ok n \<Longrightarrow> \<not> f64_is_nan (number_get n)"
  by (simp add: number_ok_def f64_is_finite_def f64_is_nan_def)

lemma number_ieee_eq:
  "number_ok m \<Longrightarrow> number_ok n \<Longrightarrow> f64_eq (number_get m) (number_get n) \<longleftrightarrow> m = n"
  by (auto simp: f64_eq_iff number_ok_not_nan number_ok_def f64_is_zero_def number.expand)

lemma number_ieee_less:
  assumes "number_ok m" "number_ok n"
  shows "f64_partial_cmp (number_get m) (number_get n) = Some (cmp_of m n)"
proof -
  have z: "f64_sign (number_get k) \<Longrightarrow> 0 < f64_mag (number_get k)" if "number_ok k" for k
    using that by (metis f64_zero_parts(1) f64_is_zero_def number_ok_def neq0_conv)
  have "f64_value_key (number_get m) < f64_value_key (number_get n) \<longleftrightarrow> m < n"
    using z [OF assms(1)] z [OF assms(2)]
    by (auto simp: less_number_def less_f64_def f64_value_key_def f64_total_key_def)
  moreover have "f64_value_key (number_get m) = f64_value_key (number_get n) \<longleftrightarrow> m = n"
    using number_ieee_eq [OF assms] assms
    by (simp add: f64_eq_def f64_partial_cmp_def number_ok_not_nan cmp_of_simps)
  ultimately show ?thesis
    using assms by (simp add: f64_partial_cmp_def number_ok_not_nan cmp_of_def)
qed

section \<open>Dates\<close>

datatype date = Date (date_year: "16 word") (date_month: "8 word") (date_day: "8 word")

definition is_leap_year :: "16 word \<Rightarrow> bool" where
  "is_leap_year y \<longleftrightarrow> y mod 4 = 0 \<and> (y mod 100 \<noteq> 0 \<or> y mod 400 = 0)"

definition days_in_month :: "16 word \<Rightarrow> 8 word \<Rightarrow> 8 word" where
  "days_in_month y m =
     (if m \<in> {1, 3, 5, 7, 8, 10, 12} then 31
      else if m \<in> {4, 6, 9, 11} then 30
      else if m = 2 \<and> is_leap_year y then 29
      else if m = 2 then 28
      else 0)"

definition date_new :: "16 word \<Rightarrow> 8 word \<Rightarrow> 8 word \<Rightarrow> date option" where
  "date_new y m d =
     (if \<not> (1 \<le> y \<and> y \<le> 9999) \<or> \<not> (1 \<le> m \<and> m \<le> 12) \<or> d = 0 \<or> days_in_month y m < d
      then None else Some (Date y m d))"

definition decimal_component :: "string \<Rightarrow> 16 word" where
  "decimal_component bs = foldl (\<lambda>v b. v * 10 + of_nat (byte b - 48)) 0 bs"

text \<open>\<open>u8::try_from\<close> of a \<open>u16\<close>.\<close>

definition u8_try_from :: "16 word \<Rightarrow> 8 word option" where
  "u8_try_from w = (if w < 256 then Some (ucast w) else None)"

definition date_parse :: "string \<Rightarrow> date option" where
  "date_parse s =
     (if length s \<noteq> 10 \<or> s ! 4 \<noteq> CHR ''-'' \<or> s ! 7 \<noteq> CHR ''-'' then None
      else if \<not> list_all (\<lambda>(i, b). i = 4 \<or> i = 7 \<or> is_ascii_digit b) (enumerate 0 s) then None
      else case u8_try_from (decimal_component (take 2 (drop 5 s))) of
        None \<Rightarrow> None
      | Some m \<Rightarrow>
          (case u8_try_from (decimal_component (take 2 (drop 8 s))) of
             None \<Rightarrow> None
           | Some d \<Rightarrow> date_new (decimal_component (take 4 s)) m d))"

definition date_to_canonical_string :: "date \<Rightarrow> string" where
  "date_to_canonical_string d =
     show_padded 4 (unat (date_year d)) @ ''-'' @ show_padded 2 (unat (date_month d)) @ ''-'' @
     show_padded 2 (unat (date_day d))"

text \<open>What \<open>Date::new\<close> establishes.\<close>

definition date_ok :: "date \<Rightarrow> bool" where
  "date_ok d \<longleftrightarrow> 1 \<le> date_year d \<and> date_year d \<le> 9999 \<and> 1 \<le> date_month d \<and>
     date_month d \<le> 12 \<and> 1 \<le> date_day d \<and> date_day d \<le> days_in_month (date_year d) (date_month d)"

definition date_key :: "date \<Rightarrow> 16 word \<times> 8 word \<times> 8 word" where
  "date_key d = (date_year d, date_month d, date_day d)"

lemma date_key_inject: "date_key d = date_key e \<longleftrightarrow> d = e"
  by (auto simp: date_key_def date.expand)

instantiation date :: linorder
begin

definition less_eq_date :: "date \<Rightarrow> date \<Rightarrow> bool" where
  "less_eq_date x y \<longleftrightarrow> date_key x \<le> date_key y"

definition less_date :: "date \<Rightarrow> date \<Rightarrow> bool" where
  "less_date x y \<longleftrightarrow> date_key x < date_key y"

instance
  by standard (auto simp: less_eq_date_def less_date_def less_le_not_le date_key_inject
      dest: antisym)

end

section \<open>The spelling of a date\<close>

lemma days_in_month_bound: "days_in_month y m \<le> 31"
  by (simp add: days_in_month_def)

lemma days_in_month_pos: "1 \<le> m \<Longrightarrow> m \<le> 12 \<Longrightarrow> 28 \<le> days_in_month y m"
proof -
  assume "1 \<le> m" "m \<le> 12"
  then have "unat m \<in> {1..12}" by (simp add: word_le_nat_alt)
  then have "unat m = 1 \<or> unat m = 2 \<or> unat m = 3 \<or> unat m = 4 \<or> unat m = 5 \<or> unat m = 6 \<or>
      unat m = 7 \<or> unat m = 8 \<or> unat m = 9 \<or> unat m = 10 \<or> unat m = 11 \<or> unat m = 12"
    by (simp, presburger)
  then have "m \<in> {1, 2, 3, 4, 5, 6, 7, 8, 9, 10, 11, 12}" by (auto simp: word_unat_eq_iff)
  then show ?thesis by (auto simp: days_in_month_def)
qed

lemma word_unat_inverse: "of_nat (unat w) = (w :: 'a::len word)"
  by simp

lemma word_ge_one: "(1 :: 'a::len word) \<le> w \<longleftrightarrow> w \<noteq> 0"
  by (metis linorder_not_less word_less_1)

lemma date_new_iff: "date_new y m d = Some e \<longleftrightarrow> e = Date y m d \<and> date_ok e"
  by (auto simp: date_new_def date_ok_def not_le not_less word_ge_one)

text \<open>On a run of at most four digits the \<open>u16\<close> fold does not wrap.\<close>

lemma decimal_component_value: "decimal_component s = of_nat (digits_value s)"
proof (induction s rule: rev_induct)
  case (snoc c s)
  then show ?case by (simp add: decimal_component_def digits_value_snoc)
qed (simp_all add: decimal_component_def digits_value_def)

lemma unat_decimal_component:
  assumes "list_all is_ascii_digit s" "length s \<le> 4"
  shows "unat (decimal_component s) = digits_value s"
proof -
  have "digits_value s < 10 ^ length s" using assms(1) by (rule digits_value_less)
  also have "\<dots> \<le> 10 ^ 4" using assms(2) by (rule power_increasing) simp
  finally have "digits_value s < 65536" by simp
  then show ?thesis by (simp add: decimal_component_value unsigned_of_nat take_bit_eq_mod)
qed

lemma u8_try_from_small: "unat w < 256 \<Longrightarrow> u8_try_from w = Some (of_nat (unat w))"
  by (auto simp: u8_try_from_def word_less_nat_alt)

lemma length_10_split:
  assumes "length s = 10"
  shows "s = take 4 s @ [s ! 4] @ take 2 (drop 5 s) @ [s ! 7] @ take 2 (drop 8 s)"
proof -
  have "\<exists>a b c d e f g h i j. s = [a, b, c, d, e, f, g, h, i, j]"
    using assms by (auto simp: length_Suc_conv numeral_eq_Suc)
  then show ?thesis by auto
qed

lemma date_parse_layout:
  assumes "list_all is_ascii_digit y" "length y = 4" "list_all is_ascii_digit m" "length m = 2"
    "list_all is_ascii_digit d" "length d = 2"
  shows "date_parse (y @ ''-'' @ m @ ''-'' @ d) =
    date_new (of_nat (digits_value y)) (of_nat (digits_value m)) (of_nat (digits_value d))"
proof -
  obtain y1 y2 y3 y4 where y: "y = [y1, y2, y3, y4]"
    using assms(2) by (auto simp: length_Suc_conv numeral_eq_Suc)
  obtain m1 m2 d1 d2 where md: "m = [m1, m2]" "d = [d1, d2]"
    using assms(4,6) by (auto simp: length_Suc_conv numeral_eq_Suc)
  have "digits_value m < 10 ^ 2" "digits_value d < 10 ^ 2"
    using digits_value_less [of m] digits_value_less [of d] assms by simp_all
  then have "u8_try_from (decimal_component m) = Some (of_nat (digits_value m))"
    "u8_try_from (decimal_component d) = Some (of_nat (digits_value d))"
    using assms u8_try_from_small [of "decimal_component m"] u8_try_from_small [of "decimal_component d"]
    by (simp_all add: unat_decimal_component)
  then show ?thesis
    using assms unfolding y md by (simp add: date_parse_def decimal_component_value)
qed

lemma date_ok_bounds:
  assumes "date_ok d"
  shows "unat (date_year d) < 10 ^ 4" "unat (date_month d) < 10 ^ 2" "unat (date_day d) < 10 ^ 2"
proof -
  have "date_day d \<le> 31"
    using assms unfolding date_ok_def by (blast intro: order.trans [OF _ days_in_month_bound])
  then show "unat (date_year d) < 10 ^ 4" "unat (date_month d) < 10 ^ 2" "unat (date_day d) < 10 ^ 2"
    using assms by (simp_all add: date_ok_def word_le_nat_alt)
qed

lemma date_parse_canonical: "date_ok d \<Longrightarrow> date_parse (date_to_canonical_string d) = Some d"
  unfolding date_to_canonical_string_def using date_ok_bounds [of d]
  by (subst date_parse_layout)
    (simp_all only: show_padded_digits length_show_padded digits_value_padded zero_less_numeral
      date_new_iff word_unat_inverse date.collapse simp_thms)

lemma date_parse_spelling:
  assumes "date_parse s = Some d"
  shows "date_ok d" "date_to_canonical_string d = s"
proof -
  let ?y = "take 4 s" and ?m = "take 2 (drop 5 s)" and ?d = "take 2 (drop 8 s)"
  have len: "length s = 10" and dash: "s ! 4 = CHR ''-''" "s ! 7 = CHR ''-''"
    and digits: "list_all (\<lambda>(i, b). i = 4 \<or> i = 7 \<or> is_ascii_digit b) (enumerate 0 s)"
    using assms by (auto simp: date_parse_def split: if_splits)
  have s: "s = ?y @ ''-'' @ ?m @ ''-'' @ ?d" using length_10_split [OF len] dash by simp
  have nth: "is_ascii_digit (s ! i)" if "i < 10" "i \<noteq> 4" "i \<noteq> 7" for i
    using digits that len by (auto simp: list_all_iff in_set_enumerate_eq)
  have dy: "list_all is_ascii_digit ?y" and dm: "list_all is_ascii_digit ?m"
    and dd: "list_all is_ascii_digit ?d"
    using len by (auto simp: list_all_length intro!: nth)
  have l: "length ?y = 4" "length ?m = 2" "length ?d = 2" using len by simp_all
  have p: "date_new (of_nat (digits_value ?y)) (of_nat (digits_value ?m)) (of_nat (digits_value ?d))
      = Some d"
    using date_parse_layout [OF dy l(1) dm l(2) dd l(3)] s assms by simp
  then show "date_ok d" using date_new_iff by blast
  from p have d: "d = Date (of_nat (digits_value ?y)) (of_nat (digits_value ?m))
      (of_nat (digits_value ?d))" by (simp add: date_new_iff)
  have "digits_value ?y < 10 ^ 4" "digits_value ?m < 10 ^ 2" "digits_value ?d < 10 ^ 2"
    using digits_value_less [OF dy] digits_value_less [OF dm] digits_value_less [OF dd] l by simp_all
  then have "unat (date_year d) = digits_value ?y" "unat (date_month d) = digits_value ?m"
    "unat (date_day d) = digits_value ?d"
    unfolding d by (simp_all add: unsigned_of_nat take_bit_eq_mod)
  then show "date_to_canonical_string d = s"
    using show_padded_value [OF dy] show_padded_value [OF dm] show_padded_value [OF dd] l s
    unfolding date_to_canonical_string_def by (metis list.size(3) zero_neq_numeral)
qed

section \<open>Properties\<close>

text \<open>C24. \<open>Date::parse\<close> accepts exactly the canonical spellings of the valid civil dates: it
  answers a date precisely when the date is one \<open>Date::new\<close> constructs and the input is what
  \<open>to_canonical_string\<close> prints for it, so the two functions are inverse to each other.\<close>

theorem date_parse_iff_canonical:
  "date_parse s = Some d \<longleftrightarrow> date_ok d \<and> s = date_to_canonical_string d"
  using date_parse_canonical date_parse_spelling by blast

lemma number_new_value_key:
  "number_new v = Some m \<Longrightarrow>
   f64_value_key (number_get m) = f64_value_key v \<and> \<not> f64_is_nan v \<and> number_ok m"
  using number_new_ok [of v m]
  by (auto simp: number_new_def f64_is_zero_def f64_value_key_def f64_is_nan_def f64_is_finite_def
      split: if_splits)

text \<open>On the numbers \<open>Number::new\<close> admits, the bitwise equality and the total order of
  \<open>Number\<close> agree with the IEEE comparison of the values they were built from, although the
  two zeros have different bits.\<close>

theorem number_order_is_ieee:
  assumes "number_new v = Some m" "number_new w = Some n"
  shows "(m = n \<longleftrightarrow> f64_eq v w) \<and> f64_partial_cmp v w = Some (cmp_of m n)"
proof -
  note v = number_new_value_key [OF assms(1)] and w = number_new_value_key [OF assms(2)]
  have cmp: "f64_partial_cmp v w = f64_partial_cmp (number_get m) (number_get n)"
    using v w by (simp add: f64_partial_cmp_def number_ok_not_nan)
  then have "f64_partial_cmp v w = Some (cmp_of m n)"
    using v w number_ieee_less by simp
  then show ?thesis by (auto simp: f64_eq_def cmp_of_simps)
qed

lemma number_order_is_ieee_witness:
  "f64_partial_cmp (F64 0x8000000000000000) (F64 0x3FF0000000000000)
     = Some (cmp_of (Number f64_zero) (Number (F64 0x3FF0000000000000)))"
proof -
  have "number_new (F64 0x8000000000000000) = Some (Number f64_zero)"
    "number_new (F64 0x3FF0000000000000) = Some (Number (F64 0x3FF0000000000000))"
    by (simp_all add: number_new_def f64_is_finite_def f64_is_zero_def f64_mag_def inf_mag_def)
  then show ?thesis using number_order_is_ieee by blast
qed

end
