(* ===== verification/Expressions.thy ===== *)
theory Expressions
  imports Scalars
begin

text \<open>
  The formula expressions of \<open>semantic-core/src/model.rs\<close>: the syntax tree, its direct
  children, its inferred type, and the walks over an explicit stack that collect the
  references and columns it reads.  A stack is a list with its top at the head, so
  \<open>pending.extend(xs)\<close> puts \<open>rev xs\<close> in front and \<open>pending.extend(xs.rev())\<close> puts \<open>xs\<close>.
\<close>

type_synonym schema_id = string
type_synonym entity_id = string
type_synonym field_id = string
type_synonym schema_key = string
type_synonym entity_key = string
type_synonym field_key = string

section \<open>References\<close>

datatype field_ref = FieldRef (fr_entity: entity_id) (fr_field: field_id)
datatype column_ref = ColumnRef (cr_schema: schema_id) (cr_field: field_id)
datatype field_address = FieldAddress (fa_entity: entity_key) (fa_field: field_key)
datatype column_address = ColumnAddress (ca_schema: schema_key) (ca_field: field_key)

definition field_ref_key :: "field_ref \<Rightarrow> string \<times> string" where
  "field_ref_key r = (fr_entity r, fr_field r)"

definition column_ref_key :: "column_ref \<Rightarrow> string \<times> string" where
  "column_ref_key r = (cr_schema r, cr_field r)"

definition field_address_key :: "field_address \<Rightarrow> string \<times> string" where
  "field_address_key r = (fa_entity r, fa_field r)"

definition column_address_key :: "column_address \<Rightarrow> string \<times> string" where
  "column_address_key r = (ca_schema r, ca_field r)"

lemma ref_key_inject:
  "field_ref_key r = field_ref_key s \<longleftrightarrow> r = s"
  "column_ref_key c = column_ref_key d \<longleftrightarrow> c = d"
  "field_address_key a = field_address_key b \<longleftrightarrow> a = b"
  "column_address_key p = column_address_key q \<longleftrightarrow> p = q"
  by (auto simp: field_ref_key_def column_ref_key_def field_address_key_def
      column_address_key_def field_ref.expand column_ref.expand field_address.expand
      column_address.expand)

instantiation field_ref :: linorder
begin

definition less_eq_field_ref :: "field_ref \<Rightarrow> field_ref \<Rightarrow> bool" where
  "less_eq_field_ref x y \<longleftrightarrow> field_ref_key x \<le> field_ref_key y"

definition less_field_ref :: "field_ref \<Rightarrow> field_ref \<Rightarrow> bool" where
  "less_field_ref x y \<longleftrightarrow> field_ref_key x < field_ref_key y"

instance
  by standard (auto simp: less_eq_field_ref_def less_field_ref_def less_le_not_le
      ref_key_inject dest: antisym)

end

instantiation column_ref :: linorder
begin

definition less_eq_column_ref :: "column_ref \<Rightarrow> column_ref \<Rightarrow> bool" where
  "less_eq_column_ref x y \<longleftrightarrow> column_ref_key x \<le> column_ref_key y"

definition less_column_ref :: "column_ref \<Rightarrow> column_ref \<Rightarrow> bool" where
  "less_column_ref x y \<longleftrightarrow> column_ref_key x < column_ref_key y"

instance
  by standard (auto simp: less_eq_column_ref_def less_column_ref_def less_le_not_le
      ref_key_inject dest: antisym)

end

instantiation field_address :: linorder
begin

definition less_eq_field_address :: "field_address \<Rightarrow> field_address \<Rightarrow> bool" where
  "less_eq_field_address x y \<longleftrightarrow> field_address_key x \<le> field_address_key y"

definition less_field_address :: "field_address \<Rightarrow> field_address \<Rightarrow> bool" where
  "less_field_address x y \<longleftrightarrow> field_address_key x < field_address_key y"

instance
  by standard (auto simp: less_eq_field_address_def less_field_address_def less_le_not_le
      ref_key_inject dest: antisym)

end

instantiation column_address :: linorder
begin

definition less_eq_column_address :: "column_address \<Rightarrow> column_address \<Rightarrow> bool" where
  "less_eq_column_address x y \<longleftrightarrow> column_address_key x \<le> column_address_key y"

definition less_column_address :: "column_address \<Rightarrow> column_address \<Rightarrow> bool" where
  "less_column_address x y \<longleftrightarrow> column_address_key x < column_address_key y"

instance
  by standard (auto simp: less_eq_column_address_def less_column_address_def less_le_not_le
      ref_key_inject dest: antisym)

end

section \<open>Syntax\<close>

datatype aggregate_function = AggAverage | AggCount | AggMinimum | AggMaximum

datatype comparison_operator =
  CmpEqual | CmpNotEqual | CmpLess | CmpLessOrEqual | CmpGreater | CmpGreaterOrEqual

datatype conditional_aggregate = CondSum column_ref | CondAverage column_ref | CondCount

datatype expression =
    ENumber number
  | EReference field_ref
  | ESameRowReference field_id
  | EColumnTotal column_ref
  | EColumnAggregate aggregate_function column_ref
  | EColumnConditional conditional_aggregate "column_criterion list"
  | EAdd expression expression
  | ESubtract expression expression
  | EMultiply expression expression
  | EDivide expression expression
  | EMinimum expression expression
  | EMaximum expression expression
  | ECompare comparison_operator expression expression
  | EIf expression expression expression
  | EAnd "expression list"
  | EOr "expression list"
  | ENot expression
  | ERound expression "8 word"
  | EIsBlank expression
and column_criterion =
  ColumnCriterion (cc_column: column_ref) (cc_operator: comparison_operator)
    (cc_value: "expression option")

datatype expression_type = TypeNumber | TypeCondition

definition max_expression_nodes :: nat where
  "max_expression_nodes = 256"

definition max_expression_depth :: nat where
  "max_expression_depth = 64"

definition criterion_values :: "column_criterion list \<Rightarrow> expression list" where
  "criterion_values criteria = List.map_filter cc_value criteria"

fun children :: "expression \<Rightarrow> expression list" where
  "children (ENumber n) = []"
| "children (EReference r) = []"
| "children (ESameRowReference f) = []"
| "children (EColumnTotal c) = []"
| "children (EColumnAggregate g c) = []"
| "children (EColumnConditional a criteria) = criterion_values criteria"
| "children (EAdd l r) = [l, r]"
| "children (ESubtract l r) = [l, r]"
| "children (EMultiply l r) = [l, r]"
| "children (EDivide l r) = [l, r]"
| "children (EMinimum l r) = [l, r]"
| "children (EMaximum l r) = [l, r]"
| "children (ECompare p l r) = [l, r]"
| "children (EIf c t e) = [c, t, e]"
| "children (EAnd xs) = xs"
| "children (EOr xs) = xs"
| "children (ENot v) = [v]"
| "children (ERound v d) = [v]"
| "children (EIsBlank v) = [v]"

lemma in_criterion_values:
  "e \<in> set (criterion_values cs) \<longleftrightarrow> (\<exists>c\<in>set cs. cc_value c = Some e)"
  by (force simp: criterion_values_def List.map_filter_def)

lemma size_in_list: "x \<in> set xs \<Longrightarrow> f x \<le> size_list f xs"
  by (induction xs) auto

lemma size_cc_value: "cc_value c = Some e \<Longrightarrow> size e < size c"
  by (cases c) simp

lemma size_criterion: "c \<in> set cs \<Longrightarrow> cc_value c = Some e \<Longrightarrow> size e < size_list size cs"
  using size_cc_value size_in_list [of c cs size] by (metis order.strict_trans2)

lemma children_size: "c \<in> set (children e) \<Longrightarrow> size c < size e"
  by (cases e) (auto simp: in_criterion_values dest: size_criterion size_in_list [where f = size])

section \<open>Nodes and depth\<close>

function node_count :: "expression \<Rightarrow> nat" where
  "node_count e = Suc (sum_list (map node_count (children e)))"
  by auto
termination by (relation "measure size") (auto dest: children_size)

text \<open>The number of nodes on the longest path from the root.\<close>

function node_depth :: "expression \<Rightarrow> nat" where
  "node_depth e = Suc (fold max (map node_depth (children e)) 0)"
  by auto
termination by (relation "measure size") (auto dest: children_size)

declare node_count.simps [simp del] node_depth.simps [simp del]

lemma fold_max_le: "fold max xs (m::nat) \<le> k \<longleftrightarrow> m \<le> k \<and> (\<forall>x\<in>set xs. x \<le> k)"
  by (induction xs arbitrary: m) auto

lemma node_depth_le:
  "node_depth e \<le> Suc k \<longleftrightarrow> (\<forall>c\<in>set (children e). node_depth c \<le> k)"
  by (subst node_depth.simps) (simp add: fold_max_le)

lemma node_depth_pos: "0 < node_depth e"
  by (subst node_depth.simps) simp

text \<open>A walk that carries depths looks at one level.\<close>

lemma node_depth_step:
  "depth + node_depth e \<le> m + 1 \<longleftrightarrow>
     depth \<le> m \<and> (\<forall>c\<in>set (children e). depth + 1 + node_depth c \<le> m + 1)"
proof (cases "depth \<le> m")
  case True
  then have "depth + node_depth e \<le> m + 1 \<longleftrightarrow> node_depth e \<le> Suc (m - depth)" by linarith
  also have "\<dots> \<longleftrightarrow> (\<forall>c\<in>set (children e). node_depth c \<le> m - depth)" by (rule node_depth_le)
  also have "\<dots> \<longleftrightarrow> (\<forall>c\<in>set (children e). depth + 1 + node_depth c \<le> m + 1)"
  proof -
    have "x \<le> m - depth \<longleftrightarrow> depth + 1 + x \<le> m + 1" for x using True by linarith
    then show ?thesis by simp
  qed
  finally show ?thesis using True by simp
next
  case False
  then show ?thesis using node_depth_pos [of e] by auto
qed

definition forest_count :: "expression list \<Rightarrow> nat" where
  "forest_count es = sum_list (map node_count es)"

lemma forest_count_simps [simp]:
  "forest_count [] = 0" "forest_count (e # es) = node_count e + forest_count es"
  "forest_count (es @ fs) = forest_count es + forest_count fs"
  "forest_count (rev es) = forest_count es"
  by (simp_all add: forest_count_def rev_map [symmetric])

lemma node_count_children: "node_count e = Suc (forest_count (children e))"
  by (simp add: node_count.simps forest_count_def)

lemma expression_induct [case_names node]:
  assumes "\<And>e. (\<And>c. c \<in> set (children e) \<Longrightarrow> P c) \<Longrightarrow> P e"
  shows "P e"
  using assms by (induction e rule: measure_induct_rule [where f = size]) (blast dest: children_size)

section \<open>Type inference\<close>

fun infer_type :: "expression \<Rightarrow> expression_type option" where
  "infer_type (ENumber n) = Some TypeNumber"
| "infer_type (EReference r) = Some TypeNumber"
| "infer_type (ESameRowReference f) = Some TypeNumber"
| "infer_type (EColumnTotal c) = Some TypeNumber"
| "infer_type (EColumnAggregate g c) = Some TypeNumber"
| "infer_type (EColumnConditional a criteria) =
     (if list_all (\<lambda>c. case c of ColumnCriterion _ _ v \<Rightarrow>
           (case v of None \<Rightarrow> True | Some e \<Rightarrow> infer_type e = Some TypeNumber)) criteria
      then Some TypeNumber else None)"
| "infer_type (EAdd l r) =
     (if infer_type l = Some TypeNumber \<and> infer_type r = Some TypeNumber then Some TypeNumber else None)"
| "infer_type (ESubtract l r) =
     (if infer_type l = Some TypeNumber \<and> infer_type r = Some TypeNumber then Some TypeNumber else None)"
| "infer_type (EMultiply l r) =
     (if infer_type l = Some TypeNumber \<and> infer_type r = Some TypeNumber then Some TypeNumber else None)"
| "infer_type (EDivide l r) =
     (if infer_type l = Some TypeNumber \<and> infer_type r = Some TypeNumber then Some TypeNumber else None)"
| "infer_type (EMinimum l r) =
     (if infer_type l = Some TypeNumber \<and> infer_type r = Some TypeNumber then Some TypeNumber else None)"
| "infer_type (EMaximum l r) =
     (if infer_type l = Some TypeNumber \<and> infer_type r = Some TypeNumber then Some TypeNumber else None)"
| "infer_type (ECompare p l r) =
     (if infer_type l = Some TypeNumber \<and> infer_type r = Some TypeNumber then Some TypeCondition else None)"
| "infer_type (EIf c t e) =
     (if infer_type c = Some TypeCondition \<and> infer_type t = Some TypeNumber \<and>
         infer_type e = Some TypeNumber then Some TypeNumber else None)"
| "infer_type (EAnd xs) =
     (if xs \<noteq> [] \<and> list_all (\<lambda>x. infer_type x = Some TypeCondition) xs
      then Some TypeCondition else None)"
| "infer_type (EOr xs) =
     (if xs \<noteq> [] \<and> list_all (\<lambda>x. infer_type x = Some TypeCondition) xs
      then Some TypeCondition else None)"
| "infer_type (ENot v) =
     (if infer_type v = Some TypeCondition then Some TypeCondition else None)"
| "infer_type (ERound v d) =
     (if d \<le> 10 \<and> infer_type v = Some TypeNumber then Some TypeNumber else None)"
| "infer_type (EIsBlank v) =
     (case v of EReference _ \<Rightarrow> Some TypeCondition | ESameRowReference _ \<Rightarrow> Some TypeCondition
      | _ \<Rightarrow> None)"

lemma case_criterion_value [simp]:
  "(case c of ColumnCriterion a b v \<Rightarrow> f v) = f (cc_value c)"
  by (cases c) simp

text \<open>Every subexpression of a typed expression is typed.\<close>

lemma infer_type_children:
  "infer_type e \<noteq> None \<Longrightarrow> c \<in> set (children e) \<Longrightarrow> infer_type c \<noteq> None"
  by (cases e) (auto simp: list_all_iff in_criterion_values split: if_splits expression.splits)

section \<open>Walks over an explicit stack\<close>

text \<open>
  Every walk pops a node, emits what it says of that node and pushes the nodes it goes on
  with.  The law below is what the walks share: such a loop emits the nodes in the order
  of the recursive traversal, whatever is already on the stack.
\<close>

locale stack_walk =
  fixes loop :: "'n list \<Rightarrow> 'o list \<Rightarrow> 'o list"
    and emit :: "'n \<Rightarrow> 'o list"
    and successors :: "'n \<Rightarrow> 'n list"
    and visit :: "'n \<Rightarrow> 'o list"
    and weight :: "'n \<Rightarrow> nat"
  assumes loop_empty: "loop [] acc = acc"
    and loop_pop: "loop (n # stack) acc = loop (successors n @ stack) (acc @ emit n)"
    and visit_unfold: "visit n = emit n @ concat (map visit (successors n))"
    and weight_less: "sum_list (map weight (successors n)) < weight n"
begin

lemma loop_visits: "loop stack acc = acc @ concat (map visit stack)"
proof (induction "sum_list (map weight stack)" arbitrary: stack acc rule: less_induct)
  case less
  show ?case
  proof (cases stack)
    case (Cons n rest)
    have "sum_list (map weight (successors n @ rest)) < sum_list (map weight stack)"
      using weight_less [of n] Cons by simp
    from less [OF this] Cons show ?thesis
      by (simp add: loop_pop visit_unfold [of n])
  qed (simp add: loop_empty)
qed

lemma loop_root: "loop [n] [] = visit n"
  by (simp add: loop_visits)

end

definition is_bare_reference :: "expression \<Rightarrow> bool" where
  "is_bare_reference e =
     (case e of EReference _ \<Rightarrow> True | ESameRowReference _ \<Rightarrow> True | _ \<Rightarrow> False)"

subsection \<open>References read on every evaluation\<close>

function unconditional_loop :: "field_ref \<Rightarrow> expression list \<Rightarrow> field_ref list \<Rightarrow> field_ref list" where
  "unconditional_loop owner [] acc = acc"
| "unconditional_loop owner (node # pending) acc =
     (case node of
        EReference r \<Rightarrow> unconditional_loop owner pending (acc @ [r])
      | ESameRowReference f \<Rightarrow>
          unconditional_loop owner pending (acc @ [FieldRef (fr_entity owner) f])
      | EIf c t e \<Rightarrow> unconditional_loop owner (c # pending) acc
      | EIsBlank v \<Rightarrow> unconditional_loop owner pending acc
      | _ \<Rightarrow> unconditional_loop owner (rev (children node) @ pending) acc)"
  by pat_completeness auto
termination
  by (relation "measure (\<lambda>(owner, pending, acc). forest_count pending)")
    (auto simp: node_count_children)

definition unconditional_references :: "expression \<Rightarrow> field_ref \<Rightarrow> field_ref list" where
  "unconditional_references e owner = ord_set (unconditional_loop owner [e] [])"

definition unconditional_emit :: "field_ref \<Rightarrow> expression \<Rightarrow> field_ref list" where
  "unconditional_emit owner e =
     (case e of EReference r \<Rightarrow> [r] | ESameRowReference f \<Rightarrow> [FieldRef (fr_entity owner) f] | _ \<Rightarrow> [])"

definition unconditional_next :: "expression \<Rightarrow> expression list" where
  "unconditional_next e =
     (case e of EIf c t f \<Rightarrow> [c] | EIsBlank v \<Rightarrow> [] | _ \<Rightarrow> rev (children e))"

lemma unconditional_next_children: "set (unconditional_next e) \<subseteq> set (children e)"
  by (cases e) (auto simp: unconditional_next_def)

text \<open>The references an evaluation always reads, by recursion on the tree.\<close>

function always_read :: "field_ref \<Rightarrow> expression \<Rightarrow> field_ref list" where
  "always_read owner e =
     unconditional_emit owner e @ concat (map (always_read owner) (unconditional_next e))"
  by auto
termination
  by (relation "measure (\<lambda>(owner, e). size e)")
    (use unconditional_next_children in \<open>auto dest: children_size\<close>)

declare always_read.simps [simp del]

interpretation unconditional: stack_walk
  "unconditional_loop owner" "unconditional_emit owner" unconditional_next "always_read owner"
  node_count for owner
proof
  show "sum_list (map node_count (unconditional_next n)) < node_count n" for n
    by (cases n) (simp_all add: unconditional_next_def node_count_children forest_count_def rev_map [symmetric])
qed (auto simp: unconditional_emit_def unconditional_next_def always_read.simps [of owner]
    split: expression.splits)

subsection \<open>Every static reference\<close>

function reference_uses_loop ::
    "field_ref \<Rightarrow> (expression \<times> bool) list \<Rightarrow> (field_ref \<times> bool) list \<Rightarrow> (field_ref \<times> bool) list" where
  "reference_uses_loop owner [] acc = acc"
| "reference_uses_loop owner ((node, numeric) # pending) acc =
     (case node of
        EReference r \<Rightarrow> reference_uses_loop owner pending (acc @ [(r, numeric)])
      | ESameRowReference f \<Rightarrow>
          reference_uses_loop owner pending (acc @ [(FieldRef (fr_entity owner) f, numeric)])
      | EIsBlank v \<Rightarrow> reference_uses_loop owner ((v, False) # pending) acc
      | EColumnConditional a criteria \<Rightarrow>
          reference_uses_loop owner
            (rev (map (\<lambda>e. (e, \<not> is_bare_reference e)) (criterion_values criteria)) @ pending) acc
      | _ \<Rightarrow> reference_uses_loop owner (map (\<lambda>c. (c, numeric)) (children node) @ pending) acc)"
  by pat_completeness auto
termination
  by (relation "measure (\<lambda>(owner, pending, acc). forest_count (map fst pending))")
    (auto simp: node_count_children comp_def rev_map)

definition reference_uses :: "expression \<Rightarrow> field_ref \<Rightarrow> (field_ref \<times> bool) list" where
  "reference_uses e owner = reference_uses_loop owner [(e, True)] []"

definition use_emit :: "field_ref \<Rightarrow> expression \<times> bool \<Rightarrow> (field_ref \<times> bool) list" where
  "use_emit owner n = map (\<lambda>r. (r, snd n)) (unconditional_emit owner (fst n))"

definition use_next :: "expression \<times> bool \<Rightarrow> (expression \<times> bool) list" where
  "use_next n =
     (case fst n of EIsBlank v \<Rightarrow> [(v, False)]
      | EColumnConditional a criteria \<Rightarrow>
          rev (map (\<lambda>e. (e, \<not> is_bare_reference e)) (criterion_values criteria))
      | _ \<Rightarrow> map (\<lambda>c. (c, snd n)) (children (fst n)))"

lemma use_next_children: "fst ` set (use_next n) = set (children (fst n))"
  by (cases "fst n") (auto simp: use_next_def image_image)

function uses_in :: "field_ref \<Rightarrow> expression \<times> bool \<Rightarrow> (field_ref \<times> bool) list" where
  "uses_in owner n = use_emit owner n @ concat (map (uses_in owner) (use_next n))"
  by auto
termination
  by (relation "measure (\<lambda>(owner, n). size (fst n))")
    (use use_next_children in \<open>auto intro!: children_size\<close>)

declare uses_in.simps [simp del]

lemma use_next_weight:
  "sum_list (map (\<lambda>n. node_count (fst n)) (use_next n)) < node_count (fst n)"
proof -
  have rev: "sum_list (map f (rev xs)) = sum_list (map f xs)" for f :: "'a \<Rightarrow> nat" and xs
    by (simp add: rev_map [symmetric])
  have "sum_list (map (\<lambda>n. node_count (fst n)) (use_next n)) = forest_count (children (fst n))"
    by (cases "fst n") (simp_all add: use_next_def forest_count_def rev comp_def)
  then show ?thesis by (simp add: node_count_children)
qed

interpretation uses: stack_walk
  "reference_uses_loop owner" "use_emit owner" use_next "uses_in owner" "\<lambda>n. node_count (fst n)"
  for owner
proof
  show "reference_uses_loop owner (n # stack) acc =
      reference_uses_loop owner (use_next n @ stack) (acc @ use_emit owner n)" for n stack acc
    by (cases n; cases "fst n") (auto simp: use_next_def use_emit_def unconditional_emit_def)
qed (auto simp: uses_in.simps [of owner] intro: use_next_weight)

subsection \<open>Columns\<close>

fun value_column :: "conditional_aggregate \<Rightarrow> column_ref list" where
  "value_column (CondSum c) = [c]"
| "value_column (CondAverage c) = [c]"
| "value_column CondCount = []"

function numeric_columns_loop :: "expression list \<Rightarrow> column_ref list \<Rightarrow> column_ref list" where
  "numeric_columns_loop [] acc = acc"
| "numeric_columns_loop (node # pending) acc =
     numeric_columns_loop (children node @ pending)
       (case node of
          EColumnTotal c \<Rightarrow> acc @ [c]
        | EColumnAggregate g c \<Rightarrow> acc @ [c]
        | EColumnConditional a criteria \<Rightarrow> acc @ value_column a
        | _ \<Rightarrow> acc)"
  by pat_completeness auto
termination
  by (relation "measure (\<lambda>(pending, acc). forest_count pending)") (auto simp: node_count_children)

definition numeric_columns :: "expression \<Rightarrow> column_ref list" where
  "numeric_columns e = numeric_columns_loop [e] []"

function column_totals_loop :: "expression list \<Rightarrow> column_ref list \<Rightarrow> column_ref list" where
  "column_totals_loop [] acc = acc"
| "column_totals_loop (node # pending) acc =
     (case node of
        EColumnTotal c \<Rightarrow> column_totals_loop pending (acc @ [c])
      | EColumnAggregate g c \<Rightarrow> column_totals_loop pending (acc @ [c])
      | EColumnConditional a criteria \<Rightarrow>
          column_totals_loop (children node @ pending)
            (acc @ value_column a @ map cc_column criteria)
      | _ \<Rightarrow> column_totals_loop (children node @ pending) acc)"
  by pat_completeness auto
termination
  by (relation "measure (\<lambda>(pending, acc). forest_count pending)") (auto simp: node_count_children)

definition column_totals :: "expression \<Rightarrow> column_ref list" where
  "column_totals e = column_totals_loop [e] []"

text \<open>The same columns by recursion: each node's own, then those of its children in order.\<close>

fun own_numeric_columns :: "expression \<Rightarrow> column_ref list" where
  "own_numeric_columns (EColumnTotal c) = [c]"
| "own_numeric_columns (EColumnAggregate g c) = [c]"
| "own_numeric_columns (EColumnConditional a criteria) = value_column a"
| "own_numeric_columns e = []"

fun own_columns :: "expression \<Rightarrow> column_ref list" where
  "own_columns (EColumnTotal c) = [c]"
| "own_columns (EColumnAggregate g c) = [c]"
| "own_columns (EColumnConditional a criteria) = value_column a @ map cc_column criteria"
| "own_columns e = []"

function preorder :: "(expression \<Rightarrow> 'o list) \<Rightarrow> expression \<Rightarrow> 'o list" where
  "preorder own e = own e @ concat (map (preorder own) (children e))"
  by auto
termination by (relation "measure (\<lambda>(own, e). size e)") (auto dest: children_size)

declare preorder.simps [simp del]

lemma set_preorder: "set (preorder own e) = set (own e) \<union> (\<Union>c\<in>set (children e). set (preorder own c))"
  by (subst preorder.simps) simp

interpretation numeric: stack_walk
  numeric_columns_loop own_numeric_columns children "preorder own_numeric_columns" node_count
proof
  show "numeric_columns_loop (n # stack) acc =
      numeric_columns_loop (children n @ stack) (acc @ own_numeric_columns n)" for n stack acc
    by (cases n) auto
qed (auto simp: preorder.simps [of own_numeric_columns] node_count_children forest_count_def)

interpretation totals: stack_walk
  column_totals_loop own_columns children "preorder own_columns" node_count
proof
  show "column_totals_loop (n # stack) acc =
      column_totals_loop (children n @ stack) (acc @ own_columns n)" for n stack acc
    by (cases n) auto
qed (auto simp: preorder.simps [of own_columns] node_count_children forest_count_def)

lemma numeric_columns_preorder: "numeric_columns e = preorder own_numeric_columns e"
  by (simp only: numeric_columns_def numeric.loop_root)

lemma column_totals_preorder: "column_totals e = preorder own_columns e"
  by (simp only: column_totals_def totals.loop_root)

lemma reference_uses_in: "reference_uses e owner = uses_in owner (e, True)"
  by (simp only: reference_uses_def uses.loop_root)

lemma unconditional_references_always:
  "unconditional_references e owner = ord_set (always_read owner e)"
  by (simp only: unconditional_references_def unconditional.loop_root)

text \<open>What a formula always reads is among its static references.\<close>

lemma always_read_used:
  "r \<in> set (always_read owner e) \<Longrightarrow> r \<in> fst ` set (uses_in owner (e, numeric))"
proof (induction e arbitrary: numeric rule: expression_induct)
  case (node e)
  from node.prems consider "r \<in> set (unconditional_emit owner e)"
    | c where "c \<in> set (unconditional_next e)" "r \<in> set (always_read owner c)"
    by (subst (asm) always_read.simps) auto
  then show ?case
  proof cases
    case 1
    then show ?thesis by (subst uses_in.simps) (simp add: use_emit_def image_Un image_image)
  next
    case (2 c)
    then have "c \<in> fst ` set (use_next (e, numeric))"
      using unconditional_next_children use_next_children [of "(e, numeric)"] by auto
    then obtain b where b: "(c, b) \<in> set (use_next (e, numeric))" by auto
    have "c \<in> set (children e)" using 2 unconditional_next_children by auto
    from node.IH [OF this 2(2), of b] b show ?thesis
      by (subst uses_in.simps) (force simp: image_Un image_UN)
  qed
qed

section \<open>Properties\<close>

text \<open>C35. The explicit-stack walks of an expression collect what a recursive traversal of the
  tree collects, in the same order: \<open>reference_uses\<close> with its numeric marks,
  \<open>numeric_columns\<close> and \<open>column_totals\<close>, and \<open>unconditional_references\<close> as an ordered set.\<close>

theorem walks_are_traversals:
  "reference_uses e owner = uses_in owner (e, True) \<and>
   numeric_columns e = preorder own_numeric_columns e \<and>
   column_totals e = preorder own_columns e \<and>
   unconditional_references e owner = ord_set (always_read owner e)"
  using reference_uses_in numeric_columns_preorder column_totals_preorder
    unconditional_references_always by blast

text \<open>Every reference a formula reads on every evaluation is one of its static references,
  so a check over \<open>reference_uses\<close> covers what \<open>unconditional_references\<close> requires.\<close>

theorem unconditional_references_used:
  "set (unconditional_references e owner) \<subseteq> fst ` set (reference_uses e owner)"
  using always_read_used unfolding unconditional_references_always reference_uses_in by fastforce

end
