(* ===== verification/Documents.thy ===== *)
theory Documents
  imports Expressions
begin

text \<open>
  The canonical document of \<open>semantic-core/src/model.rs\<close>: schemas with their field
  definitions, entities with their values, the saved grouped-sum definitions, the
  presentation order of a schema's fields and the declaration check of a number format.
\<close>

type_synonym document_id = string
type_synonym definition_id = string

section \<open>Data\<close>

datatype field_type = TNumber | TText | TBoolean | TDate | TReference schema_id

datatype field_constraint =
  ConstraintNone | TextLiteralSet "string list" | NumberInclusiveRange number number

datatype number_format_kind = FormatPlain | FormatCurrency string | FormatPercent

record number_format =
  nf_decimals :: "8 word"
  nf_kind :: number_format_kind
  nf_thousands_separator :: bool

record field_definition =
  fd_id :: field_id
  fd_key :: field_key
  fd_display_name :: "string option"
  fd_type :: field_type
  fd_required :: bool
  fd_constraint :: field_constraint
  fd_number_format :: "number_format option"

record schema =
  sch_id :: schema_id
  sch_key :: schema_key
  sch_display_name :: "string option"
  sch_fields :: "(field_id, field_definition) btree"
  sch_field_order :: "field_id list option"

datatype val =
    VNumber number
  | VText string
  | VBoolean bool
  | VDate date
  | VReference entity_id
  | VFormula expression

record entity =
  ent_id :: entity_id
  ent_key :: entity_key
  ent_schema :: schema_id
  ent_fields :: "(field_id, val) btree"

record orders_binding =
  ob_schema :: schema_id
  ob_lookup_key_field :: field_id
  ob_quantity_field :: field_id

record products_binding =
  pb_schema :: schema_id
  pb_key_field :: field_id
  pb_category_field :: field_id
  pb_price_field :: field_id

record grouped_sum_definition =
  gs_id :: definition_id
  gs_orders :: orders_binding
  gs_products :: products_binding

record document =
  doc_id :: document_id
  doc_title :: string
  doc_schemas :: "(schema_id, schema) btree"
  doc_entities :: "(entity_id, entity) btree"
  doc_definitions :: "(definition_id, grouped_sum_definition) btree"

section \<open>Operations\<close>

definition document_empty :: "document_id \<Rightarrow> string \<Rightarrow> document" where
  "document_empty i title =
     \<lparr>doc_id = i, doc_title = title, doc_schemas = bt_empty, doc_entities = bt_empty,
      doc_definitions = bt_empty\<rparr>"

definition schema_effective_name :: "schema \<Rightarrow> string" where
  "schema_effective_name s = (case sch_display_name s of Some n \<Rightarrow> n | None \<Rightarrow> sch_key s)"

definition field_effective_name :: "field_definition \<Rightarrow> string" where
  "field_effective_name f = (case fd_display_name f of Some n \<Rightarrow> n | None \<Rightarrow> fd_key f)"

definition ordered_fields :: "schema \<Rightarrow> field_definition list" where
  "ordered_fields s =
     (let listed = (case sch_field_order s of Some order \<Rightarrow> order | None \<Rightarrow> []) in
      List.map_filter (bt_get (sch_fields s)) listed @
      map snd (filter (\<lambda>(i, f). i \<notin> set listed) (bt_entries (sch_fields s))))"

text \<open>\<open>for id in fields.keys() { if !order.contains(id) { order.push(id) } }\<close>\<close>

fun push_missing :: "field_id list \<Rightarrow> field_id list \<Rightarrow> field_id list" where
  "push_missing order [] = order"
| "push_missing order (i # ids) =
     push_missing (if i \<in> set order then order else order @ [i]) ids"

definition normalize_field_order :: "schema \<Rightarrow> schema" where
  "normalize_field_order s =
     (case sch_field_order s of
        None \<Rightarrow> s
      | Some order \<Rightarrow>
          s\<lparr>sch_field_order := Some
             (push_missing (filter (bt_contains (sch_fields s)) order) (bt_keys (sch_fields s)))\<rparr>)"

definition insert_field :: "schema \<Rightarrow> field_definition \<Rightarrow> schema" where
  "insert_field s f =
     normalize_field_order (s\<lparr>sch_fields := bt_insert (fd_id f) f (sch_fields s)\<rparr>)"

definition has_number_formats :: "document \<Rightarrow> bool" where
  "has_number_formats d =
     list_ex (\<lambda>f. fd_number_format f \<noteq> None)
       (concat (map (\<lambda>s. bt_values (sch_fields s)) (bt_values (doc_schemas d))))"

definition has_field_orders :: "document \<Rightarrow> bool" where
  "has_field_orders d = list_ex (\<lambda>s. sch_field_order s \<noteq> None) (bt_values (doc_schemas d))"

definition has_display_names :: "document \<Rightarrow> bool" where
  "has_display_names d =
     list_ex (\<lambda>s. sch_display_name s \<noteq> None \<or>
         list_ex (\<lambda>f. fd_display_name f \<noteq> None) (bt_values (sch_fields s)))
       (bt_values (doc_schemas d))"

fun aggregate_suffix :: "aggregate_function \<Rightarrow> string" where
  "aggregate_suffix AggAverage = ''average''"
| "aggregate_suffix AggCount = ''count''"
| "aggregate_suffix AggMinimum = ''min''"
| "aggregate_suffix AggMaximum = ''max''"

fun aggregate_wire_name :: "aggregate_function \<Rightarrow> string" where
  "aggregate_wire_name AggAverage = ''average''"
| "aggregate_wire_name AggCount = ''count''"
| "aggregate_wire_name AggMinimum = ''minimum''"
| "aggregate_wire_name AggMaximum = ''maximum''"

definition aggregate_from_suffix :: "string \<Rightarrow> aggregate_function option" where
  "aggregate_from_suffix suffix =
     find (\<lambda>g. eq_ignore_ascii_case suffix (aggregate_suffix g))
       [AggAverage, AggCount, AggMinimum, AggMaximum]"

fun comparison_as_str :: "comparison_operator \<Rightarrow> string" where
  "comparison_as_str CmpEqual = ''=''"
| "comparison_as_str CmpNotEqual = ''<>''"
| "comparison_as_str CmpLess = ''<''"
| "comparison_as_str CmpLessOrEqual = ''<=''"
| "comparison_as_str CmpGreater = ''>''"
| "comparison_as_str CmpGreaterOrEqual = ''>=''"

datatype number_format_error = NonNumberField | DecimalsOutOfRange | InvalidCurrencyCode

definition number_format_validate_for ::
    "number_format \<Rightarrow> field_type \<Rightarrow> number_format_error + unit" where
  "number_format_validate_for nf ty =
     (if ty \<noteq> TNumber then Inl NonNumberField
      else if 10 < nf_decimals nf then Inl DecimalsOutOfRange
      else case nf_kind nf of
        FormatCurrency code \<Rightarrow>
          if length code \<noteq> 3 \<or> \<not> list_all is_ascii_uppercase code then Inl InvalidCurrencyCode
          else Inr ()
      | _ \<Rightarrow> Inr ())"

section \<open>Presentation order\<close>

text \<open>An explicit order is well formed when it is a permutation of the field ids.\<close>

definition field_order_ok :: "schema \<Rightarrow> bool" where
  "field_order_ok s =
     (case sch_field_order s of None \<Rightarrow> True
      | Some order \<Rightarrow> distinct order \<and> set order = set (bt_keys (sch_fields s)))"

lemma push_missing_append:
  "distinct ids \<Longrightarrow> push_missing order ids = order @ filter (\<lambda>i. i \<notin> set order) ids"
proof (induction ids arbitrary: order)
  case (Cons i ids)
  have "filter (\<lambda>j. j \<notin> set order \<and> j \<noteq> i) ids = filter (\<lambda>j. j \<notin> set order) ids"
    using Cons.prems by (intro filter_cong) auto
  with Cons show ?case by (auto simp: conj_commute)
qed simp

lemma normalize_field_order_Some:
  assumes "sch_field_order s = Some order"
  shows "sch_field_order (normalize_field_order s) =
    Some (filter (\<lambda>i. bt_get (sch_fields s) i \<noteq> None) order @
          filter (\<lambda>i. i \<notin> set order) (bt_keys (sch_fields s)))"
proof -
  have "filter (\<lambda>i. i \<notin> set (filter (\<lambda>i. bt_get (sch_fields s) i \<noteq> None) order))
      (bt_keys (sch_fields s)) = filter (\<lambda>i. i \<notin> set order) (bt_keys (sch_fields s))"
    by (intro filter_cong) (auto simp: set_bt_keys)
  then show ?thesis
    using assms
    by (simp add: normalize_field_order_def push_missing_append bt_contains_fun)
qed

lemma normalize_field_order_other [simp]:
  "sch_fields (normalize_field_order s) = sch_fields s"
  "sch_id (normalize_field_order s) = sch_id s"
  "sch_key (normalize_field_order s) = sch_key s"
  "sch_display_name (normalize_field_order s) = sch_display_name s"
  "sch_field_order (normalize_field_order s) = None \<longleftrightarrow> sch_field_order s = None"
  by (auto simp: normalize_field_order_def split: option.splits)

text \<open>Normalizing repairs any order without repetitions and keeps a well-formed one.\<close>

lemma normalize_field_order_ok:
  assumes "case sch_field_order s of None \<Rightarrow> True | Some order \<Rightarrow> distinct order"
  shows "field_order_ok (normalize_field_order s)"
proof (cases "sch_field_order s")
  case None
  then show ?thesis by (simp add: field_order_ok_def normalize_field_order_def)
next
  case (Some order)
  with assms show ?thesis
    using normalize_field_order_Some [OF Some] by (auto simp: field_order_ok_def set_bt_keys)
qed

lemma normalize_field_order_id: "field_order_ok s \<Longrightarrow> normalize_field_order s = s"
proof (cases "sch_field_order s")
  case (Some order)
  assume ok: "field_order_ok s"
  with Some have set: "set order = set (bt_keys (sch_fields s))" by (simp add: field_order_ok_def)
  then have "filter (\<lambda>i. bt_get (sch_fields s) i \<noteq> None) order = order"
    by (auto simp: filter_id_conv set_bt_keys)
  moreover have "filter (\<lambda>i. i \<notin> set order) (bt_keys (sch_fields s)) = []"
    using set by (simp add: filter_empty_conv)
  ultimately have "sch_field_order (normalize_field_order s) = sch_field_order s"
    using normalize_field_order_Some [OF Some] Some by simp
  then show ?thesis by (auto intro: schema.equality)
qed (simp add: normalize_field_order_def)

lemma insert_field_ok: "field_order_ok s \<Longrightarrow> field_order_ok (insert_field s f)"
  unfolding insert_field_def
  by (rule normalize_field_order_ok) (auto simp: field_order_ok_def split: option.splits)

text \<open>The presentation lists every field exactly once.\<close>

lemma distinct_map_filter_get:
  assumes "distinct xs" "\<And>x y v. g x = Some v \<Longrightarrow> g y = Some v \<Longrightarrow> x = y"
  shows "distinct (List.map_filter g xs)"
  using assms(1)
  by (induction xs) (auto simp: List.map_filter_def dest: assms(2) split: option.splits)

lemma set_map_filter: "set (List.map_filter g xs) = {v. \<exists>x\<in>set xs. g x = Some v}"
  by (force simp: List.map_filter_def)

lemma set_ordered_fields: "set (ordered_fields s) = set (bt_values (sch_fields s))"
proof -
  have "f \<in> set (ordered_fields s) \<longleftrightarrow> (\<exists>i. bt_get (sch_fields s) i = Some f)" for f
  proof (cases "sch_field_order s")
    case None
    then show ?thesis by (simp add: ordered_fields_def image_iff bt_entries_bex)
  next
    case (Some order)
    then have "f \<in> set (ordered_fields s) \<longleftrightarrow> (\<exists>i\<in>set order. bt_get (sch_fields s) i = Some f) \<or>
        (\<exists>a. (a, f) \<in> set (bt_entries (sch_fields s)) \<and> a \<notin> set order)"
      by (simp add: ordered_fields_def set_map_filter image_iff case_prod_beta)
    then show ?thesis by (auto simp: bt_entries_iff)
  qed
  then show ?thesis by (auto simp: in_bt_values)
qed

lemma ordered_fields_ids:
  assumes ids: "\<And>i f. bt_get (sch_fields s) i = Some f \<Longrightarrow> fd_id f = i"
  shows "map fd_id (ordered_fields s) =
    (case sch_field_order s of None \<Rightarrow> bt_keys (sch_fields s)
     | Some order \<Rightarrow> filter (bt_contains (sch_fields s)) order @
         filter (\<lambda>i. i \<notin> set order) (bt_keys (sch_fields s)))"
proof -
  have a: "map fd_id (List.map_filter (bt_get (sch_fields s)) xs)
      = filter (bt_contains (sch_fields s)) xs" for xs
    by (induction xs) (auto simp: List.map_filter_def ids)
  have ent: "fd_id (snd e) = fst e" if "e \<in> set (bt_entries (sch_fields s))" for e
    using that ids by (metis bt_entries_iff prod.collapse)
  have b: "map (fd_id \<circ> snd) (filter (\<lambda>(i, f). P i) (bt_entries (sch_fields s)))
      = filter P (bt_keys (sch_fields s))" for P
    by (auto simp: bt_keys_def filter_map comp_def intro!: map_cong filter_cong ent)
  show ?thesis
    by (simp add: ordered_fields_def Let_def a b [unfolded comp_def] comp_def split: option.split)
qed

section \<open>Properties\<close>

lemma set_keys_values: "set (bt_values (bt_insert k v m)) \<subseteq> insert v (set (bt_values m))"
  by (auto simp: in_bt_values split: if_splits)

lemma distinct_set_singleton: "distinct xs \<Longrightarrow> set xs = {x} \<Longrightarrow> xs = [x]"
  by (cases xs) (auto, metis insertI1 list.set_intros(1) neq_Nil_conv singletonD subsetD)

lemma insert_field_appends:
  assumes "field_order_ok s" "sch_field_order s = Some order" "bt_get (sch_fields s) (fd_id f) = None"
  shows "sch_field_order (insert_field s f) = Some (order @ [fd_id f])"
proof -
  let ?t = "s\<lparr>sch_fields := bt_insert (fd_id f) f (sch_fields s)\<rparr>"
  have mem: "i \<in> set order \<longleftrightarrow> bt_get (sch_fields s) i \<noteq> None" for i
    using assms(1,2) by (simp add: field_order_ok_def set_bt_keys)
  have "filter (\<lambda>i. bt_get (sch_fields ?t) i \<noteq> None) order = order"
    by (auto simp: filter_id_conv mem)
  moreover have "filter (\<lambda>i. i \<notin> set order) (bt_keys (sch_fields ?t)) = [fd_id f]"
  proof -
    have "set (filter (\<lambda>i. i \<notin> set order) (bt_keys (sch_fields ?t))) = {fd_id f}"
      using assms(3) by (auto simp: bt_keys_insert_set mem set_bt_keys)
    moreover have "distinct (filter (\<lambda>i. i \<notin> set order) (bt_keys (sch_fields ?t)))" by simp
    ultimately show ?thesis by (intro distinct_set_singleton)
  qed
  ultimately show ?thesis
    unfolding insert_field_def using normalize_field_order_Some [of ?t order] assms(2) by simp
qed

text \<open>C36. Adding a field keeps the presentation order a permutation of the schema's fields: the
  ordered view lists every field of the schema exactly once, and with an explicit order a new
  field comes after every listed column.\<close>

theorem insert_field_presentation:
  assumes "field_order_ok s" "\<forall>i g. bt_get (sch_fields s) i = Some g \<longrightarrow> fd_id g = i"
  shows "field_order_ok (insert_field s f) \<and>
    distinct (map fd_id (ordered_fields (insert_field s f))) \<and>
    set (ordered_fields (insert_field s f)) = insert f (set (bt_values (bt_remove (fd_id f) (sch_fields s)))) \<and>
    (\<forall>order. sch_field_order s = Some order \<and> bt_get (sch_fields s) (fd_id f) = None \<longrightarrow>
       map fd_id (ordered_fields (insert_field s f)) = order @ [fd_id f])"
proof -
  let ?t = "insert_field s f"
  have ok: "field_order_ok ?t" by (rule insert_field_ok [OF assms(1)])
  have flds: "sch_fields ?t = bt_insert (fd_id f) f (sch_fields s)" by (simp add: insert_field_def)
  have ids: "fd_id g = i" if "bt_get (sch_fields ?t) i = Some g" for i g
    using that assms(2) by (auto simp: flds split: if_splits)
  note view = ordered_fields_ids [of ?t, OF ids]
  have perm: "map fd_id (ordered_fields ?t) =
      (case sch_field_order ?t of None \<Rightarrow> bt_keys (sch_fields ?t) | Some order \<Rightarrow> order)"
  proof (cases "sch_field_order ?t")
    case (Some order)
    with ok have set: "set order = set (bt_keys (sch_fields ?t))" by (simp add: field_order_ok_def)
    then have "filter (bt_contains (sch_fields ?t)) order = order"
      by (auto simp: filter_id_conv set_bt_keys)
    moreover have "filter (\<lambda>i. i \<notin> set order) (bt_keys (sch_fields ?t)) = []"
      using set by (simp add: filter_empty_conv)
    ultimately show ?thesis using view Some by simp
  qed (use view in simp)
  have "distinct (map fd_id (ordered_fields ?t))"
    unfolding perm using ok by (simp add: field_order_ok_def split: option.splits)
  moreover have "set (ordered_fields ?t) = insert f (set (bt_values (bt_remove (fd_id f) (sch_fields s))))"
    unfolding set_ordered_fields flds by (auto simp: in_bt_values split: if_splits)
  moreover have "map fd_id (ordered_fields ?t) = order @ [fd_id f]"
    if "sch_field_order s = Some order \<and> bt_get (sch_fields s) (fd_id f) = None" for order
    using that insert_field_appends [OF assms(1)] perm by simp
  ultimately show ?thesis using ok by blast
qed

definition sample_field :: "field_id \<Rightarrow> field_definition" where
  "sample_field i =
     \<lparr>fd_id = i, fd_key = i, fd_display_name = None, fd_type = TNumber, fd_required = False,
      fd_constraint = ConstraintNone, fd_number_format = None\<rparr>"

definition sample_schema :: schema where
  "sample_schema =
     \<lparr>sch_id = ''t'', sch_key = ''t'', sch_display_name = None,
      sch_fields = bt_insert ''b'' (sample_field ''b'') bt_empty, sch_field_order = Some [''b'']\<rparr>"

lemma insert_field_presentation_witness:
  "map fd_id (ordered_fields (insert_field sample_schema (sample_field ''a''))) = [''b'', ''a'']"
proof -
  have "field_order_ok sample_schema"
    by (simp add: sample_schema_def field_order_ok_def bt_eval)
  moreover have "\<forall>i g. bt_get (sch_fields sample_schema) i = Some g \<longrightarrow> fd_id g = i"
    by (simp add: sample_schema_def sample_field_def)
  ultimately show ?thesis
    using insert_field_presentation [of sample_schema "sample_field ''a''"]
    by (simp add: sample_schema_def sample_field_def)
qed

end
