(* ===== verification/Names.thy ===== *)
theory Names
  imports RustStr
begin

text \<open>
  The spelling rules of display names, \<open>semantic-core/src/display_name.rs\<close>, with the
  declarative rule they implement.
\<close>

definition max_display_name_bytes :: nat where
  "max_display_name_bytes = 4096"

datatype display_name_failure = NameEmpty | NameTooLong | NameForbiddenScalar | NameUntrimmed

fun display_name_reason :: "display_name_failure \<Rightarrow> string" where
  "display_name_reason NameEmpty = ''empty_display_name''"
| "display_name_reason NameTooLong = ''display_name_too_long''"
| "display_name_reason NameForbiddenScalar = ''forbidden_display_name_scalar''"
| "display_name_reason NameUntrimmed = ''untrimmed_display_name''"

definition is_display_name_whitespace :: "nat \<Rightarrow> bool" where
  "is_display_name_whitespace c \<longleftrightarrow>
     (0x09 \<le> c \<and> c \<le> 0x0d) \<or> c = 0x20 \<or> c = 0x85 \<or> c = 0xa0 \<or> c = 0x1680 \<or>
     (0x2000 \<le> c \<and> c \<le> 0x200a) \<or> c = 0x2028 \<or> c = 0x2029 \<or> c = 0x202f \<or> c = 0x205f \<or>
     c = 0x3000"

definition trim_display_name :: "string \<Rightarrow> string" where
  "trim_display_name s = trim_matches is_display_name_whitespace s"

definition is_forbidden_scalar :: "nat \<Rightarrow> bool" where
  "is_forbidden_scalar c \<longleftrightarrow> c \<le> 0x1f \<or> (0x7f \<le> c \<and> c \<le> 0x9f) \<or> c = 0x2028 \<or> c = 0x2029"

definition display_name_failures :: "string \<Rightarrow> display_name_failure list" where
  "display_name_failures name =
     (let trimmed = trim_display_name name in
      (if trimmed = [] then [NameEmpty] else []) @
      (if max_display_name_bytes < length trimmed then [NameTooLong] else []) @
      (if list_ex is_forbidden_scalar (chars name) then [NameForbiddenScalar] else []) @
      (if trimmed \<noteq> name then [NameUntrimmed] else []))"

text \<open>The rule: a bounded, nonempty run of allowed scalars with no outer white space.\<close>

definition display_name_ok :: "string \<Rightarrow> bool" where
  "display_name_ok name \<longleftrightarrow>
     name \<noteq> [] \<and> length name \<le> max_display_name_bytes \<and>
     (\<forall>c\<in>set (chars name). \<not> is_forbidden_scalar c) \<and>
     \<not> is_display_name_whitespace (hd (chars name)) \<and>
     \<not> is_display_name_whitespace (last (chars name))"

lemma chars_empty_iff: "valid_utf8 s \<Longrightarrow> chars s = [] \<longleftrightarrow> s = []"
  by (metis chars.simps(1) utf8_Nil_iff utf8_chars)

lemma display_name_ok_iff:
  assumes "valid_utf8 name"
  shows "display_name_failures name = [] \<longleftrightarrow> display_name_ok name"
proof -
  have "trim_display_name name = name \<longleftrightarrow> name = [] \<or>
      \<not> is_display_name_whitespace (hd (chars name)) \<and> \<not> is_display_name_whitespace (last (chars name))"
    using assms
    by (simp add: trim_display_name_def trim_matches_id_iff trim_scalars_id_iff chars_empty_iff)
  then show ?thesis
    by (auto simp: display_name_failures_def display_name_ok_def Let_def list_ex_iff)
qed

text \<open>A trimmed name has no outer white space left.\<close>

lemma trim_scalars_idem: "trim_scalars p (trim_scalars p cs) = trim_scalars p cs"
proof -
  have "rev (dropWhile p (rev (dropWhile p cs))) \<noteq> [] \<Longrightarrow>
      \<not> p (hd (rev (dropWhile p (rev (dropWhile p cs)))))"
  proof -
    let ?ds = "dropWhile p cs"
    assume ne: "rev (dropWhile p (rev ?ds)) \<noteq> []"
    obtain pre where split: "rev ?ds = pre @ dropWhile p (rev ?ds)"
      by (metis takeWhile_dropWhile_id)
    then have "?ds = rev (dropWhile p (rev ?ds)) @ rev pre"
      by (metis rev_append rev_rev_ident)
    then have "hd ?ds = hd (rev (dropWhile p (rev ?ds)))" using ne by (metis hd_append2)
    moreover have "?ds \<noteq> []" using ne by (metis dropWhile.simps(1) rev.simps(1))
    ultimately show ?thesis using hd_dropWhile by metis
  qed
  moreover have "trim_scalars p cs \<noteq> [] \<Longrightarrow> \<not> p (last (trim_scalars p cs))"
    unfolding trim_scalars_def by (metis hd_dropWhile last_rev rev_is_Nil_conv)
  ultimately show ?thesis
    by (subst trim_scalars_id_iff) (auto simp: trim_scalars_def dest: set_dropWhileD)
qed

lemma trim_display_name_idem:
  "valid_utf8 s \<Longrightarrow> trim_display_name (trim_display_name s) = trim_display_name s"
  unfolding trim_display_name_def
  by (metis chars_trim_matches trim_matches_def trim_scalars_idem)

section \<open>Properties\<close>

text \<open>A display name is accepted exactly when it is nonempty, at most 4096 bytes long, holds
  no control character and no line or paragraph separator, and neither starts nor ends with
  white space.\<close>

theorem display_name_rule:
  assumes "valid_utf8 name"
  shows "display_name_failures name = [] \<longleftrightarrow> display_name_ok name"
  using assms by (rule display_name_ok_iff)

lemma display_name_rule_witness:
  "display_name_failures ''Total'' = [] \<longleftrightarrow> display_name_ok ''Total''"
  by (rule display_name_rule) (rule valid_utf8_ascii, simp add: byte_def)

end
