(* ===== verification/Addresses.thy ===== *)
theory Addresses
  imports Documents
begin

text \<open>
  The human-address index of \<open>semantic-core/src/address.rs\<close>: building it from a document,
  resolving an address to stable ids and projecting a stable reference back.
\<close>

section \<open>The index\<close>

record address_index =
  ai_schemas :: "(schema_key, schema_id) btree"
  ai_entities :: "(entity_key, entity_id) btree"
  ai_fields :: "(schema_id, (field_key, field_id) btree) btree"

datatype address_index_error =
    SchemaStoreIdMismatch schema_id schema_id
  | FieldStoreIdMismatch schema_id field_id field_id
  | EntityStoreIdMismatch entity_id entity_id
  | DuplicateSchemaKey schema_key "schema_id list"
  | DuplicateEntityKey entity_key "entity_id list"
  | DuplicateFieldKey schema_id field_key "field_id list"
  | MissingSchemaKey schema_key
  | MissingEntityKey entity_key
  | MissingFieldKey entity_key field_key
  | MissingSchemaFieldKey schema_id field_key
  | MissingBoundEntity entity_id
  | MissingBoundSchema schema_id
  | MissingBoundField entity_id field_id
  | BoundAddressMismatch field_ref

definition key_groups ::
    "('o \<Rightarrow> 'k::linorder) \<Rightarrow> ('o \<Rightarrow> 'i) \<Rightarrow> ('s::linorder, 'o) btree \<Rightarrow> ('k, 'i list) btree" where
  "key_groups key ident m = bt_group key ident (bt_values m)"

definition first_duplicate :: "('k::linorder, 'i list) btree \<Rightarrow> ('k \<times> 'i list) option" where
  "first_duplicate groups = find (\<lambda>(k, ids). 1 < length ids) (bt_entries groups)"

text \<open>\<open>groups.into_iter().map(|(key, mut ids)| (key, ids.remove(0))).collect()\<close>\<close>

definition first_ids :: "('k::linorder, 'i list) btree \<Rightarrow> ('k, 'i) btree" where
  "first_ids groups = bt_map (\<lambda>k ids. hd ids) groups"

definition check_store_ids :: "document \<Rightarrow> address_index_error + unit" where
  "check_store_ids d =
     and_then
       (try_all (\<lambda>(stored, s).
            if stored \<noteq> sch_id s then Inl (SchemaStoreIdMismatch stored (sch_id s))
            else try_all (\<lambda>(field_stored, f).
              if field_stored \<noteq> fd_id f then Inl (FieldStoreIdMismatch stored field_stored (fd_id f))
              else Inr ()) (bt_entries (sch_fields s)))
         (bt_entries (doc_schemas d)))
       (\<lambda>u. try_all (\<lambda>(stored, e).
            if stored \<noteq> ent_id e then Inl (EntityStoreIdMismatch stored (ent_id e)) else Inr ())
         (bt_entries (doc_entities d)))"

fun build_fields ::
    "(schema_id \<times> schema) list \<Rightarrow> (schema_id, (field_key, field_id) btree) btree \<Rightarrow>
     address_index_error + (schema_id, (field_key, field_id) btree) btree" where
  "build_fields [] flds = Inr flds"
| "build_fields ((schema_id, s) # rest) flds =
     (let field_groups = key_groups fd_key fd_id (sch_fields s) in
      case first_duplicate field_groups of
        Some (key, ids) \<Rightarrow> Inl (DuplicateFieldKey schema_id key ids)
      | None \<Rightarrow> build_fields rest (bt_insert schema_id (first_ids field_groups) flds))"

definition index_build :: "document \<Rightarrow> address_index_error + address_index" where
  "index_build d =
     and_then (check_store_ids d) (\<lambda>u.
     let schema_groups = key_groups sch_key sch_id (doc_schemas d) in
     case first_duplicate schema_groups of
       Some (key, ids) \<Rightarrow> Inl (DuplicateSchemaKey key ids)
     | None \<Rightarrow>
         and_then (build_fields (bt_entries (doc_schemas d)) bt_empty) (\<lambda>flds.
         let entity_groups = key_groups ent_key ent_id (doc_entities d) in
         case first_duplicate entity_groups of
           Some (key, ids) \<Rightarrow> Inl (DuplicateEntityKey key ids)
         | None \<Rightarrow> Inr \<lparr>ai_schemas = first_ids schema_groups, ai_entities = first_ids entity_groups,
             ai_fields = flds\<rparr>))"

section \<open>Lookups\<close>

definition index_schema_id :: "address_index \<Rightarrow> schema_key \<Rightarrow> address_index_error + schema_id" where
  "index_schema_id ix key = ok_or (MissingSchemaKey key) (bt_get (ai_schemas ix) key)"

definition index_entity_id :: "address_index \<Rightarrow> entity_key \<Rightarrow> address_index_error + entity_id" where
  "index_entity_id ix key = ok_or (MissingEntityKey key) (bt_get (ai_entities ix) key)"

definition index_field_id ::
    "address_index \<Rightarrow> schema_id \<Rightarrow> entity_key \<Rightarrow> field_key \<Rightarrow> address_index_error + field_id" where
  "index_field_id ix schema entity key =
     ok_or (MissingFieldKey entity key)
       (Option.bind (bt_get (ai_fields ix) schema) (\<lambda>flds. bt_get flds key))"

definition index_schema_field_id ::
    "address_index \<Rightarrow> schema_id \<Rightarrow> field_key \<Rightarrow> address_index_error + field_id" where
  "index_schema_field_id ix schema key =
     ok_or (MissingSchemaFieldKey schema key)
       (Option.bind (bt_get (ai_fields ix) schema) (\<lambda>flds. bt_get flds key))"

definition index_resolve_field ::
    "address_index \<Rightarrow> document \<Rightarrow> field_address \<Rightarrow> address_index_error + field_ref" where
  "index_resolve_field ix d a =
     and_then (index_entity_id ix (fa_entity a)) (\<lambda>entity_id.
     and_then (ok_or (MissingBoundEntity entity_id) (bt_get (doc_entities d) entity_id)) (\<lambda>entity.
     and_then (index_field_id ix (ent_schema entity) (fa_entity a) (fa_field a)) (\<lambda>field_id.
     Inr (FieldRef entity_id field_id))))"

definition index_field_address ::
    "address_index \<Rightarrow> document \<Rightarrow> field_ref \<Rightarrow> address_index_error + field_address" where
  "index_field_address ix d r =
     and_then (ok_or (MissingBoundEntity (fr_entity r)) (bt_get (doc_entities d) (fr_entity r)))
       (\<lambda>entity.
     and_then (ok_or (MissingBoundSchema (ent_schema entity))
         (bt_get (doc_schemas d) (ent_schema entity))) (\<lambda>s.
     and_then (ok_or (MissingBoundField (fr_entity r) (fr_field r))
         (bt_get (sch_fields s) (fr_field r))) (\<lambda>f.
     let address = FieldAddress (ent_key entity) (fd_key f) in
     and_then (index_resolve_field ix d address) (\<lambda>resolved.
       if resolved \<noteq> r then Inl (BoundAddressMismatch r) else Inr address))))"

definition document_resolve_field ::
    "document \<Rightarrow> field_address \<Rightarrow> address_index_error + field_ref" where
  "document_resolve_field d a = and_then (index_build d) (\<lambda>ix. index_resolve_field ix d a)"

definition document_field_address ::
    "document \<Rightarrow> field_ref \<Rightarrow> address_index_error + field_address" where
  "document_field_address d r = and_then (index_build d) (\<lambda>ix. index_field_address ix d r)"

section \<open>The contract of a keyed index\<close>

text \<open>
  An index from keys to identities of a set of objects answers only with an object that
  carries the key, and answers for every key an object carries.
\<close>

locale keyed_index =
  fixes lookup :: "'k \<Rightarrow> 'i option"
    and objects :: "'o set"
    and ident :: "'o \<Rightarrow> 'i"
    and key :: "'o \<Rightarrow> 'k"
  assumes sound: "lookup k = Some i \<Longrightarrow> \<exists>x\<in>objects. ident x = i \<and> key x = k"
    and complete: "x \<in> objects \<Longrightarrow> lookup (key x) \<noteq> None"
begin

lemma lookup_exact:
  assumes "inj_on key objects" "x \<in> objects"
  shows "lookup (key x) = Some (ident x)"
proof -
  obtain i where i: "lookup (key x) = Some i" using complete [OF assms(2)] by auto
  then obtain y where "y \<in> objects" "ident y = i" "key y = key x" using sound by blast
  with assms i show ?thesis by (metis inj_onD)
qed

lemma lookup_iff:
  assumes "inj_on key objects"
  shows "lookup k = Some i \<longleftrightarrow> (\<exists>x\<in>objects. ident x = i \<and> key x = k)"
  using sound lookup_exact [OF assms] by blast

end

lemma first_ids_sound:
  "bt_get (first_ids (key_groups key ident m)) k = Some i \<Longrightarrow>
   \<exists>x\<in>set (bt_values m). ident x = i \<and> key x = k"
proof -
  assume "bt_get (first_ids (key_groups key ident m)) k = Some i"
  then obtain ids where ids: "bt_get (key_groups key ident m) k = Some ids" "i = hd ids"
    by (auto simp: first_ids_def)
  have "ids \<noteq> [] \<and> ids = map ident (filter (\<lambda>x. key x = k) (bt_values m))"
    by (rule bt_get_group_Some [THEN iffD1, OF ids(1) [unfolded key_groups_def]])
  then have "i \<in> ident ` set (filter (\<lambda>x. key x = k) (bt_values m))"
    using ids(2) by (metis hd_in_set list.set_map)
  then show ?thesis by auto
qed

interpretation first_ids: keyed_index
  "bt_get (first_ids (key_groups key ident m))" "set (bt_values m)" ident key
  for m :: "('s::linorder, 'o) btree" and key :: "'o \<Rightarrow> 'k::linorder" and ident
proof
  show "bt_get (first_ids (key_groups key ident m)) (key x) \<noteq> None" if "x \<in> set (bt_values m)" for x
    using that by (auto simp: first_ids_def key_groups_def bt_get_group filter_empty_conv
        split: list.splits)
qed (rule first_ids_sound)

section \<open>When the index exists\<close>

definition store_ids_ok :: "document \<Rightarrow> bool" where
  "store_ids_ok d \<longleftrightarrow>
     (\<forall>(i, s)\<in>set (bt_entries (doc_schemas d)). sch_id s = i \<and>
        (\<forall>(j, f)\<in>set (bt_entries (sch_fields s)). fd_id f = j)) \<and>
     (\<forall>(i, e)\<in>set (bt_entries (doc_entities d)). ent_id e = i)"

definition unique_keys :: "('o \<Rightarrow> 'k) \<Rightarrow> ('i::linorder, 'o) btree \<Rightarrow> bool" where
  "unique_keys key m \<longleftrightarrow> inj_on key (set (bt_values m))"

definition addresses_unique :: "document \<Rightarrow> bool" where
  "addresses_unique d \<longleftrightarrow>
     unique_keys sch_key (doc_schemas d) \<and>
     (\<forall>s\<in>set (bt_values (doc_schemas d)). unique_keys fd_key (sch_fields s)) \<and>
     unique_keys ent_key (doc_entities d)"

lemma store_ids_okD:
  assumes "store_ids_ok d"
  shows "bt_get (doc_schemas d) i = Some s \<Longrightarrow> sch_id s = i"
    "bt_get (doc_schemas d) i = Some s \<Longrightarrow> bt_get (sch_fields s) j = Some f \<Longrightarrow> fd_id f = j"
    "bt_get (doc_entities d) k = Some e \<Longrightarrow> ent_id e = k"
  using assms by (force simp: store_ids_ok_def bt_get_eq_Some)+

lemma check_store_ids_iff: "check_store_ids d = Inr u \<longleftrightarrow> store_ids_ok d"
proof -
  have "try_all (\<lambda>(stored, s).
            if stored \<noteq> sch_id s then Inl (SchemaStoreIdMismatch stored (sch_id s))
            else try_all (\<lambda>(field_stored, f).
              if field_stored \<noteq> fd_id f then Inl (FieldStoreIdMismatch stored field_stored (fd_id f))
              else Inr ()) (bt_entries (sch_fields s)))
         (bt_entries (doc_schemas d)) = Inr v \<longleftrightarrow>
     (\<forall>(i, s)\<in>set (bt_entries (doc_schemas d)). sch_id s = i \<and>
        (\<forall>(j, f)\<in>set (bt_entries (sch_fields s)). fd_id f = j))" for v
    by (simp add: try_all_Inr case_prod_beta if_Inl_Inr) metis
  moreover have "try_all (\<lambda>(stored, e).
            if stored \<noteq> ent_id e then Inl (EntityStoreIdMismatch stored (ent_id e)) else Inr ())
         (bt_entries (doc_entities d)) = Inr v \<longleftrightarrow>
     (\<forall>(i, e)\<in>set (bt_entries (doc_entities d)). ent_id e = i)" for v
    by (simp add: try_all_Inr case_prod_beta if_Inl_Inr) metis
  ultimately show ?thesis by (simp add: check_store_ids_def store_ids_ok_def and_then_unit_Inr)
qed

lemma distinct_values:
  assumes "\<And>i x. bt_get m i = Some x \<Longrightarrow> ident x = i"
  shows "distinct (bt_values m)"
proof -
  have "map ident (bt_values m) = bt_keys m"
    using assms by (auto simp: bt_values_def bt_keys_def bt_get_eq_Some)
  then have "distinct (map ident (bt_values m))" by simp
  then show ?thesis by (simp add: distinct_map)
qed

lemma first_duplicate_None:
  assumes "\<And>i x. bt_get m i = Some x \<Longrightarrow> store x = i"
  shows "first_duplicate (key_groups key ident m) = None \<longleftrightarrow> unique_keys key m"
proof -
  have "first_duplicate (key_groups key ident m) = None \<longleftrightarrow>
      (\<forall>k ids. bt_get (key_groups key ident m) k = Some ids \<longrightarrow> length ids \<le> 1)"
    by (auto simp: first_duplicate_def find_None_iff bt_get_eq_Some not_less)
  also have "\<dots> \<longleftrightarrow> (\<forall>k. length (filter (\<lambda>x. key x = k) (bt_values m)) \<le> 1)"
  proof -
    have "(\<forall>ids. bt_get (key_groups key ident m) k = Some ids \<longrightarrow> length ids \<le> 1) \<longleftrightarrow>
        length (filter (\<lambda>x. key x = k) (bt_values m)) \<le> 1" for k
      by (simp add: key_groups_def bt_get_group split: list.split)
    then show ?thesis by blast
  qed
  also have "\<dots> \<longleftrightarrow> unique_keys key m"
    unfolding unique_keys_def by (rule filter_key_unique) (rule distinct_values [OF assms])
  finally show ?thesis .
qed

lemma build_fields_Inr:
  assumes "\<And>i s j f. (i, s) \<in> set entries \<Longrightarrow> bt_get (sch_fields s) j = Some f \<Longrightarrow> fd_id f = j"
    "distinct (map fst entries)"
  shows "build_fields entries acc = Inr flds \<longleftrightarrow>
    (\<forall>(i, s)\<in>set entries. unique_keys fd_key (sch_fields s)) \<and>
    flds = foldl (\<lambda>m (i, s). bt_insert i (first_ids (key_groups fd_key fd_id (sch_fields s))) m)
      acc entries"
  using assms
proof (induction entries arbitrary: acc)
  case (Cons e rest)
  obtain i s where e: "e = (i, s)" by force
  have dup: "first_duplicate (key_groups fd_key fd_id (sch_fields s)) = None \<longleftrightarrow>
      unique_keys fd_key (sch_fields s)"
    using Cons.prems(1) e by (intro first_duplicate_None [where store = fd_id]) auto
  show ?case
  proof (cases "first_duplicate (key_groups fd_key fd_id (sch_fields s))")
    case None
    have "build_fields rest b = Inr flds \<longleftrightarrow>
        (\<forall>(i, s)\<in>set rest. unique_keys fd_key (sch_fields s)) \<and>
        flds = foldl (\<lambda>m (i, s). bt_insert i (first_ids (key_groups fd_key fd_id (sch_fields s))) m)
          b rest" for b
      by (rule Cons.IH) (use Cons.prems in auto)
    then show ?thesis using None dup e by simp
  next
    case (Some dup_entry)
    then show ?thesis using dup e by (cases dup_entry) auto
  qed
qed auto

lemma foldl_insert_entries:
  "bt_get (foldl (\<lambda>m (i, s). bt_insert i (g s) m) bt_empty (bt_entries n)) k =
   map_option g (bt_get n k)"
proof -
  let ?xs = "map (\<lambda>(i, s). (i, g s)) (bt_entries n)"
  have "foldl (\<lambda>m (i, s). bt_insert i (g s) m) bt_empty (bt_entries n) = bt_of_list ?xs"
    by (simp add: bt_of_list_def foldl_map case_prod_unfold)
  moreover have "bt_get (bt_of_list ?xs) = map_of ?xs"
    by (rule bt_get_of_list) (simp add: comp_def case_prod_beta)
  moreover have "map_of (map (\<lambda>(i, s). (i, g s)) xs) k = map_option g (map_of xs k)" for xs
    by (induction xs) auto
  ultimately show ?thesis by (simp add: bt_get_def)
qed

text \<open>The index a document has, field by field.\<close>

lemma index_build_Inr:
  "index_build d = Inr ix \<longleftrightarrow> store_ids_ok d \<and> addresses_unique d \<and>
     ai_schemas ix = first_ids (key_groups sch_key sch_id (doc_schemas d)) \<and>
     ai_entities ix = first_ids (key_groups ent_key ent_id (doc_entities d)) \<and>
     (\<forall>i. bt_get (ai_fields ix) i =
        map_option (\<lambda>s. first_ids (key_groups fd_key fd_id (sch_fields s))) (bt_get (doc_schemas d) i))"
proof (cases "store_ids_ok d")
  case True
  note ids = store_ids_okD [OF True]
  obtain u where "check_store_ids d = Inr u" using check_store_ids_iff True by blast
  moreover have "first_duplicate (key_groups sch_key sch_id (doc_schemas d)) = None \<longleftrightarrow>
      unique_keys sch_key (doc_schemas d)"
    by (rule first_duplicate_None) (rule ids(1))
  moreover have "first_duplicate (key_groups ent_key ent_id (doc_entities d)) = None \<longleftrightarrow>
      unique_keys ent_key (doc_entities d)"
    by (rule first_duplicate_None) (rule ids(3))
  moreover have "build_fields (bt_entries (doc_schemas d)) bt_empty = Inr flds \<longleftrightarrow>
      (\<forall>s\<in>set (bt_values (doc_schemas d)). unique_keys fd_key (sch_fields s)) \<and>
      (\<forall>i. bt_get flds i =
        map_option (\<lambda>s. first_ids (key_groups fd_key fd_id (sch_fields s))) (bt_get (doc_schemas d) i))"
    for flds
    using ids(2) by (subst build_fields_Inr)
      (auto simp: bt_get_eq_Some [symmetric] bt_entries_ball bt_values_ball btree_eq_iff
        foldl_insert_entries)
  ultimately show ?thesis using True
    by (auto simp: index_build_def Let_def addresses_unique_def and_then_Inr split: option.splits)
next
  case False
  then have "check_store_ids d \<noteq> Inr u" for u using check_store_ids_iff by blast
  then show ?thesis using False by (simp add: index_build_def and_then_Inr)
qed

section \<open>Round trips\<close>

lemma unique_first_ids:
  assumes "unique_keys key m" "\<And>i x. bt_get m i = Some x \<Longrightarrow> ident x = i"
  shows "bt_get (first_ids (key_groups key ident m)) k = Some i \<longleftrightarrow>
    (\<exists>x. bt_get m i = Some x \<and> key x = k)"
proof -
  have "bt_get (first_ids (key_groups key ident m)) k = Some i \<longleftrightarrow>
      (\<exists>x\<in>set (bt_values m). ident x = i \<and> key x = k)"
    using assms(1) unfolding unique_keys_def by (rule first_ids.lookup_iff)
  also have "\<dots> \<longleftrightarrow> (\<exists>x. bt_get m i = Some x \<and> key x = k)"
    using assms(2) by (force simp: in_bt_values)
  finally show ?thesis .
qed

text \<open>What an address names: the entity with the key, and the field of its schema with the key.\<close>

definition names_field :: "document \<Rightarrow> field_address \<Rightarrow> field_ref \<Rightarrow> bool" where
  "names_field d a r \<longleftrightarrow>
     (\<exists>e s f. bt_get (doc_entities d) (fr_entity r) = Some e \<and>
        bt_get (doc_schemas d) (ent_schema e) = Some s \<and>
        bt_get (sch_fields s) (fr_field r) = Some f \<and>
        a = FieldAddress (ent_key e) (fd_key f))"

lemma resolve_field_iff:
  assumes "index_build d = Inr ix"
  shows "index_resolve_field ix d a = Inr r \<longleftrightarrow> names_field d a r"
proof -
  from assms have ok: "store_ids_ok d" and uniq: "addresses_unique d"
    and ents: "ai_entities ix = first_ids (key_groups ent_key ent_id (doc_entities d))"
    and flds: "\<And>i. bt_get (ai_fields ix) i =
      map_option (\<lambda>s. first_ids (key_groups fd_key fd_id (sch_fields s))) (bt_get (doc_schemas d) i)"
    by (simp_all add: index_build_Inr)
  note ids = store_ids_okD [OF ok]
  have ent: "bt_get (ai_entities ix) k = Some i \<longleftrightarrow>
      (\<exists>e. bt_get (doc_entities d) i = Some e \<and> ent_key e = k)" for k i
    unfolding ents using uniq ids(3) by (intro unique_first_ids) (auto simp: addresses_unique_def)
  have fld: "bt_get (first_ids (key_groups fd_key fd_id (sch_fields s))) k = Some j \<longleftrightarrow>
      (\<exists>f. bt_get (sch_fields s) j = Some f \<and> fd_key f = k)"
    if "bt_get (doc_schemas d) i = Some s" for s i k j
    using that uniq ids(2) [OF that]
    by (intro unique_first_ids) (auto simp: addresses_unique_def in_bt_values)
  show ?thesis
    by (cases a; cases r)
      (auto simp: index_resolve_field_def index_entity_id_def index_field_id_def result_simps ent
        flds fld names_field_def bind_eq_Some_conv)
qed

lemma field_address_iff:
  assumes "index_build d = Inr ix"
  shows "index_field_address ix d r = Inr a \<longleftrightarrow> names_field d a r"
  using resolve_field_iff [OF assms]
  by (auto simp: index_field_address_def Let_def result_simps names_field_def split: if_splits)

text \<open>The mismatch branch is dead: a reference that resolves to its parts resolves to itself.\<close>

lemma names_field_unique:
  assumes "index_build d = Inr ix"
  shows "names_field d a r \<Longrightarrow> names_field d a q \<Longrightarrow> r = q"
    and "names_field d a r \<Longrightarrow> names_field d b r \<Longrightarrow> a = b"
  using resolve_field_iff [OF assms] by (metis sum.inject(2), auto simp: names_field_def)

lemma no_address_mismatch:
  assumes "index_build d = Inr ix"
  shows "index_field_address ix d r \<noteq> Inl (BoundAddressMismatch q)"
proof
  assume mismatch: "index_field_address ix d r = Inl (BoundAddressMismatch q)"
  show False
  proof (cases "\<exists>a. names_field d a r")
    case True
    then show False using mismatch field_address_iff [OF assms] by (metis sum.simps(4))
  next
    case False
    then show False using mismatch
      by (auto simp: index_field_address_def names_field_def ok_or_def and_then_def Let_def
          split: option.splits sum.splits if_splits)
  qed
qed

section \<open>Properties\<close>

text \<open>C31. \<open>AddressIndex::build\<close> succeeds exactly when every stored id is the nested one and no
  two schemas, no two fields of a schema and no two entities share a key.\<close>

theorem index_build_succeeds_iff:
  "(\<exists>ix. index_build d = Inr ix) \<longleftrightarrow> store_ids_ok d \<and> addresses_unique d"
proof
  assume "store_ids_ok d \<and> addresses_unique d"
  then have "index_build d = Inr
      \<lparr>ai_schemas = first_ids (key_groups sch_key sch_id (doc_schemas d)),
       ai_entities = first_ids (key_groups ent_key ent_id (doc_entities d)),
       ai_fields = bt_map (\<lambda>i s. first_ids (key_groups fd_key fd_id (sch_fields s))) (doc_schemas d)\<rparr>"
    unfolding index_build_Inr by simp
  then show "\<exists>ix. index_build d = Inr ix" by blast
qed (auto simp: index_build_Inr)

text \<open>C29. With an index, resolving an address and projecting a reference are inverse: each answers
  the other's argument exactly when the address is the current human name of the reference,
  and the round-trip mismatch error never occurs.\<close>

theorem address_round_trip:
  assumes "index_build d = Inr ix"
  shows "(document_resolve_field d a = Inr r \<longleftrightarrow> names_field d a r) \<and>
    (document_field_address d r = Inr a \<longleftrightarrow> names_field d a r) \<and>
    document_field_address d r \<noteq> Inl (BoundAddressMismatch q)"
  using assms resolve_field_iff field_address_iff no_address_mismatch
  by (simp add: document_resolve_field_def document_field_address_def)

definition sample_entity :: entity where
  "sample_entity =
     \<lparr>ent_id = ''e1'', ent_key = ''row'', ent_schema = ''t'',
      ent_fields = bt_insert ''b'' (VNumber (Number f64_zero)) bt_empty\<rparr>"

definition sample_document :: document where
  "sample_document =
     \<lparr>doc_id = ''d'', doc_title = ''Sheet'', doc_schemas = bt_insert ''t'' sample_schema bt_empty,
      doc_entities = bt_insert ''e1'' sample_entity bt_empty, doc_definitions = bt_empty\<rparr>"

lemmas sample_defs = sample_document_def sample_schema_def sample_entity_def sample_field_def

lemma sample_index: "\<exists>ix. index_build sample_document = Inr ix"
proof -
  have "store_ids_ok sample_document"
    by (simp add: store_ids_ok_def sample_defs bt_entries_eval)
  moreover have "addresses_unique sample_document"
    by (simp add: addresses_unique_def unique_keys_def sample_defs bt_values_def bt_entries_eval)
  ultimately show ?thesis unfolding index_build_Inr
    by (intro exI [of _ "\<lparr>ai_schemas = first_ids (key_groups sch_key sch_id (doc_schemas sample_document)),
       ai_entities = first_ids (key_groups ent_key ent_id (doc_entities sample_document)),
       ai_fields = bt_map (\<lambda>i s. first_ids (key_groups fd_key fd_id (sch_fields s)))
         (doc_schemas sample_document)\<rparr>"]) simp
qed

lemma address_round_trip_witness:
  "document_resolve_field sample_document (FieldAddress ''row'' ''b'') = Inr (FieldRef ''e1'' ''b'')"
proof -
  obtain ix where "index_build sample_document = Inr ix" using sample_index by blast
  from address_round_trip [OF this, of "FieldAddress ''row'' ''b''" "FieldRef ''e1'' ''b''"]
  show ?thesis by (simp add: names_field_def sample_defs)
qed

end
