(* ===== verification/Diagnostics.thy ===== *)
theory Diagnostics
  imports Documents
begin

text \<open>
  The diagnostics of \<open>semantic-core/src/diagnostic.rs\<close>: what a validator says, the stable
  order of its report.  The message text is presentation only and is not modelled; every
  other part of a diagnostic is.
\<close>

datatype semantic_subject =
    SubDocument document_id
  | SubSchema schema_id
  | SubSchemaField schema_id field_id
  | SubEntity entity_id
  | SubEntityField field_ref

text \<open>The derived order: by variant, then by the identifiers.\<close>

fun subject_key :: "semantic_subject \<Rightarrow> nat \<times> string \<times> string" where
  "subject_key (SubDocument d) = (0, d, [])"
| "subject_key (SubSchema s) = (1, s, [])"
| "subject_key (SubSchemaField s f) = (2, s, f)"
| "subject_key (SubEntity e) = (3, e, [])"
| "subject_key (SubEntityField r) = (4, fr_entity r, fr_field r)"

lemma subject_key_inject: "subject_key x = subject_key y \<longleftrightarrow> x = y"
  by (cases x; cases y) (auto simp: field_ref.expand)

instantiation semantic_subject :: linorder
begin

definition less_eq_semantic_subject :: "semantic_subject \<Rightarrow> semantic_subject \<Rightarrow> bool" where
  "less_eq_semantic_subject x y \<longleftrightarrow> subject_key x \<le> subject_key y"

definition less_semantic_subject :: "semantic_subject \<Rightarrow> semantic_subject \<Rightarrow> bool" where
  "less_semantic_subject x y \<longleftrightarrow> subject_key x < subject_key y"

instance
  by standard (auto simp: less_eq_semantic_subject_def less_semantic_subject_def less_le_not_le
      subject_key_inject dest: antisym)

end

datatype diagnostic_severity = SeverityError

type_synonym diagnostic_code = string
type_synonym diagnostic_provider = string
type_synonym diagnostic_fact = "string \<times> string"

record diagnostic =
  diag_code :: diagnostic_code
  diag_severity :: diagnostic_severity
  diag_subjects :: "semantic_subject list"
  diag_related :: "semantic_subject list"
  diag_facts :: "diagnostic_fact list"
  diag_provider :: diagnostic_provider
  diag_path :: string

text \<open>\<open>sort\<close> then \<open>dedup\<close> is the strictly increasing list of the elements.\<close>

definition diagnostic_new ::
    "diagnostic_code \<Rightarrow> diagnostic_severity \<Rightarrow> semantic_subject list \<Rightarrow> diagnostic_provider \<Rightarrow> diagnostic" where
  "diagnostic_new code severity subjects provider =
     \<lparr>diag_code = code, diag_severity = severity, diag_subjects = ord_set subjects,
      diag_related = [], diag_facts = [], diag_provider = provider, diag_path = []\<rparr>"

definition with_related :: "semantic_subject list \<Rightarrow> diagnostic \<Rightarrow> diagnostic" where
  "with_related subjects d = d\<lparr>diag_related := ord_set subjects\<rparr>"

definition with_fact :: "diagnostic_fact \<Rightarrow> diagnostic \<Rightarrow> diagnostic" where
  "with_fact f d = d\<lparr>diag_facts := ord_set (diag_facts d @ [f])\<rparr>"

definition with_path :: "string \<Rightarrow> diagnostic \<Rightarrow> diagnostic" where
  "with_path path d = d\<lparr>diag_path := path\<rparr>"

text \<open>
  The stable observation, the derived order of its parts, then the location.  Severity
  has one value and does not discriminate.
\<close>

type_synonym observation_key =
  "diagnostic_code \<times> semantic_subject list \<times> semantic_subject list \<times> diagnostic_fact list \<times>
   diagnostic_provider \<times> string"

definition diagnostic_key :: "diagnostic \<Rightarrow> observation_key" where
  "diagnostic_key d =
     (diag_code d, diag_subjects d, diag_related d, diag_facts d, diag_provider d, diag_path d)"

definition sort_diagnostics :: "diagnostic list \<Rightarrow> diagnostic list" where
  "sort_diagnostics ds = sort_key diagnostic_key ds"

lemma sort_diagnostics_Nil [simp]: "sort_diagnostics ds = [] \<longleftrightarrow> ds = []"
  unfolding sort_diagnostics_def by (metis set_empty2 set_sort sort_key_simps(1))

lemma set_sort_diagnostics [simp]: "set (sort_diagnostics ds) = set ds"
  by (simp add: sort_diagnostics_def)

lemma sorted_sort_diagnostics: "sorted (map diagnostic_key (sort_diagnostics ds))"
  by (simp add: sort_diagnostics_def)

lemma diagnostic_key_inject: "diagnostic_key d = diagnostic_key e \<longleftrightarrow> d = e"
proof -
  have "diag_severity d = diag_severity e" by (metis diagnostic_severity.exhaust)
  then show ?thesis by (auto simp: diagnostic_key_def intro: diagnostic.equality)
qed

text \<open>So the report of the same findings is the same whatever order they were found in.\<close>

lemma sort_diagnostics_perm: "mset ds = mset es \<Longrightarrow> sort_diagnostics ds = sort_diagnostics es"
  unfolding sort_diagnostics_def
  by (rule sort_key_inj_key_eq) (auto simp: inj_on_def diagnostic_key_inject)

text \<open>Every diagnostic a builder makes carries its subjects, related subjects and facts in order.\<close>

definition canonical_diagnostic :: "diagnostic \<Rightarrow> bool" where
  "canonical_diagnostic d \<longleftrightarrow>
     sorted_wrt (<) (diag_subjects d) \<and> sorted_wrt (<) (diag_related d) \<and>
     sorted_wrt (<) (diag_facts d)"

lemma canonical_builders [simp]:
  "canonical_diagnostic (diagnostic_new c s subs p)"
  "canonical_diagnostic d \<Longrightarrow> canonical_diagnostic (with_related subs d)"
  "canonical_diagnostic d \<Longrightarrow> canonical_diagnostic (with_fact f d)"
  "canonical_diagnostic d \<Longrightarrow> canonical_diagnostic (with_path p d)"
  by (simp_all add: canonical_diagnostic_def diagnostic_new_def with_related_def with_fact_def
      with_path_def)

end
