(* ===== verification/Validation.thy ===== *)
theory Validation
  imports Diagnostics Names Addresses
begin

text \<open>
  The document validator of \<open>semantic-core/src/validation.rs\<close>, check by check, each
  returning the diagnostics it pushes, and the declarative rules an accepted document
  satisfies.
\<close>

section \<open>Codes\<close>

definition core_provider :: diagnostic_provider where
  "core_provider = ''tachiko.semantic-core''"

abbreviation "code_empty_stable_id \<equiv> ''core.empty_stable_id''"
abbreviation "code_empty_key \<equiv> ''core.empty_key''"
abbreviation "code_invalid_field_order \<equiv> ''core.invalid_field_order''"
abbreviation "code_invalid_key \<equiv> ''core.invalid_key''"
abbreviation "code_duplicate_key \<equiv> ''core.duplicate_key''"
abbreviation "code_empty_title \<equiv> ''core.empty_title''"
abbreviation "code_empty_display_name \<equiv> ''core.empty_display_name''"
abbreviation "code_display_name_too_long \<equiv> ''core.display_name_too_long''"
abbreviation "code_forbidden_display_name_scalar \<equiv> ''core.forbidden_display_name_scalar''"
abbreviation "code_untrimmed_display_name \<equiv> ''core.untrimmed_display_name''"
abbreviation "code_duplicate_display_name \<equiv> ''core.duplicate_display_name''"
abbreviation "code_key_mismatch \<equiv> ''core.key_mismatch''"
abbreviation "code_missing_schema \<equiv> ''core.missing_schema''"
abbreviation "code_missing_required_field \<equiv> ''core.missing_required_field''"
abbreviation "code_unexpected_field \<equiv> ''core.unexpected_field''"
abbreviation "code_type_mismatch \<equiv> ''core.type_mismatch''"
abbreviation "code_missing_reference \<equiv> ''core.missing_reference''"
abbreviation "code_reference_type_mismatch \<equiv> ''core.reference_type_mismatch''"
abbreviation "code_missing_formula_reference \<equiv> ''core.missing_formula_reference''"
abbreviation "code_formula_reference_type_mismatch \<equiv> ''core.formula_reference_type_mismatch''"
abbreviation "code_field_constraint_declaration \<equiv> ''core.field_constraint_declaration''"
abbreviation "code_field_value_constraint_mismatch \<equiv> ''core.field_value_constraint_mismatch''"
abbreviation "code_number_format_declaration \<equiv> ''core.field_number_format_declaration''"

definition core_diagnostic :: "string \<Rightarrow> diagnostic_code \<Rightarrow> semantic_subject list \<Rightarrow> diagnostic" where
  "core_diagnostic path code subjects =
     with_path path (diagnostic_new code SeverityError subjects core_provider)"

definition key_mismatch_diagnostic ::
    "string \<Rightarrow> semantic_subject list \<Rightarrow> string \<Rightarrow> string \<Rightarrow> diagnostic" where
  "key_mismatch_diagnostic path subjects store_id declared_id =
     with_fact (''declared_id'', declared_id)
       (with_fact (''store_id'', store_id) (core_diagnostic path code_key_mismatch subjects))"

section \<open>Keys and names\<close>

definition is_identifier_char :: "char \<Rightarrow> bool" where
  "is_identifier_char c \<longleftrightarrow>
     is_ascii_lowercase c \<or> is_ascii_digit c \<or> c = CHR ''_'' \<or> c = CHR ''-''"

text \<open>
  The source iterates scalars; every scalar it admits is one byte, and no byte of a longer
  scalar is admitted.
\<close>

definition is_valid_identifier :: "string \<Rightarrow> bool" where
  "is_valid_identifier s =
     (case s of [] \<Rightarrow> False
      | c # cs \<Rightarrow> (is_ascii_lowercase c \<or> is_ascii_digit c) \<and> list_all is_identifier_char cs)"

definition validate_stable_id :: "string \<Rightarrow> string \<Rightarrow> semantic_subject \<Rightarrow> diagnostic list" where
  "validate_stable_id v path subject =
     (if v = [] then [core_diagnostic path code_empty_stable_id [subject]] else [])"

definition validate_human_key :: "string \<Rightarrow> string \<Rightarrow> semantic_subject \<Rightarrow> diagnostic list" where
  "validate_human_key v path subject =
     (if v = [] then [core_diagnostic path code_empty_key [subject]]
      else if \<not> is_valid_identifier v then [core_diagnostic path code_invalid_key [subject]]
      else [])"

fun display_name_code :: "display_name_failure \<Rightarrow> diagnostic_code" where
  "display_name_code NameEmpty = code_empty_display_name"
| "display_name_code NameTooLong = code_display_name_too_long"
| "display_name_code NameForbiddenScalar = code_forbidden_display_name_scalar"
| "display_name_code NameUntrimmed = code_untrimmed_display_name"

text \<open>The admitted name, if any, and what is wrong with the stored one.\<close>

definition admitted_effective_name ::
    "string option \<Rightarrow> string \<Rightarrow> semantic_subject \<Rightarrow> string option \<times> diagnostic list" where
  "admitted_effective_name stored key subject =
     (case stored of
        None \<Rightarrow> (if is_valid_identifier key then Some key else None, [])
      | Some name \<Rightarrow>
          let failures = display_name_failures name in
          (if failures = [] then Some name else None,
           map (\<lambda>f. with_fact (''reason'', display_name_reason f)
                  (core_diagnostic ''display_name'' (display_name_code f) [subject])) failures))"

definition duplicate_names :: "(string, semantic_subject list) btree \<Rightarrow> diagnostic list" where
  "duplicate_names names =
     map (\<lambda>(name, subjects). with_fact (''effective_name'', name)
            (with_related subjects
              (core_diagnostic ''display_name'' code_duplicate_display_name subjects)))
       (filter (\<lambda>(name, subjects). 1 < length subjects) (bt_entries names))"

definition push_name ::
    "string option \<Rightarrow> semantic_subject \<Rightarrow> (string, semantic_subject list) btree \<Rightarrow>
     (string, semantic_subject list) btree" where
  "push_name name subject names =
     (case name of None \<Rightarrow> names | Some n \<Rightarrow> bt_push n subject names)"

fun column_names ::
    "schema_id \<Rightarrow> (field_id \<times> field_definition) list \<Rightarrow> (string, semantic_subject list) btree \<Rightarrow>
     (string, semantic_subject list) btree \<times> diagnostic list" where
  "column_names schema_id [] columns = (columns, [])"
| "column_names schema_id ((field_id, f) # rest) columns =
     (let subject = SubSchemaField schema_id field_id in
      case admitted_effective_name (fd_display_name f) (fd_key f) subject of (name, ds) \<Rightarrow>
      case column_names schema_id rest (push_name name subject columns) of (columns', ds') \<Rightarrow>
        (columns', ds @ ds'))"

fun validate_names_loop ::
    "(schema_id \<times> schema) list \<Rightarrow> (string, semantic_subject list) btree \<Rightarrow> diagnostic list" where
  "validate_names_loop [] tables = duplicate_names tables"
| "validate_names_loop ((schema_id, s) # rest) tables =
     (let subject = SubSchema schema_id in
      case admitted_effective_name (sch_display_name s) (sch_key s) subject of (name, ds) \<Rightarrow>
      case column_names schema_id (bt_entries (sch_fields s)) bt_empty of (columns, ds') \<Rightarrow>
        ds @ ds' @ duplicate_names columns @
        validate_names_loop rest (push_name name subject tables))"

definition validate_names :: "document \<Rightarrow> diagnostic list" where
  "validate_names d = validate_names_loop (bt_entries (doc_schemas d)) bt_empty"

section \<open>Duplicate keys\<close>

definition stored_key_groups ::
    "('o \<Rightarrow> 'k::linorder) \<Rightarrow> ('i::linorder, 'o) btree \<Rightarrow> ('k, 'i list) btree" where
  "stored_key_groups key m = bt_group (\<lambda>e. key (snd e)) fst (bt_entries m)"

definition duplicated :: "('k::linorder, 'i list) btree \<Rightarrow> ('k \<times> 'i list) list" where
  "duplicated groups = filter (\<lambda>(k, ids). 1 < length ids) (bt_entries groups)"

definition validate_schema_keys :: "document \<Rightarrow> diagnostic list" where
  "validate_schema_keys d =
     map (\<lambda>(key, ids). core_diagnostic (''schema_keys.'' @ key) code_duplicate_key (map SubSchema ids))
       (duplicated (stored_key_groups sch_key (doc_schemas d)))"

text \<open>
  The entity groups keep the first id apart from the later ones:
  \<open>and_modify(|(_, duplicates)| duplicates.push(id)).or_insert((id, vec![]))\<close>.
\<close>

definition group_first_rest ::
    "('o \<Rightarrow> 'k::linorder) \<Rightarrow> ('i::linorder, 'o) btree \<Rightarrow> ('k, 'i \<times> 'i list) btree" where
  "group_first_rest key m =
     foldl (\<lambda>groups (i, x). bt_insert (key x)
         (case bt_get groups (key x) of None \<Rightarrow> (i, []) | Some (first, dups) \<Rightarrow> (first, dups @ [i]))
         groups) bt_empty (bt_entries m)"

definition validate_entity_keys :: "document \<Rightarrow> diagnostic list" where
  "validate_entity_keys d =
     map (\<lambda>(key, first, dups).
            core_diagnostic (''entity_keys.'' @ key) code_duplicate_key (map SubEntity (first # dups)))
       (filter (\<lambda>(key, first, dups). dups \<noteq> [])
         (bt_entries (group_first_rest ent_key (doc_entities d))))"

definition validate_field_keys :: "schema_id \<Rightarrow> schema \<Rightarrow> string \<Rightarrow> diagnostic list" where
  "validate_field_keys schema_id s path =
     map (\<lambda>(key, ids). core_diagnostic (path @ ''.field_keys.'' @ key) code_duplicate_key
            (map (SubSchemaField schema_id) ids))
       (duplicated (stored_key_groups fd_key (sch_fields s)))"

section \<open>Schemas\<close>

definition constraint_invalid :: "field_type \<Rightarrow> field_constraint \<Rightarrow> bool" where
  "constraint_invalid ty c =
     (case (ty, c) of
        (_, ConstraintNone) \<Rightarrow> False
      | (TText, TextLiteralSet vs) \<Rightarrow>
          vs = [] \<or> 256 < length vs \<or> list_ex (\<lambda>v. 1024 < length v) vs \<or>
          65536 < sum_list (map length vs) \<or>
          list_ex (\<lambda>(a, b). b \<le> a) (zip vs (tl vs))
      | (TNumber, NumberInclusiveRange lo hi) \<Rightarrow> hi < lo
      | _ \<Rightarrow> True)"

definition validate_field_constraint ::
    "field_definition \<Rightarrow> string \<Rightarrow> semantic_subject \<Rightarrow> diagnostic list" where
  "validate_field_constraint f path subject =
     (case fd_number_format f of
        None \<Rightarrow> []
      | Some nf \<Rightarrow>
          (case number_format_validate_for nf (fd_type f) of
             Inl e \<Rightarrow> [core_diagnostic (path @ ''.number_format'') code_number_format_declaration [subject]]
           | Inr u \<Rightarrow> [])) @
     (if constraint_invalid (fd_type f) (fd_constraint f)
      then [core_diagnostic (path @ ''.constraint'') code_field_constraint_declaration [subject]]
      else [])"

text \<open>\<open>order.iter().all(|id| fields.contains_key(id) && seen.insert(id))\<close>\<close>

fun all_fresh :: "('i \<Rightarrow> bool) \<Rightarrow> 'i list \<Rightarrow> 'i set \<Rightarrow> bool" where
  "all_fresh known [] seen = True"
| "all_fresh known (i # ids) seen =
     (known i \<and> i \<notin> seen \<and> all_fresh known ids (insert i seen))"

definition validate_field_order :: "schema \<Rightarrow> string \<Rightarrow> diagnostic list" where
  "validate_field_order s path =
     (case sch_field_order s of
        None \<Rightarrow> []
      | Some order \<Rightarrow>
          if length order = length (bt_keys (sch_fields s)) \<and>
             all_fresh (bt_contains (sch_fields s)) order {}
          then []
          else [core_diagnostic (path @ ''.field_order'') code_invalid_field_order
                  [SubSchema (sch_id s)]])"

definition validate_field_definition ::
    "document \<Rightarrow> schema_id \<Rightarrow> string \<Rightarrow> field_id \<Rightarrow> field_definition \<Rightarrow> diagnostic list" where
  "validate_field_definition d schema_id schema_path field_id f =
     (let path = schema_path @ ''.fields.'' @ field_id; subject = SubSchemaField schema_id field_id in
      (if field_id \<noteq> fd_id f
       then [key_mismatch_diagnostic (path @ ''.id'')
               [subject, SubSchemaField schema_id (fd_id f)] field_id (fd_id f)]
       else []) @
      validate_stable_id (fd_id f) (path @ ''.id'') subject @
      validate_human_key (fd_key f) (path @ ''.key'') subject @
      validate_field_constraint f path subject @
      (case fd_type f of
         TReference target \<Rightarrow>
           if bt_contains (doc_schemas d) target then []
           else [with_related [SubSchema target]
                  (core_diagnostic (path @ ''.field_type.schema'') code_missing_schema [subject])]
       | _ \<Rightarrow> []))"

definition validate_schema :: "document \<Rightarrow> schema_id \<Rightarrow> schema \<Rightarrow> diagnostic list" where
  "validate_schema d schema_id s =
     (let path = ''schemas.'' @ schema_id; subject = SubSchema schema_id in
      validate_field_order s path @
      (if schema_id \<noteq> sch_id s
       then [key_mismatch_diagnostic (path @ ''.id'') [subject, SubSchema (sch_id s)]
               schema_id (sch_id s)]
       else []) @
      validate_stable_id (sch_id s) (path @ ''.id'') subject @
      validate_human_key (sch_key s) (path @ ''.key'') subject @
      validate_field_keys schema_id s path @
      concat (map (\<lambda>(field_id, f). validate_field_definition d schema_id path field_id f)
        (bt_entries (sch_fields s))))"

definition validate_schemas :: "document \<Rightarrow> diagnostic list" where
  "validate_schemas d =
     concat (map (\<lambda>(schema_id, s). validate_schema d schema_id s) (bt_entries (doc_schemas d)))"

section \<open>Formulas\<close>

definition max_conditional_criteria :: nat where
  "max_conditional_criteria = 16"

fun field_type_name :: "field_type \<Rightarrow> string" where
  "field_type_name TNumber = ''number''"
| "field_type_name TText = ''text''"
| "field_type_name TBoolean = ''boolean''"
| "field_type_name TDate = ''date''"
| "field_type_name (TReference s) = ''reference''"

fun value_type_name :: "val \<Rightarrow> string" where
  "value_type_name (VNumber n) = ''number''"
| "value_type_name (VText t) = ''text''"
| "value_type_name (VBoolean b) = ''boolean''"
| "value_type_name (VDate d) = ''date''"
| "value_type_name (VReference e) = ''reference''"
| "value_type_name (VFormula e) = ''formula''"

definition validate_formula_reference ::
    "document \<Rightarrow> field_ref \<Rightarrow> field_ref \<Rightarrow> bool \<Rightarrow> string \<Rightarrow> diagnostic list" where
  "validate_formula_reference d owner r numeric path =
     (case bt_get (doc_entities d) (fr_entity r) of
        None \<Rightarrow> [with_related [SubEntityField r]
                   (core_diagnostic path code_missing_formula_reference [SubEntityField owner])]
      | Some e \<Rightarrow>
     (case bt_get (doc_schemas d) (ent_schema e) of
        None \<Rightarrow> [with_related [SubEntityField r, SubSchema (ent_schema e)]
                   (core_diagnostic path code_missing_formula_reference [SubEntityField owner])]
      | Some s \<Rightarrow>
     (case bt_get (sch_fields s) (fr_field r) of
        None \<Rightarrow> [with_related [SubEntityField r]
                   (core_diagnostic path code_missing_formula_reference [SubEntityField owner])]
      | Some f \<Rightarrow>
          if numeric \<and> fd_type f \<noteq> TNumber
          then [with_fact (''actual_kind'', field_type_name (fd_type f))
                 (with_fact (''expected_kind'', ''number'')
                   (with_related [SubEntityField r]
                     (core_diagnostic path code_formula_reference_type_mismatch
                       [SubEntityField owner])))]
          else [])))"

definition validate_formula_column ::
    "document \<Rightarrow> field_ref \<Rightarrow> column_ref \<Rightarrow> string \<Rightarrow> diagnostic list" where
  "validate_formula_column d owner c path =
     (let subject = SubSchemaField (cr_schema c) (cr_field c) in
      case bt_get (doc_schemas d) (cr_schema c) of
        None \<Rightarrow> [with_related [subject]
                   (core_diagnostic path code_missing_formula_reference [SubEntityField owner])]
      | Some s \<Rightarrow>
     (case bt_get (sch_fields s) (cr_field c) of
        None \<Rightarrow> [with_related [subject]
                   (core_diagnostic path code_missing_formula_reference [SubEntityField owner])]
      | Some f \<Rightarrow>
          if fd_type f \<noteq> TNumber
          then [with_fact (''actual_kind'', field_type_name (fd_type f))
                 (with_fact (''expected_kind'', ''number'')
                   (with_related [subject]
                     (core_diagnostic path code_formula_reference_type_mismatch
                       [SubEntityField owner])))]
          else []))"

definition validate_formula_scalar_column ::
    "document \<Rightarrow> field_ref \<Rightarrow> column_ref \<Rightarrow> string \<Rightarrow> diagnostic list" where
  "validate_formula_scalar_column d owner c path =
     (case Option.bind (bt_get (doc_schemas d) (cr_schema c)) (\<lambda>s. bt_get (sch_fields s) (cr_field c)) of
        None \<Rightarrow> validate_formula_column d owner c path
      | Some f \<Rightarrow>
          (case fd_type f of
             TReference t \<Rightarrow>
               [with_fact (''actual_kind'', ''reference'')
                 (with_related [SubSchemaField (cr_schema c) (cr_field c)]
                   (core_diagnostic path code_formula_reference_type_mismatch [SubEntityField owner]))]
           | _ \<Rightarrow> []))"

definition criterion_value_valid :: "comparison_operator \<Rightarrow> expression option \<Rightarrow> bool" where
  "criterion_value_valid p v =
     (case v of
        None \<Rightarrow> p = CmpEqual \<or> p = CmpNotEqual
      | Some (ENumber n) \<Rightarrow> True
      | Some e \<Rightarrow> p = CmpEqual \<and> (is_bare_reference e \<or> infer_type e = Some TypeNumber))"

fun join_comma :: "string list \<Rightarrow> string" where
  "join_comma [] = []"
| "join_comma [s] = s"
| "join_comma (s # t # r) = s @ '','' @ join_comma (t # r)"

definition validate_criterion ::
    "document \<Rightarrow> field_ref \<Rightarrow> column_criterion \<Rightarrow> string \<Rightarrow> diagnostic list" where
  "validate_criterion d owner c path =
     validate_formula_scalar_column d owner (cc_column c) path @
     (if criterion_value_valid (cc_operator c) (cc_value c) then []
      else [core_diagnostic path code_formula_reference_type_mismatch [SubEntityField owner]])"

definition validate_column_conditional ::
    "document \<Rightarrow> field_ref \<Rightarrow> conditional_aggregate \<Rightarrow> column_criterion list \<Rightarrow> string \<Rightarrow>
     diagnostic list" where
  "validate_column_conditional d owner a criteria path =
     (let mismatch = core_diagnostic path code_formula_reference_type_mismatch [SubEntityField owner];
          schemas = ord_set (map cr_schema (value_column a) @ map (cr_schema \<circ> cc_column) criteria) in
      concat (map (\<lambda>c. validate_formula_column d owner c path) (value_column a)) @
      (if criteria = [] then [mismatch] else []) @
      (if max_conditional_criteria < length criteria then [mismatch] else []) @
      concat (map (\<lambda>c. validate_criterion d owner c path) criteria) @
      (if 1 < length schemas then [with_fact (''schemas'', join_comma schemas) mismatch] else []))"

definition validate_node :: "document \<Rightarrow> field_ref \<Rightarrow> string \<Rightarrow> expression \<Rightarrow> diagnostic list" where
  "validate_node d owner path e =
     (case e of
        EColumnTotal c \<Rightarrow> validate_formula_column d owner c path
      | EColumnAggregate g c \<Rightarrow> validate_formula_column d owner c path
      | EColumnConditional a criteria \<Rightarrow> validate_column_conditional d owner a criteria path
      | _ \<Rightarrow> [])"

function validate_nodes_loop ::
    "document \<Rightarrow> field_ref \<Rightarrow> string \<Rightarrow> expression list \<Rightarrow> diagnostic list \<Rightarrow> diagnostic list" where
  "validate_nodes_loop d owner path [] acc = acc"
| "validate_nodes_loop d owner path (node # pending) acc =
     validate_nodes_loop d owner path (rev (children node) @ pending)
       (acc @ validate_node d owner path node)"
  by pat_completeness auto
termination
  by (relation "measure (\<lambda>(d, owner, path, pending, acc). forest_count pending)")
    (auto simp: node_count_children)

definition validate_expression ::
    "document \<Rightarrow> field_ref \<Rightarrow> expression \<Rightarrow> string \<Rightarrow> diagnostic list" where
  "validate_expression d owner e path =
     concat (map (\<lambda>(r, numeric). validate_formula_reference d owner r numeric path)
       (reference_uses e owner)) @
     validate_nodes_loop d owner path [e] []"

section \<open>Values and entities\<close>

definition violates_constraint :: "field_constraint \<Rightarrow> val \<Rightarrow> bool" where
  "violates_constraint c v =
     (case (c, v) of
        (TextLiteralSet vs, VText t) \<Rightarrow> \<not> list_ex (\<lambda>a. a = t) vs
      | (NumberInclusiveRange lo hi, VNumber n) \<Rightarrow> n < lo \<or> hi < n
      | _ \<Rightarrow> False)"

definition validate_stored_value_constraint ::
    "field_constraint \<Rightarrow> val \<Rightarrow> field_ref \<Rightarrow> string \<Rightarrow> diagnostic list" where
  "validate_stored_value_constraint c v field path =
     (if violates_constraint c v
      then [core_diagnostic path code_field_value_constraint_mismatch [SubEntityField field]]
      else [])"

definition validate_reference_value ::
    "document \<Rightarrow> field_ref \<Rightarrow> schema_id \<Rightarrow> entity_id \<Rightarrow> string \<Rightarrow> diagnostic list" where
  "validate_reference_value d field schema_id entity_id path =
     (case bt_get (doc_entities d) entity_id of
        None \<Rightarrow> [with_related [SubEntity entity_id]
                   (core_diagnostic path code_missing_reference [SubEntityField field])]
      | Some target \<Rightarrow>
          if ent_schema target \<noteq> schema_id
          then [with_fact (''actual_schema'', ent_schema target)
                 (with_fact (''expected_schema'', schema_id)
                   (with_related [SubEntity entity_id]
                     (core_diagnostic path code_reference_type_mismatch [SubEntityField field])))]
          else [])"

text \<open>A missing reference target returns before the constraint check.\<close>

definition validate_value ::
    "document \<Rightarrow> field_ref \<Rightarrow> val \<Rightarrow> field_type \<Rightarrow> field_constraint \<Rightarrow> string \<Rightarrow> bool \<Rightarrow>
     diagnostic list" where
  "validate_value d field v expected c path formulas =
     (let stored = validate_stored_value_constraint c v field path in
      case (expected, v) of
        (TNumber, VNumber n) \<Rightarrow> stored
      | (TText, VText t) \<Rightarrow> stored
      | (TBoolean, VBoolean b) \<Rightarrow> stored
      | (TDate, VDate x) \<Rightarrow> stored
      | (TNumber, VFormula e) \<Rightarrow>
          (if formulas then validate_expression d field e path else []) @ stored
      | (TReference schema_id, VReference entity_id) \<Rightarrow>
          (case bt_get (doc_entities d) entity_id of
             None \<Rightarrow> validate_reference_value d field schema_id entity_id path
           | Some target \<Rightarrow> validate_reference_value d field schema_id entity_id path @ stored)
      | _ \<Rightarrow>
          [with_fact (''actual_kind'', value_type_name v)
            (with_fact (''expected_kind'', field_type_name expected)
              (core_diagnostic path code_type_mismatch [SubEntityField field]))] @ stored)"

definition validate_required_fields :: "schema \<Rightarrow> entity_id \<Rightarrow> entity \<Rightarrow> diagnostic list" where
  "validate_required_fields s entity_id e =
     map (\<lambda>(field, f). core_diagnostic (''entities.'' @ entity_id @ ''.fields.'' @ field)
            code_missing_required_field [SubEntityField (FieldRef entity_id field)])
       (filter (\<lambda>(field, f). fd_required f \<and> \<not> bt_contains (ent_fields e) field)
         (bt_entries (sch_fields s)))"

definition validate_entity_field ::
    "document \<Rightarrow> schema \<Rightarrow> entity_id \<Rightarrow> bool \<Rightarrow> field_id \<times> val \<Rightarrow> diagnostic list" where
  "validate_entity_field d s entity_id formulas fv =
     (case fv of (field, v) \<Rightarrow>
      let path = ''entities.'' @ entity_id @ ''.fields.'' @ field; r = FieldRef entity_id field in
      case bt_get (sch_fields s) field of
        None \<Rightarrow> [with_related [SubSchemaField (sch_id s) field]
                   (core_diagnostic path code_unexpected_field [SubEntityField r])]
      | Some f \<Rightarrow> validate_value d r v (fd_type f) (fd_constraint f) path formulas)"

definition validate_entity :: "document \<Rightarrow> bool \<Rightarrow> entity_id \<Rightarrow> entity \<Rightarrow> diagnostic list" where
  "validate_entity d formulas entity_id e =
     (let path = ''entities.'' @ entity_id; subject = SubEntity entity_id in
      (if entity_id \<noteq> ent_id e
       then [key_mismatch_diagnostic (path @ ''.id'') [subject, SubEntity (ent_id e)]
               entity_id (ent_id e)]
       else []) @
      validate_stable_id (ent_id e) (path @ ''.id'') subject @
      validate_human_key (ent_key e) (path @ ''.key'') subject @
      (case bt_get (doc_schemas d) (ent_schema e) of
         None \<Rightarrow> [with_related [SubSchema (ent_schema e)]
                    (core_diagnostic (path @ ''.schema'') code_missing_schema [subject])]
       | Some s \<Rightarrow>
           validate_required_fields s entity_id e @
           concat (map (validate_entity_field d s entity_id formulas) (bt_entries (ent_fields e)))))"

definition validate_entities :: "document \<Rightarrow> bool \<Rightarrow> diagnostic list" where
  "validate_entities d formulas =
     concat (map (\<lambda>(entity_id, e). validate_entity d formulas entity_id e) (bt_entries (doc_entities d)))"

section \<open>The validator\<close>

definition validate_document_internal :: "document \<Rightarrow> bool \<Rightarrow> diagnostic list" where
  "validate_document_internal d formulas =
     sort_diagnostics
       (validate_stable_id (doc_id d) ''id'' (SubDocument (doc_id d)) @
        (if str_trim (doc_title d) = []
         then [core_diagnostic ''title'' code_empty_title [SubDocument (doc_id d)]] else []) @
        validate_schema_keys d @ validate_entity_keys d @ validate_schemas d @ validate_names d @
        validate_entities d formulas)"

definition validate_document :: "document \<Rightarrow> diagnostic list" where
  "validate_document d = validate_document_internal d True"

definition validate_document_core :: "document \<Rightarrow> diagnostic list" where
  "validate_document_core d = validate_document_internal d False"

definition formula_constraint_check ::
    "(field_ref, number) btree \<Rightarrow> schema \<Rightarrow> entity_id \<Rightarrow> field_id \<times> val \<Rightarrow> diagnostic list" where
  "formula_constraint_check values s entity_id fv =
     (case fv of (field_id, v) \<Rightarrow>
      case (bt_get (sch_fields s) field_id, v) of
        (Some f, VFormula e) \<Rightarrow>
          (let field = FieldRef entity_id field_id in
           case (fd_constraint f, bt_get values field) of
             (NumberInclusiveRange lo hi, Some n) \<Rightarrow>
               if n < lo \<or> hi < n
               then [core_diagnostic (''entities.'' @ entity_id @ ''.fields.'' @ field_id)
                       code_field_value_constraint_mismatch [SubEntityField field]]
               else []
           | _ \<Rightarrow> [])
      | _ \<Rightarrow> [])"

definition validate_complete_formula_constraints ::
    "document \<Rightarrow> (field_ref, number) btree \<Rightarrow> diagnostic list" where
  "validate_complete_formula_constraints d values =
     sort_diagnostics (concat (map (\<lambda>(entity_id, e).
         case bt_get (doc_schemas d) (ent_schema e) of
           None \<Rightarrow> []
         | Some s \<Rightarrow> concat (map (formula_constraint_check values s entity_id)
             (bt_entries (ent_fields e))))
       (bt_entries (doc_entities d))))"

section \<open>The rules of an accepted document\<close>

named_theorems accepts \<open>when a check has nothing to report\<close>

definition distinct_keys :: "('o \<Rightarrow> 'k) \<Rightarrow> ('i::linorder, 'o) btree \<Rightarrow> bool" where
  "distinct_keys key m \<longleftrightarrow>
     (\<forall>i j x y. bt_get m i = Some x \<and> bt_get m j = Some y \<and> key x = key y \<longrightarrow> i = j)"

definition constraint_ok :: "field_type \<Rightarrow> field_constraint \<Rightarrow> bool" where
  "constraint_ok ty c \<longleftrightarrow>
     (case c of
        ConstraintNone \<Rightarrow> True
      | TextLiteralSet vs \<Rightarrow>
          ty = TText \<and> vs \<noteq> [] \<and> length vs \<le> 256 \<and> (\<forall>v\<in>set vs. length v \<le> 1024) \<and>
          sum_list (map length vs) \<le> 65536 \<and> sorted_wrt (<) vs
      | NumberInclusiveRange lo hi \<Rightarrow> ty = TNumber \<and> lo \<le> hi)"

definition number_format_ok :: "field_type \<Rightarrow> number_format \<Rightarrow> bool" where
  "number_format_ok ty nf \<longleftrightarrow>
     ty = TNumber \<and> nf_decimals nf \<le> 10 \<and>
     (\<forall>code. nf_kind nf = FormatCurrency code \<longrightarrow>
        length code = 3 \<and> (\<forall>c\<in>set code. is_ascii_uppercase c))"

definition stored_name_ok :: "string option \<Rightarrow> bool" where
  "stored_name_ok name \<longleftrightarrow> (\<forall>n. name = Some n \<longrightarrow> display_name_failures n = [])"

definition field_definition_ok :: "document \<Rightarrow> field_id \<Rightarrow> field_definition \<Rightarrow> bool" where
  "field_definition_ok d i f \<longleftrightarrow>
     fd_id f = i \<and> i \<noteq> [] \<and> is_valid_identifier (fd_key f) \<and>
     (\<forall>nf. fd_number_format f = Some nf \<longrightarrow> number_format_ok (fd_type f) nf) \<and>
     constraint_ok (fd_type f) (fd_constraint f) \<and>
     (\<forall>t. fd_type f = TReference t \<longrightarrow> bt_get (doc_schemas d) t \<noteq> None)"

definition schema_ok :: "document \<Rightarrow> schema_id \<Rightarrow> schema \<Rightarrow> bool" where
  "schema_ok d i s \<longleftrightarrow>
     sch_id s = i \<and> i \<noteq> [] \<and> is_valid_identifier (sch_key s) \<and> field_order_ok s \<and>
     distinct_keys fd_key (sch_fields s) \<and>
     (\<forall>j f. bt_get (sch_fields s) j = Some f \<longrightarrow> field_definition_ok d j f)"

definition names_ok :: "document \<Rightarrow> bool" where
  "names_ok d \<longleftrightarrow>
     (\<forall>i s. bt_get (doc_schemas d) i = Some s \<longrightarrow> stored_name_ok (sch_display_name s) \<and>
        (\<forall>j f. bt_get (sch_fields s) j = Some f \<longrightarrow> stored_name_ok (fd_display_name f)) \<and>
        distinct_keys field_effective_name (sch_fields s)) \<and>
     distinct_keys schema_effective_name (doc_schemas d)"

definition reference_ok :: "document \<Rightarrow> field_ref \<Rightarrow> bool \<Rightarrow> bool" where
  "reference_ok d r numeric \<longleftrightarrow>
     (\<exists>e s f. bt_get (doc_entities d) (fr_entity r) = Some e \<and>
        bt_get (doc_schemas d) (ent_schema e) = Some s \<and>
        bt_get (sch_fields s) (fr_field r) = Some f \<and> (numeric \<longrightarrow> fd_type f = TNumber))"

definition column_type :: "document \<Rightarrow> column_ref \<Rightarrow> field_type option" where
  "column_type d c =
     Option.bind (bt_get (doc_schemas d) (cr_schema c))
       (\<lambda>s. map_option fd_type (bt_get (sch_fields s) (cr_field c)))"

definition numeric_column :: "document \<Rightarrow> column_ref \<Rightarrow> bool" where
  "numeric_column d c \<longleftrightarrow> column_type d c = Some TNumber"

definition scalar_column :: "document \<Rightarrow> column_ref \<Rightarrow> bool" where
  "scalar_column d c \<longleftrightarrow>
     (\<exists>ty. column_type d c = Some ty \<and> (\<forall>t. ty \<noteq> TReference t))"

definition node_ok :: "document \<Rightarrow> expression \<Rightarrow> bool" where
  "node_ok d e \<longleftrightarrow>
     (\<forall>c\<in>set (own_numeric_columns e). numeric_column d c) \<and>
     (\<forall>a criteria. e = EColumnConditional a criteria \<longrightarrow>
        criteria \<noteq> [] \<and> length criteria \<le> max_conditional_criteria \<and>
        (\<forall>c\<in>set criteria. scalar_column d (cc_column c) \<and>
           criterion_value_valid (cc_operator c) (cc_value c)) \<and>
        (\<exists>i. \<forall>c\<in>set (own_columns e). cr_schema c = i))"

definition formula_ok :: "document \<Rightarrow> field_ref \<Rightarrow> expression \<Rightarrow> bool" where
  "formula_ok d owner e \<longleftrightarrow>
     (\<forall>(r, numeric)\<in>set (reference_uses e owner). reference_ok d r numeric) \<and>
     (\<forall>n\<in>set (preorder (\<lambda>n. [n]) e). node_ok d n)"

definition value_ok ::
    "document \<Rightarrow> bool \<Rightarrow> field_ref \<Rightarrow> field_type \<Rightarrow> field_constraint \<Rightarrow> val \<Rightarrow> bool" where
  "value_ok d formulas owner ty c v \<longleftrightarrow>
     (case v of
        VNumber n \<Rightarrow> ty = TNumber \<and> (\<forall>lo hi. c = NumberInclusiveRange lo hi \<longrightarrow> lo \<le> n \<and> n \<le> hi)
      | VText t \<Rightarrow> ty = TText \<and> (\<forall>vs. c = TextLiteralSet vs \<longrightarrow> t \<in> set vs)
      | VBoolean b \<Rightarrow> ty = TBoolean
      | VDate x \<Rightarrow> ty = TDate
      | VReference i \<Rightarrow>
          \<exists>t e. ty = TReference t \<and> bt_get (doc_entities d) i = Some e \<and> ent_schema e = t
      | VFormula e \<Rightarrow> ty = TNumber \<and> (formulas \<longrightarrow> formula_ok d owner e))"

definition entity_ok :: "document \<Rightarrow> bool \<Rightarrow> entity_id \<Rightarrow> entity \<Rightarrow> bool" where
  "entity_ok d formulas i e \<longleftrightarrow>
     ent_id e = i \<and> i \<noteq> [] \<and> is_valid_identifier (ent_key e) \<and>
     (\<exists>s. bt_get (doc_schemas d) (ent_schema e) = Some s \<and>
        (\<forall>j f. bt_get (sch_fields s) j = Some f \<and> fd_required f \<longrightarrow> bt_get (ent_fields e) j \<noteq> None) \<and>
        (\<forall>j v. bt_get (ent_fields e) j = Some v \<longrightarrow>
           (\<exists>f. bt_get (sch_fields s) j = Some f \<and>
              value_ok d formulas (FieldRef i j) (fd_type f) (fd_constraint f) v)))"

definition document_ok :: "bool \<Rightarrow> document \<Rightarrow> bool" where
  "document_ok formulas d \<longleftrightarrow>
     doc_id d \<noteq> [] \<and> str_trim (doc_title d) \<noteq> [] \<and>
     distinct_keys sch_key (doc_schemas d) \<and> distinct_keys ent_key (doc_entities d) \<and>
     (\<forall>i s. bt_get (doc_schemas d) i = Some s \<longrightarrow> schema_ok d i s) \<and> names_ok d \<and>
     (\<forall>i e. bt_get (doc_entities d) i = Some e \<longrightarrow> entity_ok d formulas i e)"

section \<open>Every check reports exactly what its rule forbids\<close>

lemma is_valid_identifier_nonempty: "is_valid_identifier s \<Longrightarrow> s \<noteq> []"
  by (auto simp: is_valid_identifier_def)

lemma validate_stable_id_Nil [accepts]: "validate_stable_id v path s = [] \<longleftrightarrow> v \<noteq> []"
  by (simp add: validate_stable_id_def)

lemma validate_human_key_Nil [accepts]:
  "validate_human_key v path s = [] \<longleftrightarrow> is_valid_identifier v"
  by (auto simp: validate_human_key_def is_valid_identifier_def)

lemma zip_tl_sorted:
  "(\<forall>(a, b)\<in>set (zip vs (tl vs)). a < b) \<longleftrightarrow> sorted_wrt (<) (vs :: 'a::linorder list)"
proof (induction vs)
  case (Cons v vs)
  then show ?case by (cases vs) (auto intro: order.strict_trans)
qed simp

lemma constraint_invalid_iff [accepts]: "constraint_invalid ty c \<longleftrightarrow> \<not> constraint_ok ty c"
proof (cases c)
  case (TextLiteralSet vs)
  have "list_ex (\<lambda>(a, b). b \<le> a) (zip vs (tl vs)) \<longleftrightarrow> \<not> sorted_wrt (<) vs"
    unfolding zip_tl_sorted [symmetric] list_ex_iff by (auto simp: not_less case_prod_beta)
  with TextLiteralSet show ?thesis
    by (cases ty) (auto simp: constraint_invalid_def constraint_ok_def list_ex_iff not_less dest: leD)
qed (cases ty, auto simp: constraint_invalid_def constraint_ok_def not_less)+

lemma number_format_validate_iff:
  "number_format_validate_for nf ty = Inr u \<longleftrightarrow> number_format_ok ty nf"
  by (auto simp: number_format_validate_for_def number_format_ok_def list_all_iff not_less
      split: number_format_kind.splits if_splits)

lemma validate_field_constraint_Nil [accepts]:
  "validate_field_constraint f path s = [] \<longleftrightarrow>
     (\<forall>nf. fd_number_format f = Some nf \<longrightarrow> number_format_ok (fd_type f) nf) \<and>
     constraint_ok (fd_type f) (fd_constraint f)"
proof -
  have "(case number_format_validate_for nf ty of Inl e \<Rightarrow> [g] | Inr u \<Rightarrow> []) = [] \<longleftrightarrow>
      number_format_ok ty nf" for nf ty and g :: diagnostic
    using number_format_validate_iff [of nf ty] by (auto split: sum.split)
  then show ?thesis
    by (auto simp: validate_field_constraint_def constraint_invalid_iff split: option.split)
qed

lemma all_fresh_iff:
  "all_fresh known ids seen \<longleftrightarrow> list_all known ids \<and> distinct ids \<and> set ids \<inter> seen = {}"
  by (induction ids arbitrary: seen) auto

lemma validate_field_order_Nil [accepts]: "validate_field_order s path = [] \<longleftrightarrow> field_order_ok s"
proof (cases "sch_field_order s")
  case (Some order)
  let ?keys = "bt_keys (sch_fields s)"
  have known: "list_all (bt_contains (sch_fields s)) order \<longleftrightarrow> set order \<subseteq> set ?keys"
    by (auto simp: list_all_iff set_bt_keys)
  have "distinct order \<Longrightarrow> set order \<subseteq> set ?keys \<Longrightarrow>
      length order = length ?keys \<longleftrightarrow> set order = set ?keys"
    by (metis List.finite_set bt_keys_distinct card_subset_eq distinct_card)
  then have "length order = length ?keys \<and> list_all (bt_contains (sch_fields s)) order \<and> distinct order \<longleftrightarrow>
      distinct order \<and> set order = set ?keys"
    unfolding known by auto
  then show ?thesis using Some
    by (auto simp: validate_field_order_def field_order_ok_def all_fresh_iff)
qed (simp add: validate_field_order_def field_order_ok_def)

subsection \<open>Duplicate keys and names\<close>

lemma distinct_bt_entries: "distinct (bt_entries m)"
  using bt_entries_distinct distinct_map by blast

lemma entries_key_unique:
  "(\<forall>k. length (filter (\<lambda>e. key (snd e) = k) (bt_entries m)) \<le> 1) \<longleftrightarrow> distinct_keys key m"
proof -
  have "(\<forall>k. length (filter (\<lambda>e. key (snd e) = k) (bt_entries m)) \<le> 1) \<longleftrightarrow>
      inj_on (\<lambda>e. key (snd e)) (set (bt_entries m))"
    by (rule filter_key_unique) (rule distinct_bt_entries)
  also have "\<dots> \<longleftrightarrow> distinct_keys key m"
    unfolding inj_on_def distinct_keys_def bt_entries_ball
    by simp (metis option.inject)
  finally show ?thesis .
qed

lemma group_entries_unique:
  "(\<forall>k ids. bt_get (bt_group (\<lambda>e. key (snd e)) g (bt_entries m)) k = Some ids \<longrightarrow> length ids \<le> 1)
     \<longleftrightarrow> distinct_keys key m"
proof -
  have "(\<forall>ids. bt_get (bt_group (\<lambda>e. key (snd e)) g (bt_entries m)) k = Some ids \<longrightarrow> length ids \<le> 1) \<longleftrightarrow>
      length (filter (\<lambda>e. key (snd e) = k) (bt_entries m)) \<le> 1" for k
    by (simp add: bt_get_group split: list.split)
  then show ?thesis using entries_key_unique [of key m] by auto
qed

lemma duplicated_Nil: "duplicated groups = [] \<longleftrightarrow>
    (\<forall>k ids. bt_get groups k = Some ids \<longrightarrow> length ids \<le> 1)"
  by (simp add: duplicated_def filter_empty_conv case_prod_beta not_less bt_entries_ball)

lemma duplicate_names_Nil: "duplicate_names groups = [] \<longleftrightarrow>
    (\<forall>k ids. bt_get groups k = Some ids \<longrightarrow> length ids \<le> 1)"
  by (simp add: duplicate_names_def filter_empty_conv case_prod_beta not_less bt_entries_ball)

lemma validate_schema_keys_Nil [accepts]:
  "validate_schema_keys d = [] \<longleftrightarrow> distinct_keys sch_key (doc_schemas d)"
  by (simp add: validate_schema_keys_def duplicated_Nil stored_key_groups_def group_entries_unique
      del: One_nat_def)

lemma validate_field_keys_Nil [accepts]:
  "validate_field_keys i s path = [] \<longleftrightarrow> distinct_keys fd_key (sch_fields s)"
  by (simp add: validate_field_keys_def duplicated_Nil stored_key_groups_def group_entries_unique
      del: One_nat_def)

lemma group_first_rest_from:
  "bt_get (foldl (\<lambda>groups (i, x). bt_insert (key x)
         (case bt_get groups (key x) of None \<Rightarrow> (i, []) | Some (first, dups) \<Rightarrow> (first, dups @ [i]))
         groups) m xs) k =
     (case filter (\<lambda>e. key (snd e) = k) xs of [] \<Rightarrow> bt_get m k
      | e # es \<Rightarrow> Some (case bt_get m k of None \<Rightarrow> (fst e, map fst es)
          | Some (first, dups) \<Rightarrow> (first, dups @ map fst (e # es))))"
proof (induction xs arbitrary: m)
  case (Cons e xs)
  obtain i x where e: "e = (i, x)" by force
  show ?case unfolding e foldl_Cons prod.case
    by (subst Cons.IH) (auto split: list.splits option.splits prod.splits)
qed simp

lemma bt_get_group_first_rest:
  "bt_get (group_first_rest key m) k =
     (case filter (\<lambda>e. key (snd e) = k) (bt_entries m) of [] \<Rightarrow> None
      | e # es \<Rightarrow> Some (fst e, map fst es))"
  unfolding group_first_rest_def by (subst group_first_rest_from) (simp split: list.split)

lemma validate_entity_keys_Nil [accepts]:
  "validate_entity_keys d = [] \<longleftrightarrow> distinct_keys ent_key (doc_entities d)"
proof -
  let ?g = "group_first_rest ent_key (doc_entities d)"
  have "validate_entity_keys d = [] \<longleftrightarrow> (\<forall>k first dups. bt_get ?g k = Some (first, dups) \<longrightarrow> dups = [])"
    by (simp add: validate_entity_keys_def filter_empty_conv case_prod_beta bt_entries_ball)
  moreover have "(\<forall>first dups. bt_get ?g k = Some (first, dups) \<longrightarrow> dups = []) \<longleftrightarrow>
      length (filter (\<lambda>e. ent_key (snd e) = k) (bt_entries (doc_entities d))) \<le> 1" for k
    by (simp add: bt_get_group_first_rest split: list.split)
  ultimately show ?thesis using entries_key_unique [of ent_key "doc_entities d"] by auto
qed

lemma admitted_name_Nil:
  "snd (admitted_effective_name stored key s) = [] \<longleftrightarrow> stored_name_ok stored"
  by (auto simp: admitted_effective_name_def stored_name_ok_def Let_def split: option.splits)

lemma admitted_name_Some:
  "stored_name_ok stored \<Longrightarrow> is_valid_identifier key \<Longrightarrow>
   fst (admitted_effective_name stored key s) = Some (case stored of Some n \<Rightarrow> n | None \<Rightarrow> key)"
  by (auto simp: admitted_effective_name_def stored_name_ok_def split: option.splits)

lemma column_names_Nil:
  "snd (column_names i entries columns) = [] \<longleftrightarrow>
     (\<forall>(j, f)\<in>set entries. stored_name_ok (fd_display_name f))"
proof (induction entries arbitrary: columns)
  case (Cons e entries)
  then show ?case by (cases e) (simp add: case_prod_beta Let_def admitted_name_Nil)
qed simp

lemma column_names_groups:
  "\<forall>(j, f)\<in>set entries. stored_name_ok (fd_display_name f) \<and> is_valid_identifier (fd_key f) \<Longrightarrow>
   fst (column_names i entries columns) =
     foldl (\<lambda>m e. bt_push (field_effective_name (snd e)) (SubSchemaField i (fst e)) m) columns entries"
proof (induction entries arbitrary: columns)
  case (Cons e entries)
  obtain j f where e: "e = (j, f)" by force
  have "fst (admitted_effective_name (fd_display_name f) (fd_key f) t) = Some (field_effective_name f)" for t
    using Cons.prems e by (simp add: admitted_name_Some field_effective_name_def)
  with Cons e show ?case by (simp add: case_prod_beta Let_def push_name_def)
qed simp

lemma column_names_unique:
  assumes "\<forall>(j, f)\<in>set (bt_entries m). stored_name_ok (fd_display_name f) \<and> is_valid_identifier (fd_key f)"
  shows "duplicate_names (fst (column_names i (bt_entries m) bt_empty)) = [] \<longleftrightarrow>
    distinct_keys field_effective_name m"
  unfolding column_names_groups [OF assms] duplicate_names_Nil
  by (fold bt_group_def) (rule group_entries_unique)

lemma validate_names_loop_Nil:
  assumes "\<forall>(i, s)\<in>set entries. is_valid_identifier (sch_key s) \<and>
      (\<forall>(j, f)\<in>set (bt_entries (sch_fields s)). is_valid_identifier (fd_key f))"
  shows "validate_names_loop entries tables = [] \<longleftrightarrow>
    (\<forall>(i, s)\<in>set entries. stored_name_ok (sch_display_name s) \<and>
       (\<forall>(j, f)\<in>set (bt_entries (sch_fields s)). stored_name_ok (fd_display_name f)) \<and>
       distinct_keys field_effective_name (sch_fields s)) \<and>
    duplicate_names (foldl (\<lambda>m e. bt_push (schema_effective_name (snd e)) (SubSchema (fst e)) m)
      tables entries) = []"
  using assms
proof (induction entries arbitrary: tables)
  case (Cons e entries)
  obtain i s where e: "e = (i, s)" by force
  let ?cols = "column_names i (bt_entries (sch_fields s)) bt_empty"
  have unroll: "validate_names_loop (e # entries) tables = [] \<longleftrightarrow>
      stored_name_ok (sch_display_name s) \<and> snd ?cols = [] \<and> duplicate_names (fst ?cols) = [] \<and>
      validate_names_loop entries
        (push_name (fst (admitted_effective_name (sch_display_name s) (sch_key s) (SubSchema i)))
          (SubSchema i) tables) = []"
    unfolding e by (simp add: case_prod_beta Let_def admitted_name_Nil)
  show ?case
  proof (cases "stored_name_ok (sch_display_name s) \<and> snd ?cols = []")
    case True
    have push: "push_name (fst (admitted_effective_name (sch_display_name s) (sch_key s) (SubSchema i)))
        (SubSchema i) tables = bt_push (schema_effective_name s) (SubSchema i) tables"
      using True Cons.prems e by (simp add: admitted_name_Some push_name_def schema_effective_name_def)
    have fields: "\<forall>(j, f)\<in>set (bt_entries (sch_fields s)). stored_name_ok (fd_display_name f) \<and>
        is_valid_identifier (fd_key f)"
      using True Cons.prems e unfolding column_names_Nil by auto
    show ?thesis
      using True Cons.prems unfolding unroll push column_names_unique [OF fields]
      by (subst Cons.IH) (auto simp: e column_names_Nil)
  next
    case False
    then show ?thesis unfolding unroll by (auto simp: e column_names_Nil)
  qed
qed simp

lemma validate_names_Nil:
  assumes "\<And>i s. bt_get (doc_schemas d) i = Some s \<Longrightarrow> is_valid_identifier (sch_key s)"
    "\<And>i s j f. bt_get (doc_schemas d) i = Some s \<Longrightarrow> bt_get (sch_fields s) j = Some f \<Longrightarrow>
      is_valid_identifier (fd_key f)"
  shows "validate_names d = [] \<longleftrightarrow> names_ok d"
proof -
  have "duplicate_names (bt_group (\<lambda>e. schema_effective_name (snd e)) (\<lambda>e. SubSchema (fst e))
      (bt_entries (doc_schemas d))) = [] \<longleftrightarrow> distinct_keys schema_effective_name (doc_schemas d)"
    unfolding duplicate_names_Nil by (rule group_entries_unique)
  then show ?thesis
    unfolding validate_names_def
    by (subst validate_names_loop_Nil)
      (use assms in \<open>auto simp: bt_entries_ball names_ok_def bt_group_def\<close>)
qed

subsection \<open>Formulas\<close>

text \<open>The walk of the checker visits the subexpressions, the last child first.\<close>

function preorder_rev :: "(expression \<Rightarrow> 'o list) \<Rightarrow> expression \<Rightarrow> 'o list" where
  "preorder_rev own e = own e @ concat (map (preorder_rev own) (rev (children e)))"
  by auto
termination by (relation "measure (\<lambda>(own, e). size e)") (auto dest: children_size)

declare preorder_rev.simps [simp del]

interpretation node_checks: stack_walk
  "validate_nodes_loop d owner path" "validate_node d owner path" "\<lambda>e. rev (children e)"
  "preorder_rev (validate_node d owner path)" node_count for d owner path
  by unfold_locales
    (auto simp: preorder_rev.simps [of "validate_node d owner path"] node_count_children
      forest_count_def rev_map [symmetric])

lemma preorder_rev_Nil:
  "preorder_rev own e = [] \<longleftrightarrow> (\<forall>n\<in>set (preorder (\<lambda>n. [n]) e). own n = [])"
proof (induction e rule: expression_induct)
  case (node e)
  then show ?case
    by (subst preorder_rev.simps, subst preorder.simps) auto
qed

lemma validate_formula_reference_Nil [accepts]:
  "validate_formula_reference d owner r numeric path = [] \<longleftrightarrow> reference_ok d r numeric"
  by (auto simp: validate_formula_reference_def reference_ok_def split: option.splits)

lemma validate_formula_column_Nil [accepts]:
  "validate_formula_column d owner c path = [] \<longleftrightarrow> numeric_column d c"
  by (auto simp: validate_formula_column_def numeric_column_def column_type_def Let_def
      split: option.splits)

lemma validate_formula_scalar_column_Nil [accepts]:
  "validate_formula_scalar_column d owner c path = [] \<longleftrightarrow> scalar_column d c"
proof (cases "Option.bind (bt_get (doc_schemas d) (cr_schema c)) (\<lambda>s. bt_get (sch_fields s) (cr_field c))")
  case None
  then have "column_type d c = None" by (auto simp: column_type_def split: Option.bind_splits)
  then show ?thesis using None
    by (simp add: validate_formula_scalar_column_def validate_formula_column_Nil numeric_column_def
        scalar_column_def)
next
  case (Some f)
  then have "column_type d c = Some (fd_type f)"
    by (auto simp: column_type_def split: Option.bind_splits)
  then show ?thesis using Some
    by (auto simp: validate_formula_scalar_column_def scalar_column_def split: field_type.splits)
qed

lemma validate_criterion_Nil [accepts]:
  "validate_criterion d owner c path = [] \<longleftrightarrow>
     scalar_column d (cc_column c) \<and> criterion_value_valid (cc_operator c) (cc_value c)"
  by (simp add: validate_criterion_def accepts)

lemma ord_set_singleton:
  "\<not> 1 < length (ord_set xs) \<longleftrightarrow> (\<exists>i. \<forall>x\<in>set xs. x = i)"
proof -
  have "length (ord_set xs) = card (set xs)" by (metis distinct_card distinct_ord_set set_ord_set)
  moreover have "(\<forall>x\<in>set xs. \<forall>y\<in>set xs. x = y) \<longleftrightarrow> (\<exists>i. \<forall>x\<in>set xs. x = i)"
    by (cases xs) (auto, metis)
  ultimately show ?thesis by (simp add: card_le_Suc0_iff_eq not_less)
qed

lemma own_columns_split:
  "own_columns (EColumnConditional a criteria) = value_column a @ map cc_column criteria"
  by simp

lemma validate_column_conditional_Nil [accepts]:
  "validate_column_conditional d owner a criteria path = [] \<longleftrightarrow>
     node_ok d (EColumnConditional a criteria)"
proof -
  let ?xs = "map cr_schema (value_column a) @ map (cr_schema \<circ> cc_column) criteria"
  have eq: "(\<forall>x\<in>set ?xs. x = i) \<longleftrightarrow> (\<forall>c\<in>set (own_columns (EColumnConditional a criteria)). cr_schema c = i)"
    for i by auto
  have "1 < length (ord_set ?xs) \<longleftrightarrow>
      \<not> (\<exists>i. \<forall>c\<in>set (own_columns (EColumnConditional a criteria)). cr_schema c = i)"
    using ord_set_singleton [of ?xs] unfolding eq by blast
  then show ?thesis
    by (simp add: validate_column_conditional_def node_ok_def Let_def accepts del: own_columns.simps)
qed

lemma validate_node_Nil [accepts]: "validate_node d owner path e = [] \<longleftrightarrow> node_ok d e"
  by (cases e) (simp_all add: validate_node_def accepts, simp_all add: node_ok_def)

lemma validate_expression_Nil [accepts]:
  "validate_expression d owner e path = [] \<longleftrightarrow> formula_ok d owner e"
proof -
  have "validate_nodes_loop d owner path [e] [] = [] \<longleftrightarrow>
      (\<forall>n\<in>set (preorder (\<lambda>n. [n]) e). node_ok d n)"
    unfolding node_checks.loop_root preorder_rev_Nil by (simp only: accepts)
  then show ?thesis
    unfolding validate_expression_def formula_ok_def
    by (simp add: accepts case_prod_beta del: validate_nodes_loop.simps)
qed

subsection \<open>Values, entities, schemas\<close>

lemma violates_reference [simp]: "\<not> violates_constraint c (VReference i)"
  by (cases c) (simp_all add: violates_constraint_def)

lemma validate_value_Nil [accepts]:
  "validate_value d field v ty c path formulas = [] \<longleftrightarrow> value_ok d formulas field ty c v"
proof -
  note defs = validate_value_def value_ok_def validate_stored_value_constraint_def
    violates_constraint_def validate_reference_value_def
  show ?thesis
  proof (cases v)
    case (VNumber n)
    then show ?thesis by (cases ty; cases c) (auto simp: defs)
  next
    case (VText t)
    then show ?thesis by (cases ty; cases c) (auto simp: defs list_ex_iff)
  next
    case (VReference i)
    then show ?thesis
      by (cases ty; cases "bt_get (doc_entities d) i"; cases c) (auto simp: defs)
  next
    case (VFormula e)
    then show ?thesis by (cases ty; cases c) (auto simp: defs accepts)
  qed (cases ty; cases c; simp add: defs)+
qed

lemma validate_required_fields_Nil [accepts]:
  "validate_required_fields s i e = [] \<longleftrightarrow>
     (\<forall>j f. bt_get (sch_fields s) j = Some f \<and> fd_required f \<longrightarrow> bt_get (ent_fields e) j \<noteq> None)"
  by (simp add: validate_required_fields_def filter_empty_conv case_prod_beta bt_entries_ball) blast

lemma validate_entity_field_Nil [accepts]:
  "validate_entity_field d s i formulas (j, v) = [] \<longleftrightarrow>
     (\<exists>f. bt_get (sch_fields s) j = Some f \<and>
        value_ok d formulas (FieldRef i j) (fd_type f) (fd_constraint f) v)"
  by (simp add: validate_entity_field_def Let_def accepts split: option.split)

lemma validate_entity_Nil [accepts]:
  "validate_entity d formulas i e = [] \<longleftrightarrow> entity_ok d formulas i e"
  by (auto simp: validate_entity_def entity_ok_def Let_def accepts bt_entries_ball
      split: option.splits)

lemma validate_field_definition_Nil [accepts]:
  "validate_field_definition d i path j f = [] \<longleftrightarrow> field_definition_ok d j f"
  by (auto simp: validate_field_definition_def field_definition_ok_def Let_def accepts
      split: field_type.splits)

lemma validate_schema_Nil [accepts]: "validate_schema d i s = [] \<longleftrightarrow> schema_ok d i s"
  by (auto simp: validate_schema_def schema_ok_def Let_def accepts bt_entries_ball)

lemma validate_document_accepts:
  "validate_document_internal d formulas = [] \<longleftrightarrow> document_ok formulas d"
proof -
  have schemas: "validate_schemas d = [] \<longleftrightarrow>
      (\<forall>i s. bt_get (doc_schemas d) i = Some s \<longrightarrow> schema_ok d i s)"
    by (simp add: validate_schemas_def case_prod_beta bt_entries_ball accepts)
  have entities: "validate_entities d formulas = [] \<longleftrightarrow>
      (\<forall>i e. bt_get (doc_entities d) i = Some e \<longrightarrow> entity_ok d formulas i e)"
    by (simp add: validate_entities_def case_prod_beta bt_entries_ball accepts)
  have names: "validate_schemas d = [] \<Longrightarrow> validate_names d = [] \<longleftrightarrow> names_ok d"
    unfolding schemas
    by (rule validate_names_Nil) (auto simp: schema_ok_def field_definition_ok_def)
  show ?thesis
    using names
    by (auto simp: validate_document_internal_def document_ok_def accepts schemas entities
        split: if_splits)
qed

subsection \<open>What acceptance gives the other components\<close>

lemma distinct_unique_keys: "distinct_keys key m \<Longrightarrow> unique_keys key m"
  by (auto simp: distinct_keys_def unique_keys_def inj_on_def in_bt_values) (metis option.inject)

lemma document_ok_store_ids: "document_ok b d \<Longrightarrow> store_ids_ok d"
  by (auto simp: document_ok_def store_ids_ok_def bt_entries_ball schema_ok_def
      field_definition_ok_def entity_ok_def case_prod_beta bt_entries_iff)

lemma document_ok_addresses: "document_ok b d \<Longrightarrow> addresses_unique d"
  by (auto simp: document_ok_def addresses_unique_def schema_ok_def in_bt_values
      intro!: distinct_unique_keys)

lemma document_ok_index: "document_ok b d \<Longrightarrow> \<exists>ix. index_build d = Inr ix"
proof -
  assume ok: "document_ok b d"
  let ?flds = "bt_map (\<lambda>i s. first_ids (key_groups fd_key fd_id (sch_fields s))) (doc_schemas d)"
  have "index_build d = Inr \<lparr>ai_schemas = first_ids (key_groups sch_key sch_id (doc_schemas d)),
      ai_entities = first_ids (key_groups ent_key ent_id (doc_entities d)), ai_fields = ?flds\<rparr>"
    unfolding index_build_Inr using document_ok_store_ids [OF ok] document_ok_addresses [OF ok] by simp
  then show ?thesis by blast
qed

text \<open>The weaker validator is implied by the stronger one.\<close>

lemma document_ok_core: "document_ok True d \<Longrightarrow> document_ok False d"
proof -
  have "value_ok d True r ty c v \<Longrightarrow> value_ok d False r ty c v" for r ty c v
    by (cases v) (simp_all add: value_ok_def)
  then have "entity_ok d True i e \<Longrightarrow> entity_ok d False i e" for i e
    unfolding entity_ok_def by meson
  then show "document_ok True d \<Longrightarrow> document_ok False d"
    unfolding document_ok_def by blast
qed

text \<open>A calculated value outside the declared range of its field.\<close>

definition formula_value_out_of_range ::
    "document \<Rightarrow> (field_ref, number) btree \<Rightarrow> field_ref \<Rightarrow> bool" where
  "formula_value_out_of_range d values r \<longleftrightarrow>
     (\<exists>e s f x lo hi n.
        bt_get (doc_entities d) (fr_entity r) = Some e \<and>
        bt_get (doc_schemas d) (ent_schema e) = Some s \<and>
        bt_get (sch_fields s) (fr_field r) = Some f \<and>
        bt_get (ent_fields e) (fr_field r) = Some (VFormula x) \<and>
        fd_constraint f = NumberInclusiveRange lo hi \<and> bt_get values r = Some n \<and>
        \<not> (lo \<le> n \<and> n \<le> hi))"

lemma complete_formula_constraints_Nil:
  "validate_complete_formula_constraints d values = [] \<longleftrightarrow>
     (\<forall>r. \<not> formula_value_out_of_range d values r)"
proof -
  have check: "formula_constraint_check values s i (j, v) = [] \<longleftrightarrow>
      (\<forall>f e lo hi n. bt_get (sch_fields s) j = Some f \<and> v = VFormula e \<and>
        fd_constraint f = NumberInclusiveRange lo hi \<and> bt_get values (FieldRef i j) = Some n \<longrightarrow>
        lo \<le> n \<and> n \<le> hi)" for s i j v
    by (auto simp: formula_constraint_check_def Let_def not_less split: option.splits val.splits
      field_constraint.splits)
  have "validate_complete_formula_constraints d values = [] \<longleftrightarrow>
      (\<forall>i e s. bt_get (doc_entities d) i = Some e \<longrightarrow> bt_get (doc_schemas d) (ent_schema e) = Some s \<longrightarrow>
        (\<forall>j v. bt_get (ent_fields e) j = Some v \<longrightarrow> formula_constraint_check values s i (j, v) = []))"
    by (auto simp: validate_complete_formula_constraints_def case_prod_beta bt_entries_ball
        split: option.splits)
  also have "\<dots> \<longleftrightarrow> (\<forall>i j. \<not> formula_value_out_of_range d values (FieldRef i j))"
    unfolding check formula_value_out_of_range_def by simp blast
  also have "\<dots> \<longleftrightarrow> (\<forall>r. \<not> formula_value_out_of_range d values r)"
    by (metis field_ref.exhaust)
  finally show ?thesis .
qed

subsection \<open>Every report is canonical\<close>

definition canon :: "diagnostic list \<Rightarrow> bool" where
  "canon gs \<longleftrightarrow> (\<forall>g\<in>set gs. canonical_diagnostic g)"

named_theorems canons \<open>checks whose diagnostics are canonical\<close>

lemma canon_simps [canons]:
  "canon []" "canon (g # gs) \<longleftrightarrow> canonical_diagnostic g \<and> canon gs"
  "canon (gs @ hs) \<longleftrightarrow> canon gs \<and> canon hs"
  "canon (sort_diagnostics gs) \<longleftrightarrow> canon gs"
  by (auto simp: canon_def)

lemma canon_concat [canons]: "(\<And>x. x \<in> set xs \<Longrightarrow> canon (f x)) \<Longrightarrow> canon (concat (map f xs))"
  by (auto simp: canon_def)

lemma canon_map [canons]:
  "(\<And>x. x \<in> set xs \<Longrightarrow> canonical_diagnostic (f x)) \<Longrightarrow> canon (map f xs)"
  by (auto simp: canon_def)

lemma canonical_core [canons, simp]:
  "canonical_diagnostic (core_diagnostic p c s)"
  "canonical_diagnostic (key_mismatch_diagnostic p s i j)"
  by (simp_all add: core_diagnostic_def key_mismatch_diagnostic_def)

lemma canon_basic [canons]:
  "canon (validate_stable_id v p s)" "canon (validate_human_key v p s)"
  "canon (snd (admitted_effective_name n k s))" "canon (duplicate_names m)"
  "canon (validate_schema_keys d)" "canon (validate_entity_keys d)"
  "canon (validate_field_keys i sc p)" "canon (validate_field_constraint f p s)"
  "canon (validate_field_order sc p)"
  by (auto simp: canons validate_stable_id_def validate_human_key_def admitted_effective_name_def
      duplicate_names_def validate_schema_keys_def validate_entity_keys_def validate_field_keys_def
      validate_field_constraint_def validate_field_order_def Let_def case_prod_beta
      intro!: canons split: option.split sum.split)

lemma canon_columns [canons]: "canon (snd (column_names i entries m))"
proof (induction entries arbitrary: m)
  case (Cons e entries)
  then show ?case by (cases e) (simp add: case_prod_beta Let_def canons)
qed (simp add: canons)

lemma canon_names [canons]: "canon (validate_names d)"
proof -
  have "canon (validate_names_loop entries m)" for entries m
  proof (induction entries arbitrary: m)
    case (Cons e entries)
    then show ?case by (cases e) (simp add: case_prod_beta Let_def canons)
  qed (simp add: canons)
  then show ?thesis by (simp add: validate_names_def)
qed

lemma canon_schemas [canons]:
  "canon (validate_field_definition d i p j f)" "canon (validate_schema d i sc)"
  "canon (validate_schemas d)"
proof -
  show f: "canon (validate_field_definition d i p j f)" for d i p j f
    by (simp add: validate_field_definition_def Let_def canons split: field_type.split)
  show s: "canon (validate_schema d i sc)" for d i sc
    by (simp add: validate_schema_def Let_def canons case_prod_beta f canon_concat)
  show "canon (validate_schemas d)"
    by (simp add: validate_schemas_def case_prod_beta s canon_concat)
qed

lemma canon_formula [canons]:
  "canon (validate_formula_reference d owner r b p)" "canon (validate_formula_column d owner c p)"
  "canon (validate_formula_scalar_column d owner c p)" "canon (validate_expression d owner e p)"
proof -
  show r: "canon (validate_formula_reference d owner r b p)" for r b
    by (simp add: validate_formula_reference_def canons split: option.split)
  show c: "canon (validate_formula_column d owner c p)" for c
    by (simp add: validate_formula_column_def Let_def canons split: option.split)
  show sc: "canon (validate_formula_scalar_column d owner c p)" for c
    by (simp add: validate_formula_scalar_column_def c canons split: option.split field_type.split)
  have k: "canon (validate_criterion d owner k p)" for k
    by (simp add: validate_criterion_def sc canons)
  have cond: "canon (validate_column_conditional d owner a criteria p)" for a criteria
    by (simp add: validate_column_conditional_def Let_def canons canon_concat c k)
  have n: "canon (validate_node d owner p e)" for e
    by (simp add: validate_node_def canons c cond split: expression.split)
  have "canon (preorder_rev (validate_node d owner p) e)" for e
  proof (induction e rule: expression_induct)
    case (node e)
    then show ?case by (subst preorder_rev.simps) (auto simp: canon_simps n intro!: canon_concat)
  qed
  then show "canon (validate_expression d owner e p)"
    by (simp add: validate_expression_def canons canon_concat r case_prod_beta node_checks.loop_root
        del: validate_nodes_loop.simps)
qed

lemma canon_entities [canons]: "canon (validate_entities d formulas)"
proof -
  have st: "canon (validate_stored_value_constraint c v r p)" for c v r p
    by (simp add: validate_stored_value_constraint_def canons)
  have rf: "canon (validate_reference_value d r i j p)" for r i j p
    by (simp add: validate_reference_value_def canons split: option.split)
  have v: "canon (validate_value d r v ty c p formulas)" for r v ty c p
    by (cases ty; cases v) (simp_all add: validate_value_def Let_def canons st rf split: option.split)
  have f: "canon (validate_entity_field d sc i formulas x)" for sc i x
    by (cases x) (simp add: validate_entity_field_def Let_def canons v split: option.split)
  have q: "canon (validate_required_fields sc i e)" for sc i e
    by (simp add: validate_required_fields_def case_prod_beta canons canon_map)
  have "canon (validate_entity d formulas i e)" for i e
    by (simp add: validate_entity_def Let_def canons f q canon_concat split: option.split)
  then show ?thesis by (simp add: validate_entities_def case_prod_beta canon_concat)
qed

lemma canon_internal: "canon (validate_document_internal d formulas)"
  by (simp add: validate_document_internal_def canons)

section \<open>Properties\<close>

text \<open>C21. The validator accepts exactly the documents that satisfy the rules: every id, key, name,
  declaration, field order, required field, value, reference and constraint as
  \<open>document_ok\<close> states them, with the formulas included for \<open>validate_document\<close> and left to
  the formula engine for \<open>validate_document_core\<close>.\<close>

theorem validate_accepts_iff:
  "(validate_document d = [] \<longleftrightarrow> document_ok True d) \<and>
   (validate_document_core d = [] \<longleftrightarrow> document_ok False d)"
  by (simp add: validate_document_def validate_document_core_def validate_document_accepts)

text \<open>C34. A document the core validator accepts has an address index, and each of its fields has
  exactly one address, which resolves back to the field.\<close>

theorem validated_document_has_addresses:
  assumes "validate_document_core d = []"
    "bt_get (doc_entities d) i = Some e" "bt_get (doc_schemas d) (ent_schema e) = Some s"
    "bt_get (sch_fields s) j = Some f"
  shows "document_field_address d (FieldRef i j) = Inr (FieldAddress (ent_key e) (fd_key f)) \<and>
    document_resolve_field d (FieldAddress (ent_key e) (fd_key f)) = Inr (FieldRef i j)"
proof -
  have "document_ok False d"
    using assms(1) by (simp add: validate_document_core_def validate_document_accepts)
  then obtain ix where ix: "index_build d = Inr ix" using document_ok_index by blast
  have "names_field d (FieldAddress (ent_key e) (fd_key f)) (FieldRef i j)"
    using assms by (simp add: names_field_def)
  then show ?thesis
    using ix resolve_field_iff [OF ix] field_address_iff [OF ix]
    by (simp add: document_resolve_field_def document_field_address_def)
qed

lemma sample_document_valid: "validate_document_core sample_document = []"
proof -
  have ident: "is_valid_identifier ''t''" "is_valid_identifier ''b''" "is_valid_identifier ''row''"
    by (simp_all add: is_valid_identifier_def is_ascii_lowercase_def is_identifier_char_def byte_def)
  have title: "str_trim ''Sheet'' \<noteq> []"
    by (simp add: str_trim_def trim_matches_def trim_scalars_empty_iff chars_ascii byte_def
        is_white_space_def)
  show ?thesis
    using ident title
    by (simp add: validate_document_core_def validate_document_accepts document_ok_def sample_defs
        distinct_keys_def schema_ok_def field_order_ok_def field_definition_ok_def constraint_ok_def
        names_ok_def stored_name_ok_def entity_ok_def value_ok_def bt_keys_def bt_entries_eval)
qed

lemma validated_document_has_addresses_witness:
  "document_field_address sample_document (FieldRef ''e1'' ''b'') = Inr (FieldAddress ''row'' ''b'')"
  using validated_document_has_addresses [OF sample_document_valid,
      of "''e1''" sample_entity sample_schema "''b''" "sample_field ''b''"]
  by (simp add: sample_defs)

text \<open>The report of a validator is in the stable order of diagnostics, so it does not depend
  on the order in which the checks found them, and every diagnostic of it has its subjects,
  related subjects and facts in order.\<close>

theorem report_is_canonical:
  "sorted (map diagnostic_key (validate_document_internal d formulas)) \<and>
   list_all canonical_diagnostic (validate_document_internal d formulas)"
  using canon_internal [of d formulas] unfolding canon_def list_all_iff
  by (simp add: validate_document_internal_def sorted_sort_diagnostics)


end
