(* ===== verification/Criteria.thy ===== *)
theory Criteria
  imports Documents
begin

text \<open>
  The criterion text of conditional aggregates, \<open>semantic-core/src/criterion.rs\<close>: parsing,
  matching a cell, the wildcard match and the keys of a column index.  The lowercase
  mapping of a scalar is the Unicode table of the standard library and a parameter,
  \<open>lower\<close>, of every definition that folds case.
\<close>

section \<open>Data\<close>

datatype criterion_cell =
  CellNumber f64 | CellText string | CellBoolean bool | CellDate date

datatype criterion_key =
  KeyNumber "64 word" | KeyText string | KeyBoolean bool | KeyDate date

datatype operand = OpNumber f64 | OpText | OpBoolean bool | OpDate date

datatype operand_kind = KindNumber | KindText | KindBoolean | KindDate

datatype operand_key = OKNumber "64 word" | OKText | OKBoolean bool | OKDate date

record criterion_test =
  ct_operator :: comparison_operator
  ct_operand :: operand
  ct_text :: string

record criterion_test_key =
  ctk_operator :: nat
  ctk_operand :: operand_key
  ctk_text :: string

datatype pattern_token = Any | Star | Literal nat

section \<open>The case fold and the wildcard match\<close>

definition lowercase :: "(nat \<Rightarrow> nat list) \<Rightarrow> string \<Rightarrow> nat list" where
  "lowercase lower text = concat (map lower (chars text))"

definition lowercase_text :: "(nat \<Rightarrow> nat list) \<Rightarrow> string \<Rightarrow> string" where
  "lowercase_text lower text = utf8 (lowercase lower text)"

abbreviation "scalar_star \<equiv> (42 :: nat)"
abbreviation "scalar_question \<equiv> (63 :: nat)"
abbreviation "scalar_tilde \<equiv> (126 :: nat)"

definition is_wildcard_scalar :: "nat \<Rightarrow> bool" where
  "is_wildcard_scalar c \<longleftrightarrow> c = scalar_star \<or> c = scalar_question \<or> c = scalar_tilde"

definition has_wildcard :: "string \<Rightarrow> bool" where
  "has_wildcard text = list_ex is_wildcard_scalar (chars text)"

definition push_literal :: "(nat \<Rightarrow> nat list) \<Rightarrow> nat \<Rightarrow> pattern_token list" where
  "push_literal lower c = map Literal (lower c)"

fun pattern_tokens :: "(nat \<Rightarrow> nat list) \<Rightarrow> nat list \<Rightarrow> pattern_token list" where
  "pattern_tokens lower [] = []"
| "pattern_tokens lower (c # cs) =
     (if c = scalar_star then Star # pattern_tokens lower cs
      else if c = scalar_question then Any # pattern_tokens lower cs
      else if c = scalar_tilde then
        (case cs of
           [] \<Rightarrow> push_literal lower scalar_tilde
         | n # rest \<Rightarrow>
             (if is_wildcard_scalar n then push_literal lower n
              else push_literal lower scalar_tilde @ push_literal lower n)
             @ pattern_tokens lower rest)
      else push_literal lower c @ pattern_tokens lower cs)"

text \<open>\<open>pattern.get(i)\<close>\<close>

definition token_at :: "pattern_token list \<Rightarrow> nat \<Rightarrow> pattern_token option" where
  "token_at p i = (if i < length p then Some (p ! i) else None)"

fun skip_stars :: "pattern_token list \<Rightarrow> pattern_token list" where
  "skip_stars (Star # p) = skip_stars p"
| "skip_stars p = p"

text \<open>
  The greedy loop with its four variables: the positions in the cell and in the pattern,
  the last star passed and the cell position it was last tried from.
\<close>

function wildcard_loop ::
    "nat list \<Rightarrow> pattern_token list \<Rightarrow> nat \<Rightarrow> nat \<Rightarrow> nat option \<Rightarrow> nat \<Rightarrow> bool" where
  "wildcard_loop cell p ci pi star starred =
     (if ci < length cell then
        (case token_at p pi of
           Some Any \<Rightarrow> wildcard_loop cell p (ci + 1) (pi + 1) star starred
         | Some Star \<Rightarrow> wildcard_loop cell p ci (pi + 1) (Some pi) ci
         | t \<Rightarrow>
             (if t = Some (Literal (cell ! ci))
              then wildcard_loop cell p (ci + 1) (pi + 1) star starred
              else (case star of
                 None \<Rightarrow> False
               | Some s \<Rightarrow> wildcard_loop cell p (starred + 1) (s + 1) star (starred + 1))))
      else skip_stars (drop pi p) = [])"
  by pat_completeness auto
termination
  by (relation "measures [\<lambda>(cell, p, ci, pi, star, starred).
        length cell - (case star of None \<Rightarrow> ci | Some s \<Rightarrow> min ci starred),
      \<lambda>(cell, p, ci, pi, star, starred). length p - pi]")
    (auto simp: token_at_def split: option.splits if_splits)

declare wildcard_loop.simps [simp del]

definition wildcard_match :: "(nat \<Rightarrow> nat list) \<Rightarrow> string \<Rightarrow> string \<Rightarrow> bool" where
  "wildcard_match lower cell pattern =
     wildcard_loop (lowercase lower cell) (pattern_tokens lower (chars pattern)) 0 0 None 0"

section \<open>Tests\<close>

definition is_relational :: "comparison_operator \<Rightarrow> bool" where
  "is_relational p \<longleftrightarrow>
     p = CmpLess \<or> p = CmpLessOrEqual \<or> p = CmpGreater \<or> p = CmpGreaterOrEqual"

fun operator_order :: "comparison_operator \<Rightarrow> nat" where
  "operator_order CmpEqual = 0"
| "operator_order CmpNotEqual = 1"
| "operator_order CmpLess = 2"
| "operator_order CmpLessOrEqual = 3"
| "operator_order CmpGreater = 4"
| "operator_order CmpGreaterOrEqual = 5"

definition compare_values :: "comparison_operator \<Rightarrow> ordering option \<Rightarrow> bool" where
  "compare_values p ord =
     (case ord of
        None \<Rightarrow> False
      | Some r \<Rightarrow>
          (case p of
             CmpLess \<Rightarrow> r = Ord_Less
           | CmpLessOrEqual \<Rightarrow> r \<noteq> Ord_Greater
           | CmpGreater \<Rightarrow> r = Ord_Greater
           | CmpGreaterOrEqual \<Rightarrow> r \<noteq> Ord_Less
           | CmpEqual \<Rightarrow> r = Ord_Equal
           | CmpNotEqual \<Rightarrow> r = Ord_Equal))"

definition parse_number_cell :: "string \<Rightarrow> f64 option" where
  "parse_number_cell text =
     (case text of
        [] \<Rightarrow> None
      | c # cs \<Rightarrow>
          if is_ascii_digit c \<or> c = CHR ''-'' \<or> c = CHR ''+'' \<or> c = CHR ''.''
          then (case parse_f64 text of
                  Some v \<Rightarrow> if f64_is_finite v then Some v else None
                | None \<Rightarrow> None)
          else None)"

definition classify :: "string \<Rightarrow> operand" where
  "classify text =
     (case parse_number_cell text of
        Some v \<Rightarrow> OpNumber v
      | None \<Rightarrow>
     (case date_parse text of
        Some d \<Rightarrow> OpDate d
      | None \<Rightarrow>
          if eq_ignore_ascii_case text ''true'' then OpBoolean True
          else if eq_ignore_ascii_case text ''false'' then OpBoolean False
          else OpText))"

text \<open>\<open>strip_prefix\<close>\<close>

definition strip_prefix :: "string \<Rightarrow> string \<Rightarrow> string option" where
  "strip_prefix p s = (if take (length p) s = p then Some (drop (length p) s) else None)"

definition split_operator :: "string \<Rightarrow> comparison_operator \<times> string" where
  "split_operator text =
     (case strip_prefix ''>='' text of Some r \<Rightarrow> (CmpGreaterOrEqual, r) | None \<Rightarrow>
     (case strip_prefix ''<='' text of Some r \<Rightarrow> (CmpLessOrEqual, r) | None \<Rightarrow>
     (case strip_prefix ''<>'' text of Some r \<Rightarrow> (CmpNotEqual, r) | None \<Rightarrow>
     (case strip_prefix ''>'' text of Some r \<Rightarrow> (CmpGreater, r) | None \<Rightarrow>
     (case strip_prefix ''<'' text of Some r \<Rightarrow> (CmpLess, r) | None \<Rightarrow>
     (case strip_prefix ''='' text of Some r \<Rightarrow> (CmpEqual, r) | None \<Rightarrow> (CmpEqual, text)))))))"

definition criterion_parse :: "string \<Rightarrow> string + criterion_test" where
  "criterion_parse text =
     (case split_operator text of (p, rest) \<Rightarrow>
      let x = classify rest in
      if is_relational p \<and> (case x of OpText \<Rightarrow> True | OpBoolean b \<Rightarrow> True | _ \<Rightarrow> False)
      then Inl ''a relational criterion requires a number or a date''
      else Inr \<lparr>ct_operator = p, ct_operand = x, ct_text = rest\<rparr>)"

definition number_operand :: "criterion_test \<Rightarrow> f64 option" where
  "number_operand t = (case ct_operand t of OpNumber v \<Rightarrow> Some v | _ \<Rightarrow> None)"

definition is_blank_test :: "criterion_test \<Rightarrow> bool" where
  "is_blank_test t \<longleftrightarrow> ct_operand t = OpText \<and> ct_text t = []"

definition blank_test :: "comparison_operator \<Rightarrow> criterion_test" where
  "blank_test p = \<lparr>ct_operator = p, ct_operand = OpText, ct_text = []\<rparr>"

definition test_operand_kind :: "criterion_test \<Rightarrow> operand_kind" where
  "test_operand_kind t =
     (case ct_operand t of OpNumber v \<Rightarrow> KindNumber | OpText \<Rightarrow> KindText
      | OpBoolean b \<Rightarrow> KindBoolean | OpDate d \<Rightarrow> KindDate)"

definition number_test :: "comparison_operator \<Rightarrow> f64 \<Rightarrow> criterion_test" where
  "number_test p v = \<lparr>ct_operator = p, ct_operand = OpNumber v, ct_text = display_f64 v\<rparr>"

definition equal_test :: "operand \<Rightarrow> string \<Rightarrow> criterion_test" where
  "equal_test x text = \<lparr>ct_operator = CmpEqual, ct_operand = x, ct_text = text\<rparr>"

definition equal_number :: "f64 \<Rightarrow> criterion_test" where
  "equal_number v = equal_test (OpNumber v) (display_f64 v)"

definition equal_boolean :: "bool \<Rightarrow> criterion_test" where
  "equal_boolean b = equal_test (OpBoolean b) (if b then ''true'' else ''false'')"

definition equal_date :: "date \<Rightarrow> criterion_test" where
  "equal_date d = equal_test (OpDate d) (date_to_canonical_string d)"

definition matches_equal ::
    "(nat \<Rightarrow> nat list) \<Rightarrow> criterion_test \<Rightarrow> criterion_cell option \<Rightarrow> bool" where
  "matches_equal lower t cell =
     (case cell of
        None \<Rightarrow> ct_text t = [] \<and> ct_operand t = OpText
      | Some (CellNumber n) \<Rightarrow> (case ct_operand t of OpNumber x \<Rightarrow> f64_eq n x | _ \<Rightarrow> False)
      | Some (CellText s) \<Rightarrow>
          (case ct_operand t of
             OpNumber x \<Rightarrow> (case parse_number_cell s of Some n \<Rightarrow> f64_eq n x | None \<Rightarrow> False)
           | _ \<Rightarrow> wildcard_match lower s (ct_text t))
      | Some (CellBoolean b) \<Rightarrow> (case ct_operand t of OpBoolean x \<Rightarrow> b = x | _ \<Rightarrow> False)
      | Some (CellDate d) \<Rightarrow> (case ct_operand t of OpDate x \<Rightarrow> d = x | _ \<Rightarrow> False))"

definition matches_relational :: "criterion_test \<Rightarrow> criterion_cell option \<Rightarrow> bool" where
  "matches_relational t cell =
     (case (cell, ct_operand t) of
        (Some (CellNumber l), OpNumber r) \<Rightarrow> compare_values (ct_operator t) (f64_partial_cmp l r)
      | (Some (CellDate l), OpDate r) \<Rightarrow> compare_values (ct_operator t) (Some (cmp_of l r))
      | _ \<Rightarrow> False)"

definition criterion_matches ::
    "(nat \<Rightarrow> nat list) \<Rightarrow> criterion_test \<Rightarrow> criterion_cell option \<Rightarrow> bool" where
  "criterion_matches lower t cell =
     (if is_relational (ct_operator t) then matches_relational t cell
      else let equal = matches_equal lower t cell in
        if ct_operator t = CmpNotEqual then \<not> equal else equal)"

section \<open>Index keys\<close>

definition number_key :: "f64 \<Rightarrow> criterion_key" where
  "number_key v = KeyNumber (f64_bits (if f64_is_zero v then f64_zero else v))"

definition cell_keys :: "(nat \<Rightarrow> nat list) \<Rightarrow> criterion_cell \<Rightarrow> criterion_key list" where
  "cell_keys lower cell =
     (case cell of
        CellNumber n \<Rightarrow> [number_key n]
      | CellText s \<Rightarrow> KeyText (lowercase_text lower s) #
          (case parse_number_cell s of Some n \<Rightarrow> [number_key n] | None \<Rightarrow> [])
      | CellBoolean b \<Rightarrow> [KeyBoolean b]
      | CellDate d \<Rightarrow> [KeyDate d])"

definition text_keys :: "(nat \<Rightarrow> nat list) \<Rightarrow> criterion_test \<Rightarrow> criterion_key list option" where
  "text_keys lower t =
     (if has_wildcard (ct_text t) then None else Some [KeyText (lowercase_text lower (ct_text t))])"

definition test_keys :: "(nat \<Rightarrow> nat list) \<Rightarrow> criterion_test \<Rightarrow> criterion_key list option" where
  "test_keys lower t =
     (if ct_operator t \<noteq> CmpEqual then None
      else case ct_operand t of
        OpNumber v \<Rightarrow> Some [number_key v]
      | OpText \<Rightarrow> if ct_text t = [] then None else text_keys lower t
      | OpBoolean b \<Rightarrow> map_option (\<lambda>ks. KeyBoolean b # ks) (text_keys lower t)
      | OpDate d \<Rightarrow> map_option (\<lambda>ks. KeyDate d # ks) (text_keys lower t))"

definition test_key :: "criterion_test \<Rightarrow> criterion_test_key" where
  "test_key t =
     \<lparr>ctk_operator = operator_order (ct_operator t),
      ctk_operand = (case ct_operand t of OpNumber v \<Rightarrow> OKNumber (f64_bits v) | OpText \<Rightarrow> OKText
        | OpBoolean b \<Rightarrow> OKBoolean b | OpDate d \<Rightarrow> OKDate d),
      ctk_text = ct_text t\<rparr>"

section \<open>The wildcard match\<close>

text \<open>What a pattern means: \<open>?\<close> is one scalar, \<open>*\<close> any run of them.\<close>

fun glob :: "pattern_token list \<Rightarrow> nat list \<Rightarrow> bool" where
  "glob [] cs = (cs = [])"
| "glob (Any # p) cs = (case cs of [] \<Rightarrow> False | c # ds \<Rightarrow> glob p ds)"
| "glob (Literal l # p) cs = (case cs of [] \<Rightarrow> False | c # ds \<Rightarrow> c = l \<and> glob p ds)"
| "glob (Star # p) cs = (\<exists>k\<le>length cs. glob p (drop k cs))"

definition star_free :: "pattern_token list \<Rightarrow> bool" where
  "star_free p \<longleftrightarrow> Star \<notin> set p"

fun token_matches :: "pattern_token \<Rightarrow> nat \<Rightarrow> bool" where
  "token_matches Any c = True"
| "token_matches (Literal l) c = (c = l)"
| "token_matches Star c = False"

lemma glob_Nil_iff: "glob p [] \<longleftrightarrow> skip_stars p = []"
  by (induction p rule: skip_stars.induct) auto

lemma glob_segment:
  "star_free p \<Longrightarrow> glob (p @ q) cs \<longleftrightarrow>
     length p \<le> length cs \<and> list_all2 token_matches p (take (length p) cs) \<and>
     glob q (drop (length p) cs)"
proof (induction p arbitrary: cs)
  case (Cons t p)
  then show ?case by (cases t; cases cs) (auto simp: star_free_def)
qed simp

text \<open>
  After a star at \<open>s\<close> the tokens from \<open>s + 1\<close> to the current one form a star-free segment
  that matches the cell from \<open>st\<close> to the current position.
\<close>

definition segment_matched ::
    "nat list \<Rightarrow> pattern_token list \<Rightarrow> nat \<Rightarrow> nat \<Rightarrow> nat \<Rightarrow> nat \<Rightarrow> bool" where
  "segment_matched cell p ci pi s st \<longleftrightarrow>
     s < pi \<and> pi \<le> length p \<and> st \<le> ci \<and> ci \<le> length cell \<and> ci - st = pi - (s + 1) \<and>
     star_free (take (pi - (s + 1)) (drop (s + 1) p)) \<and>
     list_all2 token_matches (take (pi - (s + 1)) (drop (s + 1) p)) (take (ci - st) (drop st cell))"

definition star_rest :: "nat list \<Rightarrow> pattern_token list \<Rightarrow> nat \<Rightarrow> nat \<Rightarrow> bool" where
  "star_rest cell p s st \<longleftrightarrow>
     (\<exists>j. st \<le> j \<and> j \<le> length cell \<and> glob (drop (s + 1) p) (drop j cell))"

text \<open>From position \<open>j\<close> the segment has to match again before the rest does.\<close>

lemma segment_from:
  assumes "segment_matched cell p ci pi s st" "j \<le> length cell"
  shows "glob (drop (s + 1) p) (drop j cell) \<longleftrightarrow>
    j + (ci - st) \<le> length cell \<and>
    list_all2 token_matches (take (pi - (s + 1)) (drop (s + 1) p)) (take (ci - st) (drop j cell)) \<and>
    glob (drop pi p) (drop (j + (ci - st)) cell)"
proof -
  let ?n = "pi - (s + 1)" let ?seg = "take ?n (drop (s + 1) p)"
  have n: "?n = ci - st" "length ?seg = ?n" using assms(1) by (auto simp: segment_matched_def)
  have "drop (s + 1) p = ?seg @ drop pi p"
    using assms(1) by (metis Suc_eq_plus1 Suc_leI append_take_drop_id drop_drop le_add_diff_inverse2
        segment_matched_def)
  moreover have "star_free ?seg" using assms(1) by (simp add: segment_matched_def)
  ultimately have "glob (drop (s + 1) p) (drop j cell) \<longleftrightarrow>
      ?n \<le> length (drop j cell) \<and> list_all2 token_matches ?seg (take ?n (drop j cell)) \<and>
      glob (drop pi p) (drop ?n (drop j cell))"
    using glob_segment [of ?seg "drop pi p" "drop j cell"] n(2) by simp
  then show ?thesis using n(1) assms(2) by (auto simp: add.commute)
qed

lemma star_rest_here:
  assumes "segment_matched cell p ci pi s st" "glob (drop pi p) (drop ci cell)"
  shows "star_rest cell p s st"
proof -
  have b: "st \<le> length cell" "st + (ci - st) = ci" "ci \<le> length cell"
    using assms(1) by (auto simp: segment_matched_def)
  have "list_all2 token_matches (take (pi - (s + 1)) (drop (s + 1) p)) (take (ci - st) (drop st cell))"
    using assms(1) unfolding segment_matched_def by blast
  then have "glob (drop (s + 1) p) (drop st cell)"
    using segment_from [OF assms(1) b(1)] b(2,3) assms(2) by metis
  then show ?thesis unfolding star_rest_def using b(1) by blast
qed

text \<open>A later star takes over the choices of an earlier one.\<close>

lemma star_rest_next:
  assumes seg: "segment_matched cell p ci pi s st" and star: "token_at p pi = Some Star"
  shows "star_rest cell p s st \<longleftrightarrow> star_rest cell p pi ci"
proof -
  have pi: "drop pi p = Star # drop (pi + 1) p"
    using star by (auto simp: token_at_def split: if_splits) (metis Cons_nth_drop_Suc)
  have bounds: "st \<le> ci" "ci \<le> length cell" using seg by (auto simp: segment_matched_def)
  show ?thesis
  proof
    assume "star_rest cell p s st"
    then obtain j where j: "st \<le> j" "j \<le> length cell" "glob (drop (s + 1) p) (drop j cell)"
      by (auto simp: star_rest_def)
    then have "glob (drop pi p) (drop (j + (ci - st)) cell)" "j + (ci - st) \<le> length cell"
      using segment_from [OF seg, of j] by auto
    then obtain k where "k \<le> length cell - (j + (ci - st))"
      "glob (drop (pi + 1) p) (drop k (drop (j + (ci - st)) cell))"
      unfolding pi by auto
    then show "star_rest cell p pi ci"
      unfolding star_rest_def using j bounds \<open>j + (ci - st) \<le> length cell\<close>
      by (intro exI [of _ "j + (ci - st) + k"]) (auto simp: add.commute)
  next
    assume "star_rest cell p pi ci"
    then obtain j where j: "ci \<le> j" "j \<le> length cell" "glob (drop (pi + 1) p) (drop j cell)"
      by (auto simp: star_rest_def)
    then have "\<exists>k\<le>length (drop ci cell). glob (drop (pi + 1) p) (drop k (drop ci cell))"
      by (intro exI [of _ "j - ci"]) auto
    then have "glob (drop pi p) (drop ci cell)" unfolding pi by simp
    then show "star_rest cell p s st" by (rule star_rest_here [OF seg])
  qed
qed

text \<open>One more matching token extends the segment; a mismatch rules the first choice out.\<close>

lemma segment_extend:
  assumes seg: "segment_matched cell p ci pi s st" and ci: "ci < length cell"
    and t: "token_at p pi = Some t" "token_matches t (cell ! ci)"
  shows "segment_matched cell p (ci + 1) (pi + 1) s st"
proof -
  have pi: "pi < length p" "p ! pi = t" using t(1) by (auto simp: token_at_def split: if_splits)
  have b: "s < pi" "st \<le> ci" "ci - st = pi - (s + 1)" using seg by (auto simp: segment_matched_def)
  have "take (pi + 1 - (s + 1)) (drop (s + 1) p) = take (pi - (s + 1)) (drop (s + 1) p) @ [t]"
    using pi b take_Suc_conv_app_nth [of "pi - (s + 1)" "drop (s + 1) p"] by (simp add: Suc_diff_Suc)
  moreover have "take (ci + 1 - st) (drop st cell) = take (ci - st) (drop st cell) @ [cell ! ci]"
  proof -
    have "ci - st < length (drop st cell)" "drop st cell ! (ci - st) = cell ! ci"
      "ci + 1 - st = Suc (ci - st)" using ci b(2) by auto
    then show ?thesis by (simp only: take_Suc_conv_app_nth)
  qed
  moreover have "t \<noteq> Star" using t(2) by auto
  ultimately show ?thesis
    using seg pi ci t(2) b by (auto simp: segment_matched_def star_free_def list_all2_append)
qed

lemma star_rest_retry:
  assumes seg: "segment_matched cell p ci pi s st" and ci: "ci < length cell"
    and no: "\<And>t. token_at p pi = Some t \<Longrightarrow> t \<noteq> Star \<and> \<not> token_matches t (cell ! ci)"
  shows "star_rest cell p s st \<longleftrightarrow> star_rest cell p s (st + 1)"
proof -
  have "\<not> glob (drop pi p) (drop ci cell)"
  proof (cases "pi < length p")
    case True
    then have "drop pi p = p ! pi # drop (pi + 1) p" by (simp add: Cons_nth_drop_Suc)
    moreover have "drop ci cell = cell ! ci # drop (ci + 1) cell" using ci by (simp add: Cons_nth_drop_Suc)
    ultimately show ?thesis using no True by (cases "p ! pi") (auto simp: token_at_def)
  next
    case False
    then show ?thesis using ci by simp
  qed
  moreover have "st + (ci - st) = ci" "st \<le> length cell" using seg by (auto simp: segment_matched_def)
  ultimately have "\<not> glob (drop (s + 1) p) (drop st cell)" using segment_from [OF seg, of st] by simp
  then show ?thesis
    unfolding star_rest_def by (metis Suc_eq_plus1 Suc_leD Suc_leI le_neq_implies_less)
qed

lemma loop_end: "skip_stars (drop pi p) = [] \<longleftrightarrow> glob (drop pi p) []"
  by (simp add: glob_Nil_iff)

lemma star_rest_end:
  assumes "segment_matched cell p (length cell) pi s st"
  shows "star_rest cell p s st \<longleftrightarrow> glob (drop pi p) []"
proof
  assume "star_rest cell p s st"
  then obtain j where j: "st \<le> j" "j \<le> length cell" "glob (drop (s + 1) p) (drop j cell)"
    by (auto simp: star_rest_def)
  then have le: "j + (length cell - st) \<le> length cell"
    and g: "glob (drop pi p) (drop (j + (length cell - st)) cell)"
    using segment_from [OF assms, of j] by auto
  have "j + (length cell - st) = length cell"
    using le j assms by (auto simp: segment_matched_def)
  with g show "glob (drop pi p) []" by simp
next
  assume "glob (drop pi p) []"
  then show "star_rest cell p s st" by (intro star_rest_here [OF assms]) simp
qed

lemma loop_from_star:
  "segment_matched cell p ci pi s st \<Longrightarrow>
   wildcard_loop cell p ci pi (Some s) st \<longleftrightarrow> star_rest cell p s st"
proof (induction cell p ci pi "Some s" st arbitrary: s rule: wildcard_loop.induct)
  case (1 cell p ci pi st)
  note seg = "1.prems"
  show ?case
  proof (cases "ci < length cell")
    case False
    then have end_: "ci = length cell" using seg by (simp add: segment_matched_def)
    show ?thesis
      using star_rest_end [of cell p pi s st] seg unfolding end_
      by (subst wildcard_loop.simps) (simp add: loop_end)
  next
    case True
    have retry: "wildcard_loop cell p (st + 1) (s + 1) (Some s) (st + 1) \<longleftrightarrow> star_rest cell p s st"
      if "\<And>t. token_at p pi = Some t \<Longrightarrow> t \<noteq> Star \<and> \<not> token_matches t (cell ! ci)"
        "wildcard_loop cell p (st + 1) (s + 1) (Some s) (st + 1) \<longleftrightarrow> star_rest cell p s (st + 1)"
      using that(2) star_rest_retry [OF seg True that(1)] by simp
    have fresh: "segment_matched cell p (st + 1) (s + 1) s (st + 1)"
      using seg True by (auto simp: segment_matched_def star_free_def)
    show ?thesis
    proof (cases "token_at p pi")
      case None
      have "wildcard_loop cell p (st + 1) (s + 1) (Some s) (st + 1) \<longleftrightarrow> star_rest cell p s st"
        using 1 True None fresh by (intro retry) auto
      then show ?thesis using True None by (subst wildcard_loop.simps) simp
    next
      case (Some t)
      show ?thesis
      proof (cases t)
        case Any
        then show ?thesis
          using 1 True Some segment_extend [OF seg True Some] by (subst wildcard_loop.simps) simp
      next
        case Star
        have "segment_matched cell p ci (pi + 1) pi ci"
          using seg True Some by (auto simp: segment_matched_def star_free_def token_at_def split: if_splits)
        then show ?thesis
          using 1 True Some Star star_rest_next [OF seg] by (subst wildcard_loop.simps) simp
      next
        case (Literal l)
        show ?thesis
        proof (cases "l = cell ! ci")
          case True
          then show ?thesis
            using 1 \<open>ci < length cell\<close> Some Literal segment_extend [OF seg \<open>ci < length cell\<close> Some]
            by (subst wildcard_loop.simps) simp
        next
          case False
          have "wildcard_loop cell p (st + 1) (s + 1) (Some s) (st + 1) \<longleftrightarrow> star_rest cell p s st"
            using 1 True Some Literal False fresh by (intro retry) auto
          then show ?thesis using True Some Literal False by (subst wildcard_loop.simps) simp
        qed
      qed
    qed
  qed
qed

lemma loop_from_start:
  "ci \<le> length cell \<Longrightarrow> pi \<le> length p \<Longrightarrow>
   wildcard_loop cell p ci pi None st \<longleftrightarrow> glob (drop pi p) (drop ci cell)"
proof (induction "length cell - ci + (length p - pi)" arbitrary: ci pi rule: less_induct)
  case less
  show ?case
  proof (cases "ci < length cell")
    case False
    then show ?thesis using less.prems by (subst wildcard_loop.simps) (simp add: loop_end)
  next
    case True
    have cell: "drop ci cell = cell ! ci # drop (ci + 1) cell" using True by (simp add: Cons_nth_drop_Suc)
    show ?thesis
    proof (cases "token_at p pi")
      case None
      then have "drop pi p = []" by (simp add: token_at_def split: if_splits)
      then show ?thesis using None True by (subst wildcard_loop.simps) simp
    next
      case (Some t)
      then have pi: "pi < length p" "p ! pi = t" by (simp_all add: token_at_def split: if_splits)
      then have p: "drop pi p = t # drop (pi + 1) p" by (metis Cons_nth_drop_Suc Suc_eq_plus1)
      have step: "wildcard_loop cell p (ci + 1) (pi + 1) None st \<longleftrightarrow>
          glob (drop (pi + 1) p) (drop (ci + 1) cell)"
        using True pi by (intro less.hyps) auto
      show ?thesis
      proof (cases t)
        case Any
        then show ?thesis using step True Some unfolding p cell by (subst wildcard_loop.simps) simp
      next
        case (Literal l)
        then show ?thesis using step True Some unfolding p cell by (subst wildcard_loop.simps) auto
      next
        case Star
        have seg: "segment_matched cell p ci (pi + 1) pi ci"
          using True pi by (auto simp: segment_matched_def star_free_def)
        have "star_rest cell p pi ci \<longleftrightarrow> (\<exists>k\<le>length (drop ci cell). glob (drop (pi + 1) p) (drop k (drop ci cell)))"
        proof
          assume "star_rest cell p pi ci"
          then obtain j where "ci \<le> j" "j \<le> length cell" "glob (drop (pi + 1) p) (drop j cell)"
            by (auto simp: star_rest_def)
          then show "\<exists>k\<le>length (drop ci cell). glob (drop (pi + 1) p) (drop k (drop ci cell))"
            by (intro exI [of _ "j - ci"]) auto
        next
          assume "\<exists>k\<le>length (drop ci cell). glob (drop (pi + 1) p) (drop k (drop ci cell))"
          then obtain k where "k \<le> length cell - ci" "glob (drop (pi + 1) p) (drop (k + ci) cell)" by auto
          then show "star_rest cell p pi ci"
            unfolding star_rest_def using True by (intro exI [of _ "k + ci"]) auto
        qed
        then show ?thesis
          using True Some Star loop_from_star [OF seg] unfolding p
          by (subst wildcard_loop.simps) simp
      qed
    qed
  qed
qed

lemma wildcard_match_glob:
  "wildcard_match lower cell pattern \<longleftrightarrow>
     glob (pattern_tokens lower (chars pattern)) (lowercase lower cell)"
  by (simp add: wildcard_match_def loop_from_start)

section \<open>Index keys never miss a match\<close>

lemma pattern_tokens_plain:
  "\<not> list_ex is_wildcard_scalar cs \<Longrightarrow>
   pattern_tokens lower cs = map Literal (concat (map lower cs))"
  by (induction lower cs rule: pattern_tokens.induct)
    (auto simp: push_literal_def is_wildcard_scalar_def)

lemma glob_literals: "glob (map Literal ls) cs \<longleftrightarrow> cs = ls"
  by (induction ls arbitrary: cs) (auto split: list.split)

lemma wildcard_match_plain:
  "\<not> has_wildcard pattern \<Longrightarrow>
   wildcard_match lower cell pattern \<longleftrightarrow> lowercase lower cell = lowercase lower pattern"
  by (simp add: wildcard_match_glob has_wildcard_def pattern_tokens_plain glob_literals lowercase_def)

lemma number_key_eq: "f64_eq x y \<Longrightarrow> number_key x = number_key y"
  by (auto simp: f64_eq_iff number_key_def f64_is_zero_def)

lemma test_keys_complete:
  assumes keys: "test_keys lower t = Some ks" and m: "criterion_matches lower t (Some cell)"
  shows "\<exists>k\<in>set ks. k \<in> set (cell_keys lower cell)"
proof -
  have op: "ct_operator t = CmpEqual" using keys by (auto simp: test_keys_def split: if_splits)
  then have eq: "matches_equal lower t (Some cell)"
    using m by (simp add: criterion_matches_def is_relational_def)
  have text_key: "KeyText (lowercase_text lower s) \<in> set ks"
    if "cell = CellText s" "\<And>v. ct_operand t \<noteq> OpNumber v" for s
  proof -
    have plain: "\<not> has_wildcard (ct_text t)"
      using keys op that(2) by (auto simp: test_keys_def text_keys_def split: operand.splits if_splits)
    have "wildcard_match lower s (ct_text t)"
      using eq that by (auto simp: matches_equal_def split: operand.splits)
    then have "lowercase_text lower s = lowercase_text lower (ct_text t)"
      by (simp add: wildcard_match_plain [OF plain] lowercase_text_def)
    then show ?thesis
      using keys op that(2) plain
      by (auto simp: test_keys_def text_keys_def split: operand.splits if_splits)
  qed
  show ?thesis
  proof (cases cell)
    case (CellText s)
    then show ?thesis
      using text_key [OF CellText] eq keys op number_key_eq
      by (cases "ct_operand t")
        (auto simp: matches_equal_def test_keys_def cell_keys_def split: option.splits)
  qed (use eq keys op number_key_eq in
      \<open>auto simp: matches_equal_def test_keys_def cell_keys_def split: operand.splits option.splits\<close>)
qed

lemma test_keys_blank:
  "test_keys lower t = Some ks \<Longrightarrow> \<not> criterion_matches lower t None"
  by (auto simp: test_keys_def criterion_matches_def is_relational_def matches_equal_def
      split: if_splits)

section \<open>Operators\<close>

lemma criterion_parse_Inr:
  "criterion_parse text = Inr t \<longleftrightarrow>
     (\<exists>p rest. split_operator text = (p, rest) \<and>
        t = \<lparr>ct_operator = p, ct_operand = classify rest, ct_text = rest\<rparr> \<and>
        (is_relational p \<longrightarrow> test_operand_kind t = KindNumber \<or> test_operand_kind t = KindDate))"
  by (auto simp: criterion_parse_def Let_def test_operand_kind_def split: prod.splits operand.splits)

lemma classify_number_finite: "classify text = OpNumber v \<Longrightarrow> f64_is_finite v"
  by (auto simp: classify_def parse_number_cell_def split: list.splits option.splits if_splits)

text \<open>The six operators on one operand are consistent with one order.\<close>

definition with_operator :: "criterion_test \<Rightarrow> comparison_operator \<Rightarrow> criterion_test" where
  "with_operator t p = t\<lparr>ct_operator := p\<rparr>"

definition ordered_pair :: "criterion_test \<Rightarrow> criterion_cell \<Rightarrow> bool" where
  "ordered_pair t cell =
     (case (cell, ct_operand t) of
        (CellNumber l, OpNumber r) \<Rightarrow> \<not> f64_is_nan l \<and> \<not> f64_is_nan r
      | (CellDate l, OpDate r) \<Rightarrow> True
      | _ \<Rightarrow> False)"

lemma operators_consistent:
  assumes "ordered_pair t cell"
  shows "criterion_matches lower (with_operator t CmpLessOrEqual) (Some cell) \<longleftrightarrow>
      criterion_matches lower (with_operator t CmpLess) (Some cell) \<or>
      criterion_matches lower (with_operator t CmpEqual) (Some cell)"
    and "criterion_matches lower (with_operator t CmpGreaterOrEqual) (Some cell) \<longleftrightarrow>
      \<not> criterion_matches lower (with_operator t CmpLess) (Some cell)"
    and "criterion_matches lower (with_operator t CmpGreater) (Some cell) \<longleftrightarrow>
      \<not> criterion_matches lower (with_operator t CmpLessOrEqual) (Some cell)"
proof -
  note defs = criterion_matches_def with_operator_def is_relational_def matches_relational_def
    matches_equal_def compare_values_def f64_partial_cmp_def f64_eq_def cmp_of_def
  show "criterion_matches lower (with_operator t CmpLessOrEqual) (Some cell) \<longleftrightarrow>
      criterion_matches lower (with_operator t CmpLess) (Some cell) \<or>
      criterion_matches lower (with_operator t CmpEqual) (Some cell)"
    using assms by (cases cell; cases "ct_operand t") (auto simp: defs ordered_pair_def)
  show "criterion_matches lower (with_operator t CmpGreaterOrEqual) (Some cell) \<longleftrightarrow>
      \<not> criterion_matches lower (with_operator t CmpLess) (Some cell)"
    using assms by (cases cell; cases "ct_operand t") (auto simp: defs ordered_pair_def)
  show "criterion_matches lower (with_operator t CmpGreater) (Some cell) \<longleftrightarrow>
      \<not> criterion_matches lower (with_operator t CmpLessOrEqual) (Some cell)"
    using assms by (cases cell; cases "ct_operand t") (auto simp: defs ordered_pair_def)
qed

lemma test_key_inject: "test_key t = test_key u \<longleftrightarrow> t = u"
proof
  assume eq: "test_key t = test_key u"
  have "operator_order p = operator_order q \<Longrightarrow> p = q" for p q by (cases p; cases q) simp_all
  with eq have "ct_operator t = ct_operator u" by (simp add: test_key_def)
  moreover have "ct_operand t = ct_operand u" using eq
    by (cases "ct_operand t"; cases "ct_operand u") (auto simp: test_key_def f64.expand)
  moreover have "ct_text t = ct_text u" using eq by (simp add: test_key_def)
  ultimately show "t = u" by simp
qed simp

section \<open>Properties\<close>

definition ascii_lower :: "nat \<Rightarrow> nat list" where
  "ascii_lower c = [if 65 \<le> c \<and> c \<le> 90 then c + 32 else c]"

text \<open>C22. The greedy backtracking match decides the meaning of the pattern: it answers true
  exactly when the case-folded cell, as a whole, is in the language of the pattern, where a
  star stands for any run of characters and a question mark for one.  The match is a total
  function, so the loop ends on every input.\<close>

theorem wildcard_match_is_glob:
  "wildcard_match lower cell pattern \<longleftrightarrow>
     glob (pattern_tokens lower (chars pattern)) (lowercase lower cell)"
  by (rule wildcard_match_glob)

text \<open>C33. The keys of a test never lose a match: a cell that satisfies a test with keys is filed
  under one of them, and a blank cell, which is filed nowhere, satisfies no such test.\<close>

theorem index_keys_complete:
  assumes "test_keys lower t = Some ks" "criterion_matches lower t cell"
  shows "\<exists>c k. cell = Some c \<and> k \<in> set ks \<and> k \<in> set (cell_keys lower c)"
  using assms test_keys_complete test_keys_blank by (cases cell) blast+

lemma index_keys_complete_witness:
  "\<exists>k\<in>set [KeyBoolean True, KeyText ''true'']. k \<in> set (cell_keys ascii_lower (CellBoolean True))"
proof -
  have c: "chars ''true'' = [116, 114, 117, 101]" by (simp add: chars_ascii byte_def)
  have "test_keys ascii_lower (equal_boolean True) = Some [KeyBoolean True, KeyText ''true'']"
    by (simp add: test_keys_def text_keys_def equal_boolean_def equal_test_def has_wildcard_def c
        is_wildcard_scalar_def lowercase_text_def lowercase_def ascii_lower_def utf8_def
        utf8_scalar_def char_of_def bit_iff_odd_drop_bit)
  moreover have "criterion_matches ascii_lower (equal_boolean True) (Some (CellBoolean True))"
    by (simp add: criterion_matches_def is_relational_def matches_equal_def equal_boolean_def
        equal_test_def)
  ultimately show ?thesis using index_keys_complete by fastforce
qed



text \<open>On a number or date operand and a cell of the same kind, the operators are those of one
  order: at most is less or equal, at least is not less, greater is not at most, and not
  equal is the complement of equal.\<close>

theorem operators_agree:
  assumes "ordered_pair t cell"
  shows "(criterion_matches lower (with_operator t CmpLessOrEqual) (Some cell) \<longleftrightarrow>
      criterion_matches lower (with_operator t CmpLess) (Some cell) \<or>
      criterion_matches lower (with_operator t CmpEqual) (Some cell)) \<and>
    (criterion_matches lower (with_operator t CmpGreaterOrEqual) (Some cell) \<longleftrightarrow>
      \<not> criterion_matches lower (with_operator t CmpLess) (Some cell)) \<and>
    (criterion_matches lower (with_operator t CmpGreater) (Some cell) \<longleftrightarrow>
      \<not> criterion_matches lower (with_operator t CmpLessOrEqual) (Some cell)) \<and>
    (criterion_matches lower (with_operator t CmpNotEqual) (Some cell) \<longleftrightarrow>
      \<not> criterion_matches lower (with_operator t CmpEqual) (Some cell))"
proof -
  have "criterion_matches lower (with_operator t CmpNotEqual) (Some cell) \<longleftrightarrow>
      \<not> criterion_matches lower (with_operator t CmpEqual) (Some cell)"
    by (cases cell; cases "ct_operand t")
      (simp_all add: criterion_matches_def with_operator_def is_relational_def matches_equal_def)
  then show ?thesis using operators_consistent [OF assms] by blast
qed

lemma operators_agree_witness:
  "criterion_matches ascii_lower
     (with_operator (equal_date (Date 2024 2 29)) CmpGreaterOrEqual) (Some (CellDate (Date 2024 3 1)))"
  using operators_agree [of "equal_date (Date 2024 2 29)" "CellDate (Date 2024 3 1)" ascii_lower]
  by (simp add: ordered_pair_def equal_date_def equal_test_def criterion_matches_def with_operator_def
      is_relational_def matches_relational_def compare_values_def cmp_of_def less_date_def date_key_def)

end
