(* ===== verification/GroupedSums.thy ===== *)
theory GroupedSums
  imports Documents
begin

text \<open>
  The saved grouped-sum definitions of \<open>semantic-core/src/keyed_grouped_sum.rs\<close> and their
  validation against one document.
\<close>

datatype binding_role =
  OrdersLookupKey | OrdersQuantity | ProductsKey | ProductsCategory | ProductsPrice

datatype definition_error =
    EmptyId
  | StoreIdMismatch definition_id definition_id
  | MissingRoleSchema string schema_id
  | MissingRoleField binding_role schema_id field_id
  | WrongFieldType binding_role schema_id field_id field_type field_type

definition require_type ::
    "schema \<Rightarrow> field_id \<Rightarrow> binding_role \<Rightarrow> field_type \<Rightarrow> definition_error + unit" where
  "require_type s field role expected =
     and_then (ok_or (MissingRoleField role (sch_id s) field) (bt_get (sch_fields s) field)) (\<lambda>f.
       guard (fd_type f \<noteq> expected) (WrongFieldType role (sch_id s) field expected (fd_type f)))"

definition validate_definition ::
    "document \<Rightarrow> grouped_sum_definition \<Rightarrow> definition_error + unit" where
  "validate_definition d g =
     (let o_bind = gs_orders g; p_bind = gs_products g in
      and_then (ok_or (MissingRoleSchema ''orders'' (ob_schema o_bind))
        (bt_get (doc_schemas d) (ob_schema o_bind))) (\<lambda>orders.
      and_then (ok_or (MissingRoleSchema ''products'' (pb_schema p_bind))
        (bt_get (doc_schemas d) (pb_schema p_bind))) (\<lambda>products.
      and_then (require_type orders (ob_lookup_key_field o_bind) OrdersLookupKey TText) (\<lambda>u.
      and_then (require_type orders (ob_quantity_field o_bind) OrdersQuantity TNumber) (\<lambda>u.
      and_then (require_type products (pb_key_field p_bind) ProductsKey TText) (\<lambda>u.
      and_then (require_type products (pb_category_field p_bind) ProductsCategory TText) (\<lambda>u.
      require_type products (pb_price_field p_bind) ProductsPrice TNumber)))))))"

definition validate_grouped_sum_definitions :: "document \<Rightarrow> definition_error + unit" where
  "validate_grouped_sum_definitions d =
     try_all (\<lambda>(stored, g).
         if stored = [] \<or> gs_id g = [] then Inl EmptyId
         else if stored \<noteq> gs_id g then Inl (StoreIdMismatch stored (gs_id g))
         else validate_definition d g)
       (bt_entries (doc_definitions d))"

section \<open>What an accepted definition is bound to\<close>

definition field_has_type :: "document \<Rightarrow> schema_id \<Rightarrow> field_id \<Rightarrow> field_type \<Rightarrow> bool" where
  "field_has_type d i j ty \<longleftrightarrow>
     (\<exists>s f. bt_get (doc_schemas d) i = Some s \<and> bt_get (sch_fields s) j = Some f \<and> fd_type f = ty)"

definition definition_ok :: "document \<Rightarrow> definition_id \<Rightarrow> grouped_sum_definition \<Rightarrow> bool" where
  "definition_ok d i g \<longleftrightarrow>
     i \<noteq> [] \<and> gs_id g = i \<and>
     (let o_bind = gs_orders g; p_bind = gs_products g in
      field_has_type d (ob_schema o_bind) (ob_lookup_key_field o_bind) TText \<and>
      field_has_type d (ob_schema o_bind) (ob_quantity_field o_bind) TNumber \<and>
      field_has_type d (pb_schema p_bind) (pb_key_field p_bind) TText \<and>
      field_has_type d (pb_schema p_bind) (pb_category_field p_bind) TText \<and>
      field_has_type d (pb_schema p_bind) (pb_price_field p_bind) TNumber)"

definition definitions_ok :: "document \<Rightarrow> bool" where
  "definitions_ok d \<longleftrightarrow>
     (\<forall>i g. bt_get (doc_definitions d) i = Some g \<longrightarrow> definition_ok d i g)"

lemma require_type_Inr:
  "require_type s j role ty = Inr u \<longleftrightarrow> (\<exists>f. bt_get (sch_fields s) j = Some f \<and> fd_type f = ty)"
  by (auto simp: require_type_def result_simps)

lemma validate_definition_Inr:
  "validate_definition d g = Inr u \<longleftrightarrow>
     (let o_bind = gs_orders g; p_bind = gs_products g in
      field_has_type d (ob_schema o_bind) (ob_lookup_key_field o_bind) TText \<and>
      field_has_type d (ob_schema o_bind) (ob_quantity_field o_bind) TNumber \<and>
      field_has_type d (pb_schema p_bind) (pb_key_field p_bind) TText \<and>
      field_has_type d (pb_schema p_bind) (pb_category_field p_bind) TText \<and>
      field_has_type d (pb_schema p_bind) (pb_price_field p_bind) TNumber)"
  by (auto simp: validate_definition_def Let_def result_simps require_type_Inr field_has_type_def)

lemma validate_grouped_sum_definitions_Inr:
  "validate_grouped_sum_definitions d = Inr u \<longleftrightarrow>
     (\<forall>i g. bt_get (doc_definitions d) i = Some g \<longrightarrow> definition_ok d i g)"
  by (auto simp: validate_grouped_sum_definitions_def result_simps case_prod_beta bt_entries_ball
      definition_ok_def validate_definition_Inr)

section \<open>Properties\<close>

text \<open>C39. The saved grouped sums of a document are accepted exactly when every definition has a
  nonempty id that its store key repeats and its five bindings name existing fields of the
  required type in existing schemas.\<close>

theorem grouped_sums_accepted_iff:
  "validate_grouped_sum_definitions d = Inr () \<longleftrightarrow> definitions_ok d"
  unfolding definitions_ok_def by (rule validate_grouped_sum_definitions_Inr)

end
