(* ===== verification/Presentation.thy ===== *)
theory Presentation
  imports Documents Names
begin

text \<open>
  The stored presentation of \<open>semantic-core/src/presentation.rs\<close>: styles, tables, rules and
  cell bindings, their validation against a document, and pruning what a changed document
  no longer has.
\<close>

type_synonym style_id = string
type_synonym rule_id = string

section \<open>Data\<close>

datatype cell_alignment = AlignLeft | AlignCenter | AlignRight
datatype border_side = BorderTop | BorderRight | BorderBottom | BorderLeft
datatype date_format =
  DateIso | DateMdy | DateDmy | DateYmdSlash | DateYmdCjk | DateMonthDayYear | DateDayMonthYear
datatype footer_aggregate =
  FooterSum | FooterCount | FooterAverage | FooterMinimum | FooterMaximum

record cell_style =
  cs_bold :: "bool option"
  cs_italic :: "bool option"
  cs_fill :: "string option"
  cs_text_color :: "string option"
  cs_alignment :: "cell_alignment option"
  cs_wrap :: "bool option"
  cs_borders :: "border_side list option"
  cs_number_format :: "number_format option"
  cs_date_format :: "date_format option"

record table_presentation =
  tp_title :: "string option"
  tp_footer :: "(field_id, footer_aggregate) btree"
  tp_column_styles :: "(field_id, style_id) btree"

record conditional_rule =
  rule_schema :: schema_id
  rule_rank :: string
  rule_fields :: "field_id list"
  rule_condition :: expression
  rule_style :: style_id

record presentation_store =
  ps_styles :: "(style_id, cell_style) btree"
  ps_tables :: "(schema_id, table_presentation) btree"
  ps_rules :: "(rule_id, conditional_rule) btree"
  ps_cells :: "(entity_id \<times> field_id, style_id) btree"

datatype presentation_error =
    TooManyStyles nat nat
  | TooManyRules schema_id nat nat
  | PMissingSchema schema_id
  | PMissingEntity entity_id
  | PMissingField schema_id field_id
  | CellFieldNotOnEntitySchema entity_id field_id
  | MissingStyle style_id
  | UnusedStyle style_id
  | EmptyTable schema_id
  | EmptyRuleFields rule_id
  | DuplicateRuleField rule_id field_id
  | InvalidTitle schema_id "display_name_failure list"
  | InvalidRank rule_id string
  | InvalidNumberFormat style_id number_format_error
  | InvalidColor style_id string string
  | DuplicateBorderSide style_id border_side
  | BorderSidesOutOfOrder style_id
  | RuleConditionReference rule_id
  | RuleExpressionTooDeep rule_id nat
  | RuleExpressionTooLarge rule_id nat

definition max_styles :: nat where
  "max_styles = 4096"

definition max_rules_per_table :: nat where
  "max_rules_per_table = 64"

definition presentation_is_empty :: "presentation_store \<Rightarrow> bool" where
  "presentation_is_empty st \<longleftrightarrow>
     bt_entries (ps_styles st) = [] \<and> bt_entries (ps_tables st) = [] \<and>
     bt_entries (ps_rules st) = [] \<and> bt_entries (ps_cells st) = []"

section \<open>Spelling\<close>

definition rule_rank_is_valid :: "string \<Rightarrow> bool" where
  "rule_rank_is_valid rank \<longleftrightarrow>
     rank \<noteq> [] \<and> length rank \<le> 64 \<and> list_all is_ascii_alphanumeric rank \<and> last rank \<noteq> CHR ''0''"

fun border_rank :: "border_side \<Rightarrow> nat" where
  "border_rank BorderTop = 0"
| "border_rank BorderRight = 1"
| "border_rank BorderBottom = 2"
| "border_rank BorderLeft = 3"

definition is_upper_hex :: "char \<Rightarrow> bool" where
  "is_upper_hex c \<longleftrightarrow> is_ascii_digit c \<or> (65 \<le> byte c \<and> byte c \<le> 70)"

definition is_canonical_color :: "string \<Rightarrow> bool" where
  "is_canonical_color v \<longleftrightarrow>
     length v = 7 \<and> hd v = CHR ''#'' \<and> list_all is_upper_hex (tl v)"

definition check_color ::
    "style_id \<Rightarrow> string \<times> string option \<Rightarrow> presentation_error + unit" where
  "check_color style_id mc =
     (case mc of (member, color) \<Rightarrow>
      case color of
        None \<Rightarrow> Inr ()
      | Some v \<Rightarrow> if \<not> is_canonical_color v then Inl (InvalidColor style_id member v) else Inr ())"

definition check_border_pair ::
    "style_id \<Rightarrow> border_side \<times> border_side \<Rightarrow> presentation_error + unit" where
  "check_border_pair style_id ab =
     (case ab of (a, b) \<Rightarrow>
      case cmp_of (border_rank a) (border_rank b) of
        Ord_Less \<Rightarrow> Inr ()
      | Ord_Equal \<Rightarrow> Inl (DuplicateBorderSide style_id a)
      | Ord_Greater \<Rightarrow> Inl (BorderSidesOutOfOrder style_id))"

definition validate_style_spelling ::
    "style_id \<Rightarrow> cell_style \<Rightarrow> presentation_error + unit" where
  "validate_style_spelling style_id s =
     and_then (try_all (check_color style_id)
       [(''fill'', cs_fill s), (''text_color'', cs_text_color s)]) (\<lambda>u.
       case cs_borders s of
         None \<Rightarrow> Inr ()
       | Some borders \<Rightarrow> try_all (check_border_pair style_id) (zip borders (tl borders)))"

section \<open>Rule conditions\<close>

definition check_column :: "document \<Rightarrow> column_ref \<Rightarrow> presentation_error + unit" where
  "check_column d c =
     and_then (ok_or (PMissingSchema (cr_schema c)) (bt_get (doc_schemas d) (cr_schema c))) (\<lambda>s.
       guard (\<not> bt_contains (sch_fields s) (cr_field c)) (PMissingField (cr_schema c) (cr_field c)))"

definition check_condition_node ::
    "rule_id \<Rightarrow> schema \<Rightarrow> document \<Rightarrow> expression \<Rightarrow> presentation_error + unit" where
  "check_condition_node rule_id s d node =
     (case node of
        EReference r \<Rightarrow> Inl (RuleConditionReference rule_id)
      | ESameRowReference f \<Rightarrow> guard (\<not> bt_contains (sch_fields s) f) (PMissingField (sch_id s) f)
      | EColumnTotal c \<Rightarrow> check_column d c
      | EColumnAggregate g c \<Rightarrow> check_column d c
      | EColumnConditional a criteria \<Rightarrow>
          and_then (case a of CondSum c \<Rightarrow> check_column d c | CondAverage c \<Rightarrow> check_column d c
              | CondCount \<Rightarrow> Inr ())
            (\<lambda>u. try_all (\<lambda>c. check_column d (cc_column c)) criteria)
      | _ \<Rightarrow> Inr ())"

function condition_loop ::
    "rule_id \<Rightarrow> schema \<Rightarrow> document \<Rightarrow> (expression \<times> nat) list \<Rightarrow> nat \<Rightarrow> presentation_error + unit" where
  "condition_loop rule_id s d [] nodes = Inr ()"
| "condition_loop rule_id s d ((node, depth) # stack) nodes =
     (if max_expression_depth < depth then Inl (RuleExpressionTooDeep rule_id max_expression_depth)
      else if max_expression_nodes < nodes + 1
        then Inl (RuleExpressionTooLarge rule_id max_expression_nodes)
      else case check_condition_node rule_id s d node of
        Inl e \<Rightarrow> Inl e
      | Inr u \<Rightarrow>
          condition_loop rule_id s d (rev (map (\<lambda>c. (c, depth + 1)) (children node)) @ stack) (nodes + 1))"
  by pat_completeness auto
termination
  by (relation "measure (\<lambda>(rule_id, s, d, stack, nodes). forest_count (map fst stack))")
    (auto simp: node_count_children comp_def rev_map)

definition validate_rule_condition ::
    "rule_id \<Rightarrow> schema \<Rightarrow> expression \<Rightarrow> document \<Rightarrow> presentation_error + unit" where
  "validate_rule_condition rule_id s condition d = condition_loop rule_id s d [(condition, 1)] 0"

section \<open>Pruning\<close>

definition column_exists :: "document \<Rightarrow> column_ref \<Rightarrow> bool" where
  "column_exists d c \<longleftrightarrow>
     (case bt_get (doc_schemas d) (cr_schema c) of
        None \<Rightarrow> False | Some s \<Rightarrow> bt_contains (sch_fields s) (cr_field c))"

definition node_survives :: "schema \<Rightarrow> document \<Rightarrow> expression \<Rightarrow> bool" where
  "node_survives s d node =
     (case node of
        ESameRowReference f \<Rightarrow> bt_contains (sch_fields s) f
      | EColumnTotal c \<Rightarrow> column_exists d c
      | EColumnAggregate g c \<Rightarrow> column_exists d c
      | EColumnConditional a criteria \<Rightarrow>
          (case a of CondSum c \<Rightarrow> column_exists d c | CondAverage c \<Rightarrow> column_exists d c
             | CondCount \<Rightarrow> True) \<and>
          \<not> list_ex (\<lambda>c. \<not> column_exists d (cc_column c)) criteria
      | _ \<Rightarrow> True)"

function survives_loop :: "schema \<Rightarrow> document \<Rightarrow> expression list \<Rightarrow> bool" where
  "survives_loop s d [] = True"
| "survives_loop s d (node # stack) =
     (if \<not> node_survives s d node then False else survives_loop s d (rev (children node) @ stack))"
  by pat_completeness auto
termination
  by (relation "measure (\<lambda>(s, d, stack). forest_count stack)") (auto simp: node_count_children)

definition rule_survives_prune :: "conditional_rule \<Rightarrow> document \<Rightarrow> bool" where
  "rule_survives_prune r d =
     (case bt_get (doc_schemas d) (rule_schema r) of
        None \<Rightarrow> False
      | Some s \<Rightarrow>
          if list_ex (\<lambda>f. \<not> bt_contains (sch_fields s) f) (rule_fields r) then False
          else survives_loop s d [rule_condition r])"

definition prune_table :: "document \<Rightarrow> schema_id \<Rightarrow> table_presentation \<Rightarrow> table_presentation option" where
  "prune_table d schema_id t =
     (case bt_get (doc_schemas d) schema_id of
        None \<Rightarrow> None
      | Some s \<Rightarrow>
          let footer = bt_filter (\<lambda>f g. bt_contains (sch_fields s) f) (tp_footer t);
              column_styles = bt_filter (\<lambda>f g. bt_contains (sch_fields s) f) (tp_column_styles t) in
          if tp_title t = None \<and> bt_entries footer = [] \<and> bt_entries column_styles = [] then None
          else Some \<lparr>tp_title = tp_title t, tp_footer = footer, tp_column_styles = column_styles\<rparr>)"

definition cell_survives :: "document \<Rightarrow> entity_id \<times> field_id \<Rightarrow> bool" where
  "cell_survives d ef =
     (case ef of (entity_id, field) \<Rightarrow>
      case Option.bind (bt_get (doc_entities d) entity_id) (\<lambda>e. bt_get (doc_schemas d) (ent_schema e)) of
        None \<Rightarrow> False
      | Some s \<Rightarrow> bt_contains (sch_fields s) field)"

definition used_styles ::
    "(schema_id, table_presentation) btree \<Rightarrow> (rule_id, conditional_rule) btree \<Rightarrow>
     (entity_id \<times> field_id, style_id) btree \<Rightarrow> style_id set" where
  "used_styles tables rules cells =
     set (concat (map (\<lambda>t. bt_values (tp_column_styles t)) (bt_values tables))) \<union>
     set (map rule_style (bt_values rules)) \<union> set (bt_values cells)"

definition prune_presentation :: "presentation_store \<Rightarrow> document \<Rightarrow> presentation_store" where
  "prune_presentation st d =
     (let tables = bt_filter_map (prune_table d) (ps_tables st);
          rules = bt_filter (\<lambda>i r. rule_survives_prune r d) (ps_rules st);
          cells = bt_filter (\<lambda>k v. cell_survives d k) (ps_cells st);
          used = used_styles tables rules cells in
      \<lparr>ps_styles = bt_filter (\<lambda>i s. i \<in> used) (ps_styles st), ps_tables = tables,
       ps_rules = rules, ps_cells = cells\<rparr>)"

section \<open>Validation\<close>

text \<open>\<open>for field in &rule.fields { if !seen.insert(field) { return Err(..) } }\<close>\<close>

fun check_rule_fields_fresh ::
    "rule_id \<Rightarrow> field_id list \<Rightarrow> field_id set \<Rightarrow> presentation_error + unit" where
  "check_rule_fields_fresh rule_id [] seen = Inr ()"
| "check_rule_fields_fresh rule_id (f # fs) seen =
     (if f \<in> seen then Inl (DuplicateRuleField rule_id f)
      else check_rule_fields_fresh rule_id fs (insert f seen))"

fun count_rules ::
    "document \<Rightarrow> (rule_id \<times> conditional_rule) list \<Rightarrow> (schema_id, nat) btree \<Rightarrow>
     presentation_error + (schema_id, nat) btree" where
  "count_rules d [] counts = Inr counts"
| "count_rules d ((rule_id, r) # rest) counts =
     (if \<not> bt_contains (doc_schemas d) (rule_schema r) then Inl (PMissingSchema (rule_schema r))
      else let counts' = bt_insert (rule_schema r)
             ((case bt_get counts (rule_schema r) of None \<Rightarrow> 0 | Some n \<Rightarrow> n) + 1) counts in
        if rule_fields r = [] then Inl (EmptyRuleFields rule_id)
        else case check_rule_fields_fresh rule_id (rule_fields r) {} of
          Inl e \<Rightarrow> Inl e
        | Inr u \<Rightarrow> count_rules d rest counts')"

definition check_style :: "style_id \<times> cell_style \<Rightarrow> presentation_error + unit" where
  "check_style e =
     (case e of (style_id, s) \<Rightarrow>
      and_then (validate_style_spelling style_id s) (\<lambda>u.
        case cs_number_format s of
          None \<Rightarrow> Inr ()
        | Some nf \<Rightarrow> map_err (InvalidNumberFormat style_id) (number_format_validate_for nf TNumber)))"

definition check_table ::
    "presentation_store \<Rightarrow> document \<Rightarrow> schema_id \<times> table_presentation \<Rightarrow> presentation_error + unit" where
  "check_table st d e =
     (case e of (schema_id, t) \<Rightarrow>
      and_then (ok_or (PMissingSchema schema_id) (bt_get (doc_schemas d) schema_id)) (\<lambda>s.
      and_then (guard (tp_title t = None \<and> bt_entries (tp_footer t) = [] \<and>
          bt_entries (tp_column_styles t) = []) (EmptyTable schema_id)) (\<lambda>u.
      and_then (case tp_title t of
            None \<Rightarrow> Inr ()
          | Some title \<Rightarrow> (let failures = display_name_failures title in
              guard (failures \<noteq> []) (InvalidTitle schema_id failures))) (\<lambda>u.
      and_then (try_all (\<lambda>f. guard (\<not> bt_contains (sch_fields s) f) (PMissingField schema_id f))
          (bt_keys (tp_footer t) @ bt_keys (tp_column_styles t))) (\<lambda>u.
      try_all (\<lambda>i. guard (\<not> bt_contains (ps_styles st) i) (MissingStyle i))
        (bt_values (tp_column_styles t)))))))"

definition check_rule ::
    "presentation_store \<Rightarrow> document \<Rightarrow> rule_id \<times> conditional_rule \<Rightarrow> presentation_error + unit" where
  "check_rule st d e =
     (case e of (rule_id, r) \<Rightarrow>
      and_then (ok_or (PMissingSchema (rule_schema r)) (bt_get (doc_schemas d) (rule_schema r))) (\<lambda>s.
      and_then (guard (\<not> rule_rank_is_valid (rule_rank r)) (InvalidRank rule_id (rule_rank r))) (\<lambda>u.
      and_then (try_all (\<lambda>f. guard (\<not> bt_contains (sch_fields s) f) (PMissingField (rule_schema r) f))
          (rule_fields r)) (\<lambda>u.
      and_then (guard (\<not> bt_contains (ps_styles st) (rule_style r)) (MissingStyle (rule_style r))) (\<lambda>u.
      validate_rule_condition rule_id s (rule_condition r) d)))))"

definition check_cell ::
    "presentation_store \<Rightarrow> document \<Rightarrow> (entity_id \<times> field_id) \<times> style_id \<Rightarrow> presentation_error + unit" where
  "check_cell st d c =
     (case c of ((entity_id, field), style) \<Rightarrow>
      and_then (ok_or (PMissingEntity entity_id) (bt_get (doc_entities d) entity_id)) (\<lambda>e.
      and_then (ok_or (PMissingSchema (ent_schema e)) (bt_get (doc_schemas d) (ent_schema e))) (\<lambda>s.
      and_then (guard (\<not> bt_contains (sch_fields s) field)
          (CellFieldNotOnEntitySchema entity_id field)) (\<lambda>u.
      guard (\<not> bt_contains (ps_styles st) style) (MissingStyle style)))))"

definition validate_presentation :: "presentation_store \<Rightarrow> document \<Rightarrow> presentation_error + unit" where
  "validate_presentation st d =
     and_then (guard (max_styles < length (bt_entries (ps_styles st)))
       (TooManyStyles (length (bt_entries (ps_styles st))) max_styles)) (\<lambda>u.
     and_then (count_rules d (bt_entries (ps_rules st)) bt_empty) (\<lambda>rules_per_schema.
     and_then (try_all (\<lambda>(schema_id, found). guard (max_rules_per_table < found)
         (TooManyRules schema_id found max_rules_per_table)) (bt_entries rules_per_schema)) (\<lambda>u.
     and_then (try_all check_style (bt_entries (ps_styles st))) (\<lambda>u.
     and_then (try_all (check_table st d) (bt_entries (ps_tables st))) (\<lambda>u.
     and_then (try_all (check_rule st d) (bt_entries (ps_rules st))) (\<lambda>u.
     and_then (try_all (check_cell st d) (bt_entries (ps_cells st))) (\<lambda>u.
     try_all (\<lambda>i. guard (i \<notin> used_styles (ps_tables st) (ps_rules st) (ps_cells st)) (UnusedStyle i))
       (bt_keys (ps_styles st)))))))))"

section \<open>Conditions a rule may have\<close>

text \<open>The columns and fields a condition names, node by node.\<close>

definition condition_node_ok :: "schema \<Rightarrow> document \<Rightarrow> expression \<Rightarrow> bool" where
  "condition_node_ok s d n \<longleftrightarrow>
     (\<forall>r. n \<noteq> EReference r) \<and> (\<forall>f. n = ESameRowReference f \<longrightarrow> bt_get (sch_fields s) f \<noteq> None) \<and>
     (\<forall>c\<in>set (own_columns n). column_exists d c)"

definition condition_ok :: "schema \<Rightarrow> document \<Rightarrow> expression \<Rightarrow> bool" where
  "condition_ok s d e \<longleftrightarrow>
     node_depth e \<le> max_expression_depth \<and> node_count e \<le> max_expression_nodes \<and>
     (\<forall>n\<in>set (preorder (\<lambda>n. [n]) e). condition_node_ok s d n)"

lemma check_column_Inr: "check_column d c = Inr u \<longleftrightarrow> column_exists d c"
  by (auto simp: check_column_def column_exists_def result_simps split: option.splits)

lemma check_condition_node_Inr:
  "check_condition_node rule_id s d n = Inr u \<longleftrightarrow> condition_node_ok s d n"
proof (cases n)
  case (EColumnConditional a criteria)
  then show ?thesis
    by (cases a) (auto simp: check_condition_node_def condition_node_ok_def result_simps
        check_column_Inr)
qed (auto simp: check_condition_node_def condition_node_ok_def result_simps check_column_Inr)

lemma subexpressions_unfold:
  "set (preorder (\<lambda>n. [n]) e) = insert e (\<Union>c\<in>set (children e). set (preorder (\<lambda>n. [n]) c))"
  by (subst set_preorder) simp

lemma condition_loop_Inr:
  "condition_loop rule_id s d stack nodes = Inr u \<longleftrightarrow>
     (\<forall>(n, depth)\<in>set stack. depth + node_depth n \<le> max_expression_depth + 1 \<and>
        (\<forall>m\<in>set (preorder (\<lambda>n. [n]) n). condition_node_ok s d m)) \<and>
     (stack = [] \<or> nodes + forest_count (map fst stack) \<le> max_expression_nodes)"
proof (induction rule_id s d stack nodes rule: condition_loop.induct)
  case (1 rule_id s d nodes)
  then show ?case by simp
next
  case (2 rule_id s d node depth stack nodes)
  let ?kids = "rev (map (\<lambda>c. (c, depth + 1)) (children node))"
  note depth = node_depth_step [of depth node max_expression_depth]
  have count: "node_count node + forest_count (map fst stack) =
      Suc (forest_count (map fst (?kids @ stack)))"
    by (simp add: node_count_children rev_map [symmetric] comp_def)
  have nodes: "?kids @ stack = [] \<Longrightarrow> forest_count (map fst (?kids @ stack)) = 0" by simp
  show ?case
  proof (cases "depth \<le> max_expression_depth \<and> nodes + 1 \<le> max_expression_nodes \<and>
      check_condition_node rule_id s d node = Inr ()")
    case False
    have self: "node \<in> set (preorder (\<lambda>n. [n]) node)" by (simp add: subexpressions_unfold [of node])
    from False have "max_expression_depth < depth \<or>
        depth \<le> max_expression_depth \<and> max_expression_nodes < nodes + 1 \<or>
        depth \<le> max_expression_depth \<and> nodes + 1 \<le> max_expression_nodes \<and>
        (\<exists>e. check_condition_node rule_id s d node = Inl e)"
      by (cases "check_condition_node rule_id s d node") auto
    then consider "max_expression_depth < depth"
      | "depth \<le> max_expression_depth" "max_expression_nodes < nodes + 1"
      | e where "depth \<le> max_expression_depth" "nodes + 1 \<le> max_expression_nodes"
          "check_condition_node rule_id s d node = Inl e"
      by blast
    then show ?thesis
    proof cases
      case 1
      then show ?thesis using depth by simp
    next
      case 2
      then show ?thesis using count by simp
    next
      case 3
      then have "\<not> condition_node_ok s d node"
        using check_condition_node_Inr [of rule_id s d node "()"] by simp
      then show ?thesis using 3 self by auto
    qed
  next
    case True
    then have rec: "condition_loop rule_id s d ((node, depth) # stack) nodes =
        condition_loop rule_id s d (?kids @ stack) (nodes + 1)" by simp
    have "node_ok_all \<longleftrightarrow> (\<forall>c\<in>set (children node).
          \<forall>m\<in>set (preorder (\<lambda>n. [n]) c). condition_node_ok s d m)"
      if "node_ok_all \<longleftrightarrow> (\<forall>m\<in>set (preorder (\<lambda>n. [n]) node). condition_node_ok s d m)" for node_ok_all
      using that True by (subst (asm) subexpressions_unfold) (auto simp: check_condition_node_Inr)
    then have sub: "(\<forall>m\<in>set (preorder (\<lambda>n. [n]) node). condition_node_ok s d m) \<longleftrightarrow>
        (\<forall>c\<in>set (children node). \<forall>m\<in>set (preorder (\<lambda>n. [n]) c). condition_node_ok s d m)"
      by blast
    have bound: "?kids @ stack = [] \<or>
        nodes + 1 + forest_count (map fst (?kids @ stack)) \<le> max_expression_nodes \<longleftrightarrow>
        nodes + (node_count node + forest_count (map fst stack)) \<le> max_expression_nodes"
      using count nodes True by (cases "?kids @ stack = []") auto
    let ?P = "\<lambda>n depth. depth + node_depth n \<le> max_expression_depth + 1 \<and>
        (\<forall>m\<in>set (preorder (\<lambda>n. [n]) n). condition_node_ok s d m)"
    have IH: "condition_loop rule_id s d (?kids @ stack) (nodes + 1) = Inr u \<longleftrightarrow>
        (\<forall>(n, depth)\<in>set (?kids @ stack). ?P n depth) \<and>
        (?kids @ stack = [] \<or> nodes + 1 + forest_count (map fst (?kids @ stack)) \<le> max_expression_nodes)"
      using True by (intro 2) auto
    have P: "?P node depth \<longleftrightarrow> (\<forall>c\<in>set (children node). ?P c (depth + 1))"
      unfolding depth sub using True by blast
    have "(\<forall>(n, depth)\<in>set (?kids @ stack). Q n depth) \<longleftrightarrow>
        (\<forall>c\<in>set (children node). Q c (depth + 1)) \<and> (\<forall>(n, depth)\<in>set stack. Q n depth)" for Q
      by auto
    moreover have "(\<forall>(n, depth)\<in>set ((node, depth) # stack). Q n depth) \<longleftrightarrow>
        Q node depth \<and> (\<forall>(n, depth)\<in>set stack. Q n depth)" for Q
      by simp
    ultimately show ?thesis
      unfolding rec IH bound by (simp only: P) simp
  qed
qed

lemma validate_rule_condition_Inr:
  "validate_rule_condition rule_id s e d = Inr u \<longleftrightarrow> condition_ok s d e"
  by (auto simp: validate_rule_condition_def condition_loop_Inr condition_ok_def
      simp del: condition_loop.simps)

section \<open>What survives\<close>

lemma node_survives_iff:
  "node_survives s d n \<longleftrightarrow>
     (\<forall>f. n = ESameRowReference f \<longrightarrow> bt_get (sch_fields s) f \<noteq> None) \<and>
     (\<forall>c\<in>set (own_columns n). column_exists d c)"
proof (cases n)
  case (EColumnConditional a criteria)
  then show ?thesis by (cases a) (auto simp: node_survives_def list_ex_iff)
qed (auto simp: node_survives_def)

lemma survives_loop_iff:
  "survives_loop s d stack \<longleftrightarrow>
     (\<forall>e\<in>set stack. \<forall>n\<in>set (preorder (\<lambda>n. [n]) e). node_survives s d n)"
proof (induction s d stack rule: survives_loop.induct)
  case (2 s d node stack)
  then show ?case by (auto simp: subexpressions_unfold [of node])
qed simp

lemma rule_survives_condition:
  assumes "rule_survives_prune r d" "condition_ok s0 d0 (rule_condition r)"
  shows "\<exists>s. bt_get (doc_schemas d) (rule_schema r) = Some s \<and>
    (\<forall>f\<in>set (rule_fields r). bt_get (sch_fields s) f \<noteq> None) \<and> condition_ok s d (rule_condition r)"
  using assms
  by (auto simp: rule_survives_prune_def list_ex_iff survives_loop_iff condition_ok_def
      condition_node_ok_def node_survives_iff simp del: survives_loop.simps
      split: option.splits if_splits)

section \<open>The rules of a valid store\<close>

definition style_ok :: "cell_style \<Rightarrow> bool" where
  "style_ok s \<longleftrightarrow>
     (\<forall>v. cs_fill s = Some v \<or> cs_text_color s = Some v \<longrightarrow> is_canonical_color v) \<and>
     (\<forall>bs. cs_borders s = Some bs \<longrightarrow> sorted_wrt (<) (map border_rank bs)) \<and>
     (\<forall>nf. cs_number_format s = Some nf \<longrightarrow> number_format_validate_for nf TNumber = Inr ())"

definition table_ok :: "presentation_store \<Rightarrow> document \<Rightarrow> schema_id \<Rightarrow> table_presentation \<Rightarrow> bool" where
  "table_ok st d i t \<longleftrightarrow>
     (\<exists>s. bt_get (doc_schemas d) i = Some s \<and>
        (tp_title t \<noteq> None \<or> bt_entries (tp_footer t) \<noteq> [] \<or> bt_entries (tp_column_styles t) \<noteq> []) \<and>
        (\<forall>n. tp_title t = Some n \<longrightarrow> display_name_failures n = []) \<and>
        (\<forall>f. bt_get (tp_footer t) f \<noteq> None \<or> bt_get (tp_column_styles t) f \<noteq> None \<longrightarrow>
           bt_get (sch_fields s) f \<noteq> None) \<and>
        (\<forall>f v. bt_get (tp_column_styles t) f = Some v \<longrightarrow> bt_get (ps_styles st) v \<noteq> None))"

definition rule_ok :: "presentation_store \<Rightarrow> document \<Rightarrow> conditional_rule \<Rightarrow> bool" where
  "rule_ok st d r \<longleftrightarrow>
     (\<exists>s. bt_get (doc_schemas d) (rule_schema r) = Some s \<and>
        rule_fields r \<noteq> [] \<and> distinct (rule_fields r) \<and>
        (\<forall>f\<in>set (rule_fields r). bt_get (sch_fields s) f \<noteq> None) \<and>
        rule_rank_is_valid (rule_rank r) \<and> bt_get (ps_styles st) (rule_style r) \<noteq> None \<and>
        condition_ok s d (rule_condition r))"

definition cell_ok :: "presentation_store \<Rightarrow> document \<Rightarrow> entity_id \<times> field_id \<Rightarrow> style_id \<Rightarrow> bool" where
  "cell_ok st d k v \<longleftrightarrow> cell_survives d k \<and> bt_get (ps_styles st) v \<noteq> None"

definition rules_of :: "presentation_store \<Rightarrow> schema_id \<Rightarrow> (rule_id \<times> conditional_rule) list" where
  "rules_of st i = filter (\<lambda>e. rule_schema (snd e) = i) (bt_entries (ps_rules st))"

definition presentation_ok :: "presentation_store \<Rightarrow> document \<Rightarrow> bool" where
  "presentation_ok st d \<longleftrightarrow>
     length (bt_entries (ps_styles st)) \<le> max_styles \<and>
     (\<forall>i. length (rules_of st i) \<le> max_rules_per_table) \<and>
     (\<forall>i s. bt_get (ps_styles st) i = Some s \<longrightarrow> style_ok s \<and>
        i \<in> used_styles (ps_tables st) (ps_rules st) (ps_cells st)) \<and>
     (\<forall>i t. bt_get (ps_tables st) i = Some t \<longrightarrow> table_ok st d i t) \<and>
     (\<forall>i r. bt_get (ps_rules st) i = Some r \<longrightarrow> rule_ok st d r) \<and>
     (\<forall>k v. bt_get (ps_cells st) k = Some v \<longrightarrow> cell_ok st d k v)"

lemma check_fresh_Inr:
  "check_rule_fields_fresh i fs seen = Inr u \<longleftrightarrow> distinct fs \<and> set fs \<inter> seen = {}"
  by (induction i fs seen rule: check_rule_fields_fresh.induct) auto

lemma count_rules_Inr:
  "count_rules d entries counts = Inr counts' \<longleftrightarrow>
     (\<forall>(i, r)\<in>set entries. bt_get (doc_schemas d) (rule_schema r) \<noteq> None \<and> rule_fields r \<noteq> [] \<and>
        distinct (rule_fields r)) \<and>
     counts' = foldl (\<lambda>m e. bt_insert (rule_schema (snd e))
         ((case bt_get m (rule_schema (snd e)) of None \<Rightarrow> 0 | Some n \<Rightarrow> n) + 1) m) counts entries"
proof (induction entries arbitrary: counts)
  case (Cons e entries)
  obtain i r where e: "e = (i, r)" by force
  have "check_rule_fields_fresh i (rule_fields r) {} = Inr () \<longleftrightarrow> distinct (rule_fields r)"
    by (simp add: check_fresh_Inr)
  then show ?case
    using Cons e by (auto simp: Let_def split: sum.split)
qed auto

lemma count_fold:
  "bt_get (foldl (\<lambda>m e. bt_insert (key e)
         ((case bt_get m (key e) of None \<Rightarrow> 0 | Some n \<Rightarrow> n) + 1) m) m xs) k =
     (case filter (\<lambda>e. key e = k) xs of [] \<Rightarrow> bt_get m k
      | ys \<Rightarrow> Some ((case bt_get m k of None \<Rightarrow> 0 | Some n \<Rightarrow> n) + length ys))"
  by (induction xs arbitrary: m) (auto split: list.splits option.splits)

lemma counts_bounded:
  "(\<forall>k n. bt_get (foldl (\<lambda>m e. bt_insert (key e)
         ((case bt_get m (key e) of None \<Rightarrow> 0 | Some n \<Rightarrow> n) + 1) m) bt_empty xs) k = Some n \<longrightarrow> n \<le> b) \<longleftrightarrow>
   (\<forall>k. length (filter (\<lambda>e. key e = k) xs) \<le> b)"
proof -
  have "(\<forall>n. bt_get (foldl (\<lambda>m e. bt_insert (key e)
         ((case bt_get m (key e) of None \<Rightarrow> 0 | Some n \<Rightarrow> n) + 1) m) bt_empty xs) k = Some n \<longrightarrow> n \<le> b) \<longleftrightarrow>
      length (filter (\<lambda>e. key e = k) xs) \<le> b" for k
    unfolding count_fold by (simp split: list.split)
  then show ?thesis by blast
qed

lemma sorted_zip_tl:
  "(\<forall>(a, b)\<in>set (zip bs (tl bs)). f a < f b) \<longleftrightarrow> sorted_wrt (<) (map f bs :: 'a::linorder list)"
proof (induction bs)
  case (Cons a bs)
  then show ?case by (cases bs) (auto intro: order.strict_trans)
qed simp

lemma check_style_Inr: "check_style (i, s) = Inr u \<longleftrightarrow> style_ok s"
proof -
  have border: "check_border_pair i (a, b) = Inr w \<longleftrightarrow> border_rank a < border_rank b" for a b w
    by (simp add: check_border_pair_def cmp_of_def)
  have pairs: "try_all (check_border_pair i) (zip bs (tl bs)) = Inr w \<longleftrightarrow>
      sorted_wrt (<) (map border_rank bs)" for bs w
    unfolding try_all_Inr sorted_zip_tl [symmetric] using border by fast
  have colors: "try_all (check_color i) [(a, x), (b, y)] = Inr w \<longleftrightarrow>
      (\<forall>v. x = Some v \<or> y = Some v \<longrightarrow> is_canonical_color v)" for a b x y w
    by (cases x; cases y) (auto simp: check_color_def)
  have "validate_style_spelling i s = Inr w \<longleftrightarrow>
      (\<forall>v. cs_fill s = Some v \<or> cs_text_color s = Some v \<longrightarrow> is_canonical_color v) \<and>
      (\<forall>bs. cs_borders s = Some bs \<longrightarrow> sorted_wrt (<) (map border_rank bs))" for w
    unfolding validate_style_spelling_def
    by (cases "cs_borders s") (simp_all only: and_then_Inr colors pairs option.case, auto)
  then show ?thesis
    by (cases "cs_number_format s") (auto simp: check_style_def style_ok_def result_simps)
qed

lemma check_table_Inr: "check_table st d (i, t) = Inr u \<longleftrightarrow> table_ok st d i t"
proof -
  have title: "(case tp_title t of None \<Rightarrow> Inr ()
        | Some n \<Rightarrow> (let failures = display_name_failures n in
            guard (failures \<noteq> []) (InvalidTitle i failures))) = Inr w \<longleftrightarrow>
      (\<forall>n. tp_title t = Some n \<longrightarrow> display_name_failures n = [])" for w
    by (simp add: result_simps Let_def split: option.split)
  have flds: "(\<forall>f\<in>set (bt_keys (tp_footer t) @ bt_keys (tp_column_styles t)).
        bt_contains (sch_fields s) f) \<longleftrightarrow>
      (\<forall>f. bt_get (tp_footer t) f \<noteq> None \<or> bt_get (tp_column_styles t) f \<noteq> None \<longrightarrow>
        bt_get (sch_fields s) f \<noteq> None)" for s
    by (auto simp: set_bt_keys)
  have styles: "(\<forall>v\<in>set (bt_values (tp_column_styles t)). bt_contains (ps_styles st) v) \<longleftrightarrow>
      (\<forall>f v. bt_get (tp_column_styles t) f = Some v \<longrightarrow> bt_get (ps_styles st) v \<noteq> None)"
    by (simp add: bt_values_ball)
  show ?thesis
    unfolding check_table_def prod.case table_ok_def
    by (simp only: and_then_Inr title guard_Inr ok_or_Inr try_all_Inr flds styles not_not)
      (simp only: simp_thms ex_simps de_Morgan_conj)
qed

lemma check_rule_Inr:
  "rule_fields r \<noteq> [] \<Longrightarrow> distinct (rule_fields r) \<Longrightarrow>
   check_rule st d (i, r) = Inr u \<longleftrightarrow> rule_ok st d r"
  unfolding check_rule_def prod.case rule_ok_def
  by (simp only: and_then_Inr ok_or_Inr guard_Inr try_all_Inr validate_rule_condition_Inr not_not
      bt_contains_iff) (simp, blast)

lemma check_cell_Inr: "check_cell st d (k, v) = Inr u \<longleftrightarrow> cell_ok st d k v"
  by (cases k)
    (auto simp: check_cell_def cell_ok_def cell_survives_def result_simps
      split: option.splits Option.bind_splits)

lemma rule_ok_fields: "rule_ok st d r \<Longrightarrow> rule_fields r \<noteq> [] \<and> distinct (rule_fields r) \<and>
    bt_get (doc_schemas d) (rule_schema r) \<noteq> None"
  by (auto simp: rule_ok_def)

lemma validate_presentation_Inr:
  "validate_presentation st d = Inr u \<longleftrightarrow> presentation_ok st d"
proof -
  let ?rules = "bt_entries (ps_rules st)"
  let ?counts = "foldl (\<lambda>m e. bt_insert (rule_schema (snd e))
         ((case bt_get m (rule_schema (snd e)) of None \<Rightarrow> 0 | Some n \<Rightarrow> n) + 1) m) bt_empty ?rules"
  have counts: "count_rules d ?rules bt_empty = Inr c \<longleftrightarrow>
      (\<forall>i r. bt_get (ps_rules st) i = Some r \<longrightarrow> bt_get (doc_schemas d) (rule_schema r) \<noteq> None \<and>
        rule_fields r \<noteq> [] \<and> distinct (rule_fields r)) \<and> c = ?counts" for c
    unfolding count_rules_Inr bt_entries_ball by simp
  have bounded: "try_all (\<lambda>(schema_id, found). guard (max_rules_per_table < found)
        (TooManyRules schema_id found max_rules_per_table)) (bt_entries ?counts) = Inr w \<longleftrightarrow>
      (\<forall>i. length (rules_of st i) \<le> max_rules_per_table)" for w
    unfolding rules_of_def try_all_Inr bt_entries_ball prod.case guard_Inr not_less
    by (rule counts_bounded)
  have styles: "try_all check_style (bt_entries (ps_styles st)) = Inr w \<longleftrightarrow>
      (\<forall>i s. bt_get (ps_styles st) i = Some s \<longrightarrow> style_ok s)" for w
    unfolding try_all_Inr bt_entries_ball check_style_Inr ..
  have tables: "try_all (check_table st d) (bt_entries (ps_tables st)) = Inr w \<longleftrightarrow>
      (\<forall>i t. bt_get (ps_tables st) i = Some t \<longrightarrow> table_ok st d i t)" for w
    unfolding try_all_Inr bt_entries_ball check_table_Inr ..
  have cells: "try_all (check_cell st d) (bt_entries (ps_cells st)) = Inr w \<longleftrightarrow>
      (\<forall>k v. bt_get (ps_cells st) k = Some v \<longrightarrow> cell_ok st d k v)" for w
    unfolding try_all_Inr bt_entries_ball check_cell_Inr ..
  have rules: "(\<forall>i r. bt_get (ps_rules st) i = Some r \<longrightarrow> bt_get (doc_schemas d) (rule_schema r) \<noteq> None \<and>
        rule_fields r \<noteq> [] \<and> distinct (rule_fields r)) \<and>
      try_all (check_rule st d) ?rules = Inr w \<longleftrightarrow>
      (\<forall>i r. bt_get (ps_rules st) i = Some r \<longrightarrow> rule_ok st d r)" for w
    unfolding try_all_Inr bt_entries_ball using check_rule_Inr rule_ok_fields by metis
  have used: "try_all (\<lambda>i. guard (i \<notin> U) (UnusedStyle i)) (bt_keys (ps_styles st)) = Inr w \<longleftrightarrow>
      (\<forall>i s. bt_get (ps_styles st) i = Some s \<longrightarrow> i \<in> U)" for w U
    unfolding try_all_Inr by (auto simp: guard_Inr set_bt_keys)
  have "validate_presentation st d = Inr u \<longleftrightarrow>
      length (bt_entries (ps_styles st)) \<le> max_styles \<and>
      (\<forall>i r. bt_get (ps_rules st) i = Some r \<longrightarrow> bt_get (doc_schemas d) (rule_schema r) \<noteq> None \<and>
        rule_fields r \<noteq> [] \<and> distinct (rule_fields r)) \<and>
      (\<forall>i. length (rules_of st i) \<le> max_rules_per_table) \<and>
      (\<forall>i s. bt_get (ps_styles st) i = Some s \<longrightarrow> style_ok s) \<and>
      (\<forall>i t. bt_get (ps_tables st) i = Some t \<longrightarrow> table_ok st d i t) \<and>
      try_all (check_rule st d) ?rules = Inr () \<and>
      (\<forall>k v. bt_get (ps_cells st) k = Some v \<longrightarrow> cell_ok st d k v) \<and>
      (\<forall>i s. bt_get (ps_styles st) i = Some s \<longrightarrow> i \<in> used_styles (ps_tables st) (ps_rules st) (ps_cells st))"
    unfolding validate_presentation_def and_then_Inr guard_Inr not_less counts styles tables cells used
    using bounded by auto
  then show ?thesis unfolding presentation_ok_def using rules [of "()"] by auto
qed

section \<open>Pruning a valid store\<close>

lemma bt_filter_length: "length (bt_entries (bt_filter P m)) \<le> length (bt_entries m)"
  by (simp add: bt_entries_eval)

lemma rules_of_filter:
  "ps_rules st' = bt_filter P (ps_rules st) \<Longrightarrow> length (rules_of st' i) \<le> length (rules_of st i)"
proof -
  assume "ps_rules st' = bt_filter P (ps_rules st)"
  then have "rules_of st' i = filter (\<lambda>(i, r). P i r) (rules_of st i)"
    by (simp add: rules_of_def bt_entries_eval conj_commute case_prod_beta)
  then show ?thesis by simp
qed

lemma prune_fields:
  "ps_tables (prune_presentation st d) = bt_filter_map (prune_table d) (ps_tables st)"
  "ps_rules (prune_presentation st d) = bt_filter (\<lambda>i r. rule_survives_prune r d) (ps_rules st)"
  "ps_cells (prune_presentation st d) = bt_filter (\<lambda>k v. cell_survives d k) (ps_cells st)"
  "ps_styles (prune_presentation st d) = bt_filter (\<lambda>i s. i \<in> used_styles
      (ps_tables (prune_presentation st d)) (ps_rules (prune_presentation st d))
      (ps_cells (prune_presentation st d))) (ps_styles st)"
  by (simp_all add: prune_presentation_def Let_def)

lemma in_used_styles:
  "v \<in> used_styles tables rules cells \<longleftrightarrow>
     (\<exists>t\<in>set (bt_values tables). v \<in> set (bt_values (tp_column_styles t))) \<or>
     (\<exists>r\<in>set (bt_values rules). v = rule_style r) \<or> v \<in> set (bt_values cells)"
  by (simp add: used_styles_def image_iff)

lemma used_stylesI:
  "bt_get tables i = Some t \<Longrightarrow> bt_get (tp_column_styles t) f = Some v \<Longrightarrow> v \<in> used_styles tables rules cells"
  "bt_get rules j = Some r \<Longrightarrow> rule_style r \<in> used_styles tables rules cells"
  "bt_get cells k = Some v \<Longrightarrow> v \<in> used_styles tables rules cells"
  unfolding in_used_styles bt_values_bex in_bt_values by blast+

lemma prune_table_ok:
  assumes ok: "table_ok st d0 i t" and pr: "prune_table d i t = Some t'"
    and styles: "\<And>f v. bt_get (tp_column_styles t') f = Some v \<Longrightarrow> bt_get (ps_styles st) v \<noteq> None \<Longrightarrow>
      bt_get (ps_styles st') v \<noteq> None"
  shows "table_ok st' d i t'"
proof -
  from pr obtain s where s: "bt_get (doc_schemas d) i = Some s" and
    t': "t' = \<lparr>tp_title = tp_title t, tp_footer = bt_filter (\<lambda>f g. bt_contains (sch_fields s) f) (tp_footer t),
      tp_column_styles = bt_filter (\<lambda>f g. bt_contains (sch_fields s) f) (tp_column_styles t)\<rparr>" and
    ne: "tp_title t' \<noteq> None \<or> bt_entries (tp_footer t') \<noteq> [] \<or> bt_entries (tp_column_styles t') \<noteq> []"
    by (auto simp: prune_table_def Let_def split: option.splits if_splits)
  have sub: "bt_get (tp_column_styles t') f = Some v \<Longrightarrow> bt_get (tp_column_styles t) f = Some v" for f v
    unfolding t' by (auto split: option.splits if_splits)
  have flds: "bt_get (tp_footer t') f \<noteq> None \<or> bt_get (tp_column_styles t') f \<noteq> None \<Longrightarrow>
      bt_get (sch_fields s) f \<noteq> None" for f
    unfolding t' by (auto split: option.splits if_splits)
  have "tp_title t' = tp_title t" by (simp add: t')
  then have title: "\<forall>n. tp_title t' = Some n \<longrightarrow> display_name_failures n = []"
    using ok unfolding table_ok_def by metis
  have "bt_get (tp_column_styles t') f = Some v \<Longrightarrow> bt_get (ps_styles st') v \<noteq> None" for f v
    using ok sub styles unfolding table_ok_def by blast
  then show ?thesis unfolding table_ok_def using s ne title flds by blast
qed

lemma prune_valid:
  assumes "presentation_ok st d0"
  shows "presentation_ok (prune_presentation st d) d"
proof -
  let ?p = "prune_presentation st d"
  have kept: "bt_get (ps_styles ?p) v \<noteq> None"
    if "bt_get (ps_styles st) v \<noteq> None" "v \<in> used_styles (ps_tables ?p) (ps_rules ?p) (ps_cells ?p)" for v
    using that by (subst prune_fields(4)) auto
  have "length (bt_entries (ps_styles ?p)) \<le> length (bt_entries (ps_styles st))"
    by (subst prune_fields(4)) (rule bt_filter_length)
  moreover have "length (rules_of ?p i) \<le> length (rules_of st i)" for i
    by (rule rules_of_filter) (rule prune_fields(2))
  moreover have "style_ok s \<and> i \<in> used_styles (ps_tables ?p) (ps_rules ?p) (ps_cells ?p)"
    if "bt_get (ps_styles ?p) i = Some s" for i s
    using that assms unfolding prune_fields(4) presentation_ok_def
    by (auto split: option.splits if_splits)
  moreover have "table_ok ?p d i t'" if t': "bt_get (ps_tables ?p) i = Some t'" for i t'
  proof -
    from t' obtain t where t: "bt_get (ps_tables st) i = Some t" "prune_table d i t = Some t'"
      unfolding prune_fields(1) by (auto split: option.splits)
    show ?thesis
    proof (rule prune_table_ok [OF _ t(2)])
      show "table_ok st d0 i t" using assms t(1) by (simp add: presentation_ok_def)
      show "bt_get (ps_styles ?p) v \<noteq> None"
        if "bt_get (tp_column_styles t') f = Some v" "bt_get (ps_styles st) v \<noteq> None" for f v
        using kept [OF that(2)] used_stylesI(1) [OF t' that(1)] by blast
    qed
  qed
  moreover have "rule_ok ?p d r" if r: "bt_get (ps_rules ?p) i = Some r" for i r
  proof -
    from r have old: "bt_get (ps_rules st) i = Some r" "rule_survives_prune r d"
      unfolding prune_fields(2) by (auto split: option.splits if_splits)
    then have ok: "rule_ok st d0 r" using assms by (simp add: presentation_ok_def)
    then have "\<exists>s. bt_get (doc_schemas d) (rule_schema r) = Some s \<and>
        (\<forall>f\<in>set (rule_fields r). bt_get (sch_fields s) f \<noteq> None) \<and> condition_ok s d (rule_condition r)"
      using rule_survives_condition [OF old(2)] unfolding rule_ok_def by blast
    moreover have "bt_get (ps_styles ?p) (rule_style r) \<noteq> None"
      using ok kept used_stylesI(2) [OF r] unfolding rule_ok_def by blast
    ultimately show ?thesis using ok unfolding rule_ok_def by blast
  qed
  moreover have "cell_ok ?p d k v" if v: "bt_get (ps_cells ?p) k = Some v" for k v
  proof -
    from v have old: "bt_get (ps_cells st) k = Some v" "cell_survives d k"
      unfolding prune_fields(3) by (auto split: option.splits if_splits)
    then have "bt_get (ps_styles st) v \<noteq> None"
      using assms unfolding presentation_ok_def cell_ok_def by blast
    then show ?thesis using old(2) kept used_stylesI(3) [OF v] unfolding cell_ok_def by blast
  qed
  ultimately show ?thesis
    using assms unfolding presentation_ok_def by (meson order.trans)
qed

text \<open>A store that is valid for the document loses nothing.\<close>

lemma bt_filter_id:
  "(\<And>k v. bt_get m k = Some v \<Longrightarrow> P k v) \<Longrightarrow> bt_filter P m = m"
  by (rule btree_eqI) (auto split: option.split)

lemma prune_table_id:
  assumes "table_ok st d i t"
  shows "prune_table d i t = Some t"
proof -
  obtain s where s: "bt_get (doc_schemas d) i = Some s"
    and ne: "\<not> (tp_title t = None \<and> bt_entries (tp_footer t) = [] \<and> bt_entries (tp_column_styles t) = [])"
    and flds: "\<And>f. bt_get (tp_footer t) f \<noteq> None \<or> bt_get (tp_column_styles t) f \<noteq> None \<Longrightarrow>
      bt_get (sch_fields s) f \<noteq> None"
    using assms unfolding table_ok_def by metis
  have "bt_filter (\<lambda>f g. bt_contains (sch_fields s) f) (tp_footer t) = tp_footer t"
    by (rule bt_filter_id) (use flds in simp)
  moreover have "bt_filter (\<lambda>f g. bt_contains (sch_fields s) f) (tp_column_styles t) = tp_column_styles t"
    by (rule bt_filter_id) (use flds in simp)
  ultimately show ?thesis using s ne by (simp add: prune_table_def Let_def)
qed

lemma rule_ok_survives: "rule_ok st d r \<Longrightarrow> rule_survives_prune r d"
  by (auto simp: rule_ok_def rule_survives_prune_def list_ex_iff survives_loop_iff condition_ok_def
      condition_node_ok_def node_survives_iff simp del: survives_loop.simps)

lemma prune_id:
  assumes "presentation_ok st d"
  shows "prune_presentation st d = st"
proof -
  have "bt_filter_map (prune_table d) (ps_tables st) = ps_tables st"
  proof (rule btree_eqI)
    fix i
    show "bt_get (bt_filter_map (prune_table d) (ps_tables st)) i = bt_get (ps_tables st) i"
    proof (cases "bt_get (ps_tables st) i")
      case (Some t)
      then have "table_ok st d i t" using assms by (simp add: presentation_ok_def)
      then show ?thesis using Some prune_table_id by simp
    qed simp
  qed
  moreover have "bt_filter (\<lambda>i r. rule_survives_prune r d) (ps_rules st) = ps_rules st"
    by (rule bt_filter_id, rule rule_ok_survives [of st])
      (use assms in \<open>simp add: presentation_ok_def\<close>)
  moreover have "bt_filter (\<lambda>k v. cell_survives d k) (ps_cells st) = ps_cells st"
    by (rule bt_filter_id) (use assms in \<open>auto simp: presentation_ok_def cell_ok_def\<close>)
  moreover have "bt_filter (\<lambda>i s. i \<in> used_styles (ps_tables st) (ps_rules st) (ps_cells st))
      (ps_styles st) = ps_styles st"
    by (rule bt_filter_id) (use assms in \<open>auto simp: presentation_ok_def\<close>)
  ultimately show ?thesis by (simp add: prune_presentation_def Let_def)
qed

section \<open>Properties\<close>

text \<open>C32. A presentation store is accepted exactly when it is within its bounds, each style is
  spelled canonically and used, and every table, rule and cell names things the document has;
  a rule condition is accepted when it has at most 64 levels and 256 nodes, holds no record
  reference and names only fields and columns that exist.\<close>

theorem presentation_accepted_iff:
  "validate_presentation st d = Inr () \<longleftrightarrow> presentation_ok st d"
  by (rule validate_presentation_Inr)

text \<open>C23. Pruning repairs a store for a changed document: whatever store was valid against an
  earlier document, what pruning keeps of it is valid against the current one.\<close>

theorem pruned_store_is_valid:
  assumes "validate_presentation st earlier = Inr ()"
  shows "validate_presentation (prune_presentation st current) current = Inr ()"
  using assms prune_valid unfolding validate_presentation_Inr by blast

definition empty_store :: presentation_store where
  "empty_store = \<lparr>ps_styles = bt_empty, ps_tables = bt_empty, ps_rules = bt_empty, ps_cells = bt_empty\<rparr>"

definition sample_style :: cell_style where
  "sample_style =
     \<lparr>cs_bold = Some True, cs_italic = None, cs_fill = None, cs_text_color = None, cs_alignment = None,
      cs_wrap = None, cs_borders = Some [BorderTop, BorderLeft], cs_number_format = None,
      cs_date_format = None\<rparr>"

definition sample_store :: presentation_store where
  "sample_store =
     empty_store\<lparr>ps_styles := bt_insert ''s1'' sample_style bt_empty,
       ps_tables := bt_insert ''t'' \<lparr>tp_title = None, tp_footer = bt_empty,
         tp_column_styles = bt_insert ''b'' ''s1'' bt_empty\<rparr> bt_empty\<rparr>"

definition styled_document :: document where
  "styled_document =
     \<lparr>doc_id = ''d'', doc_title = ''Sheet'', doc_schemas = bt_insert ''t'' sample_schema bt_empty,
      doc_entities = bt_empty, doc_definitions = bt_empty\<rparr>"

lemma sample_store_valid: "validate_presentation sample_store styled_document = Inr ()"
  by (simp add: validate_presentation_Inr presentation_ok_def sample_store_def empty_store_def
      styled_document_def sample_schema_def sample_style_def style_ok_def table_ok_def rules_of_def
      used_styles_def max_styles_def max_rules_per_table_def bt_values_def bt_entries_eval)

lemma pruned_store_is_valid_witness:
  "validate_presentation (prune_presentation sample_store (document_empty ''d'' ''New''))
     (document_empty ''d'' ''New'') = Inr ()"
  by (rule pruned_store_is_valid [OF sample_store_valid])

text \<open>C37. Pruning a store that is valid for the document changes nothing, so a save followed by a
  prune against the same document is the identity.\<close>

theorem pruning_valid_store_is_identity:
  assumes "validate_presentation st d = Inr ()"
  shows "prune_presentation st d = st"
  using assms prune_id unfolding validate_presentation_Inr by blast

lemma pruning_valid_store_is_identity_witness:
  "prune_presentation sample_store styled_document = sample_store"
  by (rule pruning_valid_store_is_identity [OF sample_store_valid])

end
