(* ===== verification/Merge.thy ===== *)
theory Merge
  imports Addresses
begin

text \<open>
  The three-way merge of \<open>merge-engine/src/lib.rs\<close>: the choice between three values, the
  merge of schemas, fields, entities and stored values, the conflicts it reports and their
  order.  A conflict the code refuses to construct is a panic: it is \<open>None\<close> in the list of
  conflicts and the whole merge then answers \<open>MergePanics\<close>.
\<close>

section \<open>Data\<close>

record schema_field_subject =
  sfs_key :: field_key
  sfs_type :: field_type
  sfs_required :: bool

record schema_subject =
  ss_key :: schema_key
  ss_fields :: "(field_id, schema_field_subject) btree"

record entity_subject =
  es_key :: entity_key
  es_schema :: schema_id
  es_fields :: "(field_id, val) btree"

datatype merge_value =
    MvDocumentTitle string
  | MvSchemaSubject schema_subject
  | MvSchemaFieldSubject schema_field_subject
  | MvEntitySubject entity_subject
  | MvSchemaId schema_id
  | MvSchemaKey schema_key
  | MvEntityKey entity_key
  | MvFieldKey field_key
  | MvFieldType field_type
  | MvRequired bool
  | MvFieldValue val

datatype conflict_target =
    TargetDocument document_id
  | TargetSchema schema_id
  | TargetSchemaField schema_id field_id
  | TargetEntity entity_id
  | TargetStoredEntityField entity_id schema_id field_id

datatype conflict_facet =
  FacetSubject | FacetTitle | FacetKey | FacetFieldType | FacetRequiredness | FacetSchema |
  FacetStoredValue

datatype conflict_kind = ConcurrentAddition | DeleteModify | ConcurrentChange

datatype conflict_fact = FactAbsent | FactPresent merge_value

record merge_conflict =
  mc_document :: document_id
  mc_target :: conflict_target
  mc_facet :: conflict_facet
  mc_kind :: conflict_kind
  mc_base :: conflict_fact
  mc_left :: conflict_fact
  mc_right :: conflict_fact

record unmaterialized_fact =
  uf_entity :: entity_id
  uf_source_schema :: schema_id
  uf_selected_schema :: schema_id
  uf_field :: field_id
  uf_value :: val

datatype merge_outcome =
    Merged document "unmaterialized_fact list"
  | Conflicted "merge_conflict list"
  | UnsupportedKeyedGroupedSumDefinitionChange
  | UnsupportedFieldConstraintChange
  | UnsupportedDisplayName
  | UnsupportedNumberFormat
  | UnsupportedFieldOrder
  | MergePanics

definition schema_field_subject_of :: "field_definition \<Rightarrow> schema_field_subject" where
  "schema_field_subject_of f =
     \<lparr>sfs_key = fd_key f, sfs_type = fd_type f, sfs_required = fd_required f\<rparr>"

definition schema_subject_of :: "schema \<Rightarrow> schema_subject" where
  "schema_subject_of s =
     \<lparr>ss_key = sch_key s, ss_fields = bt_map (\<lambda>i. schema_field_subject_of) (sch_fields s)\<rparr>"

definition entity_subject_of :: "entity \<Rightarrow> entity_subject" where
  "entity_subject_of e =
     \<lparr>es_key = ent_key e, es_schema = ent_schema e, es_fields = ent_fields e\<rparr>"

section \<open>Conflicts\<close>

fun subject_rank :: "conflict_target \<Rightarrow> nat" where
  "subject_rank (TargetDocument d) = 0"
| "subject_rank (TargetSchema s) = 1"
| "subject_rank (TargetSchemaField s f) = 2"
| "subject_rank (TargetEntity e) = 3"
| "subject_rank (TargetStoredEntityField e s f) = 4"

text \<open>\<open>canonical_cmp\<close> compares the rank, then the identifiers in this order.\<close>

fun target_ids :: "conflict_target \<Rightarrow> string \<times> string \<times> string" where
  "target_ids (TargetDocument d) = (d, [], [])"
| "target_ids (TargetSchema s) = (s, [], [])"
| "target_ids (TargetSchemaField s f) = (s, f, [])"
| "target_ids (TargetEntity e) = (e, [], [])"
| "target_ids (TargetStoredEntityField e s f) = (e, s, f)"

fun facet_rank :: "conflict_facet \<Rightarrow> conflict_target \<Rightarrow> nat option" where
  "facet_rank FacetTitle (TargetDocument d) = Some 0"
| "facet_rank FacetSubject (TargetSchema s) = Some 0"
| "facet_rank FacetSubject (TargetSchemaField s f) = Some 0"
| "facet_rank FacetSubject (TargetEntity e) = Some 0"
| "facet_rank FacetStoredValue (TargetStoredEntityField e s f) = Some 0"
| "facet_rank FacetKey (TargetSchema s) = Some 1"
| "facet_rank FacetKey (TargetSchemaField s f) = Some 1"
| "facet_rank FacetKey (TargetEntity e) = Some 1"
| "facet_rank FacetFieldType (TargetSchemaField s f) = Some 2"
| "facet_rank FacetSchema (TargetEntity e) = Some 2"
| "facet_rank FacetRequiredness (TargetSchemaField s f) = Some 3"
| "facet_rank _ _ = None"

definition target_allows :: "conflict_target \<Rightarrow> conflict_facet \<Rightarrow> bool" where
  "target_allows t f \<longleftrightarrow> facet_rank f t \<noteq> None"

fun kind_rank :: "conflict_kind \<Rightarrow> nat" where
  "kind_rank ConcurrentAddition = 0"
| "kind_rank DeleteModify = 1"
| "kind_rank ConcurrentChange = 2"

fun classify_conflict ::
    "merge_value option \<Rightarrow> merge_value option \<Rightarrow> merge_value option \<Rightarrow> conflict_kind option" where
  "classify_conflict None (Some l) (Some r) = Some ConcurrentAddition"
| "classify_conflict (Some b) None (Some r) = Some DeleteModify"
| "classify_conflict (Some b) (Some l) None = Some DeleteModify"
| "classify_conflict (Some b) (Some l) (Some r) = Some ConcurrentChange"
| "classify_conflict _ _ _ = None"

definition conflict_fact_of :: "merge_value option \<Rightarrow> conflict_fact" where
  "conflict_fact_of v = (case v of None \<Rightarrow> FactAbsent | Some x \<Rightarrow> FactPresent x)"

text \<open>\<open>assert!(target.allows(facet))\<close> and \<open>classify(..).expect(..)\<close>\<close>

definition merge_conflict_new ::
    "document_id \<Rightarrow> conflict_target \<Rightarrow> conflict_facet \<Rightarrow> merge_value option \<Rightarrow> merge_value option \<Rightarrow>
     merge_value option \<Rightarrow> merge_conflict option" where
  "merge_conflict_new d target facet base left right =
     (if \<not> target_allows target facet then None
      else case classify_conflict base left right of
        None \<Rightarrow> None
      | Some kind \<Rightarrow> Some \<lparr>mc_document = d, mc_target = target, mc_facet = facet, mc_kind = kind,
          mc_base = conflict_fact_of base, mc_left = conflict_fact_of left,
          mc_right = conflict_fact_of right\<rparr>)"

text \<open>The key the reported conflicts are sorted by; \<open>unwrap_or(u8::MAX)\<close> gives 255.\<close>

definition conflict_key :: "merge_conflict \<Rightarrow> (nat \<times> string \<times> string \<times> string) \<times> nat \<times> nat" where
  "conflict_key c =
     ((subject_rank (mc_target c), target_ids (mc_target c)),
      (case facet_rank (mc_facet c) (mc_target c) of Some r \<Rightarrow> r | None \<Rightarrow> 255),
      kind_rank (mc_kind c))"

section \<open>Choices\<close>

definition choose_scalar :: "'a \<Rightarrow> 'a \<Rightarrow> 'a \<Rightarrow> 'a option" where
  "choose_scalar base ours theirs =
     (if ours = theirs then Some ours
      else if ours = base then Some theirs
      else if theirs = base then Some ours
      else None)"

datatype 'a optional_choice = Chosen "'a option" | ChoiceConflict

definition choose_optional :: "'a option \<Rightarrow> 'a option \<Rightarrow> 'a option \<Rightarrow> 'a optional_choice" where
  "choose_optional base ours theirs =
     (if ours = theirs then Chosen ours
      else if ours = base then Chosen theirs
      else if theirs = base then Chosen ours
      else ChoiceConflict)"

text \<open>
  The evidence a step of the merge leaves: the facts it could not materialize and the
  conflicts it pushed.
\<close>

type_synonym evidence = "unmaterialized_fact list \<times> merge_conflict option list"

definition no_evidence :: evidence where
  "no_evidence = ([], [])"

definition ev_join :: "evidence \<Rightarrow> evidence \<Rightarrow> evidence" where
  "ev_join a b = (fst a @ fst b, snd a @ snd b)"

definition merge_scalar ::
    "document_id \<Rightarrow> conflict_target \<Rightarrow> conflict_facet \<Rightarrow> ('a \<Rightarrow> merge_value) \<Rightarrow> 'a \<Rightarrow> 'a \<Rightarrow> 'a \<Rightarrow>
     'a option \<times> evidence" where
  "merge_scalar d target facet wrap base ours theirs =
     (let selected = choose_scalar base ours theirs in
      (selected,
       if selected = None
       then ([], [merge_conflict_new d target facet (Some (wrap base)) (Some (wrap ours))
               (Some (wrap theirs))])
       else no_evidence))"

definition merge_optional ::
    "document_id \<Rightarrow> conflict_target \<Rightarrow> conflict_facet \<Rightarrow> ('a \<Rightarrow> merge_value) \<Rightarrow>
     'a option \<Rightarrow> 'a option \<Rightarrow> 'a option \<Rightarrow> 'a optional_choice \<times> evidence" where
  "merge_optional d target facet wrap base ours theirs =
     (let selected = choose_optional base ours theirs in
      (selected,
       if selected = ChoiceConflict
       then ([], [merge_conflict_new d target facet (map_option wrap base) (map_option wrap ours)
               (map_option wrap theirs)])
       else no_evidence))"

section \<open>Loops over the union of the ids\<close>

text \<open>What one id contributes to the merged map, and the loop that collects it.\<close>

datatype 'v slot = Keep 'v | Drop | Incomplete

definition slot_of_choice :: "'v optional_choice \<Rightarrow> 'v slot" where
  "slot_of_choice c =
     (case c of Chosen (Some v) \<Rightarrow> Keep v | Chosen None \<Rightarrow> Drop | ChoiceConflict \<Rightarrow> Incomplete)"

definition slot_of_merged :: "'v option \<Rightarrow> 'v slot" where
  "slot_of_merged m = (case m of Some v \<Rightarrow> Keep v | None \<Rightarrow> Incomplete)"

fun collect ::
    "('k::linorder \<Rightarrow> 'v slot \<times> evidence) \<Rightarrow> 'k list \<Rightarrow> ('k, 'v) btree \<Rightarrow> bool \<Rightarrow> evidence \<Rightarrow>
     ('k, 'v) btree option \<times> evidence" where
  "collect step [] m complete ev = (if complete then Some m else None, ev)"
| "collect step (k # ks) m complete ev =
     (case step k of (slot, e) \<Rightarrow>
      case slot of
        Keep v \<Rightarrow> collect step ks (bt_insert k v m) complete (ev_join ev e)
      | Drop \<Rightarrow> collect step ks m complete (ev_join ev e)
      | Incomplete \<Rightarrow> collect step ks m False (ev_join ev e))"

definition all_ids ::
    "('k::linorder, 'v) btree \<Rightarrow> ('k, 'v) btree \<Rightarrow> ('k, 'v) btree \<Rightarrow> 'k list" where
  "all_ids base ours theirs = ord_set (bt_keys base @ bt_keys ours @ bt_keys theirs)"

section \<open>Schemas\<close>

definition merge_field_definition ::
    "document_id \<Rightarrow> schema_id \<Rightarrow> field_id \<Rightarrow> field_definition \<Rightarrow> field_definition \<Rightarrow> field_definition \<Rightarrow>
     field_definition option \<times> evidence" where
  "merge_field_definition d schema_id field_id base ours theirs =
     (let target = TargetSchemaField schema_id field_id in
      case merge_scalar d target FacetKey MvFieldKey (fd_key base) (fd_key ours) (fd_key theirs) of
        (key, e1) \<Rightarrow>
      case merge_scalar d target FacetFieldType MvFieldType (fd_type base) (fd_type ours)
          (fd_type theirs) of (ty, e2) \<Rightarrow>
      case merge_scalar d target FacetRequiredness MvRequired (fd_required base) (fd_required ours)
          (fd_required theirs) of (required, e3) \<Rightarrow>
      (Option.bind key (\<lambda>k. Option.bind ty (\<lambda>t. Option.bind required (\<lambda>r.
         Some \<lparr>fd_id = field_id, fd_key = k, fd_display_name = None, fd_type = t, fd_required = r,
           fd_constraint = ConstraintNone, fd_number_format = None\<rparr>))),
       ev_join e1 (ev_join e2 e3)))"

definition schema_field_step ::
    "document_id \<Rightarrow> schema_id \<Rightarrow> (field_id, field_definition) btree \<Rightarrow>
     (field_id, field_definition) btree \<Rightarrow> (field_id, field_definition) btree \<Rightarrow> field_id \<Rightarrow>
     field_definition slot \<times> evidence" where
  "schema_field_step d schema_id base ours theirs i =
     (case (bt_get base i, bt_get ours i, bt_get theirs i) of
        (Some b, Some x, Some y) \<Rightarrow>
          (case merge_field_definition d schema_id i b x y of (f, e) \<Rightarrow> (slot_of_merged f, e))
      | (b, x, y) \<Rightarrow>
          (case merge_optional d (TargetSchemaField schema_id i) FacetSubject
              (\<lambda>f. MvSchemaFieldSubject (schema_field_subject_of f)) b x y of
             (c, e) \<Rightarrow> (slot_of_choice c, e)))"

definition merge_schema_fields ::
    "document_id \<Rightarrow> schema_id \<Rightarrow> (field_id, field_definition) btree \<Rightarrow>
     (field_id, field_definition) btree \<Rightarrow> (field_id, field_definition) btree \<Rightarrow>
     (field_id, field_definition) btree option \<times> evidence" where
  "merge_schema_fields d schema_id base ours theirs =
     collect (schema_field_step d schema_id base ours theirs) (all_ids base ours theirs)
       bt_empty True no_evidence"

definition merge_schema ::
    "document_id \<Rightarrow> schema_id \<Rightarrow> schema \<Rightarrow> schema \<Rightarrow> schema \<Rightarrow> schema option \<times> evidence" where
  "merge_schema d schema_id base ours theirs =
     (case merge_schema_fields d schema_id (sch_fields base) (sch_fields ours) (sch_fields theirs) of
        (merged_fields, e1) \<Rightarrow>
      case merge_scalar d (TargetSchema schema_id) FacetKey MvSchemaKey (sch_key base) (sch_key ours)
          (sch_key theirs) of (key, e2) \<Rightarrow>
      (Option.bind key (\<lambda>k. Option.bind merged_fields (\<lambda>fs.
         Some \<lparr>sch_id = schema_id, sch_key = k, sch_display_name = None, sch_fields = fs,
           sch_field_order = None\<rparr>)),
       ev_join e1 e2))"

definition schema_step ::
    "document_id \<Rightarrow> (schema_id, schema) btree \<Rightarrow> (schema_id, schema) btree \<Rightarrow>
     (schema_id, schema) btree \<Rightarrow> schema_id \<Rightarrow> schema slot \<times> evidence" where
  "schema_step d base ours theirs i =
     (case (bt_get base i, bt_get ours i, bt_get theirs i) of
        (Some b, Some x, Some y) \<Rightarrow>
          (case merge_schema d i b x y of (s, e) \<Rightarrow> (slot_of_merged s, e))
      | (b, x, y) \<Rightarrow>
          (case merge_optional d (TargetSchema i) FacetSubject
              (\<lambda>s. MvSchemaSubject (schema_subject_of s)) b x y of
             (c, e) \<Rightarrow> (slot_of_choice c, e)))"

definition merge_schemas ::
    "document_id \<Rightarrow> (schema_id, schema) btree \<Rightarrow> (schema_id, schema) btree \<Rightarrow>
     (schema_id, schema) btree \<Rightarrow> (schema_id, schema) btree option \<times> evidence" where
  "merge_schemas d base ours theirs =
     collect (schema_step d base ours theirs) (all_ids base ours theirs) bt_empty True no_evidence"

section \<open>Entities\<close>

definition qualified_field :: "entity \<Rightarrow> schema_id \<Rightarrow> field_id \<Rightarrow> val option" where
  "qualified_field e schema_id field_id =
     (if ent_schema e = schema_id then bt_get (ent_fields e) field_id else None)"

definition field_targets :: "entity \<Rightarrow> entity \<Rightarrow> entity \<Rightarrow> (schema_id \<times> field_id) list" where
  "field_targets base ours theirs =
     ord_set (map (Pair (ent_schema base)) (bt_keys (ent_fields base)) @
              map (Pair (ent_schema ours)) (bt_keys (ent_fields ours)) @
              map (Pair (ent_schema theirs)) (bt_keys (ent_fields theirs)))"

fun entity_fields_loop ::
    "document_id \<Rightarrow> entity_id \<Rightarrow> schema_id option \<Rightarrow> entity \<Rightarrow> entity \<Rightarrow> entity \<Rightarrow>
     (schema_id \<times> field_id) list \<Rightarrow> (field_id, val) btree \<Rightarrow> bool \<Rightarrow> evidence \<Rightarrow>
     (field_id, val) btree option \<times> evidence" where
  "entity_fields_loop d entity_id selected base ours theirs [] m complete ev =
     (if complete then Some m else None, ev)"
| "entity_fields_loop d entity_id selected base ours theirs ((schema_id, field_id) # targets) m complete ev =
     (case merge_optional d (TargetStoredEntityField entity_id schema_id field_id) FacetStoredValue
          MvFieldValue (qualified_field base schema_id field_id)
          (qualified_field ours schema_id field_id) (qualified_field theirs schema_id field_id) of
        (choice, e) \<Rightarrow>
      let ev' = ev_join ev e in
      case choice of
        Chosen (Some v) \<Rightarrow>
          (case selected of
             None \<Rightarrow> entity_fields_loop d entity_id selected base ours theirs targets m complete ev'
           | Some sel \<Rightarrow>
               if sel = schema_id
               then entity_fields_loop d entity_id selected base ours theirs targets
                 (bt_insert field_id v m) complete ev'
               else entity_fields_loop d entity_id selected base ours theirs targets m complete
                 (ev_join ev' ([\<lparr>uf_entity = entity_id, uf_source_schema = schema_id,
                    uf_selected_schema = sel, uf_field = field_id, uf_value = v\<rparr>], [])))
      | Chosen None \<Rightarrow> entity_fields_loop d entity_id selected base ours theirs targets m complete ev'
      | ChoiceConflict \<Rightarrow>
          entity_fields_loop d entity_id selected base ours theirs targets m False ev')"

definition merge_entity_fields ::
    "document_id \<Rightarrow> entity_id \<Rightarrow> schema_id option \<Rightarrow> entity \<Rightarrow> entity \<Rightarrow> entity \<Rightarrow>
     (field_id, val) btree option \<times> evidence" where
  "merge_entity_fields d entity_id selected base ours theirs =
     entity_fields_loop d entity_id selected base ours theirs (field_targets base ours theirs)
       bt_empty (selected \<noteq> None) no_evidence"

definition merge_entity ::
    "document_id \<Rightarrow> entity_id \<Rightarrow> entity \<Rightarrow> entity \<Rightarrow> entity \<Rightarrow> entity option \<times> evidence" where
  "merge_entity d entity_id base ours theirs =
     (case merge_scalar d (TargetEntity entity_id) FacetSchema MvSchemaId (ent_schema base)
          (ent_schema ours) (ent_schema theirs) of (schema_id, e1) \<Rightarrow>
      case merge_scalar d (TargetEntity entity_id) FacetKey MvEntityKey (ent_key base) (ent_key ours)
          (ent_key theirs) of (key, e2) \<Rightarrow>
      case merge_entity_fields d entity_id schema_id base ours theirs of (merged_fields, e3) \<Rightarrow>
      (Option.bind key (\<lambda>k. Option.bind schema_id (\<lambda>s. Option.bind merged_fields (\<lambda>fs.
         Some \<lparr>ent_id = entity_id, ent_key = k, ent_schema = s, ent_fields = fs\<rparr>))),
       ev_join e1 (ev_join e2 e3)))"

definition entity_step ::
    "document_id \<Rightarrow> (entity_id, entity) btree \<Rightarrow> (entity_id, entity) btree \<Rightarrow>
     (entity_id, entity) btree \<Rightarrow> entity_id \<Rightarrow> entity slot \<times> evidence" where
  "entity_step d base ours theirs i =
     (case (bt_get base i, bt_get ours i, bt_get theirs i) of
        (Some b, Some x, Some y) \<Rightarrow>
          (case merge_entity d i b x y of (m, e) \<Rightarrow> (slot_of_merged m, e))
      | (b, x, y) \<Rightarrow>
          (case merge_optional d (TargetEntity i) FacetSubject
              (\<lambda>e. MvEntitySubject (entity_subject_of e)) b x y of
             (c, e) \<Rightarrow> (slot_of_choice c, e)))"

definition merge_entities ::
    "document_id \<Rightarrow> (entity_id, entity) btree \<Rightarrow> (entity_id, entity) btree \<Rightarrow>
     (entity_id, entity) btree \<Rightarrow> (entity_id, entity) btree option \<times> evidence" where
  "merge_entities d base ours theirs =
     collect (entity_step d base ours theirs) (all_ids base ours theirs) bt_empty True no_evidence"

section \<open>The merge\<close>

definition has_field_constraints :: "document \<Rightarrow> bool" where
  "has_field_constraints d =
     list_ex (\<lambda>f. fd_constraint f \<noteq> ConstraintNone)
       (concat (map (\<lambda>s. bt_values (sch_fields s)) (bt_values (doc_schemas d))))"

definition sort_conflicts :: "merge_conflict list \<Rightarrow> merge_conflict list" where
  "sort_conflicts cs = sort_key conflict_key cs"

definition merge_documents :: "document \<Rightarrow> document \<Rightarrow> document \<Rightarrow> merge_outcome" where
  "merge_documents base ours theirs =
     (if list_ex has_number_formats [base, ours, theirs] then UnsupportedNumberFormat
      else if list_ex has_field_orders [base, ours, theirs] then UnsupportedFieldOrder
      else if list_ex has_display_names [base, ours, theirs] then UnsupportedDisplayName
      else if has_field_constraints base \<or> has_field_constraints ours \<or> has_field_constraints theirs
        then UnsupportedFieldConstraintChange
      else if doc_definitions base \<noteq> doc_definitions ours \<or>
          doc_definitions base \<noteq> doc_definitions theirs
        then UnsupportedKeyedGroupedSumDefinitionChange
      else
        (case merge_scalar (doc_id base) (TargetDocument (doc_id base)) FacetTitle MvDocumentTitle
            (doc_title base) (doc_title ours) (doc_title theirs) of (title, e1) \<Rightarrow>
         case merge_schemas (doc_id base) (doc_schemas base) (doc_schemas ours) (doc_schemas theirs)
           of (schemas, e2) \<Rightarrow>
         case merge_entities (doc_id base) (doc_entities base) (doc_entities ours)
             (doc_entities theirs) of (entities, e3) \<Rightarrow>
         let ev = ev_join e1 (ev_join e2 e3) in
         if None \<in> set (snd ev) then MergePanics
         else if snd ev \<noteq> [] then Conflicted (sort_conflicts (map the (snd ev)))
         else case (title, schemas, entities) of
             (Some t, Some ss, Some es) \<Rightarrow>
               Merged \<lparr>doc_id = doc_id base, doc_title = t, doc_schemas = ss, doc_entities = es,
                 doc_definitions = doc_definitions base\<rparr> (fst ev)
           | _ \<Rightarrow> MergePanics))"

section \<open>The contract of a three-way choice\<close>

text \<open>
  A choice takes the value both sides agree on, the changed value when one side kept the
  base, and clashes otherwise.
\<close>

locale three_way =
  fixes pick :: "'a \<Rightarrow> 'a \<Rightarrow> 'a \<Rightarrow> 'r"
    and take_value :: "'a \<Rightarrow> 'r"
    and clash :: 'r
  assumes agree: "pick b x x = take_value x"
    and kept_left: "pick b b x = take_value x"
    and kept_right: "pick b x b = take_value x"
    and differ: "x \<noteq> y \<Longrightarrow> x \<noteq> b \<Longrightarrow> y \<noteq> b \<Longrightarrow> pick b x y = clash"
    and take_inject: "take_value x = take_value y \<Longrightarrow> x = y"
    and take_not_clash: "take_value x \<noteq> clash"
begin

lemma pick_cases:
  "pick b x y = (if x = y \<or> x = b then take_value y else if y = b then take_value x else clash)"
  using agree kept_left kept_right differ by auto

lemma commute: "pick b x y = pick b y x"
  by (auto simp: pick_cases)

lemma follow: "x = b \<or> x = y \<Longrightarrow> pick b x y = take_value y"
  by (auto simp: pick_cases)

lemma clash_iff: "pick b x y = clash \<longleftrightarrow> x \<noteq> y \<and> x \<noteq> b \<and> y \<noteq> b"
  by (auto simp: pick_cases take_not_clash)

lemma chosen_from: "pick b x y = take_value z \<Longrightarrow> z = x \<or> z = y"
  using take_not_clash take_inject unfolding pick_cases by (metis (full_types))

end

interpretation scalar: three_way choose_scalar Some None
  by unfold_locales (auto simp: choose_scalar_def)

interpretation optional: three_way choose_optional Chosen ChoiceConflict
  by unfold_locales (auto simp: choose_optional_def)

section \<open>Evidence and loops\<close>

lemma ev_join_parts [simp]:
  "fst (ev_join a b) = fst a @ fst b" "snd (ev_join a b) = snd a @ snd b"
  "fst no_evidence = []" "snd no_evidence = []"
  by (simp_all add: ev_join_def no_evidence_def)

lemma ev_eq_iff: "a = b \<longleftrightarrow> fst a = fst b \<and> snd a = snd (b :: evidence)"
  by (simp add: prod_eq_iff)

lemma collect_evidence:
  "snd (collect step ks m c ev) =
     (fst ev @ concat (map (\<lambda>k. fst (snd (step k))) ks),
      snd ev @ concat (map (\<lambda>k. snd (snd (step k))) ks))"
  by (induction ks arbitrary: m c ev) (simp_all add: case_prod_beta ev_join_def split: slot.split)

lemma collect_result:
  "fst (collect step ks m c ev) =
     (if c \<and> (\<forall>k\<in>set ks. fst (step k) \<noteq> Incomplete)
      then Some (foldl (\<lambda>m k. case fst (step k) of Keep v \<Rightarrow> bt_insert k v m | _ \<Rightarrow> m) m ks)
      else None)"
  by (induction ks arbitrary: m c ev) (auto simp: case_prod_beta split: slot.split)

lemma bt_get_kept:
  "bt_get (foldl (\<lambda>m k. case f k of Keep v \<Rightarrow> bt_insert k v m | _ \<Rightarrow> m) m ks) i =
     (if i \<in> set ks then (case f i of Keep v \<Rightarrow> Some v | _ \<Rightarrow> bt_get m i) else bt_get m i)"
  by (induction ks arbitrary: m) (auto split: slot.split)

lemma in_all_ids:
  "i \<in> set (all_ids b x y) \<longleftrightarrow> bt_get b i \<noteq> None \<or> bt_get x i \<noteq> None \<or> bt_get y i \<noteq> None"
  by (simp add: all_ids_def set_bt_keys)

lemma collect_Some:
  "fst (collect step (all_ids b x y) bt_empty True ev) = Some r \<longleftrightarrow>
     (\<forall>i\<in>set (all_ids b x y). fst (step i) \<noteq> Incomplete) \<and>
     (\<forall>i. bt_get r i = (if i \<in> set (all_ids b x y)
        then (case fst (step i) of Keep v \<Rightarrow> Some v | _ \<Rightarrow> None) else None))"
  (is "_ \<longleftrightarrow> ?ok \<and> ?get")
proof -
  have "foldl (\<lambda>m k. case fst (step k) of Keep v \<Rightarrow> bt_insert k v m | _ \<Rightarrow> m) bt_empty
      (all_ids b x y) = r \<longleftrightarrow> ?get"
    unfolding btree_eq_iff bt_get_kept by (auto split: slot.split if_split)
  then show ?thesis unfolding collect_result by simp
qed

section \<open>No panic\<close>

lemma bind_Some_eq: "Option.bind v g = Some r \<longleftrightarrow> (\<exists>a. v = Some a \<and> g a = Some r)"
  by (cases v) auto

text \<open>
  A step is sound when it constructs every conflict it reports, and reports one exactly when
  it selects nothing.
\<close>

definition sound :: "bool \<Rightarrow> evidence \<Rightarrow> bool" where
  "sound selected ev \<longleftrightarrow> None \<notin> set (snd ev) \<and> (selected \<longleftrightarrow> snd ev = [])"

lemma merge_scalar_sound:
  "target_allows target facet \<Longrightarrow>
   sound (fst (merge_scalar d target facet w b x y) \<noteq> None) (snd (merge_scalar d target facet w b x y))"
  by (simp add: merge_scalar_def Let_def sound_def merge_conflict_new_def)

lemma merge_optional_sound:
  "target_allows target facet \<Longrightarrow>
   sound (fst (merge_optional d target facet w b x y) \<noteq> ChoiceConflict)
     (snd (merge_optional d target facet w b x y))"
  by (cases b; cases x; cases y)
    (auto simp: merge_optional_def Let_def sound_def merge_conflict_new_def choose_optional_def)

lemma slot_sound:
  "fst (slot_of_choice c, e) \<noteq> Incomplete \<longleftrightarrow> c \<noteq> ChoiceConflict"
  "fst (slot_of_merged m, e) \<noteq> Incomplete \<longleftrightarrow> m \<noteq> None"
  by (auto simp: slot_of_choice_def slot_of_merged_def split: optional_choice.splits option.splits)

lemma sound_join: "sound p a \<Longrightarrow> sound q b \<Longrightarrow> sound (p \<and> q) (ev_join a b)"
  by (auto simp: sound_def)

lemma sound_weaken: "sound p a \<Longrightarrow> p = q \<Longrightarrow> sound q a"
  by (auto simp: sound_def)

lemma collect_sound:
  assumes "\<And>k. k \<in> set ks \<Longrightarrow> sound (fst (step k) \<noteq> Incomplete) (snd (step k))"
  shows "sound (fst (collect step ks bt_empty True no_evidence) \<noteq> None)
    (snd (collect step ks bt_empty True no_evidence))"
  using assms unfolding sound_def collect_evidence collect_result by auto

lemma allowed [simp]:
  "target_allows (TargetDocument d) FacetTitle" "target_allows (TargetSchema s) FacetSubject"
  "target_allows (TargetSchema s) FacetKey" "target_allows (TargetSchemaField s f) FacetSubject"
  "target_allows (TargetSchemaField s f) FacetKey" "target_allows (TargetSchemaField s f) FacetFieldType"
  "target_allows (TargetSchemaField s f) FacetRequiredness" "target_allows (TargetEntity e) FacetSubject"
  "target_allows (TargetEntity e) FacetKey" "target_allows (TargetEntity e) FacetSchema"
  "target_allows (TargetStoredEntityField e s f) FacetStoredValue"
  by (simp_all add: target_allows_def)

lemma merge_field_definition_sound:
  "sound (fst (merge_field_definition d i j b x y) \<noteq> None) (snd (merge_field_definition d i j b x y))"
proof -
  note s1 = merge_scalar_sound [of "TargetSchemaField i j" FacetKey d MvFieldKey "fd_key b" "fd_key x" "fd_key y"]
  note s2 = merge_scalar_sound [of "TargetSchemaField i j" FacetFieldType d MvFieldType "fd_type b" "fd_type x" "fd_type y"]
  note s3 = merge_scalar_sound [of "TargetSchemaField i j" FacetRequiredness d MvRequired "fd_required b" "fd_required x" "fd_required y"]
  show ?thesis
    unfolding merge_field_definition_def Let_def case_prod_beta fst_conv snd_conv
    by (rule sound_weaken [OF sound_join [OF s1 sound_join [OF s2 s3]]]) (auto simp: bind_Some_eq)
qed

lemma schema_field_step_sound:
  "sound (fst (schema_field_step d i b x y j) \<noteq> Incomplete) (snd (schema_field_step d i b x y j))"
  using merge_field_definition_sound merge_optional_sound [of "TargetSchemaField i j" FacetSubject]
  unfolding schema_field_step_def
  by (auto simp: case_prod_beta slot_sound [unfolded fst_conv] split: option.split)

lemma merge_schema_sound:
  "sound (fst (merge_schema d i b x y) \<noteq> None) (snd (merge_schema d i b x y))"
proof -
  have s1: "sound (fst (merge_schema_fields d i fb fx fy) \<noteq> None) (snd (merge_schema_fields d i fb fx fy))"
    for fb fx fy
    unfolding merge_schema_fields_def by (rule collect_sound) (rule schema_field_step_sound)
  note s2 = merge_scalar_sound [of "TargetSchema i" FacetKey d MvSchemaKey "sch_key b" "sch_key x" "sch_key y"]
  show ?thesis
    unfolding merge_schema_def case_prod_beta fst_conv snd_conv
    by (rule sound_weaken [OF sound_join [OF s1 s2]]) (auto simp: bind_Some_eq)
qed

lemma schema_step_sound:
  "sound (fst (schema_step d b x y i) \<noteq> Incomplete) (snd (schema_step d b x y i))"
  using merge_schema_sound merge_optional_sound [of "TargetSchema i" FacetSubject]
  unfolding schema_step_def
  by (auto simp: case_prod_beta slot_sound [unfolded fst_conv] split: option.split)

section \<open>The loop over the field targets\<close>

definition field_choice ::
    "entity \<Rightarrow> entity \<Rightarrow> entity \<Rightarrow> schema_id \<times> field_id \<Rightarrow> val optional_choice" where
  "field_choice b x y t = choose_optional (qualified_field b (fst t) (snd t))
     (qualified_field x (fst t) (snd t)) (qualified_field y (fst t) (snd t))"

definition field_conflict ::
    "document_id \<Rightarrow> entity_id \<Rightarrow> entity \<Rightarrow> entity \<Rightarrow> entity \<Rightarrow> schema_id \<times> field_id \<Rightarrow>
     merge_conflict option list" where
  "field_conflict d i b x y t =
     snd (snd (merge_optional d (TargetStoredEntityField i (fst t) (snd t)) FacetStoredValue
       MvFieldValue (qualified_field b (fst t) (snd t)) (qualified_field x (fst t) (snd t))
       (qualified_field y (fst t) (snd t))))"

definition field_left_over ::
    "entity_id \<Rightarrow> schema_id option \<Rightarrow> entity \<Rightarrow> entity \<Rightarrow> entity \<Rightarrow> schema_id \<times> field_id \<Rightarrow>
     unmaterialized_fact list" where
  "field_left_over i sel b x y t =
     (case (field_choice b x y t, sel) of
        (Chosen (Some v), Some s) \<Rightarrow>
          if s = fst t then []
          else [\<lparr>uf_entity = i, uf_source_schema = fst t, uf_selected_schema = s, uf_field = snd t,
             uf_value = v\<rparr>]
      | _ \<Rightarrow> [])"

definition keep_field ::
    "schema_id option \<Rightarrow> entity \<Rightarrow> entity \<Rightarrow> entity \<Rightarrow> (field_id, val) btree \<Rightarrow>
     schema_id \<times> field_id \<Rightarrow> (field_id, val) btree" where
  "keep_field sel b x y m t =
     (case field_choice b x y t of
        Chosen (Some v) \<Rightarrow> if sel = Some (fst t) then bt_insert (snd t) v m else m
      | _ \<Rightarrow> m)"

lemma merge_optional_parts:
  "fst (merge_optional d t f w b x y) = choose_optional b x y"
  "fst (snd (merge_optional d t f w b x y)) = []"
  by (simp_all add: merge_optional_def Let_def)

lemma merge_scalar_parts:
  "fst (merge_scalar d t f w b x y) = choose_scalar b x y"
  "fst (snd (merge_scalar d t f w b x y)) = []"
  by (simp_all add: merge_scalar_def Let_def)

lemma entity_fields_loop_evidence:
  "snd (entity_fields_loop d i sel b x y ts m c ev) =
     (fst ev @ concat (map (field_left_over i sel b x y) ts),
      snd ev @ concat (map (field_conflict d i b x y) ts))"
proof (induction ts arbitrary: sel m c ev)
  case (Cons t ts)
  obtain s f where t: "t = (s, f)" by force
  note defs = field_choice_def [of b x y "(s, f)"] field_left_over_def [of i _ b x y "(s, f)"]
    field_conflict_def [of d i b x y "(s, f)"]
  show ?case
  proof (cases "choose_optional (qualified_field b s f) (qualified_field x s f)
      (qualified_field y s f)")
    case (Chosen v)
    then show ?thesis
      by (cases v; cases sel)
        (simp_all add: t Let_def case_prod_beta Cons.IH ev_join_def merge_optional_parts defs)
  next
    case ChoiceConflict
    then show ?thesis
      by (simp add: t Let_def case_prod_beta Cons.IH ev_join_def merge_optional_parts defs)
  qed
qed simp

lemma entity_fields_loop_result:
  "fst (entity_fields_loop d i sel b x y ts m c ev) =
     (if c \<and> (\<forall>t\<in>set ts. field_choice b x y t \<noteq> ChoiceConflict)
      then Some (foldl (keep_field sel b x y) m ts) else None)"
proof (induction ts arbitrary: sel m c ev)
  case (Cons t ts)
  obtain s f where t: "t = (s, f)" by force
  note defs = field_choice_def [of b x y "(s, f)"] keep_field_def [of _ b x y m "(s, f)"]
  show ?case
  proof (cases "choose_optional (qualified_field b s f) (qualified_field x s f)
      (qualified_field y s f)")
    case (Chosen v)
    then show ?thesis
      by (cases v; cases sel)
        (simp_all add: t Let_def case_prod_beta Cons.IH merge_optional_parts defs)
  next
    case ChoiceConflict
    then show ?thesis
      by (simp add: t Let_def case_prod_beta Cons.IH merge_optional_parts defs)
  qed
qed simp

lemma bt_get_keep_fields:
  "bt_get (foldl (keep_field (Some s) b x y) m ts) f =
     (if (s, f) \<in> set ts then (case field_choice b x y (s, f) of Chosen (Some v) \<Rightarrow> Some v
        | _ \<Rightarrow> bt_get m f) else bt_get m f)"
proof (induction ts arbitrary: m)
  case (Cons t ts)
  obtain s' f' where t: "t = (s', f')" by force
  show ?case
    by (auto simp: Cons.IH t keep_field_def [of _ b x y _ "(s', f')"] split: optional_choice.split option.split)
qed simp

lemma in_field_targets:
  "(s, f) \<in> set (field_targets b x y) \<longleftrightarrow> qualified_field b s f \<noteq> None \<or>
     qualified_field x s f \<noteq> None \<or> qualified_field y s f \<noteq> None"
  by (auto simp: field_targets_def qualified_field_def set_bt_keys split: if_splits)

lemma merge_entity_fields_sound:
  "sel \<noteq> None \<Longrightarrow>
   sound (fst (merge_entity_fields d i sel b x y) \<noteq> None) (snd (merge_entity_fields d i sel b x y))"
  "None \<notin> set (snd (snd (merge_entity_fields d i sel b x y)))"
proof -
  have each: "sound (field_choice b x y t \<noteq> ChoiceConflict) ([], field_conflict d i b x y t)" for t
    using merge_optional_sound [of "TargetStoredEntityField i (fst t) (snd t)" FacetStoredValue d
        MvFieldValue "qualified_field b (fst t) (snd t)" "qualified_field x (fst t) (snd t)"
        "qualified_field y (fst t) (snd t)"]
    by (simp add: sound_def field_choice_def field_conflict_def merge_optional_parts)
  then show "None \<notin> set (snd (snd (merge_entity_fields d i sel b x y)))"
    by (auto simp: merge_entity_fields_def entity_fields_loop_evidence sound_def)
  with each show "sel \<noteq> None \<Longrightarrow>
      sound (fst (merge_entity_fields d i sel b x y) \<noteq> None) (snd (merge_entity_fields d i sel b x y))"
    unfolding merge_entity_fields_def entity_fields_loop_evidence entity_fields_loop_result sound_def
    by (auto split: if_splits)
qed

lemma merge_entity_sound:
  "sound (fst (merge_entity d i b x y) \<noteq> None) (snd (merge_entity d i b x y))"
proof -
  note s1 = merge_scalar_sound [of "TargetEntity i" FacetSchema d MvSchemaId "ent_schema b" "ent_schema x" "ent_schema y"]
  note s2 = merge_scalar_sound [of "TargetEntity i" FacetKey d MvEntityKey "ent_key b" "ent_key x" "ent_key y"]
  let ?sel = "choose_scalar (ent_schema b) (ent_schema x) (ent_schema y)"
  show ?thesis
  proof (cases "?sel = None")
    case True
    then show ?thesis
      using s1 s2 merge_entity_fields_sound(2) [of d i None b x y]
      unfolding merge_entity_def case_prod_beta fst_conv snd_conv merge_scalar_parts
      by (auto simp: sound_def)
  next
    case False
    note s3 = merge_entity_fields_sound(1) [OF False, of d i b x y]
    show ?thesis
      using s1 s2 s3 unfolding merge_entity_def case_prod_beta fst_conv snd_conv merge_scalar_parts
      by (auto simp: sound_def)
  qed
qed

lemma entity_step_sound:
  "sound (fst (entity_step d b x y i) \<noteq> Incomplete) (snd (entity_step d b x y i))"
  using merge_entity_sound merge_optional_sound [of "TargetEntity i" FacetSubject]
  unfolding entity_step_def
  by (auto simp: case_prod_beta slot_sound [unfolded fst_conv] split: option.split)

section \<open>What the merge selects\<close>

text \<open>
  A value is the merge of three when both sides agree on it, or one side changed it and the
  other kept the base.
\<close>

definition takes_change :: "'a \<Rightarrow> 'a \<Rightarrow> 'a \<Rightarrow> 'a \<Rightarrow> bool" where
  "takes_change b x y r \<longleftrightarrow> (x = y \<and> r = x) \<or> (x = b \<and> r = y) \<or> (y = b \<and> r = x)"

definition merged_map ::
    "('k::linorder \<Rightarrow> 'v \<Rightarrow> 'v \<Rightarrow> 'v \<Rightarrow> 'v \<Rightarrow> bool) \<Rightarrow> ('k, 'v) btree \<Rightarrow> ('k, 'v) btree \<Rightarrow>
     ('k, 'v) btree \<Rightarrow> ('k, 'v) btree \<Rightarrow> bool" where
  "merged_map rel b x y r \<longleftrightarrow>
     (\<forall>i. case (bt_get b i, bt_get x i, bt_get y i) of
        (Some vb, Some vx, Some vy) \<Rightarrow> \<exists>v. bt_get r i = Some v \<and> rel i vb vx vy v
      | (vb, vx, vy) \<Rightarrow> takes_change vb vx vy (bt_get r i))"

definition merged_field ::
    "field_id \<Rightarrow> field_definition \<Rightarrow> field_definition \<Rightarrow> field_definition \<Rightarrow> field_definition \<Rightarrow>
     bool" where
  "merged_field i b x y r \<longleftrightarrow>
     fd_id r = i \<and> takes_change (fd_key b) (fd_key x) (fd_key y) (fd_key r) \<and>
     takes_change (fd_type b) (fd_type x) (fd_type y) (fd_type r) \<and>
     takes_change (fd_required b) (fd_required x) (fd_required y) (fd_required r) \<and>
     fd_display_name r = None \<and> fd_constraint r = ConstraintNone \<and> fd_number_format r = None"

definition merged_schema :: "schema_id \<Rightarrow> schema \<Rightarrow> schema \<Rightarrow> schema \<Rightarrow> schema \<Rightarrow> bool" where
  "merged_schema i b x y r \<longleftrightarrow>
     sch_id r = i \<and> takes_change (sch_key b) (sch_key x) (sch_key y) (sch_key r) \<and>
     merged_map merged_field (sch_fields b) (sch_fields x) (sch_fields y) (sch_fields r) \<and>
     sch_display_name r = None \<and> sch_field_order r = None"

text \<open>
  The stored values of an entity are merged under the schema that qualifies them: the value
  of a field under schema \<open>s\<close> is absent on a side whose entity has another schema.
\<close>

definition merged_entity :: "entity_id \<Rightarrow> entity \<Rightarrow> entity \<Rightarrow> entity \<Rightarrow> entity \<Rightarrow> bool" where
  "merged_entity i b x y r \<longleftrightarrow>
     ent_id r = i \<and> takes_change (ent_key b) (ent_key x) (ent_key y) (ent_key r) \<and>
     takes_change (ent_schema b) (ent_schema x) (ent_schema y) (ent_schema r) \<and>
     (\<forall>s f. \<exists>v. takes_change (qualified_field b s f) (qualified_field x s f)
        (qualified_field y s f) v \<and> (s = ent_schema r \<longrightarrow> bt_get (ent_fields r) f = v))"

definition merged_document :: "document \<Rightarrow> document \<Rightarrow> document \<Rightarrow> document \<Rightarrow> bool" where
  "merged_document b x y r \<longleftrightarrow>
     doc_id r = doc_id b \<and> takes_change (doc_title b) (doc_title x) (doc_title y) (doc_title r) \<and>
     merged_map merged_schema (doc_schemas b) (doc_schemas x) (doc_schemas y) (doc_schemas r) \<and>
     merged_map merged_entity (doc_entities b) (doc_entities x) (doc_entities y) (doc_entities r) \<and>
     doc_definitions r = doc_definitions b"

lemma choose_takes_change:
  "choose_scalar b x y = Some r \<longleftrightarrow> takes_change b x y r"
  "choose_optional bo xo yo = Chosen ro \<longleftrightarrow> takes_change bo xo yo ro"
  by (auto simp: choose_scalar_def choose_optional_def takes_change_def)

lemma takes_change_functional: "takes_change b x y r \<Longrightarrow> takes_change b x y s \<Longrightarrow> r = s"
  by (auto simp: takes_change_def)

lemma takes_change_same [simp]: "takes_change b b y r \<longleftrightarrow> r = y" "takes_change b x x r \<longleftrightarrow> r = x"
  by (auto simp: takes_change_def)

lemma merge_field_definition_result:
  "fst (merge_field_definition d s i b x y) = Some r \<longleftrightarrow> merged_field i b x y r"
  by (cases r) (auto simp: merge_field_definition_def Let_def case_prod_beta merge_scalar_parts
      bind_Some_eq choose_takes_change merged_field_def)

lemma collect_merged_map:
  assumes step: "\<And>i. fst (step i) = (case (bt_get b i, bt_get x i, bt_get y i) of
        (Some vb, Some vx, Some vy) \<Rightarrow> slot_of_merged (g i vb vx vy)
      | (vb, vx, vy) \<Rightarrow> slot_of_choice (choose_optional vb vx vy))"
    and g: "\<And>i vb vx vy v. g i vb vx vy = Some v \<longleftrightarrow> rel i vb vx vy v"
  shows "fst (collect step (all_ids b x y) bt_empty True ev) = Some r \<longleftrightarrow> merged_map rel b x y r"
proof -
  have each: "((i \<in> set (all_ids b x y) \<longrightarrow> fst (step i) \<noteq> Incomplete) \<and>
      bt_get r i = (if i \<in> set (all_ids b x y)
        then (case fst (step i) of Keep v \<Rightarrow> Some v | _ \<Rightarrow> None) else None)) \<longleftrightarrow>
      (case (bt_get b i, bt_get x i, bt_get y i) of
        (Some vb, Some vx, Some vy) \<Rightarrow> \<exists>v. bt_get r i = Some v \<and> rel i vb vx vy v
      | (vb, vx, vy) \<Rightarrow> takes_change vb vx vy (bt_get r i))" for i
  proof (cases "bt_get b i \<noteq> None \<and> bt_get x i \<noteq> None \<and> bt_get y i \<noteq> None")
    case True
    then obtain vb vx vy where v: "bt_get b i = Some vb" "bt_get x i = Some vx" "bt_get y i = Some vy"
      by auto
    then show ?thesis
      using g [of i vb vx vy]
      by (cases "g i vb vx vy") (auto simp: step in_all_ids slot_of_merged_def simp flip: g)
  next
    case False
    then have c: "fst (step i) = slot_of_choice (choose_optional (bt_get b i) (bt_get x i) (bt_get y i))"
      by (auto simp: step split: option.split)
    have absent: "choose_optional (bt_get b i) (bt_get x i) (bt_get y i) = Chosen None"
      if "i \<notin> set (all_ids b x y)"
      using that by (simp add: in_all_ids choose_optional_def)
    have "(case (bt_get b i, bt_get x i, bt_get y i) of
        (Some vb, Some vx, Some vy) \<Rightarrow> \<exists>v. bt_get r i = Some v \<and> rel i vb vx vy v
      | (vb, vx, vy) \<Rightarrow> takes_change vb vx vy (bt_get r i)) \<longleftrightarrow>
      choose_optional (bt_get b i) (bt_get x i) (bt_get y i) = Chosen (bt_get r i)"
      using False by (auto simp: choose_takes_change split: option.split)
    then show ?thesis
      using absent by (auto simp: c slot_of_choice_def split: optional_choice.split option.split)
  qed
  show ?thesis
    unfolding collect_Some merged_map_def each [symmetric] by blast
qed


lemma merge_schema_result:
  "fst (merge_schema d i b x y) = Some r \<longleftrightarrow> merged_schema i b x y r"
proof -
  have inner: "fst (merge_schema_fields d i fb fx fy) = Some fr \<longleftrightarrow> merged_map merged_field fb fx fy fr"
    for fb fx fy fr
    unfolding merge_schema_fields_def
    by (rule collect_merged_map [where g = "\<lambda>j vb vx vy. fst (merge_field_definition d i j vb vx vy)"])
      (auto simp: schema_field_step_def case_prod_beta merge_optional_parts
        merge_field_definition_result split: option.split)
  show ?thesis
    by (cases r) (auto simp: merge_schema_def case_prod_beta merge_scalar_parts inner bind_Some_eq
        choose_takes_change merged_schema_def)
qed

lemma merge_schemas_result:
  "fst (merge_schemas d b x y) = Some r \<longleftrightarrow> merged_map merged_schema b x y r"
  unfolding merge_schemas_def
  by (rule collect_merged_map [where g = "\<lambda>i vb vx vy. fst (merge_schema d i vb vx vy)"])
    (auto simp: schema_step_def case_prod_beta merge_optional_parts merge_schema_result
      split: option.split)

lemma merge_entity_fields_result:
  "fst (merge_entity_fields d i (Some s) b x y) = Some r \<longleftrightarrow>
     (\<forall>t f. \<exists>v. takes_change (qualified_field b t f) (qualified_field x t f)
        (qualified_field y t f) v \<and> (t = s \<longrightarrow> bt_get r f = v))"
  (is "_ \<longleftrightarrow> ?spec")
proof -
  have absent: "field_choice b x y (t, f) = Chosen None" if "(t, f) \<notin> set (field_targets b x y)" for t f
    using that by (simp add: in_field_targets field_choice_def choose_optional_def)
  have clear: "(\<forall>t\<in>set (field_targets b x y). field_choice b x y t \<noteq> ChoiceConflict) \<longleftrightarrow>
      (\<forall>t f. field_choice b x y (t, f) \<noteq> ChoiceConflict)"
    using absent by (metis optional_choice.distinct(1) surj_pair)
  have kept: "bt_get (foldl (keep_field (Some s) b x y) bt_empty (field_targets b x y)) f =
      (case field_choice b x y (s, f) of Chosen (Some v) \<Rightarrow> Some v | _ \<Rightarrow> None)" for f
    using absent [of s f] by (auto simp: bt_get_keep_fields split: optional_choice.split option.split)
  have "fst (merge_entity_fields d i (Some s) b x y) = Some r \<longleftrightarrow>
      (\<forall>t f. field_choice b x y (t, f) \<noteq> ChoiceConflict) \<and>
      (\<forall>f. bt_get r f = (case field_choice b x y (s, f) of Chosen (Some v) \<Rightarrow> Some v | _ \<Rightarrow> None))"
    unfolding merge_entity_fields_def entity_fields_loop_result clear
    by (simp add: btree_eq_iff [of _ r] kept eq_commute [of "bt_get r _"])
  also have "\<dots> \<longleftrightarrow> (\<forall>t f. \<exists>v. field_choice b x y (t, f) = Chosen v \<and> (t = s \<longrightarrow> bt_get r f = v))"
  proof -
    have "(field_choice b x y (t, f) \<noteq> ChoiceConflict \<and> (t = s \<longrightarrow>
          bt_get r f = (case field_choice b x y (t, f) of Chosen (Some v) \<Rightarrow> Some v | _ \<Rightarrow> None))) \<longleftrightarrow>
        (\<exists>v. field_choice b x y (t, f) = Chosen v \<and> (t = s \<longrightarrow> bt_get r f = v))" for t f
      by (cases "field_choice b x y (t, f)") (auto split: option.split)
    then show ?thesis by blast
  qed
  finally show ?thesis by (simp add: field_choice_def choose_takes_change)
qed


lemma merge_entity_result:
  "fst (merge_entity d i b x y) = Some r \<longleftrightarrow> merged_entity i b x y r"
proof (cases "choose_scalar (ent_schema b) (ent_schema x) (ent_schema y)")
  case None
  then have "\<not> takes_change (ent_schema b) (ent_schema x) (ent_schema y) s" for s
    by (simp flip: choose_takes_change)
  then show ?thesis
    by (simp add: merge_entity_def case_prod_beta merge_scalar_parts None merged_entity_def bind_Some_eq)
next
  case (Some s)
  then have s: "takes_change (ent_schema b) (ent_schema x) (ent_schema y) t \<longleftrightarrow> t = s" for t
    by (auto simp flip: choose_takes_change)
  show ?thesis
    by (cases r) (auto simp: merge_entity_def case_prod_beta merge_scalar_parts bind_Some_eq
        Some s choose_takes_change merge_entity_fields_result merged_entity_def)
qed

lemma merge_entities_result:
  "fst (merge_entities d b x y) = Some r \<longleftrightarrow> merged_map merged_entity b x y r"
  unfolding merge_entities_def
  by (rule collect_merged_map [where g = "\<lambda>i vb vx vy. fst (merge_entity d i vb vx vy)"])
    (auto simp: entity_step_def case_prod_beta merge_optional_parts merge_entity_result
      split: option.split)

text \<open>The inputs the first merge supports, and what its passes leave behind.\<close>

definition mergeable :: "document \<Rightarrow> document \<Rightarrow> document \<Rightarrow> bool" where
  "mergeable b x y \<longleftrightarrow>
     (\<forall>d\<in>{b, x, y}. \<not> has_number_formats d \<and> \<not> has_field_orders d \<and> \<not> has_display_names d \<and>
        \<not> has_field_constraints d) \<and>
     doc_definitions b = doc_definitions x \<and> doc_definitions b = doc_definitions y"

definition title_pass :: "document \<Rightarrow> document \<Rightarrow> document \<Rightarrow> string option \<times> evidence" where
  "title_pass b x y = merge_scalar (doc_id b) (TargetDocument (doc_id b)) FacetTitle
     MvDocumentTitle (doc_title b) (doc_title x) (doc_title y)"

definition schemas_pass ::
    "document \<Rightarrow> document \<Rightarrow> document \<Rightarrow> (schema_id, schema) btree option \<times> evidence" where
  "schemas_pass b x y =
     merge_schemas (doc_id b) (doc_schemas b) (doc_schemas x) (doc_schemas y)"

definition entities_pass ::
    "document \<Rightarrow> document \<Rightarrow> document \<Rightarrow> (entity_id, entity) btree option \<times> evidence" where
  "entities_pass b x y =
     merge_entities (doc_id b) (doc_entities b) (doc_entities x) (doc_entities y)"

lemmas pass_defs = title_pass_def schemas_pass_def entities_pass_def

definition merge_facts :: "document \<Rightarrow> document \<Rightarrow> document \<Rightarrow> unmaterialized_fact list" where
  "merge_facts b x y = fst (snd (entities_pass b x y))"

definition merge_conflicts ::
    "document \<Rightarrow> document \<Rightarrow> document \<Rightarrow> merge_conflict option list" where
  "merge_conflicts b x y = snd (snd (title_pass b x y)) @ snd (snd (schemas_pass b x y)) @
     snd (snd (entities_pass b x y))"

lemma passes_sound:
  "sound (fst (title_pass b x y) \<noteq> None) (snd (title_pass b x y))"
  "sound (fst (schemas_pass b x y) \<noteq> None) (snd (schemas_pass b x y))"
  "sound (fst (entities_pass b x y) \<noteq> None) (snd (entities_pass b x y))"
proof -
  show "sound (fst (title_pass b x y) \<noteq> None) (snd (title_pass b x y))"
    unfolding title_pass_def by (rule merge_scalar_sound) simp
  show "sound (fst (schemas_pass b x y) \<noteq> None) (snd (schemas_pass b x y))"
    unfolding schemas_pass_def merge_schemas_def by (rule collect_sound) (rule schema_step_sound)
  show "sound (fst (entities_pass b x y) \<noteq> None) (snd (entities_pass b x y))"
    unfolding entities_pass_def merge_entities_def by (rule collect_sound) (rule entity_step_sound)
qed

text \<open>A loop that selects a value for every id pushes no conflict.\<close>

lemma merge_documents_mergeable:
  assumes "mergeable b x y"
  shows "merge_documents b x y =
    (if merge_conflicts b x y \<noteq> [] then Conflicted (sort_conflicts (map the (merge_conflicts b x y)))
     else Merged \<lparr>doc_id = doc_id b, doc_title = the (fst (title_pass b x y)),
            doc_schemas = the (fst (schemas_pass b x y)),
            doc_entities = the (fst (entities_pass b x y)),
            doc_definitions = doc_definitions b\<rparr>
          (fst (snd (title_pass b x y)) @ fst (snd (schemas_pass b x y)) @
           fst (snd (entities_pass b x y))))"
proof -
  note s = passes_sound [of b x y, unfolded sound_def]
  have "merge_documents b x y =
      (let ev = ev_join (snd (title_pass b x y)) (ev_join (snd (schemas_pass b x y))
         (snd (entities_pass b x y))) in
       if None \<in> set (snd ev) then MergePanics
       else if snd ev \<noteq> [] then Conflicted (sort_conflicts (map the (snd ev)))
       else case (fst (title_pass b x y), fst (schemas_pass b x y), fst (entities_pass b x y)) of
           (Some t, Some ss, Some es) \<Rightarrow>
             Merged \<lparr>doc_id = doc_id b, doc_title = t, doc_schemas = ss, doc_entities = es,
               doc_definitions = doc_definitions b\<rparr> (fst ev)
         | _ \<Rightarrow> MergePanics)"
    using assms unfolding mergeable_def
    by (elim conjE) (simp add: merge_documents_def pass_defs case_prod_beta Let_def
        split: option.split)
  then show ?thesis
    using s by (auto simp: Let_def merge_conflicts_def)
qed

lemma merge_documents_answers:
  "mergeable b x y \<Longrightarrow>
   (\<exists>r facts. merge_documents b x y = Merged r facts) \<or> (\<exists>cs. merge_documents b x y = Conflicted cs)"
  by (simp add: merge_documents_mergeable)

lemma merge_documents_not_mergeable:
  "\<not> mergeable b x y \<Longrightarrow> merge_documents b x y \<in>
     {UnsupportedKeyedGroupedSumDefinitionChange, UnsupportedFieldConstraintChange,
      UnsupportedDisplayName, UnsupportedNumberFormat, UnsupportedFieldOrder}"
  by (auto simp: merge_documents_def mergeable_def)

section \<open>Facts left over\<close>

lemma collect_facts_and_conflicts:
  "fst (snd (collect step ks m c no_evidence)) = concat (map (\<lambda>k. fst (snd (step k))) ks)"
  "snd (snd (collect step ks m c no_evidence)) = concat (map (\<lambda>k. snd (snd (step k))) ks)"
  by (simp_all add: collect_evidence)

lemma schemas_pass_facts: "fst (snd (schemas_pass b x y)) = []"
proof -
  have "fst (snd (merge_field_definition d s i vb vx vy)) = []" for d s i vb vx vy
    by (simp add: merge_field_definition_def Let_def case_prod_beta merge_scalar_parts)
  then have "fst (snd (merge_schema d i vb vx vy)) = []" for d i vb vx vy
    by (auto simp: merge_schema_def merge_schema_fields_def case_prod_beta merge_scalar_parts
        collect_facts_and_conflicts schema_field_step_def merge_optional_parts split: option.split)
  then show ?thesis
    by (auto simp: schemas_pass_def merge_schemas_def collect_facts_and_conflicts schema_step_def
        case_prod_beta merge_optional_parts split: option.split)
qed

lemma merge_entity_facts:
  "u \<in> set (fst (snd (merge_entity d i b x y))) \<longleftrightarrow>
     uf_entity u = i \<and>
     takes_change (ent_schema b) (ent_schema x) (ent_schema y) (uf_selected_schema u) \<and>
     uf_source_schema u \<noteq> uf_selected_schema u \<and>
     takes_change (qualified_field b (uf_source_schema u) (uf_field u))
       (qualified_field x (uf_source_schema u) (uf_field u))
       (qualified_field y (uf_source_schema u) (uf_field u)) (Some (uf_value u))"
proof -
  have left_over: "u \<in> set (field_left_over i sel b x y t) \<longleftrightarrow>
      uf_entity u = i \<and> sel = Some (uf_selected_schema u) \<and>
      uf_source_schema u \<noteq> uf_selected_schema u \<and> t = (uf_source_schema u, uf_field u) \<and>
      field_choice b x y t = Chosen (Some (uf_value u))" for sel t
  proof (cases "field_choice b x y t")
    case (Chosen w)
    then show ?thesis
      by (cases u; cases t; cases w; cases sel) (auto simp: field_left_over_def)
  qed (simp add: field_left_over_def)
  have target: "t \<in> set (field_targets b x y)" if "field_choice b x y t = Chosen (Some v)" for t v
    using that by (cases t)
      (auto simp: field_choice_def choose_optional_def in_field_targets split: if_splits)
  show ?thesis
    using target
    by (auto simp: merge_entity_def case_prod_beta merge_scalar_parts merge_entity_fields_def
        entity_fields_loop_evidence left_over choose_takes_change field_choice_def)
qed

lemma merge_facts_iff:
  "u \<in> set (merge_facts b x y) \<longleftrightarrow>
     (\<exists>eb ex ey. bt_get (doc_entities b) (uf_entity u) = Some eb \<and>
        bt_get (doc_entities x) (uf_entity u) = Some ex \<and>
        bt_get (doc_entities y) (uf_entity u) = Some ey \<and>
        u \<in> set (fst (snd (merge_entity (doc_id b) (uf_entity u) eb ex ey))))"
proof -
  have step: "u \<in> set (fst (snd (entity_step d mb mx my i))) \<longleftrightarrow>
      (\<exists>eb ex ey. bt_get mb i = Some eb \<and> bt_get mx i = Some ex \<and> bt_get my i = Some ey \<and>
        u \<in> set (fst (snd (merge_entity d i eb ex ey))))" for d mb mx my i
    by (auto simp: entity_step_def case_prod_beta merge_optional_parts split: option.split)
  show ?thesis
    unfolding merge_facts_def entities_pass_def merge_entities_def collect_facts_and_conflicts
    using in_all_ids by (auto simp: step merge_entity_facts) blast
qed

lemma merge_documents_Merged:
  "merge_documents b x y = Merged r facts \<longleftrightarrow>
     mergeable b x y \<and> merged_document b x y r \<and> facts = merge_facts b x y"
proof (cases "mergeable b x y")
  case False
  then show ?thesis using merge_documents_not_mergeable [OF False] by auto
next
  case True
  note s = passes_sound [of b x y, unfolded sound_def]
  have spec: "merged_document b x y r \<longleftrightarrow> doc_id r = doc_id b \<and>
      fst (title_pass b x y) = Some (doc_title r) \<and> fst (schemas_pass b x y) = Some (doc_schemas r) \<and>
      fst (entities_pass b x y) = Some (doc_entities r) \<and> doc_definitions r = doc_definitions b"
    by (simp add: merged_document_def pass_defs merge_scalar_parts choose_takes_change
        merge_schemas_result merge_entities_result)
  have none: "fst (snd (title_pass b x y)) = []"
    by (simp add: title_pass_def merge_scalar_parts)
  show ?thesis
  proof (cases "merge_conflicts b x y = []")
    case clean: True
    then have "fst (title_pass b x y) \<noteq> None" "fst (schemas_pass b x y) \<noteq> None"
        "fst (entities_pass b x y) \<noteq> None"
      using s by (auto simp: merge_conflicts_def)
    then show ?thesis
      using True clean none
      unfolding spec by (cases r) (auto simp: merge_documents_mergeable schemas_pass_facts merge_facts_def)
  next
    case False
    then have "\<not> merged_document b x y r"
      using s by (auto simp: spec merge_conflicts_def)
    then show ?thesis using True False by (simp add: merge_documents_mergeable)
  qed
qed

section \<open>Swapping the sides\<close>

definition swap_conflict :: "merge_conflict \<Rightarrow> merge_conflict" where
  "swap_conflict c = c\<lparr>mc_left := mc_right c, mc_right := mc_left c\<rparr>"

definition swap_evidence :: "evidence \<Rightarrow> evidence" where
  "swap_evidence ev = (fst ev, map (map_option swap_conflict) (snd ev))"

definition swap_outcome :: "merge_outcome \<Rightarrow> merge_outcome" where
  "swap_outcome out = (case out of Conflicted cs \<Rightarrow> Conflicted (map swap_conflict cs) | _ \<Rightarrow> out)"

named_theorems swaps \<open>a step of the merge with its sides swapped\<close>

lemma swap_evidence_join [swaps]:
  "swap_evidence (ev_join a b) = ev_join (swap_evidence a) (swap_evidence b)"
  "swap_evidence no_evidence = no_evidence"
  by (simp_all add: swap_evidence_def ev_join_def no_evidence_def)

lemma conflict_new_swap [swaps]:
  "merge_conflict_new d t f b y x = map_option swap_conflict (merge_conflict_new d t f b x y)"
  by (cases b; cases x; cases y) (simp_all add: merge_conflict_new_def swap_conflict_def)

lemma merge_scalar_swap:
  "merge_scalar d t f w b y x = map_prod id swap_evidence (merge_scalar d t f w b x y)"
  by (simp add: merge_scalar_def Let_def scalar.commute [of b y x] swap_evidence_def no_evidence_def
      conflict_new_swap [of d t f _ "Some (w y)"])

lemma merge_optional_swap:
  "merge_optional d t f w b y x = map_prod id swap_evidence (merge_optional d t f w b x y)"
  by (simp add: merge_optional_def Let_def optional.commute [of b y x] swap_evidence_def no_evidence_def
      conflict_new_swap [of d t f _ "map_option w y"])

lemma all_ids_swap: "all_ids b y x = all_ids b x y"
  unfolding all_ids_def by (rule ord_set_cong) auto

lemma collect_swap:
  assumes "\<And>i. step' i = map_prod id swap_evidence (step i)"
  shows "collect step' ks m c (swap_evidence ev) =
    map_prod id swap_evidence (collect step ks m c ev)"
  by (induction ks arbitrary: m c ev)
    (simp_all add: assms case_prod_beta swaps [symmetric] split: slot.split)

lemma merge_field_definition_swap:
  "merge_field_definition d s i b y x =
     map_prod id swap_evidence (merge_field_definition d s i b x y)"
  unfolding merge_field_definition_def Let_def case_prod_beta
    merge_scalar_swap [of d _ _ _ "fd_key b" "fd_key y"]
    merge_scalar_swap [of d _ _ _ "fd_type b" "fd_type y"]
    merge_scalar_swap [of d _ _ _ "fd_required b" "fd_required y"]
  by (simp add: swaps)

lemma collect_ids_swap:
  assumes "\<And>i. step' i = map_prod id swap_evidence (step i)"
  shows "collect step' (all_ids b y x) bt_empty True no_evidence =
    map_prod id swap_evidence (collect step (all_ids b x y) bt_empty True no_evidence)"
  using collect_swap [where step = step and step' = step' and ks = "all_ids b x y"
      and m = bt_empty and c = True and ev = no_evidence] assms
  by (simp add: all_ids_swap [of b y] swaps)

lemma three_case_swap:
  assumes "\<And>vb vx vy. f' vb vy vx = map_prod id swap_evidence (f vb vx vy)"
    and "\<And>vb vx vy. g' vb vy vx = map_prod id swap_evidence (g vb vx vy)"
  shows "(case (b, y, x) of
        (Some vb, Some vy, Some vx) \<Rightarrow> (case f' vb vy vx of (m, e) \<Rightarrow> (h m, e))
      | (vb, vy, vx) \<Rightarrow> (case g' vb vy vx of (c, e) \<Rightarrow> (k c, e))) =
    map_prod id swap_evidence (case (b, x, y) of
        (Some vb, Some vx, Some vy) \<Rightarrow> (case f vb vx vy of (m, e) \<Rightarrow> (h m, e))
      | (vb, vx, vy) \<Rightarrow> (case g vb vx vy of (c, e) \<Rightarrow> (k c, e)))"
  by (cases b; cases x; cases y) (simp_all add: assms case_prod_beta)

lemma schema_field_step_swap:
  "schema_field_step d s b y x i = map_prod id swap_evidence (schema_field_step d s b x y i)"
  unfolding schema_field_step_def
  by (rule three_case_swap) (rule merge_field_definition_swap merge_optional_swap)+

lemma merge_schema_swap:
  "merge_schema d i b y x = map_prod id swap_evidence (merge_schema d i b x y)"
proof -
  have inner: "merge_schema_fields d i fb fy fx =
      map_prod id swap_evidence (merge_schema_fields d i fb fx fy)" for fb fx fy
    unfolding merge_schema_fields_def by (rule collect_ids_swap) (rule schema_field_step_swap)
  show ?thesis
    unfolding merge_schema_def case_prod_beta inner [of _ "sch_fields y"]
      merge_scalar_swap [of d _ _ _ "sch_key b" "sch_key y"]
    by (simp add: swaps)
qed

lemma merge_schemas_swap:
  "merge_schemas d b y x = map_prod id swap_evidence (merge_schemas d b x y)"
proof -
  have "schema_step d b y x i = map_prod id swap_evidence (schema_step d b x y i)" for i
    unfolding schema_step_def
    by (rule three_case_swap) (rule merge_schema_swap merge_optional_swap)+
  then show ?thesis unfolding merge_schemas_def by (rule collect_ids_swap)
qed

lemma field_targets_swap: "field_targets b y x = field_targets b x y"
  unfolding field_targets_def by (rule ord_set_cong) auto

lemma merge_entity_fields_swap:
  "merge_entity_fields d i sel b y x = map_prod id swap_evidence (merge_entity_fields d i sel b x y)"
proof -
  have choice: "field_choice b y x = field_choice b x y"
    unfolding field_choice_def fun_eq_iff by (simp add: optional.commute)
  have "field_conflict d i b y x = (\<lambda>t. map (map_option swap_conflict) (field_conflict d i b x y t))"
  proof
    fix t
    show "field_conflict d i b y x t = map (map_option swap_conflict) (field_conflict d i b x y t)"
    unfolding field_conflict_def
      merge_optional_swap [of d _ _ _ _ "qualified_field y (fst t) (snd t)"]
    by (simp add: swap_evidence_def)
  qed
  moreover have "field_left_over i sel b y x = field_left_over i sel b x y"
    "keep_field sel b y x = keep_field sel b x y"
    by (simp_all add: fun_eq_iff field_left_over_def keep_field_def choice)
  ultimately show ?thesis
    by (simp add: prod_eq_iff merge_entity_fields_def entity_fields_loop_evidence
        entity_fields_loop_result field_targets_swap [of b y] choice swap_evidence_def map_concat comp_def)
qed

lemma merge_entities_swap:
  "merge_entities d b y x = map_prod id swap_evidence (merge_entities d b x y)"
proof -
  have "merge_entity d i eb ey ex = map_prod id swap_evidence (merge_entity d i eb ex ey)" for i eb ex ey
    unfolding merge_entity_def case_prod_beta
      merge_scalar_swap [of d _ _ _ "ent_schema eb" "ent_schema ey"]
      merge_scalar_swap [of d _ _ _ "ent_key eb" "ent_key ey"] merge_entity_fields_swap [of d i _ eb ey]
    by (simp add: swaps)
  then have "entity_step d b y x i = map_prod id swap_evidence (entity_step d b x y i)" for i
    unfolding entity_step_def
    by (intro three_case_swap) (assumption | rule merge_optional_swap)+
  then show ?thesis unfolding merge_entities_def by (rule collect_ids_swap)
qed

lemma sort_conflicts_swap: "sort_conflicts (map swap_conflict cs) = map swap_conflict (sort_conflicts cs)"
proof -
  have key: "conflict_key (swap_conflict c) = conflict_key c" for c
    by (simp add: conflict_key_def swap_conflict_def)
  have "insort_key conflict_key (swap_conflict c) (map swap_conflict cs) =
      map swap_conflict (insort_key conflict_key c cs)" for c cs
    by (induction cs) (simp_all add: key)
  then show ?thesis
    unfolding sort_conflicts_def sort_key_def by (induction cs) simp_all
qed

lemma mergeable_swap: "mergeable b y x \<longleftrightarrow> mergeable b x y"
  by (auto simp: mergeable_def)

lemma merge_swap: "merge_documents b y x = swap_outcome (merge_documents b x y)"
proof (cases "mergeable b x y")
  case True
  have passes: "title_pass b y x = map_prod id swap_evidence (title_pass b x y)"
    "schemas_pass b y x = map_prod id swap_evidence (schemas_pass b x y)"
    "entities_pass b y x = map_prod id swap_evidence (entities_pass b x y)"
    unfolding pass_defs by (rule merge_scalar_swap merge_schemas_swap merge_entities_swap)+
  have "merge_conflicts b y x = map (map_option swap_conflict) (merge_conflicts b x y)"
    by (simp add: merge_conflicts_def passes swap_evidence_def)
  moreover have "None \<notin> set (merge_conflicts b x y)"
    using passes_sound [of b x y] by (auto simp: merge_conflicts_def sound_def)
  then have "the (map_option swap_conflict c) = swap_conflict (the c)"
    if "c \<in> set (merge_conflicts b x y)" for c using that by (metis option.map_sel)
  then have "map the (map (map_option swap_conflict) (merge_conflicts b x y)) =
      map swap_conflict (map the (merge_conflicts b x y))" by simp
  ultimately show ?thesis
    using True by (simp add: merge_documents_mergeable mergeable_swap [of b y] passes
        swap_evidence_def swap_outcome_def sort_conflicts_swap flip: map_map)
next
  case False
  then show ?thesis
    by (auto simp: merge_documents_def mergeable_def swap_outcome_def)
qed

section \<open>Following a side that changed nothing\<close>

lemma mergeable_plain:
  assumes "mergeable b x y" "d \<in> {b, x, y}" "bt_get (doc_schemas d) i = Some s"
  shows "sch_display_name s = None" "sch_field_order s = None"
    "bt_get (sch_fields s) j = Some f \<Longrightarrow>
       fd_display_name f = None \<and> fd_constraint f = ConstraintNone \<and> fd_number_format f = None"
proof -
  have y: "\<not> has_display_names d" "\<not> has_field_orders d" "\<not> has_number_formats d"
      "\<not> has_field_constraints d"
    using assms(1,2) by (auto simp: mergeable_def)
  have s: "s \<in> set (bt_values (doc_schemas d))" using assms(3) by (auto simp: in_bt_values)
  show "sch_display_name s = None" "sch_field_order s = None"
    using y(1,2) s unfolding has_display_names_def has_field_orders_def list_ex_iff by blast+
  assume "bt_get (sch_fields s) j = Some f"
  then have f: "f \<in> set (bt_values (sch_fields s))" by (auto simp: in_bt_values)
  show "fd_display_name f = None \<and> fd_constraint f = ConstraintNone \<and> fd_number_format f = None"
  proof -
    have all: "f \<in> set (concat (map (\<lambda>s. bt_values (sch_fields s)) (bt_values (doc_schemas d))))"
      using s f by simp (rule bexI)
    have "fd_display_name f = None"
      using y(1) s f unfolding has_display_names_def list_ex_iff by blast
    moreover have "fd_constraint f = ConstraintNone"
      using y(4) all unfolding has_field_constraints_def list_ex_iff by blast
    moreover have "fd_number_format f = None"
      using y(3) all unfolding has_number_formats_def list_ex_iff by blast
    ultimately show ?thesis by blast
  qed
qed

lemma merged_map_follow:
  assumes "x = b \<or> x = y" "\<And>i v vb. bt_get y i = Some v \<Longrightarrow> rel i vb vb v v \<and> rel i vb v v v"
  shows "merged_map rel b x y y"
  using assms by (auto simp: merged_map_def split: option.split)

lemma merged_document_follow:
  assumes "mergeable b x y" "store_ids_ok y" "x = b \<or> x = y"
  shows "merged_document b x y (y\<lparr>doc_id := doc_id b\<rparr>)"
proof -
  note plain = mergeable_plain [OF assms(1), of y, simplified] and ids = store_ids_okD [OF assms(2)]
  have inner: "merged_map merged_field fb fb (sch_fields s) (sch_fields s) \<and>
      merged_map merged_field fb (sch_fields s) (sch_fields s) (sch_fields s)"
    if "bt_get (doc_schemas y) i = Some s" for i s fb
    using plain(3) [OF that] ids(2) [OF that]
    by (intro conjI merged_map_follow) (auto simp: merged_field_def)
  have "merged_map merged_schema (doc_schemas b) (doc_schemas x) (doc_schemas y) (doc_schemas y)"
    using assms(3) plain ids(1) inner by (intro merged_map_follow) (auto simp: merged_schema_def)
  moreover have "merged_map merged_entity (doc_entities b) (doc_entities x) (doc_entities y) (doc_entities y)"
    using assms(3) ids(3) by (intro merged_map_follow) (auto simp: merged_entity_def qualified_field_def)
  ultimately show ?thesis
    using assms by (auto simp: merged_document_def mergeable_def)
qed

lemma merge_facts_follow:
  assumes "x = b \<or> x = y"
  shows "merge_facts b x y = []"
proof -
  have "u \<notin> set (merge_facts b x y)" for u
    using assms by (auto simp: merge_facts_iff merge_entity_facts qualified_field_def split: if_splits)
  then show ?thesis by (metis last_in_set)
qed

section \<open>Conflicts are disagreements\<close>

text \<open>A conflict whose three facts all differ.\<close>

definition genuine :: "merge_conflict \<Rightarrow> bool" where
  "genuine c \<longleftrightarrow> mc_left c \<noteq> mc_right c \<and> mc_left c \<noteq> mc_base c \<and> mc_right c \<noteq> mc_base c"

definition plain_field :: "field_id \<Rightarrow> field_definition \<Rightarrow> bool" where
  "plain_field j f \<longleftrightarrow> fd_id f = j \<and> fd_display_name f = None \<and> fd_constraint f = ConstraintNone \<and>
     fd_number_format f = None"

definition plain_schema :: "schema_id \<Rightarrow> schema \<Rightarrow> bool" where
  "plain_schema i s \<longleftrightarrow> sch_id s = i \<and> sch_display_name s = None \<and> sch_field_order s = None \<and>
     (\<forall>j f. bt_get (sch_fields s) j = Some f \<longrightarrow> plain_field j f)"

text \<open>What the code compares and what it reports of it tell the same values apart.\<close>

lemma field_subject_inject:
  "plain_field j f \<Longrightarrow> plain_field j g \<Longrightarrow> schema_field_subject_of f = schema_field_subject_of g \<longleftrightarrow> f = g"
  by (cases f; cases g) (auto simp: schema_field_subject_of_def plain_field_def)

lemma schema_subject_inject:
  assumes "plain_schema i s" "plain_schema i t"
  shows "schema_subject_of s = schema_subject_of t \<longleftrightarrow> s = t"
proof
  assume eq: "schema_subject_of s = schema_subject_of t"
  have "bt_get (sch_fields s) j = bt_get (sch_fields t) j" for j
  proof -
    have "map_option schema_field_subject_of (bt_get (sch_fields s) j) =
        map_option schema_field_subject_of (bt_get (sch_fields t) j)"
      using eq unfolding schema_subject_of_def
      by (metis bt_get_map schema_subject.select_convs(2))
    then show ?thesis
      using assms field_subject_inject [of j]
      by (cases "bt_get (sch_fields s) j"; cases "bt_get (sch_fields t) j")
        (auto simp: plain_schema_def)
  qed
  then have "sch_fields s = sch_fields t" by (rule btree_eqI)
  then show "s = t"
    using eq assms by (cases s; cases t) (auto simp: schema_subject_of_def plain_schema_def)
qed simp

lemma entity_subject_inject:
  "ent_id e = i \<Longrightarrow> ent_id g = i \<Longrightarrow> entity_subject_of e = entity_subject_of g \<longleftrightarrow> e = g"
  by (cases e; cases g) (auto simp: entity_subject_of_def)

lemma conflict_new_genuine:
  "merge_conflict_new d t f b x y = Some c \<Longrightarrow> x \<noteq> y \<Longrightarrow> x \<noteq> b \<Longrightarrow> y \<noteq> b \<Longrightarrow> genuine c"
  by (auto simp: merge_conflict_new_def genuine_def conflict_fact_of_def split: if_splits option.splits)

lemma merge_scalar_genuine:
  assumes "Some c \<in> set (snd (snd (merge_scalar d t f w b x y)))" "inj w"
  shows "genuine c"
proof -
  have "choose_scalar b x y = None" "merge_conflict_new d t f (Some (w b)) (Some (w x)) (Some (w y)) = Some c"
    using assms(1) by (auto simp: merge_scalar_def Let_def no_evidence_def split: if_splits)
  then show ?thesis
    using assms(2) by (intro conflict_new_genuine [of d t f]) (auto simp: scalar.clash_iff inj_eq)
qed

lemma merge_optional_genuine:
  assumes "Some c \<in> set (snd (snd (merge_optional d t f w b x y)))"
    and "inj_on w (set_option b \<union> set_option x \<union> set_option y)"
  shows "genuine c"
proof -
  have clash: "x \<noteq> y" "x \<noteq> b" "y \<noteq> b"
    and "merge_conflict_new d t f (map_option w b) (map_option w x) (map_option w y) = Some c"
    using assms(1) by (auto simp: merge_optional_def Let_def no_evidence_def optional.clash_iff
        split: if_splits)
  moreover have "map_option w p \<noteq> map_option w q"
    if "p \<noteq> q" "set_option p \<union> set_option q \<subseteq> set_option b \<union> set_option x \<union> set_option y" for p q
    using that assms(2) by (cases p; cases q) (auto dest: inj_onD)
  ultimately show ?thesis by (intro conflict_new_genuine [of d t f]) auto
qed

lemma merge_field_definition_genuine:
  "Some c \<in> set (snd (snd (merge_field_definition d s i b x y))) \<Longrightarrow> genuine c"
  by (auto simp: merge_field_definition_def Let_def case_prod_beta inj_def elim!: merge_scalar_genuine)

lemma three_case_evidence:
  "c \<in> set (snd (snd (case (vb, vx, vy) of
        (Some b, Some x, Some y) \<Rightarrow> (case f b x y of (m, e) \<Rightarrow> (h m, e))
      | (b, x, y) \<Rightarrow> (case g b x y of (m, e) \<Rightarrow> (k m, e))))) \<Longrightarrow>
   (\<exists>b x y. vb = Some b \<and> vx = Some x \<and> vy = Some y \<and> c \<in> set (snd (snd (f b x y)))) \<or>
   c \<in> set (snd (snd (g vb vx vy)))"
  by (cases vb; cases vx; cases vy) (auto simp: case_prod_beta)

lemma schema_field_step_genuine:
  assumes "Some c \<in> set (snd (snd (schema_field_step d s mb mx my i)))"
    and "\<And>m f. m \<in> {mb, mx, my} \<Longrightarrow> bt_get m i = Some f \<Longrightarrow> plain_field i f"
  shows "genuine c"
proof -
  have v: "plain_field i v" if "v \<in> set_option (bt_get mb i) \<union> set_option (bt_get mx i) \<union> set_option (bt_get my i)" for v
    using that assms(2) [of mb v] assms(2) [of mx v] assms(2) [of my v] by auto
  have "inj_on (\<lambda>f. MvSchemaFieldSubject (schema_field_subject_of f))
      (set_option (bt_get mb i) \<union> set_option (bt_get mx i) \<union> set_option (bt_get my i))"
    using v field_subject_inject by (intro inj_onI) blast
  then show ?thesis
    using three_case_evidence [OF assms(1) [unfolded schema_field_step_def]]
      merge_field_definition_genuine merge_optional_genuine by blast
qed

lemma merge_schema_genuine:
  assumes "Some c \<in> set (snd (snd (merge_schema d i b x y)))"
    and "plain_schema i b" "plain_schema i x" "plain_schema i y"
  shows "genuine c"
proof -
  have "Some c \<in> set (snd (snd (merge_schema_fields d i (sch_fields b) (sch_fields x) (sch_fields y)))) \<or>
      Some c \<in> set (snd (snd (merge_scalar d (TargetSchema i) FacetKey MvSchemaKey (sch_key b)
        (sch_key x) (sch_key y))))"
    using assms(1) by (auto simp: merge_schema_def case_prod_beta)
  then show ?thesis
  proof
    assume "Some c \<in> set (snd (snd (merge_schema_fields d i (sch_fields b) (sch_fields x) (sch_fields y))))"
    then obtain j where
      "Some c \<in> set (snd (snd (schema_field_step d i (sch_fields b) (sch_fields x) (sch_fields y) j)))"
      by (auto simp: merge_schema_fields_def collect_facts_and_conflicts)
    then show ?thesis
      using assms(2-4) by (rule_tac schema_field_step_genuine) (auto simp: plain_schema_def)
  qed (rule merge_scalar_genuine, auto simp: inj_def)
qed

lemma schema_step_genuine:
  assumes "Some c \<in> set (snd (snd (schema_step d mb mx my i)))"
    and "\<And>m s. m \<in> {mb, mx, my} \<Longrightarrow> bt_get m i = Some s \<Longrightarrow> plain_schema i s"
  shows "genuine c"
proof -
  have v: "plain_schema i v" if "v \<in> set_option (bt_get mb i) \<union> set_option (bt_get mx i) \<union> set_option (bt_get my i)" for v
    using that assms(2) [of mb v] assms(2) [of mx v] assms(2) [of my v] by auto
  have "inj_on (\<lambda>s. MvSchemaSubject (schema_subject_of s))
      (set_option (bt_get mb i) \<union> set_option (bt_get mx i) \<union> set_option (bt_get my i))"
    using v schema_subject_inject by (intro inj_onI) blast
  moreover have "genuine c" if "bt_get mb i = Some b" "bt_get mx i = Some x" "bt_get my i = Some y"
    "Some c \<in> set (snd (snd (merge_schema d i b x y)))" for b x y
    using that assms(2) by (intro merge_schema_genuine [of c d i b x y]) auto
  ultimately show ?thesis
    using three_case_evidence [OF assms(1) [unfolded schema_step_def]] merge_optional_genuine by blast
qed

lemma merge_entity_genuine:
  assumes "Some c \<in> set (snd (snd (merge_entity d i b x y)))"
  shows "genuine c"
proof -
  consider
      "Some c \<in> set (snd (snd (merge_scalar d (TargetEntity i) FacetSchema MvSchemaId (ent_schema b)
        (ent_schema x) (ent_schema y))))"
    | "Some c \<in> set (snd (snd (merge_scalar d (TargetEntity i) FacetKey MvEntityKey (ent_key b)
        (ent_key x) (ent_key y))))"
    | t where "Some c \<in> set (field_conflict d i b x y t)"
    using assms by (auto simp: merge_entity_def case_prod_beta merge_entity_fields_def
        entity_fields_loop_evidence)
  then show ?thesis
  proof cases
    case 3
    then show ?thesis unfolding field_conflict_def
      by (rule merge_optional_genuine) (simp add: inj_on_def)
  qed (rule merge_scalar_genuine, auto simp: inj_def)+
qed

lemma entity_step_genuine:
  assumes "Some c \<in> set (snd (snd (entity_step d mb mx my i)))"
    and "\<And>m e. m \<in> {mb, mx, my} \<Longrightarrow> bt_get m i = Some e \<Longrightarrow> ent_id e = i"
  shows "genuine c"
proof -
  have v: "ent_id v = i" if "v \<in> set_option (bt_get mb i) \<union> set_option (bt_get mx i) \<union> set_option (bt_get my i)" for v
    using that assms(2) [of mb v] assms(2) [of mx v] assms(2) [of my v] by auto
  have "inj_on (\<lambda>e. MvEntitySubject (entity_subject_of e))
      (set_option (bt_get mb i) \<union> set_option (bt_get mx i) \<union> set_option (bt_get my i))"
    using v entity_subject_inject by (intro inj_onI) blast
  then show ?thesis
    using three_case_evidence [OF assms(1) [unfolded entity_step_def]] merge_optional_genuine
      merge_entity_genuine by blast
qed

lemma merge_conflicts_genuine:
  assumes "mergeable b x y" "\<And>d. d \<in> {b, x, y} \<Longrightarrow> store_ids_ok d"
    and c: "Some c \<in> set (merge_conflicts b x y)"
  shows "genuine c"
proof -
  have plain: "plain_schema i s" if "d \<in> {b, x, y}" "bt_get (doc_schemas d) i = Some s" for d i s
    using mergeable_plain [OF assms(1) that] store_ids_okD [OF assms(2) [OF that(1)]] that(2)
    by (auto simp: plain_schema_def plain_field_def)
  have ids: "ent_id e = i" if "d \<in> {b, x, y}" "bt_get (doc_entities d) i = Some e" for d i e
    using store_ids_okD(3) [OF assms(2) [OF that(1)] that(2)] .
  consider "Some c \<in> set (snd (snd (title_pass b x y)))"
    | i where "Some c \<in> set (snd (snd (schema_step (doc_id b) (doc_schemas b) (doc_schemas x) (doc_schemas y) i)))"
    | i where "Some c \<in> set (snd (snd (entity_step (doc_id b) (doc_entities b) (doc_entities x) (doc_entities y) i)))"
    using c by (auto simp: merge_conflicts_def schemas_pass_def merge_schemas_def entities_pass_def
        merge_entities_def collect_facts_and_conflicts)
  then show ?thesis
  proof cases
    case 1
    then show ?thesis unfolding title_pass_def by (rule merge_scalar_genuine) (simp add: inj_def)
  next
    case 2
    then show ?thesis by (rule schema_step_genuine) (use plain in auto)
  next
    case 3
    then show ?thesis by (rule entity_step_genuine) (use ids in auto)
  qed
qed

section \<open>Sample documents\<close>

text \<open>A base with one row, one side that moved the row to another schema and one that added a value.\<close>

definition merge_row :: "schema_id \<Rightarrow> (field_id, val) btree \<Rightarrow> entity" where
  "merge_row s fs = \<lparr>ent_id = ''e1'', ent_key = ''row'', ent_schema = s, ent_fields = fs\<rparr>"

definition merge_sheet :: "entity \<Rightarrow> document" where
  "merge_sheet e = \<lparr>doc_id = ''d'', doc_title = ''Sheet'', doc_schemas = bt_empty,
     doc_entities = bt_insert ''e1'' e bt_empty, doc_definitions = bt_empty\<rparr>"

lemma mergeable_sheets: "mergeable (merge_sheet a) (merge_sheet b) (merge_sheet c)"
  by (simp add: mergeable_def merge_sheet_def has_number_formats_def has_field_orders_def
      has_display_names_def has_field_constraints_def bt_values_def bt_entries_eval)

lemma merged_map_empty: "merged_map rel bt_empty bt_empty bt_empty bt_empty"
  by (simp add: merged_map_def)

lemma merged_sheets:
  assumes "merged_entity ''e1'' a b c r"
  shows "merged_document (merge_sheet a) (merge_sheet b) (merge_sheet c) (merge_sheet r)"
  using assms by (simp add: merged_document_def merge_sheet_def merged_map_empty)
    (simp add: merged_map_def)

section \<open>Properties\<close>

text \<open>
  C25. The merge never reaches a panic: every conflict it pushes passes the constructor's
  assertion and has a kind, and a pass that selects nothing has pushed one, so the
  \<open>unreachable!\<close> after the passes is not reached.
\<close>

theorem merge_never_panics: "merge_documents base ours theirs \<noteq> MergePanics"
  by (cases "mergeable base ours theirs")
    (use merge_documents_not_mergeable [of base ours theirs] in \<open>auto simp: merge_documents_mergeable\<close>)

text \<open>
  C11. The merge answers a document exactly when the inputs are supported and the document is
  their three-way merge: title, keys, types and requiredness take the side that changed,
  additions and deletions on one side are kept, a stored value is merged under the schema
  that qualifies it, and no value clashes under any schema.
\<close>

theorem merged_iff_three_way:
  "(\<exists>facts. merge_documents base ours theirs = Merged r facts) \<longleftrightarrow>
     mergeable base ours theirs \<and> merged_document base ours theirs r"
  by (auto simp: merge_documents_Merged)

text \<open>
  C28. A merge that answers conflicts answers at least one, in the canonical order of target,
  facet and kind, and each of them is a disagreement: the base and the two sides state three
  different facts, so no conflict can be settled by looking at what changed.
\<close>

theorem conflicts_are_disagreements:
  assumes "merge_documents base ours theirs = Conflicted cs"
    and "store_ids_ok base" "store_ids_ok ours" "store_ids_ok theirs"
  shows "cs \<noteq> [] \<and> sorted (map conflict_key cs) \<and> list_all genuine cs"
proof -
  have m: "mergeable base ours theirs"
    using merge_documents_not_mergeable [of base ours theirs] assms(1) by auto
  then have cs: "merge_conflicts base ours theirs \<noteq> []"
      "cs = sort_conflicts (map the (merge_conflicts base ours theirs))"
    using assms(1) by (auto simp: merge_documents_mergeable split: if_splits)
  have "None \<notin> set (merge_conflicts base ours theirs)"
    using passes_sound [of base ours theirs] by (auto simp: merge_conflicts_def sound_def)
  then have "genuine (the c)" if "c \<in> set (merge_conflicts base ours theirs)" for c
    using merge_conflicts_genuine [OF m, of "the c"] assms(2-4) that by (cases c) auto
  then have "list_all genuine cs" by (auto simp: cs(2) sort_conflicts_def list_all_iff)
  moreover have "cs \<noteq> []"
    using cs(1) arg_cong [OF cs(2), of length] by (auto simp: sort_conflicts_def)
  moreover have "sorted (map conflict_key cs)" by (simp add: cs(2) sort_conflicts_def)
  ultimately show ?thesis by blast
qed

lemma conflicts_are_disagreements_witness:
  "\<exists>cs. merge_documents (merge_sheet (merge_row ''t'' bt_empty)) (merge_sheet (merge_row ''u'' bt_empty))
     (merge_sheet (merge_row ''v'' bt_empty)) = Conflicted cs \<and> cs \<noteq> [] \<and> list_all genuine cs"
proof -
  let ?b = "merge_sheet (merge_row ''t'' bt_empty)" and ?x = "merge_sheet (merge_row ''u'' bt_empty)"
  let ?y = "merge_sheet (merge_row ''v'' bt_empty)"
  have no: "merge_documents ?b ?x ?y \<noteq> Merged r facts" for r facts
  proof
    assume "merge_documents ?b ?x ?y = Merged r facts"
    then have "merged_map merged_entity (doc_entities ?b) (doc_entities ?x) (doc_entities ?y) (doc_entities r)"
      by (simp add: merge_documents_Merged merged_document_def)
    from this [unfolded merged_map_def, THEN spec, of "''e1''"]
    show False
      by (auto simp: merge_sheet_def merge_row_def merged_entity_def takes_change_def)
  qed
  obtain cs where cs: "merge_documents ?b ?x ?y = Conflicted cs"
    using no merge_documents_answers [OF mergeable_sheets] by blast
  then show ?thesis
    using conflicts_are_disagreements [OF cs]
    by (auto simp: store_ids_ok_def merge_sheet_def merge_row_def bt_entries_eval)
qed

text \<open>
  C27. The merge treats its two sides alike: exchanging them exchanges the left and right facts
  of every conflict and changes nothing else, neither the merged document, nor the facts it
  could not hold, nor the order of the conflicts.
\<close>

theorem merge_symmetric:
  "merge_documents base theirs ours = swap_outcome (merge_documents base ours theirs)"
  by (rule merge_swap)

text \<open>
  C26. When our side changed nothing, or made the very change their side made, the merge is
  their document under the base's id, with nothing left over.
\<close>

theorem merge_follows_their_change:
  assumes "mergeable base ours theirs" "store_ids_ok theirs" "ours = base \<or> ours = theirs"
  shows "merge_documents base ours theirs = Merged (theirs\<lparr>doc_id := doc_id base\<rparr>) []"
  using assms merged_document_follow [OF assms] merge_facts_follow [OF assms(3)]
  by (simp add: merge_documents_Merged)

lemma merge_follows_their_change_witness:
  "merge_documents (merge_sheet (merge_row ''t'' bt_empty)) (merge_sheet (merge_row ''t'' bt_empty))
     (merge_sheet (merge_row ''u'' bt_empty)) = Merged (merge_sheet (merge_row ''u'' bt_empty)) []"
  using merge_follows_their_change [OF mergeable_sheets, of "merge_row ''u'' bt_empty"
      "merge_row ''t'' bt_empty" "merge_row ''t'' bt_empty"]
  by (simp add: store_ids_ok_def merge_sheet_def merge_row_def bt_entries_eval)

text \<open>
  C30. The facts a merged document could not hold are exactly the stored values that survive
  the merge under a schema other than the one selected for their entity, for entities all
  three documents have.
\<close>

theorem unmaterialized_facts_exact:
  assumes "merge_documents base ours theirs = Merged r facts"
  shows "u \<in> set facts \<longleftrightarrow>
    (\<exists>eb ex ey. bt_get (doc_entities base) (uf_entity u) = Some eb \<and>
       bt_get (doc_entities ours) (uf_entity u) = Some ex \<and>
       bt_get (doc_entities theirs) (uf_entity u) = Some ey \<and>
       takes_change (ent_schema eb) (ent_schema ex) (ent_schema ey) (uf_selected_schema u) \<and>
       uf_source_schema u \<noteq> uf_selected_schema u \<and>
       takes_change (qualified_field eb (uf_source_schema u) (uf_field u))
         (qualified_field ex (uf_source_schema u) (uf_field u))
         (qualified_field ey (uf_source_schema u) (uf_field u)) (Some (uf_value u)))"
  using assms by (auto simp: merge_documents_Merged merge_facts_iff merge_entity_facts)

lemma unmaterialized_facts_exact_witness:
  "\<exists>r facts. merge_documents (merge_sheet (merge_row ''t'' bt_empty))
       (merge_sheet (merge_row ''u'' bt_empty))
       (merge_sheet (merge_row ''t'' (bt_insert ''b'' (VText ''x'') bt_empty))) = Merged r facts \<and>
     \<lparr>uf_entity = ''e1'', uf_source_schema = ''t'', uf_selected_schema = ''u'', uf_field = ''b'',
      uf_value = VText ''x''\<rparr> \<in> set facts"
proof -
  let ?b = "merge_row ''t'' bt_empty" and ?x = "merge_row ''u'' bt_empty"
  let ?y = "merge_row ''t'' (bt_insert ''b'' (VText ''x'') bt_empty)"
  have "merged_entity ''e1'' ?b ?x ?y ?x"
    by (auto simp: merged_entity_def merge_row_def takes_change_def qualified_field_def)
  then obtain facts where m: "merge_documents (merge_sheet ?b) (merge_sheet ?x) (merge_sheet ?y) =
      Merged (merge_sheet ?x) facts"
    using merge_documents_Merged mergeable_sheets merged_sheets by blast
  then show ?thesis
    using unmaterialized_facts_exact [OF m, of "\<lparr>uf_entity = ''e1'', uf_source_schema = ''t'',
      uf_selected_schema = ''u'', uf_field = ''b'', uf_value = VText ''x''\<rparr>"]
    by (auto simp: merge_sheet_def merge_row_def takes_change_def qualified_field_def)
qed

end
