(* ===== verification/Arithmetic.thy ===== *)
theory Arithmetic
  imports Documents
begin

text \<open>
  The \<open>f64\<close> arithmetic the formula engine uses, and the numeric routines of
  \<open>formula-engine/src/evaluation.rs\<close>: rounding on the displayed decimal, the exact
  summation over partials and the average that survives overflow.  A finite value is a
  whole number of units, the least subnormal; every operation computes the exact rational
  result in units and rounds it once.
\<close>

section \<open>Operations of \<open>f64\<close>\<close>

definition f64_units :: "f64 \<Rightarrow> int" where
  "f64_units x = (if f64_sign x then - int (mag_units (f64_mag x)) else int (mag_units (f64_mag x)))"

definition f64_nan :: f64 where
  "f64_nan = f64_make False nan_mag"

definition f64_neg :: "f64 \<Rightarrow> f64" where
  "f64_neg x = f64_make (\<not> f64_sign x) (f64_mag x)"

definition f64_abs :: "f64 \<Rightarrow> f64" where
  "f64_abs x = f64_make False (f64_mag x)"

definition f64_copysign :: "f64 \<Rightarrow> f64 \<Rightarrow> f64" where
  "f64_copysign x y = f64_make (f64_sign y) (f64_mag x)"

text \<open>The value nearest \<open>n\<close> units; an exact zero takes the given sign.\<close>

definition f64_of_units :: "bool \<Rightarrow> int \<Rightarrow> f64" where
  "f64_of_units zero_sign n =
     (if n = 0 then f64_make zero_sign 0 else f64_make (n < 0) (round_units (nat \<bar>n\<bar>) 1))"

definition f64_add :: "f64 \<Rightarrow> f64 \<Rightarrow> f64" where
  "f64_add x y =
     (if f64_is_nan x \<or> f64_is_nan y then f64_nan
      else if \<not> f64_is_finite x then
        (if \<not> f64_is_finite y \<and> f64_sign x \<noteq> f64_sign y then f64_nan else x)
      else if \<not> f64_is_finite y then y
      else f64_of_units (f64_sign x \<and> f64_sign y) (f64_units x + f64_units y))"

definition f64_sub :: "f64 \<Rightarrow> f64 \<Rightarrow> f64" where
  "f64_sub x y = f64_add x (f64_neg y)"

definition f64_mul :: "f64 \<Rightarrow> f64 \<Rightarrow> f64" where
  "f64_mul x y =
     (let neg = (f64_sign x \<noteq> f64_sign y) in
      if f64_is_nan x \<or> f64_is_nan y then f64_nan
      else if \<not> f64_is_finite x \<or> \<not> f64_is_finite y then
        (if f64_is_zero x \<or> f64_is_zero y then f64_nan else f64_make neg inf_mag)
      else f64_make neg (round_units (mag_units (f64_mag x) * mag_units (f64_mag y)) (2 ^ 1074)))"

definition f64_div :: "f64 \<Rightarrow> f64 \<Rightarrow> f64" where
  "f64_div x y =
     (let neg = (f64_sign x \<noteq> f64_sign y) in
      if f64_is_nan x \<or> f64_is_nan y then f64_nan
      else if \<not> f64_is_finite x then (if f64_is_finite y then f64_make neg inf_mag else f64_nan)
      else if \<not> f64_is_finite y then f64_make neg 0
      else if f64_is_zero y then (if f64_is_zero x then f64_nan else f64_make neg inf_mag)
      else f64_make neg (round_units (mag_units (f64_mag x) * 2 ^ 1074) (mag_units (f64_mag y))))"

text \<open>\<open>f64::min\<close> and \<open>f64::max\<close> pass over a NaN.\<close>

definition f64_less :: "f64 \<Rightarrow> f64 \<Rightarrow> bool" where
  "f64_less x y \<longleftrightarrow> f64_partial_cmp x y = Some Ord_Less"

definition f64_min :: "f64 \<Rightarrow> f64 \<Rightarrow> f64" where
  "f64_min x y = (if f64_is_nan x then y else if f64_is_nan y \<or> \<not> f64_less y x then x else y)"

definition f64_max :: "f64 \<Rightarrow> f64 \<Rightarrow> f64" where
  "f64_max x y = (if f64_is_nan x then y else if f64_is_nan y \<or> \<not> f64_less x y then x else y)"

definition f64_of_nat :: "nat \<Rightarrow> f64" where
  "f64_of_nat n = f64_make False (round_units (n * 2 ^ 1074) 1)"

text \<open>\<open>x.fract() == 0.0\<close> of a finite value\<close>

definition f64_is_integral :: "f64 \<Rightarrow> bool" where
  "f64_is_integral x \<longleftrightarrow> f64_is_finite x \<and> 2 ^ 1074 dvd mag_units (f64_mag x)"

definition f64_infinity :: "bool \<Rightarrow> f64" where
  "f64_infinity neg = f64_make neg inf_mag"

definition f64_max_value :: f64 where
  "f64_max_value = f64_make False (inf_mag - 1)"

text \<open>\<open>f64::MIN_POSITIVE\<close>, the least normal value\<close>

definition f64_min_positive :: f64 where
  "f64_min_positive = f64_make False (2 ^ 52)"

section \<open>Numeric results\<close>

datatype numeric_failure = NumNotFinite | NumTypeMismatch

text \<open>\<open>number_result\<close>\<close>

definition finite_result :: "f64 \<Rightarrow> numeric_failure + number" where
  "finite_result v = (case number_new v of Some n \<Rightarrow> Inr n | None \<Rightarrow> Inl NumNotFinite)"

section \<open>Rounding on the displayed decimal\<close>

text \<open>\<open>text.split_once('.').unwrap_or((text, ""))\<close>\<close>

fun split_point :: "string \<Rightarrow> string \<times> string" where
  "split_point [] = ([], [])"
| "split_point (c # s) =
     (if c = CHR ''.'' then ([], s) else (c # fst (split_point s), snd (split_point s)))"

text \<open>
  The carry loop over the kept digits, from the last one: a nine becomes a zero and carries
  on, another digit is incremented, and past the first digit a one is put in front.
\<close>

fun carry :: "string \<Rightarrow> nat \<Rightarrow> string" where
  "carry kept 0 = CHR ''1'' # kept"
| "carry kept (Suc i) =
     (if kept ! i = CHR ''9'' then carry (kept[i := CHR ''0'']) i
      else kept[i := char_of (byte (kept ! i) + 1)])"

text \<open>\<open>None\<close> is the panic of the final \<open>expect\<close>.\<close>

definition round_decimal_text :: "f64 \<Rightarrow> nat \<Rightarrow> f64 option" where
  "round_decimal_text v digits =
     (case split_point (display_f64 (f64_abs v)) of (integer, fraction) \<Rightarrow>
      if length fraction \<le> digits then Some v
      else let kept = integer @ take digits fraction;
               kept = (if byte (CHR ''5'') \<le> byte (fraction ! digits)
                       then carry kept (length kept) else kept);
               whole = take (length kept - digits) kept; places = drop (length kept - digits) kept;
               rounded = whole @ (if places = [] then [] else CHR ''.'' # places) in
        map_option (\<lambda>magnitude. if f64_eq magnitude f64_zero then f64_zero
                                else f64_copysign magnitude v)
          (parse_f64 rounded))"

definition round_number :: "number \<Rightarrow> nat \<Rightarrow> (numeric_failure + number) option" where
  "round_number n digits =
     (if 10 < digits then Some (Inl NumTypeMismatch)
      else let v = number_get n in
        if f64_is_integral v then Some (finite_result v)
        else map_option finite_result (round_decimal_text v digits))"

section \<open>Exact summation\<close>

text \<open>
  One value against the partials: the high part goes on to the next partial, a nonzero
  low part is kept in front.
\<close>

fun absorb :: "f64 \<Rightarrow> f64 list \<Rightarrow> f64 list \<Rightarrow> f64 list" where
  "absorb v [] kept = kept @ [v]"
| "absorb v (p # ps) kept =
     (let (a, b) = (if f64_less (f64_abs v) (f64_abs p) then (p, v) else (v, p));
          high = f64_add a b;
          low = f64_sub b (f64_sub high a) in
      absorb high ps (if f64_eq low f64_zero then kept else kept @ [low]))"

definition partials_of :: "f64 list \<Rightarrow> f64 list" where
  "partials_of vs = foldl (\<lambda>ps v. absorb v ps []) [] vs"

text \<open>
  The final additions from the greatest partial down; the loop stops at the first nonzero
  low part.  The partials are given with the greatest first.
\<close>

fun sum_down :: "f64 \<Rightarrow> f64 \<Rightarrow> f64 list \<Rightarrow> f64 \<times> f64 \<times> f64 list" where
  "sum_down high low [] = (high, low, [])"
| "sum_down high low (p # ps) =
     (let high' = f64_add high p; low' = f64_sub p (f64_sub high' high) in
      if \<not> f64_eq low' f64_zero then (high', low', ps) else sum_down high' low' ps)"

definition exact_sum :: "f64 list \<Rightarrow> f64" where
  "exact_sum vs =
     (case rev (partials_of vs) of
        [] \<Rightarrow> f64_zero
      | p # ps \<Rightarrow>
          (case sum_down p f64_zero ps of (high, low, rest) \<Rightarrow>
           case rest of
             [] \<Rightarrow> high
           | next_partial # _ \<Rightarrow>
               if f64_less low f64_zero \<and> f64_less next_partial f64_zero \<or>
                  f64_less f64_zero low \<and> f64_less f64_zero next_partial
               then let doubled = f64_mul low (f64_of_nat 2); rounded = f64_add high doubled in
                 if f64_eq doubled (f64_sub rounded high) then rounded else high
               else high))"

text \<open>\<open>u32::try_from(len).unwrap_or(u32::MAX)\<close>\<close>

definition value_count :: "nat \<Rightarrow> f64" where
  "value_count n = f64_of_nat (if n < 2 ^ 32 then n else 2 ^ 32 - 1)"

definition average :: "f64 list \<Rightarrow> f64" where
  "average vs =
     (let count = value_count (length vs); total = exact_sum vs in
      if f64_is_finite total then f64_div total count
      else
        let scale = f64_of_nat (2 ^ 64);
            exact = f64_mul f64_min_positive scale;
            large = exact_sum (map (\<lambda>v. f64_div v scale)
              (filter (\<lambda>v. \<not> f64_less (f64_abs v) exact) vs));
            small = exact_sum (filter (\<lambda>v. f64_less (f64_abs v) exact) vs);
            large = (if f64_less (f64_abs large) (f64_div f64_max_value scale)
              then f64_div (f64_mul large scale) count
              else f64_mul (f64_div large count) scale) in
          f64_add large (f64_div small count))"

section \<open>Decimal digits\<close>

lemma digits_value_append:
  "digits_value (s @ t) = digits_value s * 10 ^ length t + digits_value t"
proof (induction t rule: rev_induct)
  case (snoc c t)
  have "digits_value (s @ t @ [c]) = digits_value (s @ t) * 10 + (byte c - 48)"
    using digits_value_snoc [of "s @ t" c] by simp
  then show ?case using snoc by (simp add: digits_value_snoc algebra_simps)
qed (simp add: digits_value_def)

lemma digits_value_cons: "digits_value (c # s) = (byte c - 48) * 10 ^ length s + digits_value s"
  using digits_value_append [of "[c]" s] by (simp add: digits_value_def)

lemma digits_value_prefix:
  assumes "list_all is_ascii_digit (s @ t)"
  shows "digits_value s = digits_value (s @ t) div 10 ^ length t"
  using digits_value_less [of t] assms by (simp add: digits_value_append)

lemma list_all_update: "list_all P xs \<Longrightarrow> P x \<Longrightarrow> list_all P (xs[i := x])"
  by (auto simp: list_all_iff dest: set_update_subset_insert [THEN subsetD])

lemma digits_value_update:
  assumes "i < length s"
  shows "digits_value (s[i := c]) + (byte (s ! i) - 48) * 10 ^ (length s - Suc i) =
    digits_value s + (byte c - 48) * 10 ^ (length s - Suc i)"
proof -
  obtain a x b where s: "s = a @ x # b" and a: "length a = i" "s ! i = x"
    using assms id_take_nth_drop [OF assms] by (metis length_take min.absorb4)
  have u: "s[i := c] = a @ c # b" using a unfolding s by (simp add: list_update_append)
  show ?thesis unfolding u a(2) unfolding s by (simp add: digits_value_append digits_value_cons flip: a(1))
qed

text \<open>The carry loop adds one in the place it starts from.\<close>

lemma carry_adds:
  "i \<le> length s \<Longrightarrow> list_all is_ascii_digit s \<Longrightarrow>
   list_all is_ascii_digit (carry s i) \<and> length s \<le> length (carry s i) \<and>
   digits_value (carry s i) = digits_value s + 10 ^ (length s - i)"
proof (induction s i rule: carry.induct)
  case (1 s)
  have "is_ascii_digit (CHR ''1'')" by (simp add: is_ascii_digit_def byte_def)
  moreover have "byte (CHR ''1'') = 49" by (simp add: byte_def)
  ultimately show ?case using 1 by (simp add: digits_value_cons)
next
  case (2 s i)
  from 2(2) have i: "i < length s" by simp
  have d: "is_ascii_digit (s ! i)" using 2(3) i by (simp add: list_all_length)
  have pow: "(10::nat) ^ (length s - i) = 10 * 10 ^ (length s - Suc i)"
    using i by (metis Suc_diff_Suc power_Suc)
  show ?case
  proof (cases "s ! i = CHR ''9''")
    case True
    let ?t = "s[i := CHR ''0'']"
    have "byte (s ! i) = 57" unfolding True by (simp add: byte_def)
    then have v: "digits_value ?t + 9 * 10 ^ (length s - Suc i) = digits_value s"
      using digits_value_update [OF i, of "CHR ''0''"] by simp
    have "list_all is_ascii_digit ?t" using 2(3) by (rule list_all_update) simp
    then show ?thesis using 2(1) [OF True] i v True by (simp add: pow)
  next
    case False
    then have "byte (s ! i) \<noteq> byte (CHR ''9'')" by (metis char_of_byte)
    then have "byte (s ! i) \<noteq> 57" by (simp add: byte_def)
    with is_ascii_digitD(1,2) [OF d] have b: "48 \<le> byte (s ! i)" "byte (s ! i) < 57" by simp_all
    let ?c = "char_of (byte (s ! i) + 1) :: char"
    have c: "byte ?c = byte (s ! i) + 1" using b by simp
    have "is_ascii_digit ?c" using b by (simp add: is_ascii_digit_def)
    then have "list_all is_ascii_digit (s[i := ?c])" by (intro list_all_update 2(3))
    moreover have "digits_value (s[i := ?c]) = digits_value s + 10 ^ (length s - Suc i)"
    proof -
      have "byte (s ! i) + 1 - 48 = Suc (byte (s ! i) - 48)" using b by simp
      then show ?thesis using digits_value_update [OF i, of ?c] unfolding c by simp
    qed
    ultimately show ?thesis using False by simp
  qed
qed

text \<open>Rounding half up drops the last places and looks at the first of them.\<close>

lemma half_up:
  fixes D :: nat
  assumes "0 < j"
  shows "(if 5 \<le> D div 10 ^ (j - 1) mod 10 then D div 10 ^ j + 1 else D div 10 ^ j) =
    (D + 5 * 10 ^ (j - 1)) div 10 ^ j"
proof -
  obtain i where j: "j = Suc i" using assms by (cases j) auto
  let ?x = "D div 10 ^ i"
  have a: "D div 10 ^ j = ?x div 10" unfolding j power_Suc2 by (rule div_mult2_eq)
  have b: "(D + 5 * 10 ^ (j - 1)) div 10 ^ j = (?x + 5) div 10"
  proof -
    have "(D + 5 * 10 ^ i) div (10 ^ i * 10) = (D + 5 * 10 ^ i) div 10 ^ i div 10" by (rule div_mult2_eq)
    moreover have "(D + 5 * 10 ^ i) div 10 ^ i = ?x + 5" by simp
    ultimately show ?thesis unfolding j power_Suc2 by simp
  qed
  have c: "(x + 5) div 10 = (if 5 \<le> x mod 10 then x div 10 + 1 else x div 10)" for x :: nat
    by presburger
  show ?thesis unfolding a b c unfolding j by simp
qed

section \<open>What rounding answers\<close>

lemma byte_dot [simp]: "byte (CHR ''.'') = 46"
  by (simp add: byte_def)

lemma digit_not:
  assumes "is_ascii_digit c"
  shows "c \<noteq> CHR ''-''" "c \<noteq> CHR ''+''" "c \<noteq> CHR ''.''" "to_ascii_lowercase c = c"
    "c \<noteq> CHR ''i''" "c \<noteq> CHR ''n''"
  using assms
  by (auto simp: is_ascii_digit_def byte_def to_ascii_lowercase_def is_ascii_uppercase_def)

lemma split_point_digits:
  "list_all is_ascii_digit s \<Longrightarrow> split_point (s @ CHR ''.'' # t) = (s, t)"
  "list_all is_ascii_digit s \<Longrightarrow> split_point s = (s, [])"
  by (induction s) (auto dest: digit_not(3))

lemma span_digits_append:
  "list_all is_ascii_digit s \<Longrightarrow>
   span_digits (s @ t) = (s @ fst (span_digits t), snd (span_digits t))"
  by (induction s) auto

text \<open>Digits with an optional fraction parse to the rounding of their decimal.\<close>

lemma parse_digits:
  assumes "list_all is_ascii_digit (c # w)" "list_all is_ascii_digit f"
  shows "parse_f64 (c # w @ (if f = [] then [] else CHR ''.'' # f)) =
    Some (f64_make False (round_decimal (digits_value (c # w @ f)) (- int (length f))))"
proof -
  let ?t = "c # w @ (if f = [] then [] else CHR ''.'' # f)"
  have c: "is_ascii_digit c" using assms(1) by simp
  note no = digit_not [OF c]
  have sign: "strip_sign ?t = (False, ?t)" using no by (simp add: strip_sign_def)
  have lc: "to_ascii_lowercase (CHR ''i'') = CHR ''i''" "to_ascii_lowercase (CHR ''n'') = CHR ''n''"
    by (simp_all add: to_ascii_lowercase_def is_ascii_uppercase_def byte_def)
  have word: "\<not> eq_ignore_ascii_case ?t ''inf''" "\<not> eq_ignore_ascii_case ?t ''infinity''"
    "\<not> eq_ignore_ascii_case ?t ''nan''"
    using no lc by (auto simp: eq_ignore_ascii_case_def)
  have whole: "list_all is_ascii_digit (c # w)" by (rule assms(1))
  have "span_digits ?t = (c # w, if f = [] then [] else CHR ''.'' # f)"
  proof -
    have "\<not> is_ascii_digit (CHR ''.'')" by (simp add: is_ascii_digit_def byte_def)
    then show ?thesis using span_digits_append [OF whole, of "if f = [] then [] else CHR ''.'' # f"]
      by auto
  qed
  moreover have "span_digits f = (f, [])"
    using span_digits_append [OF assms(2), of "[]"] by simp
  ultimately have "parse_decimal ?t =
      Some (round_decimal (digits_value (c # w @ f)) (- int (length f)))"
    by (auto simp: parse_decimal_def parse_exponent_def)
  then show ?thesis using sign word by (simp add: parse_f64_def)
qed

lemma show_positional_fraction:
  assumes "e < 0"
  obtains p where "show_positional D e = take (length p - nat (- e)) p @ CHR ''.'' # drop (length p - nat (- e)) p"
    "list_all is_ascii_digit p" "digits_value p = D" "nat (- e) < length p"
proof
  let ?p = "show_padded (nat (- e) + 1) D"
  show "show_positional D e = take (length ?p - nat (- e)) ?p @ CHR ''.'' # drop (length ?p - nat (- e)) ?p"
    using assms by (simp add: show_positional_def Let_def)
  show "list_all is_ascii_digit ?p" by (rule show_padded_digits)
  show "digits_value ?p = D" by (rule digits_value_padded)
  show "nat (- e) < length ?p" by (simp add: show_padded_def)
qed

lemma round_decimal_bound: "round_decimal d e \<le> inf_mag"
  by (simp add: round_decimal_def round_units_def Let_def)

lemma inf_mag_less: "inf_mag < 2 ^ 63"
  by (simp add: inf_mag_def)

lemma display_abs:
  assumes "f64_is_finite v" "shortest_decimal (f64_mag v) = (D, e)"
  shows "display_f64 (f64_abs v) = show_positional D e"
  using assms f64_make_parts [OF f64_mag_less, of False v]
  by (simp add: display_f64_def f64_abs_def f64_is_nan_def f64_is_finite_def)

text \<open>
  The value a displayed decimal rounds to: half away from zero at the given place, then the
  nearest \<open>f64\<close> of that decimal, with the sign of the argument unless it is a zero.
\<close>

definition rounded_display :: "f64 \<Rightarrow> nat \<Rightarrow> f64" where
  "rounded_display v digits =
     (case shortest_decimal (f64_mag v) of (D, e) \<Rightarrow>
      if - e \<le> int digits then v
      else let j = nat (- e) - digits;
               m = round_decimal ((D + 5 * 10 ^ (j - 1)) div 10 ^ j) (- int digits) in
        if m = 0 then f64_zero else f64_make (f64_sign v) m)"

lemma kept_places:
  assumes p: "list_all is_ascii_digit p" "digits_value p = D" "k < length p" and d: "digits < k"
  shows "byte (CHR ''5'') \<le> byte (drop (length p - k) p ! digits) \<longleftrightarrow>
      5 \<le> D div 10 ^ (k - digits - 1) mod 10"
    "digits_value (take (length p - k) p @ take digits (drop (length p - k) p)) = D div 10 ^ (k - digits)"
proof -
  let ?w = "length p - k"
  have kept: "take ?w p @ take digits (drop ?w p) = take (?w + digits) p" by (simp add: take_add)
  have pre: "digits_value (take i p) = D div 10 ^ (length p - i)" if "i \<le> length p" for i
    using digits_value_prefix [of "take i p" "drop i p"] p that by simp
  have "length p - (?w + digits) = k - digits" using p(3) d by simp
  then show "digits_value (take ?w p @ take digits (drop ?w p)) = D div 10 ^ (k - digits)"
    using pre [of "?w + digits"] p(3) d unfolding kept by simp
  have i: "?w + digits < length p" using p(3) d by simp
  let ?c = "p ! (?w + digits)"
  have "digits_value (take (Suc (?w + digits)) p) = digits_value (take (?w + digits) p) * 10 + (byte ?c - 48)"
    using i by (simp add: take_Suc_conv_app_nth digits_value_snoc)
  moreover have "length p - Suc (?w + digits) = k - digits - 1" using p(3) d by simp
  ultimately have "D div 10 ^ (k - digits - 1) = digits_value (take (?w + digits) p) * 10 + (byte ?c - 48)"
    using pre [of "Suc (?w + digits)"] i by simp
  moreover have c: "is_ascii_digit ?c" using p(1) i by (simp add: list_all_length)
  ultimately have m: "D div 10 ^ (k - digits - 1) mod 10 = byte ?c - 48"
    using is_ascii_digitD(3) [OF c] by (metis mod_less mod_mult_self3)
  have five: "byte (CHR ''5'') = 53" by (simp add: byte_def)
  have nth: "drop ?w p ! digits = ?c" using i by simp
  have "53 \<le> byte ?c \<longleftrightarrow> 5 \<le> byte ?c - 48" by linarith
  then show "byte (CHR ''5'') \<le> byte (drop ?w p ! digits) \<longleftrightarrow>
      5 \<le> D div 10 ^ (k - digits - 1) mod 10"
    unfolding m five nth .
qed

lemma rounded_digits:
  assumes "list_all is_ascii_digit kept" "digits_value kept = D div 10 ^ j" "0 < j"
    "up \<longleftrightarrow> 5 \<le> D div 10 ^ (j - 1) mod 10"
    "q = (if up then carry kept (length kept) else kept)"
  shows "list_all is_ascii_digit q" "length kept \<le> length q"
    "digits_value q = (D + 5 * 10 ^ (j - 1)) div 10 ^ j"
  using carry_adds [OF order_refl assms(1)] half_up [OF assms(3), of D] assms
  by (cases up; simp)+

lemma parse_kept:
  assumes "list_all is_ascii_digit q" "digits < length q"
  shows "parse_f64 (take (length q - digits) q @
      (if drop (length q - digits) q = [] then [] else CHR ''.'' # drop (length q - digits) q)) =
    Some (f64_make False (round_decimal (digits_value q) (- int digits)))"
proof -
  let ?i = "length q - digits"
  have "?i \<noteq> 0" "?i \<le> length q" using assms(2) by simp_all
  then obtain c w where w: "take ?i q = c # w" using assms(2) by (cases "take ?i q") auto
  have q: "c # w @ drop ?i q = q" using w append_take_drop_id [of ?i q] by simp
  have len: "length (drop ?i q) = digits" using assms(2) by simp
  have "list_all is_ascii_digit (c # w)" "list_all is_ascii_digit (drop ?i q)"
    using assms(1) q by (metis append_Cons list_all_append)+
  from parse_digits [OF this] show ?thesis
    unfolding w append_Cons q len by (simp only: append_Cons)
qed

lemma round_decimal_text_value:
  assumes fin: "f64_is_finite v"
  shows "round_decimal_text v digits = Some (rounded_display v digits)"
proof -
  obtain D e where s: "shortest_decimal (f64_mag v) = (D, e)" by force
  note disp = display_abs [OF fin s]
  show ?thesis
  proof (cases "0 \<le> e")
    case True
    then have "list_all is_ascii_digit (show_positional D e)"
      using show_nat_digits [of D] by (auto simp: show_positional_def list.pred_set)
    then show ?thesis using True
      by (simp add: round_decimal_text_def disp split_point_digits(2) rounded_display_def s)
  next
    case False
    then have neg: "e < 0" by simp
    let ?k = "nat (- e)"
    obtain p where p: "show_positional D e = take (length p - ?k) p @ CHR ''.'' # drop (length p - ?k) p"
        "list_all is_ascii_digit p" "digits_value p = D" "?k < length p"
      using show_positional_fraction [OF neg] by metis
    have "list_all is_ascii_digit (take (length p - ?k) p)"
      using p(2) by (auto simp: list_all_iff dest: in_set_takeD)
    then have split: "split_point (show_positional D e) = (take (length p - ?k) p, drop (length p - ?k) p)"
      unfolding p(1) by (rule split_point_digits(1))
    have flen: "length (drop (length p - ?k) p) = ?k" using p(4) by simp
    show ?thesis
    proof (cases "?k \<le> digits")
      case True
      then have "- e \<le> int digits" using neg by linarith
      then show ?thesis using True
        unfolding round_decimal_text_def disp split prod.case flen by (simp add: rounded_display_def s)
    next
      case False
      then have lt: "digits < ?k" by simp
      define kept where "kept = take (length p - ?k) p @ take digits (drop (length p - ?k) p)"
      define up where "up \<longleftrightarrow> byte (CHR ''5'') \<le> byte (drop (length p - ?k) p ! digits)"
      define q where "q = (if up then carry kept (length kept) else kept)"
      have kd: "list_all is_ascii_digit kept"
        using p(2) by (auto simp: kept_def list_all_iff dest: in_set_takeD in_set_dropD)
      have j: "0 < ?k - digits" using lt by simp
      note q = rounded_digits [OF kd kept_places(2) [OF p(2-4) lt, folded kept_def] j
          kept_places(1) [OF p(2-4) lt, folded up_def] q_def]
      have "digits < length kept" using p(4) lt by (simp add: kept_def)
      then have qlen: "digits < length q" using q(2) by linarith
      let ?m = "round_decimal (digits_value q) (- int digits)"
      have m: "?m < 2 ^ 63" using round_decimal_bound inf_mag_less by (rule order.strict_trans1)
      have "f64_eq (f64_make False ?m) f64_zero \<longleftrightarrow> ?m = 0"
        using f64_make_parts [OF m] round_decimal_bound [of "digits_value q" "- int digits"]
        by (auto simp: f64_eq_iff f64_is_nan_def intro: f64_eqI) (metis f64_zero_parts(2))
      then have sgn: "(if f64_eq (f64_make False ?m) f64_zero then f64_zero
          else f64_copysign (f64_make False ?m) v) = (if ?m = 0 then f64_zero else f64_make (f64_sign v) ?m)"
        using f64_make_parts [OF m] by (simp add: f64_copysign_def)
      have "round_decimal_text v digits = Some (if ?m = 0 then f64_zero else f64_make (f64_sign v) ?m)"
      proof -
        have "round_decimal_text v digits = map_option
            (\<lambda>magnitude. if f64_eq magnitude f64_zero then f64_zero else f64_copysign magnitude v)
            (parse_f64 (take (length q - digits) q @
              (if drop (length q - digits) q = [] then [] else CHR ''.'' # drop (length q - digits) q)))"
          unfolding round_decimal_text_def disp split Let_def prod.case flen q_def up_def kept_def
          using lt by (simp only: not_le [symmetric] if_False)
        then show ?thesis unfolding parse_kept [OF q(1) qlen] option.map sgn .
      qed
      moreover have "\<not> - e \<le> int digits" using lt by linarith
      ultimately show ?thesis by (simp add: rounded_display_def s Let_def q(3))
    qed
  qed
qed

text \<open>C20. \<open>ROUND\<close> rejects more than ten places, keeps an integral value, and otherwise answers
  the value the displayed decimal rounds to, half away from zero at the given place; the
  carry over the digit string and the final parse of the source compute exactly that, and
  the parse never fails.\<close>

theorem round_number_spec:
  assumes "number_ok n"
  shows "round_number n digits =
    Some (if 10 < digits then Inl NumTypeMismatch
          else if f64_is_integral (number_get n) then finite_result (number_get n)
          else finite_result (rounded_display (number_get n) digits))"
  using assms by (simp add: round_number_def round_decimal_text_value number_ok_def)

lemma round_number_spec_witness:
  "round_number (Number (F64 0x3FF0147AE147AE14)) 2 =
    Some (finite_result (rounded_display (F64 0x3FF0147AE147AE14) 2))"
proof -
  have mag: "f64_mag (F64 0x3FF0147AE147AE14) = 0x3FF0147AE147AE14"
    by (simp add: f64_mag_def)
  have "number_ok (Number (F64 0x3FF0147AE147AE14))"
    by (simp add: number_ok_def f64_is_finite_def f64_is_zero_def mag inf_mag_def)
  moreover have "\<not> f64_is_integral (F64 0x3FF0147AE147AE14)"
    by (simp add: f64_is_integral_def mag mag_units_def)
  ultimately show ?thesis
    using round_number_spec [of "Number (F64 0x3FF0147AE147AE14)" 2] by simp
qed

end
