(* ===== verification/Evaluation.thy ===== *)
theory Evaluation
  imports Criteria Arithmetic Addresses "HOL-Library.FSet"
begin

text \<open>
  The evaluator of one formula, \<open>formula-engine/src/evaluation.rs\<close>: the column cache of a
  calculation pass, the criterion index, the memo of conditional aggregates, and the
  recursive evaluation that reads and fills them.  The cache is threaded as a state; the
  \<open>expect\<close>, the index of a map and the \<open>unreachable!\<close> of the source are the outcome
  \<open>Panics\<close>.  A \<open>BTreeMap\<close> of the cache is only looked up and inserted into, so it is a map;
  a \<open>BTreeSet\<close> is a finite set.  The forced full walk is a test-only switch and is off.
\<close>

section \<open>Failures\<close>

datatype complexity_error = NodeLimit | DepthLimit | CanonicalLengthLimit

datatype reference_failure = RefMissing | RefNonNumeric

datatype column_failure = ColMissingSchema | ColMissingField | ColNonNumeric

datatype calculation_failure =
    FailTypeMismatch
  | FailInvalidExpression complexity_error
  | FailInvalidReferences "(field_ref, reference_failure) btree"
  | FailCycle "field_ref fset"
  | FailDependencies "field_ref fset"
  | FailDivisionByZero
  | FailEmptyAggregate
  | FailNonFinite
  | FailInvalidColumn "(column_ref, column_failure) btree"

type_synonym failure_map = "(field_ref, calculation_failure) btree"
type_synonym value_map = "(field_ref, number) btree"

datatype stop = Fails calculation_failure | Panics

definition number_result :: "f64 \<Rightarrow> calculation_failure + number" where
  "number_result v = map_err (\<lambda>e. FailNonFinite) (finite_result v)"

definition missing_value :: "field_ref \<Rightarrow> calculation_failure" where
  "missing_value r = FailDependencies {|r|}"

section \<open>The column cache\<close>

record column_values =
  cv_first_failed :: "field_ref option"
  cv_first_missing :: "field_ref option"
  cv_present :: "f64 list"
  cv_total :: f64

record criterion_index =
  ci_entries :: "criterion_key \<rightharpoonup> entity_id list"
  ci_scan :: bool

datatype aggregate_key = AKCount | AKSum column_ref | AKAverage column_ref

fun aggregate_key_of :: "conditional_aggregate \<Rightarrow> aggregate_key" where
  "aggregate_key_of CondCount = AKCount"
| "aggregate_key_of (CondSum c) = AKSum c"
| "aggregate_key_of (CondAverage c) = AKAverage c"

record conditional_key =
  ck_aggregate :: aggregate_key
  ck_criteria :: "(column_ref \<times> criterion_test_key) list"

record column_cache =
  cc_columns :: "column_ref \<rightharpoonup> column_values"
  cc_indexes :: "column_ref \<rightharpoonup> criterion_index"
  cc_conditionals :: "conditional_key \<rightharpoonup> calculation_failure + number"

definition cache_empty :: column_cache where
  "cache_empty = \<lparr>cc_columns = Map.empty, cc_indexes = Map.empty, cc_conditionals = Map.empty\<rparr>"

text \<open>The non-blank cells of a column, in entity order: \<open>column_cells\<close> of \<open>lib.rs\<close>.\<close>

definition column_cells :: "document \<Rightarrow> column_ref \<Rightarrow> field_ref list" where
  "column_cells d col =
     map (\<lambda>(i, e). FieldRef i (cr_field col))
       (filter (\<lambda>(i, e). ent_schema e = cr_schema col \<and> bt_contains (ent_fields e) (cr_field col))
         (bt_entries (doc_entities d)))"

text \<open>One cell of the loop that fills a column's entry.\<close>

definition read_cell ::
    "value_map \<Rightarrow> failure_map \<Rightarrow> column_values \<Rightarrow> field_ref \<Rightarrow> column_values" where
  "read_cell values_now failures cv r =
     (let cv = (if cv_first_failed cv = None \<and> bt_contains failures r
                then cv\<lparr>cv_first_failed := Some r\<rparr> else cv) in
      case bt_get values_now r of
        Some n \<Rightarrow> cv\<lparr>cv_present := cv_present cv @ [number_get n],
                     cv_total := f64_add (cv_total cv) (number_get n)\<rparr>
      | None \<Rightarrow> if cv_first_missing cv = None then cv\<lparr>cv_first_missing := Some r\<rparr> else cv)"

definition read_column ::
    "document \<Rightarrow> value_map \<Rightarrow> failure_map \<Rightarrow> column_ref \<Rightarrow> column_values" where
  "read_column d values_now failures col =
     foldl (read_cell values_now failures)
       \<lparr>cv_first_failed = None, cv_first_missing = None, cv_present = [], cv_total = f64_zero\<rparr>
       (column_cells d col)"

definition cache_fill ::
    "document \<Rightarrow> value_map \<Rightarrow> failure_map \<Rightarrow> column_ref \<Rightarrow> column_cache \<Rightarrow> column_cache" where
  "cache_fill d values_now failures col cache =
     (if cc_columns cache col \<noteq> None then cache
      else cache\<lparr>cc_columns := (cc_columns cache)(col \<mapsto> read_column d values_now failures col)\<rparr>)"

text \<open>\<open>entry\<close>: \<open>None\<close> is the panic of its \<open>expect\<close>.\<close>

definition cache_entry :: "column_cache \<Rightarrow> column_ref \<Rightarrow> column_values option" where
  "cache_entry cache col = cc_columns cache col"

subsection \<open>The criterion index\<close>

definition file_under :: "entity_id \<Rightarrow> criterion_key \<Rightarrow> criterion_index \<Rightarrow> criterion_index" where
  "file_under i key ix = ix\<lparr>ci_entries := (ci_entries ix)(key \<mapsto>
     (case ci_entries ix key of None \<Rightarrow> [i] | Some ids \<Rightarrow> ids @ [i]))\<rparr>"

text \<open>The cell of one row, or \<open>None\<close> when its match cannot be decided from a key.\<close>

definition index_cell ::
    "value_map \<Rightarrow> entity_id \<Rightarrow> field_id \<Rightarrow> val \<Rightarrow> criterion_cell option" where
  "index_cell values_now i field v =
     (case v of
        VNumber n \<Rightarrow> map_option (\<lambda>x. CellNumber (number_get x)) (bt_get values_now (FieldRef i field))
      | VFormula x \<Rightarrow> map_option (\<lambda>x. CellNumber (number_get x)) (bt_get values_now (FieldRef i field))
      | VText s \<Rightarrow> Some (CellText s)
      | VBoolean b \<Rightarrow> Some (CellBoolean b)
      | VDate t \<Rightarrow> Some (CellDate t)
      | VReference r \<Rightarrow> None)"

definition index_row ::
    "(nat \<Rightarrow> nat list) \<Rightarrow> value_map \<Rightarrow> column_ref \<Rightarrow> criterion_index \<Rightarrow> entity_id \<times> entity
     \<Rightarrow> criterion_index" where
  "index_row lower values_now col ix row =
     (case row of (i, e) \<Rightarrow>
      if ent_schema e \<noteq> cr_schema col then ix
      else case bt_get (ent_fields e) (cr_field col) of
        None \<Rightarrow> ix
      | Some v \<Rightarrow>
          (case index_cell values_now i (cr_field col) v of
             None \<Rightarrow> ix\<lparr>ci_scan := True\<rparr>
           | Some cell \<Rightarrow> foldl (\<lambda>ix key. file_under i key ix) ix (cell_keys lower cell)))"

definition build_index ::
    "(nat \<Rightarrow> nat list) \<Rightarrow> document \<Rightarrow> value_map \<Rightarrow> column_ref \<Rightarrow> criterion_index" where
  "build_index lower d values_now col =
     foldl (index_row lower values_now col) \<lparr>ci_entries = Map.empty, ci_scan = False\<rparr>
       (bt_entries (doc_entities d))"

definition cache_index ::
    "(nat \<Rightarrow> nat list) \<Rightarrow> document \<Rightarrow> value_map \<Rightarrow> column_ref \<Rightarrow> column_cache \<Rightarrow> column_cache" where
  "cache_index lower d values_now col cache =
     (if cc_indexes cache col \<noteq> None then cache
      else cache\<lparr>cc_indexes := (cc_indexes cache)(col \<mapsto> build_index lower d values_now col)\<rparr>)"

text \<open>Two id lists in order, merged; an id of both would be listed twice.\<close>

fun merge_ids :: "entity_id list \<Rightarrow> entity_id list \<Rightarrow> entity_id list" where
  "merge_ids [] right = right"
| "merge_ids left [] = left"
| "merge_ids (l # left) (r # right) =
     (if l < r then l # merge_ids left (r # right)
      else if r < l then r # merge_ids (l # left) right
      else l # r # merge_ids left right)"

text \<open>
  The entities the first criterion cannot reject: \<open>None\<close> is a panic, \<open>Some None\<close> the column
  that needs the full walk.
\<close>

definition candidates ::
    "column_cache \<Rightarrow> column_ref \<Rightarrow> criterion_key list \<Rightarrow> entity_id list option option" where
  "candidates cache col keys =
     (case cc_indexes cache col of
        None \<Rightarrow> None
      | Some ix \<Rightarrow>
          if ci_scan ix then Some None
          else (case List.map_filter (ci_entries ix) keys of
                  [] \<Rightarrow> Some (Some [])
                | [only] \<Rightarrow> Some (Some only)
                | [left, right] \<Rightarrow> Some (Some (merge_ids left right))
                | _ \<Rightarrow> None))"

section \<open>Reading the document\<close>

text \<open>What an \<open>Evaluation\<close> borrows for one formula.\<close>

record evaluation =
  ev_lower :: "nat \<Rightarrow> nat list"
  ev_document :: document
  ev_owner :: field_ref
  ev_values :: value_map

abbreviation own_row :: "evaluation \<Rightarrow> field_id \<Rightarrow> field_ref" where
  "own_row ev field \<equiv> FieldRef (fr_entity (ev_owner ev)) field"

text \<open>A blank cell of a declared optional number field reads as the default number, zero.\<close>

definition reads_blank :: "document \<Rightarrow> field_ref \<Rightarrow> bool" where
  "reads_blank d r =
     (case bt_get (doc_entities d) (fr_entity r) of
        None \<Rightarrow> False
      | Some e \<Rightarrow>
          \<not> bt_contains (ent_fields e) (fr_field r) \<and>
          (case bt_get (doc_schemas d) (ent_schema e) of
             None \<Rightarrow> False
           | Some s \<Rightarrow>
               (case bt_get (sch_fields s) (fr_field r) of
                  None \<Rightarrow> False
                | Some f \<Rightarrow> fd_type f = TNumber \<and> \<not> fd_required f)))"

definition read_reference :: "evaluation \<Rightarrow> field_ref \<Rightarrow> calculation_failure + number" where
  "read_reference ev r =
     (case bt_get (ev_values ev) r of
        Some n \<Rightarrow> Inr n
      | None \<Rightarrow> if reads_blank (ev_document ev) r then Inr (Number f64_zero)
                else Inl (missing_value r))"

definition criterion_cell ::
    "evaluation \<Rightarrow> entity \<Rightarrow> field_id \<Rightarrow> calculation_failure + criterion_cell option" where
  "criterion_cell ev e field =
     (let number_cell = (let r = FieldRef (ent_id e) field in
            case bt_get (ev_values ev) r of
              None \<Rightarrow> Inl (missing_value r)
            | Some n \<Rightarrow> Inr (Some (CellNumber (number_get n)))) in
      case bt_get (ent_fields e) field of
        None \<Rightarrow> Inr None
      | Some (VNumber n) \<Rightarrow> number_cell
      | Some (VFormula x) \<Rightarrow> number_cell
      | Some (VText s) \<Rightarrow> Inr (Some (CellText s))
      | Some (VBoolean b) \<Rightarrow> Inr (Some (CellBoolean b))
      | Some (VDate t) \<Rightarrow> Inr (Some (CellDate t))
      | Some (VReference r) \<Rightarrow> Inl FailTypeMismatch)"

definition reference_criterion_test ::
    "evaluation \<Rightarrow> field_ref \<Rightarrow> calculation_failure + criterion_test" where
  "reference_criterion_test ev r =
     (let number_test = (case bt_get (ev_values ev) r of
            None \<Rightarrow> Inl (missing_value r)
          | Some n \<Rightarrow> Inr (equal_number (number_get n))) in
      case (case bt_get (doc_entities (ev_document ev)) (fr_entity r) of
              None \<Rightarrow> None | Some e \<Rightarrow> bt_get (ent_fields e) (fr_field r)) of
        None \<Rightarrow> Inr (equal_number f64_zero)
      | Some (VNumber n) \<Rightarrow> number_test
      | Some (VFormula x) \<Rightarrow> number_test
      | Some (VText s) \<Rightarrow> map_err (\<lambda>e. FailTypeMismatch) (criterion_parse s)
      | Some (VBoolean b) \<Rightarrow> Inr (equal_boolean b)
      | Some (VDate t) \<Rightarrow> Inr (equal_date t)
      | Some (VReference i) \<Rightarrow> Inl FailTypeMismatch)"

section \<open>Conditional aggregates\<close>

definition conditional_key ::
    "conditional_aggregate \<Rightarrow> column_criterion list \<Rightarrow> criterion_test list \<Rightarrow> conditional_key" where
  "conditional_key a criteria tests =
     \<lparr>ck_aggregate = aggregate_key_of a,
      ck_criteria = zip (map cc_column criteria) (map test_key tests)\<rparr>"

text \<open>Whether one row satisfies every criterion; the first mismatch ends the loop.\<close>

fun row_matches ::
    "evaluation \<Rightarrow> (column_criterion \<times> criterion_test) list \<Rightarrow> entity
     \<Rightarrow> calculation_failure + bool" where
  "row_matches ev [] e = Inr True"
| "row_matches ev ((c, t) # rest) e =
     and_then (criterion_cell ev e (cr_field (cc_column c))) (\<lambda>cell.
       if criterion_matches (ev_lower ev) t cell then row_matches ev rest e else Inr False)"

text \<open>One row: the flag says it matched, the list is the collected values after it.\<close>

definition conditional_row ::
    "evaluation \<Rightarrow> conditional_aggregate \<Rightarrow> column_criterion list \<Rightarrow> criterion_test list \<Rightarrow> entity
     \<Rightarrow> f64 list \<Rightarrow> calculation_failure + bool \<times> f64 list" where
  "conditional_row ev a criteria tests e collected =
     and_then (row_matches ev (zip criteria tests) e) (\<lambda>matched.
       if \<not> matched then Inr (False, collected)
       else case value_column a of
         [] \<Rightarrow> Inr (True, collected)
       | col # _ \<Rightarrow>
           if bt_contains (ent_fields e) (cr_field col)
           then let r = FieldRef (ent_id e) (cr_field col) in
             (case bt_get (ev_values ev) r of
                None \<Rightarrow> Inl (missing_value r)
              | Some n \<Rightarrow> Inr (True, collected @ [number_get n]))
           else Inr (True, collected))"

fun conditional_rows ::
    "(entity \<Rightarrow> f64 list \<Rightarrow> calculation_failure + bool \<times> f64 list) \<Rightarrow> entity list
     \<Rightarrow> nat \<Rightarrow> f64 list \<Rightarrow> calculation_failure + nat \<times> f64 list" where
  "conditional_rows row [] matched collected = Inr (matched, collected)"
| "conditional_rows row (e # es) matched collected =
     and_then (row e collected) (\<lambda>(m, collected).
       conditional_rows row es (if m then matched + 1 else matched) collected)"

text \<open>\<open>Sum for f64\<close> adds to a negative zero.\<close>

definition f64_sum :: "f64 list \<Rightarrow> f64" where
  "f64_sum vs = foldl f64_add (f64_make True 0) vs"

definition conditional_result ::
    "conditional_aggregate \<Rightarrow> nat \<times> f64 list \<Rightarrow> calculation_failure + number" where
  "conditional_result a r =
     (case r of (matched, collected) \<Rightarrow>
      case a of
        CondCount \<Rightarrow> number_result (value_count matched)
      | CondSum c \<Rightarrow> number_result (f64_sum collected)
      | CondAverage c \<Rightarrow>
          if collected = [] then Inl FailEmptyAggregate else number_result (average collected))"

definition schema_rows :: "document \<Rightarrow> schema_id \<Rightarrow> entity list" where
  "schema_rows d s = filter (\<lambda>e. ent_schema e = s) (bt_values (doc_entities d))"

text \<open>\<open>candidates.iter().map(|id| &document.entities[id])\<close>: \<open>None\<close> is the panic.\<close>

definition candidate_rows :: "document \<Rightarrow> entity_id list \<Rightarrow> entity list option" where
  "candidate_rows d ids = those (map (bt_get (doc_entities d)) ids)"

definition conditional_over ::
    "evaluation \<Rightarrow> conditional_aggregate \<Rightarrow> column_criterion list \<Rightarrow> criterion_test list
     \<Rightarrow> entity_id list option \<Rightarrow> stop + number" where
  "conditional_over ev a criteria tests cands =
     (case (case cands of
              Some ids \<Rightarrow> candidate_rows (ev_document ev) ids
            | None \<Rightarrow> Some (schema_rows (ev_document ev) (cr_schema (cc_column (hd criteria))))) of
        None \<Rightarrow> Inl Panics
      | Some rows \<Rightarrow>
          map_err Fails (and_then
            (conditional_rows (conditional_row ev a criteria tests) rows 0 [])
            (conditional_result a)))"

text \<open>
  The memoised aggregate once its tests are resolved: the memo, then the index of the first
  criterion column when its test has keys, then the walk, then the memo entry.
\<close>

definition conditional_lookup ::
    "evaluation \<Rightarrow> conditional_aggregate \<Rightarrow> column_criterion list \<Rightarrow> criterion_test list
     \<Rightarrow> column_cache \<Rightarrow> (stop + number) \<times> column_cache" where
  "conditional_lookup ev a criteria tests cache =
     (let key = conditional_key a criteria tests in
      case cc_conditionals cache key of
        Some r \<Rightarrow> (map_err Fails r, cache)
      | None \<Rightarrow>
          (let col = cc_column (hd criteria);
               keys = test_keys (ev_lower ev) (hd tests);
               cache = (if keys = None then cache
                        else cache_index (ev_lower ev) (ev_document ev) (ev_values ev) col cache) in
           case (case keys of None \<Rightarrow> Some None | Some ks \<Rightarrow> candidates cache col ks) of
             None \<Rightarrow> (Inl Panics, cache)
           | Some cands \<Rightarrow>
               (case conditional_over ev a criteria tests cands of
                  Inl Panics \<Rightarrow> (Inl Panics, cache)
                | Inl (Fails f) \<Rightarrow>
                    (Inl (Fails f), cache\<lparr>cc_conditionals := (cc_conditionals cache)(key \<mapsto> Inl f)\<rparr>)
                | Inr n \<Rightarrow>
                    (Inr n, cache\<lparr>cc_conditionals := (cc_conditionals cache)(key \<mapsto> Inr n)\<rparr>))))"

section \<open>Evaluation\<close>

text \<open>A step reads and fills the cache; the \<open>?\<close> operator keeps the cache of the failing step.\<close>

type_synonym 'a eval = "column_cache \<Rightarrow> (stop + 'a) \<times> column_cache"

definition ev_return :: "'a \<Rightarrow> 'a eval" where
  "ev_return x cache = (Inr x, cache)"

definition ev_lift :: "calculation_failure + 'a \<Rightarrow> 'a eval" where
  "ev_lift r cache = (map_err Fails r, cache)"

definition ev_bind :: "'a eval \<Rightarrow> ('a \<Rightarrow> 'b eval) \<Rightarrow> 'b eval" where
  "ev_bind m f cache = (case m cache of (Inl s, cache) \<Rightarrow> (Inl s, cache) | (Inr x, cache) \<Rightarrow> f x cache)"

lemma ev_bind_cong [fundef_cong]:
  "c = d \<Longrightarrow> m d = n d \<Longrightarrow> (\<And>x c'. n d = (Inr x, c') \<Longrightarrow> f x c' = g x c') \<Longrightarrow>
   ev_bind m f c = ev_bind n g d"
  by (auto simp: ev_bind_def split: prod.split sum.split)

text \<open>The entry of a column, or a panic.\<close>

definition ev_entry :: "column_ref \<Rightarrow> column_values eval" where
  "ev_entry col cache =
     ((case cache_entry cache col of None \<Rightarrow> Inl Panics | Some cv \<Rightarrow> Inr cv), cache)"

definition total_of :: "column_values \<Rightarrow> calculation_failure + number" where
  "total_of cv =
     (case cv_first_missing cv of
        Some r \<Rightarrow> Inl (missing_value r)
      | None \<Rightarrow> number_result (cv_total cv))"

definition aggregate_of :: "aggregate_function \<Rightarrow> column_values \<Rightarrow> calculation_failure + number" where
  "aggregate_of g cv =
     (case cv_first_missing cv of
        Some r \<Rightarrow> Inl (missing_value r)
      | None \<Rightarrow>
          if cv_present cv = [] \<and> g \<noteq> AggCount then Inl FailEmptyAggregate
          else number_result
            (case g of
               AggAverage \<Rightarrow> average (cv_present cv)
             | AggCount \<Rightarrow> value_count (length (cv_present cv))
             | AggMinimum \<Rightarrow> foldl f64_min (f64_infinity False) (cv_present cv)
             | AggMaximum \<Rightarrow> foldl f64_max (f64_infinity True) (cv_present cv)))"

definition round_failure :: "numeric_failure \<Rightarrow> calculation_failure" where
  "round_failure e = (case e of NumNotFinite \<Rightarrow> FailNonFinite | NumTypeMismatch \<Rightarrow> FailTypeMismatch)"

definition ev_round :: "8 word \<Rightarrow> number \<Rightarrow> number eval" where
  "ev_round digits n cache =
     (case round_number n (unat digits) of
        None \<Rightarrow> (Inl Panics, cache)
      | Some r \<Rightarrow> ev_lift (map_err round_failure r) cache)"

definition divide :: "f64 \<Rightarrow> f64 \<Rightarrow> calculation_failure + number" where
  "divide l r = (if f64_eq r f64_zero then Inl FailDivisionByZero else number_result (f64_div l r))"

definition compare_numbers :: "comparison_operator \<Rightarrow> number \<Rightarrow> number \<Rightarrow> bool" where
  "compare_numbers p l r =
     (case p of
        CmpEqual \<Rightarrow> l = r
      | CmpNotEqual \<Rightarrow> l \<noteq> r
      | CmpLess \<Rightarrow> l < r
      | CmpLessOrEqual \<Rightarrow> l \<le> r
      | CmpGreater \<Rightarrow> r < l
      | CmpGreaterOrEqual \<Rightarrow> r \<le> l)"

definition is_blank :: "evaluation \<Rightarrow> expression \<Rightarrow> calculation_failure + bool" where
  "is_blank ev v =
     (let blank = (\<lambda>r. case bt_get (doc_entities (ev_document ev)) (fr_entity r) of
            None \<Rightarrow> False
          | Some e \<Rightarrow> \<not> bt_contains (ent_fields e) (fr_field r)) in
      case v of
        EReference r \<Rightarrow> Inr (blank r)
      | ESameRowReference f \<Rightarrow> Inr (blank (own_row ev f))
      | _ \<Rightarrow> Inl FailTypeMismatch)"

fun number :: "evaluation \<Rightarrow> expression \<Rightarrow> number eval"
  and condition :: "evaluation \<Rightarrow> expression \<Rightarrow> bool eval"
  and conditions :: "evaluation \<Rightarrow> bool \<Rightarrow> expression list \<Rightarrow> bool \<Rightarrow> bool eval"
  and criterion_test_of :: "evaluation \<Rightarrow> column_criterion \<Rightarrow> criterion_test eval"
  and criterion_tests :: "evaluation \<Rightarrow> column_criterion list \<Rightarrow> criterion_test list eval" where
  "number ev (ENumber n) cache = ev_return n cache"
| "number ev (EReference r) cache = ev_lift (read_reference ev r) cache"
| "number ev (ESameRowReference f) cache = ev_lift (read_reference ev (own_row ev f)) cache"
| "number ev (EIf c t e) cache =
     ev_bind (condition ev c) (\<lambda>b. if b then number ev t else number ev e) cache"
| "number ev (EColumnTotal col) cache = ev_bind (ev_entry col) (\<lambda>cv. ev_lift (total_of cv)) cache"
| "number ev (EColumnAggregate g col) cache =
     ev_bind (ev_entry col) (\<lambda>cv. ev_lift (aggregate_of g cv)) cache"
| "number ev (EColumnConditional a criteria) cache =
     (if criteria = [] then ev_lift (Inl FailTypeMismatch) cache
      else ev_bind (criterion_tests ev criteria)
        (\<lambda>tests. conditional_lookup ev a criteria tests) cache)"
| "number ev (ERound v digits) cache = ev_bind (number ev v) (ev_round digits) cache"
| "number ev (EAdd l r) cache = ev_bind (number ev l) (\<lambda>x. ev_bind (number ev r)
     (\<lambda>y. ev_lift (number_result (f64_add (number_get x) (number_get y))))) cache"
| "number ev (ESubtract l r) cache = ev_bind (number ev l) (\<lambda>x. ev_bind (number ev r)
     (\<lambda>y. ev_lift (number_result (f64_sub (number_get x) (number_get y))))) cache"
| "number ev (EMultiply l r) cache = ev_bind (number ev l) (\<lambda>x. ev_bind (number ev r)
     (\<lambda>y. ev_lift (number_result (f64_mul (number_get x) (number_get y))))) cache"
| "number ev (EDivide l r) cache = ev_bind (number ev l) (\<lambda>x. ev_bind (number ev r)
     (\<lambda>y. ev_lift (divide (number_get x) (number_get y)))) cache"
| "number ev (EMinimum l r) cache = ev_bind (number ev l) (\<lambda>x. ev_bind (number ev r)
     (\<lambda>y. ev_lift (number_result (f64_min (number_get x) (number_get y))))) cache"
| "number ev (EMaximum l r) cache = ev_bind (number ev l) (\<lambda>x. ev_bind (number ev r)
     (\<lambda>y. ev_lift (number_result (f64_max (number_get x) (number_get y))))) cache"
| "number ev e cache = ev_lift (Inl FailTypeMismatch) cache"
| "condition ev (ECompare p l r) cache = ev_bind (number ev l) (\<lambda>x. ev_bind (number ev r)
     (\<lambda>y. ev_return (compare_numbers p x y))) cache"
| "condition ev (EAnd xs) cache = conditions ev True xs True cache"
| "condition ev (EOr xs) cache = conditions ev False xs False cache"
| "condition ev (ENot v) cache = ev_bind (condition ev v) (\<lambda>b. ev_return (\<not> b)) cache"
| "condition ev (EIsBlank v) cache = ev_lift (is_blank ev v) cache"
| "condition ev e cache = ev_lift (Inl FailTypeMismatch) cache"
| "conditions ev both [] result cache = ev_return result cache"
| "conditions ev both (x # xs) result cache =
     ev_bind (condition ev x)
       (\<lambda>b. conditions ev both xs (if both then result \<and> b else result \<or> b)) cache"
| "criterion_test_of ev (ColumnCriterion col p v) cache =
     (case v of
        None \<Rightarrow>
          if p = CmpEqual \<or> p = CmpNotEqual then ev_return (blank_test p) cache
          else ev_lift (Inl FailTypeMismatch) cache
      | Some x \<Rightarrow>
          (case x of
             ENumber n \<Rightarrow> ev_return (number_test p (number_get n)) cache
           | EReference r \<Rightarrow>
               if p = CmpEqual then ev_lift (reference_criterion_test ev r) cache
               else ev_lift (Inl FailTypeMismatch) cache
           | ESameRowReference f \<Rightarrow>
               if p = CmpEqual then ev_lift (reference_criterion_test ev (own_row ev f)) cache
               else ev_lift (Inl FailTypeMismatch) cache
           | _ \<Rightarrow>
               if p = CmpEqual
               then ev_bind (number ev x) (\<lambda>n. ev_return (equal_number (number_get n))) cache
               else ev_lift (Inl FailTypeMismatch) cache))"
| "criterion_tests ev [] cache = ev_return [] cache"
| "criterion_tests ev (c # cs) cache =
     ev_bind (criterion_test_of ev c)
       (\<lambda>t. ev_bind (criterion_tests ev cs) (\<lambda>ts. ev_return (t # ts))) cache"

section \<open>The failed references a formula reads\<close>

definition insert_failed :: "failure_map \<Rightarrow> field_ref \<Rightarrow> field_ref fset \<Rightarrow> field_ref fset" where
  "insert_failed failures r refs = (if bt_contains failures r then finsert r refs else refs)"

text \<open>\<open>references.extend(self.columns.entry(column).first_failed)\<close>\<close>

definition extend_failed ::
    "column_cache \<Rightarrow> column_ref \<Rightarrow> field_ref fset \<Rightarrow> field_ref fset option" where
  "extend_failed cache col refs =
     map_option (\<lambda>cv. case cv_first_failed cv of None \<Rightarrow> refs | Some r \<Rightarrow> finsert r refs)
       (cache_entry cache col)"

fun extend_all ::
    "column_cache \<Rightarrow> column_ref list \<Rightarrow> field_ref fset \<Rightarrow> field_ref fset option" where
  "extend_all cache [] refs = Some refs"
| "extend_all cache (col # cols) refs =
     (case extend_failed cache col refs of None \<Rightarrow> None | Some refs \<Rightarrow> extend_all cache cols refs)"

text \<open>The loop over the criteria: its references and the operands it leaves to the worklist.\<close>

fun criteria_references ::
    "evaluation \<Rightarrow> failure_map \<Rightarrow> column_cache \<Rightarrow> column_criterion list \<Rightarrow> field_ref fset
     \<Rightarrow> expression list \<Rightarrow> (field_ref fset \<times> expression list) option" where
  "criteria_references ev failures cache [] refs pending = Some (refs, pending)"
| "criteria_references ev failures cache (c # cs) refs pending =
     (case extend_failed cache (cc_column c) refs of
        None \<Rightarrow> None
      | Some refs \<Rightarrow>
          (case cc_value c of
             Some (EReference r) \<Rightarrow>
               criteria_references ev failures cache cs (insert_failed failures r refs) pending
           | Some (ESameRowReference f) \<Rightarrow>
               criteria_references ev failures cache cs (insert_failed failures (own_row ev f) refs) pending
           | Some x \<Rightarrow> criteria_references ev failures cache cs refs (x # pending)
           | None \<Rightarrow> criteria_references ev failures cache cs refs pending))"

lemma criteria_references_count:
  "criteria_references ev failures cache cs refs pending = Some (refs', pending') \<Longrightarrow>
   forest_count pending' \<le> forest_count (criterion_values cs) + forest_count pending"
proof (induction cs arbitrary: refs pending)
  case (Cons c cs)
  have v: "criterion_values (c # cs) =
      (case cc_value c of None \<Rightarrow> [] | Some x \<Rightarrow> [x]) @ criterion_values cs"
    by (simp add: criterion_values_def List.map_filter_def split: option.split)
  from Cons.prems obtain refs1 where e: "extend_failed cache (cc_column c) refs = Some refs1"
    by (auto split: option.splits)
  show ?case
  proof (cases "cc_value c")
    case None
    then show ?thesis using Cons e v by simp
  next
    case (Some x)
    show ?thesis
      using Cons.prems e Some
      by (cases x) (auto simp: v dest!: Cons.IH)
  qed
qed (simp add: criterion_values_def)

text \<open>
  The worklist: its top is the head, so the branch taken comes before the condition and the
  first child before the others.  \<open>None\<close> is a panic.
\<close>

function (sequential) failed_loop ::
    "evaluation \<Rightarrow> failure_map \<Rightarrow> expression list \<Rightarrow> field_ref fset \<Rightarrow> column_cache
     \<Rightarrow> field_ref fset option \<times> column_cache" where
  "failed_loop ev failures [] refs cache = (Some refs, cache)"
| "failed_loop ev failures (node # pending) refs cache =
     (case node of
        EReference r \<Rightarrow> failed_loop ev failures pending (insert_failed failures r refs) cache
      | ESameRowReference f \<Rightarrow>
          failed_loop ev failures pending (insert_failed failures (own_row ev f) refs) cache
      | EColumnTotal col \<Rightarrow>
          (case extend_failed cache col refs of
             None \<Rightarrow> (None, cache) | Some refs \<Rightarrow> failed_loop ev failures pending refs cache)
      | EColumnAggregate g col \<Rightarrow>
          (case extend_failed cache col refs of
             None \<Rightarrow> (None, cache) | Some refs \<Rightarrow> failed_loop ev failures pending refs cache)
      | EColumnConditional a criteria \<Rightarrow>
          (case extend_all cache (value_column a) refs of
             None \<Rightarrow> (None, cache)
           | Some refs \<Rightarrow>
               (case criteria_references ev failures cache criteria refs pending of
                  None \<Rightarrow> (None, cache)
                | Some (refs, pending) \<Rightarrow> failed_loop ev failures pending refs cache))
      | EIf c t e \<Rightarrow>
          (case condition ev c cache of
             (Inl Panics, cache) \<Rightarrow> (None, cache)
           | (Inl (Fails f), cache) \<Rightarrow> failed_loop ev failures (c # pending) refs cache
           | (Inr b, cache) \<Rightarrow>
               failed_loop ev failures ((if b then t else e) # c # pending) refs cache)
      | EIsBlank v \<Rightarrow> failed_loop ev failures pending refs cache
      | _ \<Rightarrow> failed_loop ev failures (children node @ pending) refs cache)"
  by pat_completeness auto
termination
  by (relation "measure (\<lambda>(ev, failures, pending, refs, cache). forest_count pending)")
    (auto simp: node_count_children dest!: criteria_references_count)

declare failed_loop.simps [simp del]

definition failed_required_references ::
    "evaluation \<Rightarrow> expression \<Rightarrow> failure_map \<Rightarrow> column_cache
     \<Rightarrow> field_ref fset option \<times> column_cache" where
  "failed_required_references ev e failures cache = failed_loop ev failures [e] {||} cache"

section \<open>One formula of a pass\<close>

text \<open>
  What the scheduling loop of \<open>lib.rs\<close> does with a ready formula: fill the columns it names,
  collect the failed references it reads, and evaluate it when there are none.
\<close>

definition fill_columns :: "evaluation \<Rightarrow> failure_map \<Rightarrow> expression \<Rightarrow> column_cache \<Rightarrow> column_cache" where
  "fill_columns ev failures e cache =
     foldl (\<lambda>cache col. cache_fill (ev_document ev) (ev_values ev) failures col cache) cache
       (ord_set (column_totals e))"

definition evaluate_formula :: "evaluation \<Rightarrow> failure_map \<Rightarrow> expression \<Rightarrow> number eval" where
  "evaluate_formula ev failures e cache =
     (case failed_required_references ev e failures (fill_columns ev failures e cache) of
        (None, cache) \<Rightarrow> (Inl Panics, cache)
      | (Some refs, cache) \<Rightarrow>
          if refs = {||} then number ev e cache else (Inl (Fails (FailDependencies refs)), cache))"

end
