(* ===== verification/CachedEvaluation.thy ===== *)
theory CachedEvaluation
  imports Evaluation
begin

text \<open>
  The cache of a calculation pass is invisible: the evaluator of \<open>Evaluation\<close>, with its column
  entries, its criterion indexes and its memo of conditional aggregates, computes what a
  plain evaluation computes that walks every row each time, and it does not panic.  The
  locale \<open>memo_table\<close> is the contract of the three tables of the cache.
\<close>

section \<open>Tables of remembered results\<close>

definition remembers :: "('k \<rightharpoonup> 'v) \<Rightarrow> ('k \<Rightarrow> 'v \<Rightarrow> bool) \<Rightarrow> bool" where
  "remembers m right \<longleftrightarrow> (\<forall>k v. m k = Some v \<longrightarrow> right k v)"

locale memo_table =
  fixes look :: "'c \<Rightarrow> 'k \<rightharpoonup> 'v" and store :: "'k \<Rightarrow> 'v \<Rightarrow> 'c \<Rightarrow> 'c"
  assumes look_store: "look (store k v c) = (look c)(k \<mapsto> v)"
begin

lemma remembers_store: "remembers (look c) right \<Longrightarrow> right k v \<Longrightarrow> remembers (look (store k v c)) right"
  by (auto simp: remembers_def look_store split: if_splits)

lemma known_store: "look (store k v c) a \<noteq> None \<longleftrightarrow> a = k \<or> look c a \<noteq> None"
  by (simp add: look_store)

text \<open>Filling a missing entry with the value it should have keeps the table right.\<close>

lemma remembers_fill:
  "remembers (look c) right \<Longrightarrow> right k v \<Longrightarrow>
   remembers (look (if look c k \<noteq> None then c else store k v c)) right"
  by (simp add: remembers_store)

end

interpretation column_table: memo_table cc_columns "\<lambda>k v c. c\<lparr>cc_columns := (cc_columns c)(k \<mapsto> v)\<rparr>"
  by unfold_locales simp

interpretation index_table: memo_table cc_indexes "\<lambda>k v c. c\<lparr>cc_indexes := (cc_indexes c)(k \<mapsto> v)\<rparr>"
  by unfold_locales simp

interpretation conditional_table: memo_table cc_conditionals
    "\<lambda>k v c. c\<lparr>cc_conditionals := (cc_conditionals c)(k \<mapsto> v)\<rparr>"
  by unfold_locales simp

lemma remembersD: "remembers m right \<Longrightarrow> m k = Some v \<Longrightarrow> right k v"
  by (simp add: remembers_def)

lemma remembers_mono: "remembers m right \<Longrightarrow> (\<And>k v. m k = Some v \<Longrightarrow> right k v \<Longrightarrow> right' k v) \<Longrightarrow> remembers m right'"
  by (simp add: remembers_def)

section \<open>The criterion index\<close>

definition ids_under :: "criterion_index \<Rightarrow> criterion_key \<Rightarrow> entity_id list" where
  "ids_under ix key = (case ci_entries ix key of None \<Rightarrow> [] | Some ids \<Rightarrow> ids)"

definition row_cell :: "value_map \<Rightarrow> column_ref \<Rightarrow> entity_id \<times> entity \<Rightarrow> criterion_cell option" where
  "row_cell V col row =
     (case bt_get (ent_fields (snd row)) (cr_field col) of
        None \<Rightarrow> None | Some v \<Rightarrow> index_cell V (fst row) (cr_field col) v)"

text \<open>The keys a row is filed under, and whether it forces the full walk.\<close>

definition row_keys ::
    "(nat \<Rightarrow> nat list) \<Rightarrow> value_map \<Rightarrow> column_ref \<Rightarrow> entity_id \<times> entity \<Rightarrow> criterion_key list" where
  "row_keys lower V col row =
     (if ent_schema (snd row) \<noteq> cr_schema col then []
      else case row_cell V col row of None \<Rightarrow> [] | Some cell \<Rightarrow> cell_keys lower cell)"

definition row_undecided :: "value_map \<Rightarrow> column_ref \<Rightarrow> entity_id \<times> entity \<Rightarrow> bool" where
  "row_undecided V col row \<longleftrightarrow>
     ent_schema (snd row) = cr_schema col \<and> bt_contains (ent_fields (snd row)) (cr_field col) \<and>
     row_cell V col row = None"

lemma cell_keys_distinct: "distinct (cell_keys lower cell)"
  by (auto simp: cell_keys_def number_key_def split: criterion_cell.split option.split)

lemma ids_under_file:
  "ids_under (file_under i key ix) k = ids_under ix k @ (if k = key then [i] else [])"
  by (simp add: ids_under_def file_under_def split: option.split)

lemma file_under_scan [simp]: "ci_scan (file_under i key ix) = ci_scan ix"
  by (simp add: file_under_def)

lemma ids_under_file_all:
  "distinct keys \<Longrightarrow>
   ids_under (foldl (\<lambda>ix key. file_under i key ix) ix keys) k =
     ids_under ix k @ (if k \<in> set keys then [i] else [])"
  by (induction keys arbitrary: ix) (auto simp: ids_under_file)

lemma scan_file_all [simp]:
  "ci_scan (foldl (\<lambda>ix key. file_under i key ix) ix keys) = ci_scan ix"
  by (induction keys arbitrary: ix) auto

lemma index_row_ids:
  "ids_under (index_row lower V col ix row) k =
     ids_under ix k @ (if k \<in> set (row_keys lower V col row) then [fst row] else [])"
  "ci_scan (index_row lower V col ix row) \<longleftrightarrow> ci_scan ix \<or> row_undecided V col row"
proof -
  have scan: "ids_under (ix\<lparr>ci_scan := True\<rparr>) k = ids_under ix k" by (simp add: ids_under_def)
  show "ids_under (index_row lower V col ix row) k =
      ids_under ix k @ (if k \<in> set (row_keys lower V col row) then [fst row] else [])"
    using ids_under_file_all [OF cell_keys_distinct, of "fst row" ix lower _ k] scan
    by (auto simp: index_row_def row_keys_def row_cell_def split: prod.split option.split)
  show "ci_scan (index_row lower V col ix row) \<longleftrightarrow> ci_scan ix \<or> row_undecided V col row"
    by (auto simp: index_row_def row_undecided_def row_cell_def split: prod.split option.split)
qed

lemma index_rows_ids:
  "ids_under (foldl (index_row lower V col) ix rows) k =
     ids_under ix k @ map fst (filter (\<lambda>row. k \<in> set (row_keys lower V col row)) rows)"
  "ci_scan (foldl (index_row lower V col) ix rows) \<longleftrightarrow>
     ci_scan ix \<or> (\<exists>row\<in>set rows. row_undecided V col row)"
  by (induction rows arbitrary: ix) (auto simp: index_row_ids)

lemma build_index_ids:
  "ids_under (build_index lower d V col) k =
     map fst (filter (\<lambda>row. k \<in> set (row_keys lower V col row)) (bt_entries (doc_entities d)))"
  "ci_scan (build_index lower d V col) \<longleftrightarrow>
     (\<exists>row\<in>set (bt_entries (doc_entities d)). row_undecided V col row)"
  unfolding build_index_def index_rows_ids by (simp_all add: ids_under_def)

text \<open>No key of one test shares a cell with another key of it.\<close>

lemma test_keys_shape:
  assumes "test_keys lower t = Some ks"
  obtains k where "ks = [k]"
  | k k' where "ks = [k, k']" "k \<noteq> k'"
      "\<And>cell. \<not> (k \<in> set (cell_keys lower cell) \<and> k' \<in> set (cell_keys lower cell))"
proof -
  have one: "\<not> (KeyBoolean b \<in> set (cell_keys lower cell) \<and> KeyText s \<in> set (cell_keys lower cell))"
    "\<not> (KeyDate x \<in> set (cell_keys lower cell) \<and> KeyText s \<in> set (cell_keys lower cell))" for b x s cell
    by (auto simp: cell_keys_def number_key_def split: criterion_cell.splits option.splits)
  show thesis
    using assms that one
    by (auto simp: test_keys_def text_keys_def split: if_splits operand.splits)
qed

lemma merge_ids_props:
  "sorted_wrt (<) l \<Longrightarrow> sorted_wrt (<) r \<Longrightarrow> set l \<inter> set r = {} \<Longrightarrow>
   sorted_wrt (<) (merge_ids l r) \<and> set (merge_ids l r) = set l \<union> set r"
  by (induction l r rule: merge_ids.induct) (auto simp: less_le_not_le)

subsection \<open>The candidates of a test\<close>

definition row_filed ::
    "(nat \<Rightarrow> nat list) \<Rightarrow> value_map \<Rightarrow> column_ref \<Rightarrow> criterion_key list \<Rightarrow> entity_id \<times> entity \<Rightarrow> bool" where
  "row_filed lower V col ks row \<longleftrightarrow> (\<exists>k\<in>set ks. k \<in> set (row_keys lower V col row))"

lemma map_filter_ids:
  "List.map_filter (ci_entries ix) [k] = (case ci_entries ix k of None \<Rightarrow> [] | Some l \<Rightarrow> [l])"
  "List.map_filter (ci_entries ix) [k, k'] =
     (case ci_entries ix k of None \<Rightarrow> [] | Some l \<Rightarrow> [l]) @
     (case ci_entries ix k' of None \<Rightarrow> [] | Some l \<Rightarrow> [l])"
  by (simp_all add: List.map_filter_def split: option.split)

lemma merge_ids_Nil [simp]: "merge_ids l [] = l"
  by (cases l) auto

lemma sorted_filter_keys:
  "sorted_wrt (<) (map fst (filter P (bt_entries m)))"
  by (simp add: sorted_wrt_map sorted_wrt_filter bt_entries_sorted [unfolded sorted_wrt_map])

lemma candidates_are_filed_rows:
  assumes keys: "test_keys lower t = Some ks"
    and ix: "cc_indexes cache col = Some (build_index lower d V col)"
  shows "candidates cache col ks =
    Some (if \<exists>row\<in>set (bt_entries (doc_entities d)). row_undecided V col row then None
          else Some (map fst (filter (row_filed lower V col ks) (bt_entries (doc_entities d)))))"
proof -
  let ?ix = "build_index lower d V col"
  let ?ids = "\<lambda>P. map fst (filter P (bt_entries (doc_entities d)))"
  show ?thesis
  proof (cases "ci_scan ?ix")
    case True
    then show ?thesis using ix build_index_ids(2) [of lower d V col] by (simp add: candidates_def)
  next
    case False
    have no: "\<not> (\<exists>row\<in>set (bt_entries (doc_entities d)). row_undecided V col row)"
      using False by (simp add: build_index_ids)
    have "(case List.map_filter (ci_entries ?ix) ks of
             [] \<Rightarrow> Some (Some []) | [only] \<Rightarrow> Some (Some only)
           | [left, right] \<Rightarrow> Some (Some (merge_ids left right)) | _ \<Rightarrow> None)
        = Some (Some (?ids (row_filed lower V col ks)))"
    proof (rule test_keys_shape [OF keys])
      fix k
      assume ks: "ks = [k]"
      have "row_filed lower V col ks = (\<lambda>row. k \<in> set (row_keys lower V col row))"
        by (simp add: ks row_filed_def fun_eq_iff)
      then show ?thesis
        using build_index_ids(1) [of lower d V col k]
        unfolding ks map_filter_ids by (cases "ci_entries ?ix k") (simp_all add: ids_under_def)
    next
      fix k k'
      assume ks: "ks = [k, k']"
        and apart: "\<And>cell. \<not> (k \<in> set (cell_keys lower cell) \<and> k' \<in> set (cell_keys lower cell))"
      let ?l = "ids_under ?ix k" and ?r = "ids_under ?ix k'"
      have "set ?l \<inter> set ?r = {}"
      proof -
        have "k \<in> set (row_keys lower V col row) \<Longrightarrow> k' \<in> set (row_keys lower V col row) \<Longrightarrow> False" for row
          using apart
          by (cases "row_cell V col row") (auto simp: row_keys_def split: if_splits)
        moreover have "a = b" if "(i, a) \<in> set (bt_entries (doc_entities d))"
            "(i, b) \<in> set (bt_entries (doc_entities d))" for i a b
          using that by (simp add: bt_entries_iff)
        ultimately show ?thesis by (force simp: build_index_ids)
      qed
      then have "sorted_wrt (<) (merge_ids ?l ?r) \<and> set (merge_ids ?l ?r) = set ?l \<union> set ?r"
        by (intro merge_ids_props) (simp_all add: build_index_ids sorted_filter_keys)
      moreover have "set ?l \<union> set ?r = set (?ids (row_filed lower V col ks))"
        by (auto simp: build_index_ids row_filed_def ks)
      ultimately have m: "merge_ids ?l ?r = ?ids (row_filed lower V col ks)"
        using sorted_filter_keys
        by (metis sorted_distinct_set_unique strict_sorted_distinct)
      show ?thesis
        using m unfolding ks map_filter_ids
        by (cases "ci_entries ?ix k"; cases "ci_entries ?ix k'") (simp_all add: ids_under_def)
    qed
    then show ?thesis using ix no False by (simp add: candidates_def)
  qed
qed

lemma those_map_get:
  "set rows \<subseteq> set (bt_entries m) \<Longrightarrow> those (map (bt_get m) (map fst rows)) = Some (map snd rows)"
  by (induction rows) (auto simp: bt_entries_iff)

lemma candidate_rows_filed:
  "candidate_rows d (map fst (filter P (bt_entries (doc_entities d)))) =
     Some (map snd (filter P (bt_entries (doc_entities d))))"
  unfolding candidate_rows_def by (rule those_map_get) auto

section \<open>The plain evaluation\<close>

text \<open>What a formula means: every column is read and every row walked each time.\<close>

definition column_now :: "evaluation \<Rightarrow> column_ref \<Rightarrow> column_values" where
  "column_now ev col = read_column (ev_document ev) (ev_values ev) bt_empty col"

definition plain_conditional ::
    "evaluation \<Rightarrow> conditional_aggregate \<Rightarrow> column_criterion list \<Rightarrow> criterion_test list
     \<Rightarrow> calculation_failure + number" where
  "plain_conditional ev a criteria tests =
     and_then (conditional_rows (conditional_row ev a criteria tests)
         (schema_rows (ev_document ev) (cr_schema (cc_column (hd criteria)))) 0 [])
       (conditional_result a)"

definition plain_round :: "8 word \<Rightarrow> number \<Rightarrow> calculation_failure + number" where
  "plain_round digits n =
     (case round_number n (unat digits) of
        None \<Rightarrow> Inl FailTypeMismatch | Some r \<Rightarrow> map_err round_failure r)"

definition plain_binary ::
    "(f64 \<Rightarrow> f64 \<Rightarrow> calculation_failure + number) \<Rightarrow> calculation_failure + number
     \<Rightarrow> calculation_failure + number \<Rightarrow> calculation_failure + number" where
  "plain_binary f l r = and_then l (\<lambda>x. and_then r (\<lambda>y. f (number_get x) (number_get y)))"

lemma and_then_cong [fundef_cong]:
  "r = s \<Longrightarrow> (\<And>x. s = Inr x \<Longrightarrow> f x = g x) \<Longrightarrow> and_then r f = and_then s g"
  by (cases s) auto

fun plain_number :: "evaluation \<Rightarrow> expression \<Rightarrow> calculation_failure + number"
  and plain_condition :: "evaluation \<Rightarrow> expression \<Rightarrow> calculation_failure + bool"
  and plain_conditions :: "evaluation \<Rightarrow> bool \<Rightarrow> expression list \<Rightarrow> bool \<Rightarrow> calculation_failure + bool"
  and plain_test :: "evaluation \<Rightarrow> column_criterion \<Rightarrow> calculation_failure + criterion_test"
  and plain_tests :: "evaluation \<Rightarrow> column_criterion list \<Rightarrow> calculation_failure + criterion_test list" where
  "plain_number ev (ENumber n) = Inr n"
| "plain_number ev (EReference r) = read_reference ev r"
| "plain_number ev (ESameRowReference f) = read_reference ev (own_row ev f)"
| "plain_number ev (EIf c t e) =
     and_then (plain_condition ev c) (\<lambda>b. if b then plain_number ev t else plain_number ev e)"
| "plain_number ev (EColumnTotal col) = total_of (column_now ev col)"
| "plain_number ev (EColumnAggregate g col) = aggregate_of g (column_now ev col)"
| "plain_number ev (EColumnConditional a criteria) =
     (if criteria = [] then Inl FailTypeMismatch
      else and_then (plain_tests ev criteria) (plain_conditional ev a criteria))"
| "plain_number ev (ERound v digits) = and_then (plain_number ev v) (plain_round digits)"
| "plain_number ev (EAdd l r) =
     plain_binary (\<lambda>x y. number_result (f64_add x y)) (plain_number ev l) (plain_number ev r)"
| "plain_number ev (ESubtract l r) =
     plain_binary (\<lambda>x y. number_result (f64_sub x y)) (plain_number ev l) (plain_number ev r)"
| "plain_number ev (EMultiply l r) =
     plain_binary (\<lambda>x y. number_result (f64_mul x y)) (plain_number ev l) (plain_number ev r)"
| "plain_number ev (EDivide l r) = plain_binary divide (plain_number ev l) (plain_number ev r)"
| "plain_number ev (EMinimum l r) =
     plain_binary (\<lambda>x y. number_result (f64_min x y)) (plain_number ev l) (plain_number ev r)"
| "plain_number ev (EMaximum l r) =
     plain_binary (\<lambda>x y. number_result (f64_max x y)) (plain_number ev l) (plain_number ev r)"
| "plain_number ev e = Inl FailTypeMismatch"
| "plain_condition ev (ECompare p l r) =
     and_then (plain_number ev l) (\<lambda>x. and_then (plain_number ev r) (\<lambda>y. Inr (compare_numbers p x y)))"
| "plain_condition ev (EAnd xs) = plain_conditions ev True xs True"
| "plain_condition ev (EOr xs) = plain_conditions ev False xs False"
| "plain_condition ev (ENot v) = and_then (plain_condition ev v) (\<lambda>b. Inr (\<not> b))"
| "plain_condition ev (EIsBlank v) = is_blank ev v"
| "plain_condition ev e = Inl FailTypeMismatch"
| "plain_conditions ev both [] result = Inr result"
| "plain_conditions ev both (x # xs) result =
     and_then (plain_condition ev x)
       (\<lambda>b. plain_conditions ev both xs (if both then result \<and> b else result \<or> b))"
| "plain_test ev (ColumnCriterion col p v) =
     (case v of
        None \<Rightarrow>
          if p = CmpEqual \<or> p = CmpNotEqual then Inr (blank_test p) else Inl FailTypeMismatch
      | Some x \<Rightarrow>
          (case x of
             ENumber n \<Rightarrow> Inr (number_test p (number_get n))
           | EReference r \<Rightarrow>
               if p = CmpEqual then reference_criterion_test ev r else Inl FailTypeMismatch
           | ESameRowReference f \<Rightarrow>
               if p = CmpEqual then reference_criterion_test ev (own_row ev f) else Inl FailTypeMismatch
           | _ \<Rightarrow>
               if p = CmpEqual
               then and_then (plain_number ev x) (\<lambda>n. Inr (equal_number (number_get n)))
               else Inl FailTypeMismatch))"
| "plain_tests ev [] = Inr []"
| "plain_tests ev (c # cs) =
     and_then (plain_test ev c) (\<lambda>t. and_then (plain_tests ev cs) (\<lambda>ts. Inr (t # ts)))"

text \<open>Rounding does not panic.\<close>

lemma round_never_panics: "round_number n digits \<noteq> None"
proof (cases "f64_is_finite (number_get n)")
  case True
  then show ?thesis by (simp add: round_number_def round_decimal_text_value Let_def)
next
  case False
  let ?v = "number_get n"
  have mag: "f64_mag (f64_abs ?v) = f64_mag ?v" "\<not> f64_sign (f64_abs ?v)"
    using f64_make_parts [OF f64_mag_less, of False ?v] by (simp_all add: f64_abs_def)
  have "display_f64 (f64_abs ?v) = ''NaN'' \<or> display_f64 (f64_abs ?v) = ''inf''"
    using False mag by (auto simp: display_f64_def f64_is_nan_def f64_is_finite_def)
  then have "snd (split_point (display_f64 (f64_abs ?v))) = []" by auto
  then show ?thesis
    by (auto simp: round_number_def round_decimal_text_def Let_def split: prod.split)
qed

section \<open>Dropping the rows the first criterion rejects\<close>

lemma conditional_rows_filter:
  "(\<And>e vs. e \<in> set rows \<Longrightarrow> \<not> P e \<Longrightarrow> row e vs = Inr (False, vs)) \<Longrightarrow>
   conditional_rows row rows m vs = conditional_rows row (filter P rows) m vs"
proof (induction rows arbitrary: m vs)
  case (Cons e rows)
  show ?case
  proof (cases "P e")
    case True
    then show ?thesis using Cons by (cases "row e vs") auto
  next
    case False
    then show ?thesis using Cons by simp
  qed
qed simp

lemma criterion_cell_row:
  assumes ids: "ent_id e = i" and decided: "\<not> row_undecided (ev_values ev) col (i, e)"
    and sch: "ent_schema e = cr_schema col"
  shows "criterion_cell ev e (cr_field col) =
    Inr (if bt_contains (ent_fields e) (cr_field col) then row_cell (ev_values ev) col (i, e) else None)"
  using ids decided sch
  by (auto simp: criterion_cell_def row_undecided_def row_cell_def index_cell_def Let_def
      split: option.splits val.splits)

lemma unfiled_row_rejected:
  assumes keys: "test_keys (ev_lower ev) t = Some ks" and ids: "ent_id e = i"
    and decided: "\<not> row_undecided (ev_values ev) (cc_column c) (i, e)"
    and sch: "ent_schema e = cr_schema (cc_column c)"
    and out: "\<not> row_filed (ev_lower ev) (ev_values ev) (cc_column c) ks (i, e)"
  shows "conditional_row ev a (c # cs) (t # ts) e vs = Inr (False, vs)"
proof -
  let ?cell = "if bt_contains (ent_fields e) (cr_field (cc_column c))
    then row_cell (ev_values ev) (cc_column c) (i, e) else None"
  have "\<not> criterion_matches (ev_lower ev) t ?cell"
  proof (cases ?cell)
    case None
    then show ?thesis using test_keys_blank [OF keys] by metis
  next
    case (Some cell)
    then have "row_keys (ev_lower ev) (ev_values ev) (cc_column c) (i, e) = cell_keys (ev_lower ev) cell"
      using sch by (simp add: row_keys_def split: if_splits)
    then show ?thesis using test_keys_complete [OF keys, of cell] out Some
      by (auto simp: row_filed_def)
  qed
  then show ?thesis
    by (simp add: conditional_row_def criterion_cell_row [OF ids decided sch])
qed

lemma indexed_conditional:
  assumes ids: "\<And>i e. bt_get (doc_entities (ev_document ev)) i = Some e \<Longrightarrow> ent_id e = i"
    and keys: "test_keys (ev_lower ev) t = Some ks"
    and ix: "cc_indexes cache (cc_column c) =
      Some (build_index (ev_lower ev) (ev_document ev) (ev_values ev) (cc_column c))"
  shows "\<exists>cands. candidates cache (cc_column c) ks = Some cands \<and>
    conditional_over ev a (c # cs) (t # ts) cands = map_err Fails (plain_conditional ev a (c # cs) (t # ts))"
proof -
  let ?entries = "bt_entries (doc_entities (ev_document ev))"
  let ?filed = "row_filed (ev_lower ev) (ev_values ev) (cc_column c) ks"
  let ?in = "\<lambda>row. ent_schema (snd row) = cr_schema (cc_column c)"
  show ?thesis
  proof (cases "\<exists>row\<in>set ?entries. row_undecided (ev_values ev) (cc_column c) row")
    case True
    then show ?thesis
      using candidates_are_filed_rows [OF keys ix]
      by (simp add: conditional_over_def plain_conditional_def)
  next
    case False
    have filed_in: "?filed row \<Longrightarrow> ?in row" for row
      by (auto simp: row_filed_def row_keys_def split: if_splits)
    have rows: "schema_rows (ev_document ev) (cr_schema (cc_column c)) = map snd (filter ?in ?entries)"
      by (simp add: schema_rows_def bt_values_def filter_map comp_def)
    define kept where "kept = (\<lambda>e. ?filed (ent_id e, e))"
    have id: "ent_id (snd row) = fst row" if "row \<in> set ?entries" for row
      using ids that by (metis bt_entries_iff prod.collapse)
    have "filter kept (map snd (filter ?in ?entries)) = map snd (filter ?filed ?entries)"
    proof -
      have "filter (\<lambda>row. ?in row \<and> kept (snd row)) ?entries = filter ?filed ?entries"
        using filed_in id by (intro filter_cong) (auto simp: kept_def)
      then show ?thesis by (simp add: filter_map comp_def conj_commute)
    qed
    moreover have "conditional_rows (conditional_row ev a (c # cs) (t # ts)) (map snd (filter ?in ?entries)) 0 []
        = conditional_rows (conditional_row ev a (c # cs) (t # ts))
            (filter kept (map snd (filter ?in ?entries))) 0 []"
    proof (rule conditional_rows_filter)
      fix e vs
      assume "e \<in> set (map snd (filter ?in ?entries))" "\<not> kept e"
      then obtain i where row: "(i, e) \<in> set ?entries" "ent_schema e = cr_schema (cc_column c)" by auto
      then have i: "ent_id e = i" using id by force
      show "conditional_row ev a (c # cs) (t # ts) e vs = Inr (False, vs)"
        using False row \<open>\<not> kept e\<close> i
        by (intro unfiled_row_rejected [OF keys i]) (auto simp: kept_def)
    qed
    ultimately have "plain_conditional ev a (c # cs) (t # ts) =
        and_then (conditional_rows (conditional_row ev a (c # cs) (t # ts)) (map snd (filter ?filed ?entries)) 0 [])
          (conditional_result a)"
      by (simp add: plain_conditional_def rows)
    then show ?thesis
      using candidates_are_filed_rows [OF keys ix] False
      by (simp add: conditional_over_def candidate_rows_filed)
  qed
qed

section \<open>The memo identifies the rows\<close>

lemma row_matches_columns:
  "map cc_column cs = map cc_column cs' \<Longrightarrow>
   row_matches ev (zip cs ts) e = row_matches ev (zip cs' ts) e"
proof (induction cs arbitrary: cs' ts)
  case (Cons c cs)
  then obtain c' ds where cs': "cs' = c' # ds" "cc_column c = cc_column c'"
      "map cc_column cs = map cc_column ds" by (cases cs') auto
  show ?case
  proof (cases ts)
    case (Cons t us)
    then have "row_matches ev (zip cs us) e = row_matches ev (zip ds us) e"
      using Cons.IH cs'(3) by blast
    then show ?thesis using cs' Cons by (simp cong: if_cong)
  qed simp
qed simp

lemma conditional_key_determines:
  assumes "conditional_key a cs ts = conditional_key b cs' ts'" "cs \<noteq> []" "cs' \<noteq> []"
    "length ts = length cs" "length ts' = length cs'"
  shows "plain_conditional ev a cs ts = plain_conditional ev b cs' ts'"
proof -
  have inj: "aggregate_key_of a = aggregate_key_of b \<Longrightarrow> a = b" by (cases a; cases b) auto
  have a: "a = b" and z: "zip (map cc_column cs) (map test_key ts) = zip (map cc_column cs') (map test_key ts')"
    using assms(1) inj by (simp_all add: conditional_key_def)
  from arg_cong [OF z, of "map fst"] assms(4,5)
  have cols: "map cc_column cs = map cc_column cs'" by simp
  then have "length cs = length cs'" by (rule map_eq_imp_length_eq)
  then have "map test_key ts = map test_key ts'"
    using arg_cong [OF z, of "map snd"] assms(4,5) by simp
  moreover have "inj test_key" by (simp add: inj_on_def test_key_inject)
  ultimately have ts: "ts = ts'" by (metis inj_map_eq_map)
  have "cc_column (hd cs) = cc_column (hd cs')"
    using cols assms(2,3) by (metis hd_map)
  moreover have "conditional_row ev a cs ts = conditional_row ev a cs' ts"
    by (simp add: fun_eq_iff conditional_row_def row_matches_columns [OF cols])
  ultimately show ?thesis by (simp add: plain_conditional_def a ts)
qed

section \<open>A right cache\<close>

definition key_columns :: "conditional_key \<Rightarrow> column_ref list" where
  "key_columns key =
     (case ck_aggregate key of AKCount \<Rightarrow> [] | AKSum c \<Rightarrow> [c] | AKAverage c \<Rightarrow> [c]) @
     map fst (ck_criteria key)"

definition right_conditional :: "evaluation \<Rightarrow> conditional_key \<Rightarrow> calculation_failure + number \<Rightarrow> bool" where
  "right_conditional ev key r \<longleftrightarrow>
     (\<forall>a cs ts. cs \<noteq> [] \<and> length ts = length cs \<and> conditional_key a cs ts = key \<longrightarrow>
        r = plain_conditional ev a cs ts)"

text \<open>
  Every entry is what it would be computed to now, and an index or a memo entry speaks only
  of columns that have an entry.
\<close>

definition cache_ok :: "evaluation \<Rightarrow> failure_map \<Rightarrow> column_cache \<Rightarrow> bool" where
  "cache_ok ev failures cache \<longleftrightarrow>
     remembers (cc_columns cache)
       (\<lambda>col cv. cv = read_column (ev_document ev) (ev_values ev) failures col) \<and>
     remembers (cc_indexes cache) (\<lambda>col ix. cc_columns cache col \<noteq> None \<and>
       ix = build_index (ev_lower ev) (ev_document ev) (ev_values ev) col) \<and>
     remembers (cc_conditionals cache) (\<lambda>key r.
       list_all (\<lambda>col. cc_columns cache col \<noteq> None) (key_columns key) \<and> right_conditional ev key r)"

lemma cache_ok_empty: "cache_ok ev failures cache_empty"
  by (simp add: cache_ok_def cache_empty_def remembers_def)

text \<open>A step of the evaluator computes a plain result and keeps the cache right.\<close>

definition implements ::
    "evaluation \<Rightarrow> failure_map \<Rightarrow> (column_ref \<rightharpoonup> column_values) \<Rightarrow> 'a eval
     \<Rightarrow> calculation_failure + 'a \<Rightarrow> bool" where
  "implements ev failures cols m r \<longleftrightarrow>
     (\<forall>cache. cache_ok ev failures cache \<and> cc_columns cache = cols \<longrightarrow>
        (\<exists>cache'. m cache = (map_err Fails r, cache') \<and> cache_ok ev failures cache' \<and>
           cc_columns cache' = cols))"

lemma implements_lift [intro!]: "implements ev failures cols (ev_lift r) r"
  by (auto simp: implements_def ev_lift_def)

lemma implements_return [intro!]: "implements ev failures cols (ev_return x) (Inr x)"
  by (auto simp: implements_def ev_return_def)

lemma implements_bind [intro]:
  assumes "implements ev failures cols m r"
    "\<And>x. r = Inr x \<Longrightarrow> implements ev failures cols (f x) (g x)"
  shows "implements ev failures cols (ev_bind m f) (and_then r g)"
  unfolding implements_def
proof (intro allI impI)
  fix cache
  assume c: "cache_ok ev failures cache \<and> cc_columns cache = cols"
  with assms(1) obtain cache' where m: "m cache = (map_err Fails r, cache')"
      "cache_ok ev failures cache' \<and> cc_columns cache' = cols"
    unfolding implements_def by blast
  show "\<exists>cache'. ev_bind m f cache = (map_err Fails (and_then r g), cache') \<and>
      cache_ok ev failures cache' \<and> cc_columns cache' = cols"
  proof (cases r)
    case (Inl e)
    then show ?thesis using m by (simp add: ev_bind_def)
  next
    case (Inr x)
    then show ?thesis using m assms(2) [OF Inr]
      by (auto simp: ev_bind_def implements_def)
  qed
qed

lemma implements_entry:
  assumes "cols col \<noteq> None"
    "\<And>cv. cv = read_column (ev_document ev) (ev_values ev) failures col \<Longrightarrow>
       implements ev failures cols (f cv) r"
  shows "implements ev failures cols (ev_bind (ev_entry col) f) r"
  unfolding implements_def
proof (intro allI impI)
  fix cache
  assume c: "cache_ok ev failures cache \<and> cc_columns cache = cols"
  then obtain cv where cv: "cc_columns cache col = Some cv" using assms(1) by auto
  then have "cv = read_column (ev_document ev) (ev_values ev) failures col"
    using c by (auto simp: cache_ok_def dest: remembersD)
  then show "\<exists>cache'. ev_bind (ev_entry col) f cache = (map_err Fails r, cache') \<and>
      cache_ok ev failures cache' \<and> cc_columns cache' = cols"
    using assms(2) [of cv] c cv
    by (auto simp: ev_bind_def ev_entry_def cache_entry_def implements_def)
qed

text \<open>The failures of a pass only decide the first failed cell of an entry.\<close>

definition same_values :: "column_values \<Rightarrow> column_values \<Rightarrow> bool" where
  "same_values x y \<longleftrightarrow> cv_first_missing x = cv_first_missing y \<and> cv_present x = cv_present y \<and>
     cv_total x = cv_total y"

lemma read_cell_failures:
  "same_values x y \<Longrightarrow> same_values (read_cell V failures x r) (read_cell V failures' y r)"
  by (cases "bt_get V r") (simp_all add: same_values_def read_cell_def Let_def)

lemma read_column_failures:
  "same_values (read_column d V failures col) (read_column d V failures' col)"
proof -
  have "same_values x y \<Longrightarrow>
      same_values (foldl (read_cell V failures) x rs) (foldl (read_cell V failures') y rs)" for x y rs
    by (induction rs arbitrary: x y) (simp_all add: read_cell_failures)
  then show ?thesis by (simp add: read_column_def same_values_def)
qed

lemma same_values_results:
  "same_values x y \<Longrightarrow> total_of x = total_of y"
  "same_values x y \<Longrightarrow> aggregate_of g x = aggregate_of g y"
proof -
  assume "same_values x y"
  then have m: "cv_first_missing x = cv_first_missing y" and p: "cv_present x = cv_present y"
    and t: "cv_total x = cv_total y" by (simp_all add: same_values_def)
  show "total_of x = total_of y" unfolding total_of_def m t ..
  show "aggregate_of g x = aggregate_of g y" unfolding aggregate_of_def m p ..
qed

lemma total_of_failures:
  "total_of (read_column (ev_document ev) (ev_values ev) failures col) = total_of (column_now ev col)"
  "aggregate_of g (read_column (ev_document ev) (ev_values ev) failures col) = aggregate_of g (column_now ev col)"
  unfolding column_now_def by (rule same_values_results [OF read_column_failures])+

section \<open>The evaluator computes the plain evaluation\<close>

lemma plain_tests_length: "plain_tests ev cs = Inr ts \<Longrightarrow> length ts = length cs"
  by (induction cs arbitrary: ts) (auto simp: and_then_Inr)

lemma implements_conditional:
  assumes ids: "\<And>i e. bt_get (doc_entities (ev_document ev)) i = Some e \<Longrightarrow> ent_id e = i"
    and cols: "list_all (\<lambda>col. cols col \<noteq> None) (value_column a @ map cc_column cs)"
    and len: "length ts = length cs" and ne: "cs \<noteq> []"
  shows "implements ev failures cols (conditional_lookup ev a cs ts) (plain_conditional ev a cs ts)"
  unfolding implements_def
proof (intro allI impI)
  fix cache
  assume c: "cache_ok ev failures cache \<and> cc_columns cache = cols"
  let ?key = "conditional_key a cs ts" and ?r = "plain_conditional ev a cs ts"
  obtain c cs' t ts' where split: "cs = c # cs'" "ts = t # ts'"
    using ne len by (cases cs; cases ts) auto
  have keycols: "list_all (\<lambda>col. cols col \<noteq> None) (key_columns ?key)"
    using cols len by (cases a) (simp_all add: key_columns_def conditional_key_def)
  have right: "right_conditional ev ?key ?r"
    unfolding right_conditional_def using conditional_key_determines [OF _ _ ne _ len] by metis
  have store: "cache_ok ev failures (x\<lparr>cc_conditionals := (cc_conditionals x)(?key \<mapsto> ?r)\<rparr>)"
    if "cache_ok ev failures x" "cc_columns x = cols" for x
    using that keycols right conditional_table.remembers_store [of x _ ?key ?r]
    by (simp add: cache_ok_def)
  show "\<exists>cache'. conditional_lookup ev a cs ts cache = (map_err Fails ?r, cache') \<and>
      cache_ok ev failures cache' \<and> cc_columns cache' = cols"
  proof (cases "cc_conditionals cache ?key")
    case (Some r)
    then have "right_conditional ev ?key r" using c by (auto simp: cache_ok_def dest: remembersD)
    then have "r = ?r" using ne len by (auto simp: right_conditional_def)
    then show ?thesis using Some c by (simp add: conditional_lookup_def Let_def)
  next
    case None
    have finish: "?thesis"
      if "cache_ok ev failures x" "cc_columns x = cols"
        "conditional_lookup ev a cs ts cache =
          (case map_err Fails ?r of
             Inl Panics \<Rightarrow> (Inl Panics, x)
           | Inl (Fails f) \<Rightarrow> (Inl (Fails f), x\<lparr>cc_conditionals := (cc_conditionals x)(?key \<mapsto> Inl f)\<rparr>)
           | Inr n \<Rightarrow> (Inr n, x\<lparr>cc_conditionals := (cc_conditionals x)(?key \<mapsto> Inr n)\<rparr>))" for x
      using store [OF that(1,2)] that by (cases ?r) auto
    show ?thesis
    proof (cases "test_keys (ev_lower ev) (hd ts)")
      case None
      then have "conditional_over ev a cs ts None = map_err Fails ?r"
        by (simp add: conditional_over_def plain_conditional_def)
      then show ?thesis
        using c \<open>cc_conditionals cache ?key = None\<close> None
        by (intro finish [of cache]) (simp_all add: conditional_lookup_def Let_def)
    next
      case (Some ks)
      let ?col = "cc_column (hd cs)"
      let ?x = "cache_index (ev_lower ev) (ev_document ev) (ev_values ev) ?col cache"
      have x: "cache_ok ev failures ?x" "cc_columns ?x = cols"
        and ix: "cc_indexes ?x ?col = Some (build_index (ev_lower ev) (ev_document ev) (ev_values ev) ?col)"
      proof -
        have col: "cols ?col \<noteq> None" using cols split by simp
        show "cc_columns ?x = cols" using c by (simp add: cache_index_def)
        show "cache_ok ev failures ?x"
          using c col index_table.remembers_fill [of cache _ ?col]
          by (auto simp: cache_index_def cache_ok_def)
        show "cc_indexes ?x ?col = Some (build_index (ev_lower ev) (ev_document ev) (ev_values ev) ?col)"
          using c by (auto simp: cache_index_def cache_ok_def dest: remembersD)
      qed
      have "test_keys (ev_lower ev) t = Some ks" using Some split by simp
      from indexed_conditional [OF ids this, of ?x c a cs' ts'] ix
      obtain cands where "candidates ?x ?col ks = Some cands"
        "conditional_over ev a cs ts cands = map_err Fails ?r"
        unfolding split by auto
      then show ?thesis
        using x \<open>cc_conditionals cache ?key = None\<close> Some
        by (intro finish [of ?x]) (simp_all add: conditional_lookup_def Let_def)
    qed
  qed
qed

definition filled :: "(column_ref \<rightharpoonup> column_values) \<Rightarrow> expression \<Rightarrow> bool" where
  "filled cols e \<longleftrightarrow> list_all (\<lambda>col. cols col \<noteq> None) (column_totals e)"

lemma set_column_totals:
  "set (column_totals e) = set (own_columns e) \<union> (\<Union>c\<in>set (children e). set (column_totals c))"
  unfolding column_totals_preorder by (rule set_preorder)

lemma filled_children: "filled cols e \<Longrightarrow> c \<in> set (children e) \<Longrightarrow> filled cols c"
  unfolding filled_def list_all_iff set_column_totals [of e] by auto

lemma filled_own: "filled cols e \<Longrightarrow> col \<in> set (own_columns e) \<Longrightarrow> cols col \<noteq> None"
  unfolding filled_def list_all_iff set_column_totals [of e] by auto

lemma implements_round: "implements ev failures cols (ev_round digits n) (plain_round digits n)"
  using round_never_panics [of n "unat digits"]
  by (cases "round_number n (unat digits)")
    (auto simp: implements_def ev_round_def plain_round_def ev_lift_def)

definition ev_binary ::
    "(f64 \<Rightarrow> f64 \<Rightarrow> calculation_failure + number) \<Rightarrow> number eval \<Rightarrow> number eval \<Rightarrow> number eval" where
  "ev_binary f m n =
     ev_bind m (\<lambda>x. ev_bind n (\<lambda>y. ev_lift (f (number_get x) (number_get y))))"

lemma implements_binary:
  assumes "implements ev failures cols m r" "implements ev failures cols n s"
  shows "implements ev failures cols
    (ev_binary f m n) (plain_binary f r s)"
  unfolding plain_binary_def ev_binary_def using assms by (intro implements_bind implements_lift)

lemma implements_conditions:
  "(\<And>x. x \<in> set xs \<Longrightarrow> implements ev failures cols (condition ev x) (plain_condition ev x)) \<Longrightarrow>
   implements ev failures cols (conditions ev both xs result) (plain_conditions ev both xs result)"
proof (induction xs arbitrary: result)
  case (Cons x xs)
  have "conditions ev both (x # xs) result = ev_bind (condition ev x)
      (\<lambda>b. conditions ev both xs (if both then result \<and> b else result \<or> b))" by (rule ext) simp
  then show ?case using Cons by (auto intro!: implements_bind)
next
  case Nil
  have "conditions ev both [] result = ev_return result" by (rule ext) simp
  then show ?case by auto
qed

lemma implements_test:
  assumes "\<And>x. cc_value c = Some x \<Longrightarrow> implements ev failures cols (number ev x) (plain_number ev x)"
  shows "implements ev failures cols (criterion_test_of ev c) (plain_test ev c)"
proof -
  obtain col p v where c: "c = ColumnCriterion col p v" by (cases c)
  show ?thesis
  proof (cases v)
    case None
    have "criterion_test_of ev c = (if p = CmpEqual \<or> p = CmpNotEqual then ev_return (blank_test p)
        else ev_lift (Inl FailTypeMismatch))" by (rule ext) (simp add: c None)
    then show ?thesis by (auto simp: c None)
  next
    case (Some x)
    have call: "implements ev failures cols
        (if p = CmpEqual then ev_bind (number ev x) (\<lambda>n. ev_return (equal_number (number_get n)))
         else ev_lift (Inl FailTypeMismatch))
        (if p = CmpEqual then and_then (plain_number ev x) (\<lambda>n. Inr (equal_number (number_get n)))
         else Inl FailTypeMismatch)"
      using assms [of x] Some c by (auto intro!: implements_bind)
    have eta: "criterion_test_of ev c = (\<lambda>cache. criterion_test_of ev c cache)" ..
    show ?thesis using call unfolding eta c Some
      by (cases x) (auto simp: implements_def ev_lift_def ev_return_def split: if_splits)
  qed
qed

lemma implements_tests:
  "(\<And>c x. c \<in> set cs \<Longrightarrow> cc_value c = Some x \<Longrightarrow>
      implements ev failures cols (number ev x) (plain_number ev x)) \<Longrightarrow>
   implements ev failures cols (criterion_tests ev cs) (plain_tests ev cs)"
proof (induction cs)
  case (Cons c cs)
  have "criterion_tests ev (c # cs) = ev_bind (criterion_test_of ev c)
      (\<lambda>t. ev_bind (criterion_tests ev cs) (\<lambda>ts. ev_return (t # ts)))" by (rule ext) simp
  moreover have "implements ev failures cols (criterion_test_of ev c) (plain_test ev c)"
    using Cons.prems [of c] by (intro implements_test) simp
  moreover have "implements ev failures cols (criterion_tests ev cs) (plain_tests ev cs)"
    by (rule Cons.IH, rule Cons.prems) simp_all
  ultimately show ?case by (auto intro!: implements_bind)
next
  case Nil
  have "criterion_tests ev [] = ev_return []" by (rule ext) simp
  then show ?case by auto
qed

text \<open>The equations of the evaluator as steps, without the cache.\<close>

lemma number_steps:
  "number ev (ENumber n) = ev_return n"
  "number ev (EReference ref) = ev_lift (read_reference ev ref)"
  "number ev (ESameRowReference g) = ev_lift (read_reference ev (own_row ev g))"
  "number ev (EIf c t e) = ev_bind (condition ev c) (\<lambda>b. if b then number ev t else number ev e)"
  "number ev (EColumnTotal col) = ev_bind (ev_entry col) (\<lambda>cv. ev_lift (total_of cv))"
  "number ev (EColumnAggregate h col) = ev_bind (ev_entry col) (\<lambda>cv. ev_lift (aggregate_of h cv))"
  "number ev (EColumnConditional a cs) =
     (if cs = [] then ev_lift (Inl FailTypeMismatch)
      else ev_bind (criterion_tests ev cs) (conditional_lookup ev a cs))"
  "number ev (ERound v digits) = ev_bind (number ev v) (ev_round digits)"
  "number ev (EAdd l r) =
     ev_binary (\<lambda>x y. number_result (f64_add x y)) (number ev l) (number ev r)"
  "number ev (ESubtract l r) =
     ev_binary (\<lambda>x y. number_result (f64_sub x y)) (number ev l) (number ev r)"
  "number ev (EMultiply l r) =
     ev_binary (\<lambda>x y. number_result (f64_mul x y)) (number ev l) (number ev r)"
  "number ev (EDivide l r) =
     ev_binary divide (number ev l) (number ev r)"
  "number ev (EMinimum l r) =
     ev_binary (\<lambda>x y. number_result (f64_min x y)) (number ev l) (number ev r)"
  "number ev (EMaximum l r) =
     ev_binary (\<lambda>x y. number_result (f64_max x y)) (number ev l) (number ev r)"
  "number ev (ECompare p l r) = ev_lift (Inl FailTypeMismatch)"
  "number ev (EAnd xs) = ev_lift (Inl FailTypeMismatch)"
  "number ev (EOr xs) = ev_lift (Inl FailTypeMismatch)"
  "number ev (ENot v) = ev_lift (Inl FailTypeMismatch)"
  "number ev (EIsBlank v) = ev_lift (Inl FailTypeMismatch)"
  by (rule ext, simp add: ev_binary_def)+

lemma condition_steps:
  "condition ev (ECompare p l r) =
     ev_bind (number ev l) (\<lambda>x. ev_bind (number ev r) (\<lambda>y. ev_return (compare_numbers p x y)))"
  "condition ev (EAnd xs) = conditions ev True xs True"
  "condition ev (EOr xs) = conditions ev False xs False"
  "condition ev (ENot v) = ev_bind (condition ev v) (\<lambda>b. ev_return (\<not> b))"
  "condition ev (EIsBlank v) = ev_lift (is_blank ev v)"
  "condition ev (ENumber n) = ev_lift (Inl FailTypeMismatch)"
  "condition ev (EReference ref) = ev_lift (Inl FailTypeMismatch)"
  "condition ev (ESameRowReference g) = ev_lift (Inl FailTypeMismatch)"
  "condition ev (EColumnTotal col) = ev_lift (Inl FailTypeMismatch)"
  "condition ev (EColumnAggregate h col) = ev_lift (Inl FailTypeMismatch)"
  "condition ev (EColumnConditional a cs) = ev_lift (Inl FailTypeMismatch)"
  "condition ev (EIf i t e) = ev_lift (Inl FailTypeMismatch)"
  "condition ev (ERound v digits) = ev_lift (Inl FailTypeMismatch)"
  "condition ev (EAdd l r) = ev_lift (Inl FailTypeMismatch)"
  "condition ev (ESubtract l r) = ev_lift (Inl FailTypeMismatch)"
  "condition ev (EMultiply l r) = ev_lift (Inl FailTypeMismatch)"
  "condition ev (EDivide l r) = ev_lift (Inl FailTypeMismatch)"
  "condition ev (EMinimum l r) = ev_lift (Inl FailTypeMismatch)"
  "condition ev (EMaximum l r) = ev_lift (Inl FailTypeMismatch)"
  by (rule ext, simp)+

lemma implements_conditional_node:
  assumes ids: "\<And>i e. bt_get (doc_entities (ev_document ev)) i = Some e \<Longrightarrow> ent_id e = i"
    and filled: "filled cols (EColumnConditional a cs)"
    and IH: "\<And>x. x \<in> set (criterion_values cs) \<Longrightarrow>
      implements ev failures cols (number ev x) (plain_number ev x)"
  shows "implements ev failures cols (number ev (EColumnConditional a cs))
    (plain_number ev (EColumnConditional a cs))"
proof (cases "cs = []")
  case False
  have tests: "implements ev failures cols (criterion_tests ev cs) (plain_tests ev cs)"
    using IH by (intro implements_tests) (auto simp: in_criterion_values)
  have "list_all (\<lambda>c. cols c \<noteq> None) (value_column a @ map cc_column cs)"
    using filled_own [OF filled] by (auto simp: list_all_iff)
  then have "implements ev failures cols (conditional_lookup ev a cs ts) (plain_conditional ev a cs ts)"
    if "plain_tests ev cs = Inr ts" for ts
    using implements_conditional [OF ids _ plain_tests_length [OF that] False] by blast
  then show ?thesis using tests False by (simp add: number_steps) (rule implements_bind)
qed (auto simp: number_steps)

theorem implements_expression:
  assumes ids: "\<And>i e. bt_get (doc_entities (ev_document ev)) i = Some e \<Longrightarrow> ent_id e = i"
  shows "filled cols e \<Longrightarrow>
    implements ev failures cols (number ev e) (plain_number ev e) \<and>
    implements ev failures cols (condition ev e) (plain_condition ev e)"
proof (induction e rule: expression_induct)
  case (node e)
  have IH: "implements ev failures cols (number ev c) (plain_number ev c)"
    "implements ev failures cols (condition ev c) (plain_condition ev c)" if "c \<in> set (children e)" for c
    using node.IH [OF that] filled_children [OF node.prems that] by blast+
  have col: "cols c \<noteq> None" if "c \<in> set (own_columns e)" for c
    by (rule filled_own [OF node.prems that])
  have "implements ev failures cols (number ev e) (plain_number ev e)"
  proof (cases e)
    case (EColumnConditional a cs)
    then show ?thesis
      using implements_conditional_node [OF ids, where cols = cols] node.prems IH(1) by auto
  next
    case (EColumnTotal c)
    then show ?thesis using col
      by (auto simp: number_steps total_of_failures intro!: implements_entry)
  next
    case (EColumnAggregate g c)
    then show ?thesis using col
      by (auto simp: number_steps total_of_failures intro!: implements_entry)
  qed (auto simp: number_steps IH intro!: implements_bind implements_binary implements_round)
  moreover have "implements ev failures cols (condition ev e) (plain_condition ev e)"
    using IH by (cases e) (auto simp: condition_steps intro!: implements_bind implements_conditions)
  ultimately show ?case by blast
qed

section \<open>The references a formula reads\<close>

definition first_failed_cell :: "document \<Rightarrow> failure_map \<Rightarrow> column_ref \<Rightarrow> field_ref list" where
  "first_failed_cell d failures col =
     (case find (bt_contains failures) (column_cells d col) of None \<Rightarrow> [] | Some r \<Rightarrow> [r])"

text \<open>The reading set by recursion: an \<open>IF\<close> reads its condition and the branch taken.\<close>

function required :: "evaluation \<Rightarrow> failure_map \<Rightarrow> expression \<Rightarrow> field_ref list" where
  "required ev failures e =
     (case e of
        EReference r \<Rightarrow> [r]
      | ESameRowReference f \<Rightarrow> [own_row ev f]
      | EColumnTotal col \<Rightarrow> first_failed_cell (ev_document ev) failures col
      | EColumnAggregate g col \<Rightarrow> first_failed_cell (ev_document ev) failures col
      | EColumnConditional a criteria \<Rightarrow>
          concat (map (first_failed_cell (ev_document ev) failures)
            (value_column a @ map cc_column criteria)) @
          concat (map (required ev failures) (criterion_values criteria))
      | EIf c t f \<Rightarrow>
          required ev failures c @
          (case plain_condition ev c of
             Inl x \<Rightarrow> [] | Inr b \<Rightarrow> required ev failures (if b then t else f))
      | EIsBlank v \<Rightarrow> []
      | _ \<Rightarrow> concat (map (required ev failures) (children e)))"
  by pat_completeness auto
termination
  by (relation "measure (\<lambda>(ev, failures, e). size e)")
    (auto simp: in_criterion_values dest: size_criterion size_in_list [where f = size])

declare required.simps [simp del]

definition failed_required :: "evaluation \<Rightarrow> failure_map \<Rightarrow> expression \<Rightarrow> field_ref fset" where
  "failed_required ev failures e =
     fset_of_list (filter (bt_contains failures) (required ev failures e))"

lemma read_column_first_failed:
  "cv_first_failed (read_column d V failures col) = find (bt_contains failures) (column_cells d col)"
proof -
  have cell: "cv_first_failed (read_cell V failures cv r) =
      (if cv_first_failed cv = None \<and> bt_contains failures r then Some r else cv_first_failed cv)" for cv r
    by (simp add: read_cell_def Let_def split: option.split)
  have "cv_first_failed (foldl (read_cell V failures) cv rs) =
      (case cv_first_failed cv of Some r \<Rightarrow> Some r | None \<Rightarrow> find (bt_contains failures) rs)" for cv rs
    by (induction rs arbitrary: cv) (auto simp: cell split: option.split)
  then show ?thesis by (simp add: read_column_def)
qed

lemma filter_first_failed:
  "filter (bt_contains failures) (first_failed_cell d failures col) = first_failed_cell d failures col"
  by (auto simp: first_failed_cell_def find_Some_iff split: option.split)

lemma extend_failed_cell:
  assumes "cache_ok ev failures cache" "cc_columns cache col \<noteq> None"
  shows "extend_failed cache col refs =
    Some (refs |\<union>| fset_of_list (first_failed_cell (ev_document ev) failures col))"
proof -
  obtain cv where cv: "cc_columns cache col = Some cv" using assms(2) by auto
  then have "cv = read_column (ev_document ev) (ev_values ev) failures col"
    using assms(1) by (auto simp: cache_ok_def dest: remembersD)
  then have "cv_first_failed cv = find (bt_contains failures) (column_cells (ev_document ev) col)"
    by (simp add: read_column_first_failed)
  then show ?thesis
    by (simp add: extend_failed_def cache_entry_def cv first_failed_cell_def split: option.split)
qed

lemma extend_all_cells:
  assumes "cache_ok ev failures cache"
  shows "list_all (\<lambda>col. cc_columns cache col \<noteq> None) cols \<Longrightarrow>
    extend_all cache cols refs =
      Some (refs |\<union>| fset_of_list (concat (map (first_failed_cell (ev_document ev) failures) cols)))"
  by (induction cols arbitrary: refs) (auto simp: extend_failed_cell [OF assms])

lemma insert_failed_union:
  "insert_failed failures r refs = refs |\<union>| fset_of_list (filter (bt_contains failures) [r])"
  by (simp add: insert_failed_def)

text \<open>What a worklist still stands for.\<close>

definition pending_failed :: "evaluation \<Rightarrow> failure_map \<Rightarrow> expression list \<Rightarrow> field_ref fset" where
  "pending_failed ev failures es =
     fset_of_list (filter (bt_contains failures) (concat (map (required ev failures) es)))"

lemma pending_failed_simps [simp]:
  "pending_failed ev failures [] = {||}"
  "pending_failed ev failures (e # es) = failed_required ev failures e |\<union>| pending_failed ev failures es"
  "pending_failed ev failures (es @ fs) = pending_failed ev failures es |\<union>| pending_failed ev failures fs"
  by (simp_all add: pending_failed_def failed_required_def fset_of_list_append funion_commute)

lemma criteria_references_cells:
  assumes "cache_ok ev failures cache"
  shows "list_all (\<lambda>col. cc_columns cache col \<noteq> None) (map cc_column cs) \<Longrightarrow>
    \<exists>refs' pending'. criteria_references ev failures cache cs refs pending = Some (refs', pending') \<and>
      refs' |\<union>| pending_failed ev failures pending' =
        refs |\<union>| fset_of_list (concat (map (first_failed_cell (ev_document ev) failures) (map cc_column cs))) |\<union>|
        pending_failed ev failures (criterion_values cs) |\<union>| pending_failed ev failures pending \<and>
      set pending' \<subseteq> set pending \<union> set (criterion_values cs)"
proof (induction cs arbitrary: refs pending)
  case Nil
  then show ?case by (simp add: criterion_values_def)
next
  case (Cons c cs)
  let ?own = "fset_of_list (first_failed_cell (ev_document ev) failures (cc_column c))"
  have v: "criterion_values (c # cs) =
      (case cc_value c of None \<Rightarrow> [] | Some x \<Rightarrow> [x]) @ criterion_values cs"
    by (simp add: criterion_values_def List.map_filter_def split: option.split)
  have e: "extend_failed cache (cc_column c) refs = Some (refs |\<union>| ?own)"
    using Cons.prems by (simp add: extend_failed_cell [OF assms])
  show ?case
  proof (cases "cc_value c")
    case None
    then show ?thesis
      using Cons.IH [of "refs |\<union>| ?own" pending] Cons.prems e v
      by (auto simp: fset_of_list_append)
  next
    case (Some x)
    have leaf: ?thesis
      if "criteria_references ev failures cache (c # cs) refs pending =
          criteria_references ev failures cache cs (refs |\<union>| ?own |\<union>| failed_required ev failures x) pending"
      using Cons.IH [of "refs |\<union>| ?own |\<union>| failed_required ev failures x" pending] Cons.prems that v Some
      by (auto simp: fset_of_list_append)
    have push: ?thesis
      if "criteria_references ev failures cache (c # cs) refs pending =
          criteria_references ev failures cache cs (refs |\<union>| ?own) (x # pending)"
      using Cons.IH [of "refs |\<union>| ?own" "x # pending"] Cons.prems that v Some
      by (auto simp: fset_of_list_append)
    show ?thesis
    proof (cases x)
      case (EReference r)
      then show ?thesis using e Some
        by (intro leaf) (simp add: insert_failed_union failed_required_def required.simps)
    next
      case (ESameRowReference f)
      then show ?thesis using e Some
        by (intro leaf) (simp add: insert_failed_union failed_required_def required.simps)
    qed (rule push, simp add: e Some)+
  qed
qed

lemma failed_required_children:
  "required ev failures e = concat (map (required ev failures) (children e)) \<Longrightarrow>
   failed_required ev failures e = pending_failed ev failures (children e)"
  by (simp add: failed_required_def pending_failed_def)

lemma failed_required_columns:
  "failed_required ev failures (EColumnTotal col) =
     fset_of_list (first_failed_cell (ev_document ev) failures col)"
  "failed_required ev failures (EColumnAggregate g col) =
     fset_of_list (first_failed_cell (ev_document ev) failures col)"
  "failed_required ev failures (EColumnConditional a cs) =
     fset_of_list (concat (map (first_failed_cell (ev_document ev) failures) (value_column a))) |\<union>|
     fset_of_list (concat (map (first_failed_cell (ev_document ev) failures) (map cc_column cs))) |\<union>|
     pending_failed ev failures (criterion_values cs)"
proof -
  have all: "filter (bt_contains failures) (concat (map (first_failed_cell d failures) cols)) =
      concat (map (first_failed_cell d failures) cols)" for cols d
    by (simp add: filter_concat filter_first_failed comp_def)
  show "failed_required ev failures (EColumnTotal col) =
     fset_of_list (first_failed_cell (ev_document ev) failures col)"
    "failed_required ev failures (EColumnAggregate g col) =
     fset_of_list (first_failed_cell (ev_document ev) failures col)"
    by (simp_all add: failed_required_def required.simps filter_first_failed)
  show "failed_required ev failures (EColumnConditional a cs) =
     fset_of_list (concat (map (first_failed_cell (ev_document ev) failures) (value_column a))) |\<union>|
     fset_of_list (concat (map (first_failed_cell (ev_document ev) failures) (map cc_column cs))) |\<union>|
     pending_failed ev failures (criterion_values cs)"
    using all [of "ev_document ev" "value_column a"] all [of "ev_document ev" "map cc_column cs"]
    by (simp add: failed_required_def required.simps [of _ _ "EColumnConditional a cs"]
        pending_failed_def fset_of_list_append funion_assoc)
qed

lemma failed_required_if:
  "failed_required ev failures (EIf c t e) = failed_required ev failures c |\<union>|
     (case plain_condition ev c of
        Inl x \<Rightarrow> {||} | Inr b \<Rightarrow> failed_required ev failures (if b then t else e))"
  by (cases "plain_condition ev c")
    (auto simp: failed_required_def required.simps [of _ _ "EIf c t e"] fset_of_list_append)

lemma node_leaf_failed:
  "failed_required ev failures (EReference r) = insert_failed failures r {||}"
  "failed_required ev failures (ESameRowReference f) = insert_failed failures (own_row ev f) {||}"
  "failed_required ev failures (EIsBlank v) = {||}"
  by (simp_all add: failed_required_def required.simps insert_failed_def)

lemma insert_failed_collect:
  "insert_failed failures r refs |\<union>| rest = refs |\<union>| (insert_failed failures r {||} |\<union>| rest)"
  by (auto simp: insert_failed_def)

lemma required_steps:
  "required ev failures (ENumber n) = concat (map (required ev failures) (children (ENumber n)))"
  "required ev failures (ECompare p l r) = concat (map (required ev failures) (children (ECompare p l r)))"
  "required ev failures (EAnd xs) = concat (map (required ev failures) (children (EAnd xs)))"
  "required ev failures (EOr xs) = concat (map (required ev failures) (children (EOr xs)))"
  "required ev failures (ENot v) = concat (map (required ev failures) (children (ENot v)))"
  "required ev failures (ERound v digits) = concat (map (required ev failures) (children (ERound v digits)))"
  "required ev failures (EAdd l r) = concat (map (required ev failures) (children (EAdd l r)))"
  "required ev failures (ESubtract l r) = concat (map (required ev failures) (children (ESubtract l r)))"
  "required ev failures (EMultiply l r) = concat (map (required ev failures) (children (EMultiply l r)))"
  "required ev failures (EDivide l r) = concat (map (required ev failures) (children (EDivide l r)))"
  "required ev failures (EMinimum l r) = concat (map (required ev failures) (children (EMinimum l r)))"
  "required ev failures (EMaximum l r) = concat (map (required ev failures) (children (EMaximum l r)))"
  by (subst required.simps, simp)+

lemma failed_loop_result:
  assumes ids: "\<And>i e. bt_get (doc_entities (ev_document ev)) i = Some e \<Longrightarrow> ent_id e = i"
  shows "cache_ok ev failures cache \<Longrightarrow> cc_columns cache = cols \<Longrightarrow> list_all (filled cols) pending \<Longrightarrow>
    \<exists>cache'. failed_loop ev failures pending refs cache =
        (Some (refs |\<union>| pending_failed ev failures pending), cache') \<and>
      cache_ok ev failures cache' \<and> cc_columns cache' = cols"
proof (induction pending arbitrary: refs cache rule: measure_induct_rule [where f = forest_count])
  case (less pending)
  show ?case
  proof (cases pending)
    case Nil
    then show ?thesis using less.prems by (simp add: failed_loop.simps)
  next
    case (Cons node rest)
    have rest: "list_all (filled cols) rest" and filled: "filled cols node"
      using less.prems Cons by simp_all
    have IH: "\<exists>cache'. failed_loop ev failures p r c =
          (Some (r |\<union>| pending_failed ev failures p), cache') \<and>
        cache_ok ev failures cache' \<and> cc_columns cache' = cols"
      if "forest_count p < forest_count pending" "cache_ok ev failures c" "cc_columns c = cols"
        "list_all (filled cols) p" for p r c
      using less.IH [OF that(1-4)] .
    have kids: "list_all (filled cols) (children node)"
      using filled_children [OF filled] by (simp add: list_all_iff)
    have walk: ?thesis
      if "failed_loop ev failures (node # rest) refs cache =
          failed_loop ev failures (children node @ rest) refs cache"
        "required ev failures node = concat (map (required ev failures) (children node))"
      using IH [of "children node @ rest" cache refs] less.prems kids rest that Cons
      by (simp add: node_count_children failed_required_children)
    have short: "forest_count rest < forest_count pending" by (simp add: Cons node_count_children)
    note next_rest = IH [OF short less.prems(1,2) rest]
    show ?thesis
    proof (cases node)
      case (EReference r)
      then show ?thesis using next_rest [of "insert_failed failures r refs"]
        by (simp add: Cons failed_loop.simps node_leaf_failed insert_failed_collect [of _ _ refs])
    next
      case (ESameRowReference f)
      then show ?thesis using next_rest [of "insert_failed failures (own_row ev f) refs"]
        by (simp add: Cons failed_loop.simps node_leaf_failed insert_failed_collect [of _ _ refs])
    next
      case (EIsBlank v)
      then show ?thesis using next_rest by (simp add: Cons failed_loop.simps node_leaf_failed)
    next
      case (EColumnTotal col)
      then have "cc_columns cache col \<noteq> None" using filled_own [OF filled] less.prems by simp
      then show ?thesis
        using next_rest [of "refs |\<union>| fset_of_list (first_failed_cell (ev_document ev) failures col)"]
          extend_failed_cell [OF less.prems(1)]
        by (simp add: Cons EColumnTotal failed_loop.simps failed_required_columns funion_assoc)
    next
      case (EColumnAggregate g col)
      then have "cc_columns cache col \<noteq> None" using filled_own [OF filled] less.prems by simp
      then show ?thesis
        using next_rest [of "refs |\<union>| fset_of_list (first_failed_cell (ev_document ev) failures col)"]
          extend_failed_cell [OF less.prems(1)]
        by (simp add: Cons EColumnAggregate failed_loop.simps failed_required_columns funion_assoc)
    next
      case (EColumnConditional a cs)
      let ?cells = "\<lambda>cols. fset_of_list (concat (map (first_failed_cell (ev_document ev) failures) cols))"
      have cols: "list_all (\<lambda>col. cc_columns cache col \<noteq> None) (value_column a)"
        "list_all (\<lambda>col. cc_columns cache col \<noteq> None) (map cc_column cs)"
        using filled_own [OF filled] less.prems by (auto simp: EColumnConditional list_all_iff)
      let ?refs = "refs |\<union>| ?cells (value_column a)"
      obtain refs' pending' where
        step: "criteria_references ev failures cache cs ?refs rest = Some (refs', pending')"
        and all: "refs' |\<union>| pending_failed ev failures pending' =
          ?refs |\<union>| ?cells (map cc_column cs) |\<union>| pending_failed ev failures (criterion_values cs) |\<union>|
          pending_failed ev failures rest"
        and sub: "set pending' \<subseteq> set rest \<union> set (criterion_values cs)"
        using criteria_references_cells [OF less.prems(1) cols(2), of ?refs rest] by blast
      have less': "forest_count pending' < forest_count pending"
        using criteria_references_count [OF step]
        by (simp add: Cons EColumnConditional node_count_children)
      have "list_all (filled cols) pending'"
        using sub rest kids by (auto simp: EColumnConditional list_all_iff)
      from IH [OF less' less.prems(1,2) this, of refs'] show ?thesis
        using step all extend_all_cells [OF less.prems(1) cols(1), of refs]
        by (simp add: Cons EColumnConditional failed_loop.simps failed_required_columns funion_assoc)
    next
      case (EIf c t e)
      have "implements ev failures cols (condition ev c) (plain_condition ev c)"
        using implements_expression [OF ids, where e = c and cols = cols and failures = failures]
          kids by (simp add: EIf)
      then obtain cache1 where c: "condition ev c cache = (map_err Fails (plain_condition ev c), cache1)"
          "cache_ok ev failures cache1" "cc_columns cache1 = cols"
        using less.prems unfolding implements_def by blast
      show ?thesis
      proof (cases "plain_condition ev c")
        case (Inl x)
        then show ?thesis
          using c kids rest IH [of "c # rest" cache1 refs]
          by (simp add: Cons EIf failed_loop.simps failed_required_if node_count_children)
      next
        case (Inr b)
        then show ?thesis
          using c kids rest IH [of "(if b then t else e) # c # rest" cache1 refs]
          by (cases b) (simp_all add: Cons EIf failed_loop.simps failed_required_if
              node_count_children funion_assoc funion_left_commute)
      qed
    qed (rule walk; simp add: failed_loop.simps(2) required_steps)+
  qed
qed

section \<open>One formula of a pass\<close>

definition formula_outcome :: "evaluation \<Rightarrow> failure_map \<Rightarrow> expression \<Rightarrow> calculation_failure + number" where
  "formula_outcome ev failures e =
     (let refs = failed_required ev failures e in
      if refs = {||} then plain_number ev e else Inl (FailDependencies refs))"

lemma cache_fill_ok:
  assumes "cache_ok ev failures cache"
    and fill: "cache' = cache_fill (ev_document ev) (ev_values ev) failures col cache"
  shows "cache_ok ev failures cache'" "dom (cc_columns cache') = insert col (dom (cc_columns cache))"
proof -
  show known: "dom (cc_columns cache') = insert col (dom (cc_columns cache))"
    by (auto simp: fill cache_fill_def)
  have "list_all (\<lambda>c. cc_columns cache c \<noteq> None) cols \<Longrightarrow> list_all (\<lambda>c. cc_columns cache' c \<noteq> None) cols" for cols
    using known by (auto simp: list_all_iff dom_def)
  moreover have "cc_columns cache c \<noteq> None \<Longrightarrow> cc_columns cache' c \<noteq> None" for c
    using known by (auto simp: dom_def)
  moreover have "cc_indexes cache' = cc_indexes cache" "cc_conditionals cache' = cc_conditionals cache"
    by (simp_all add: fill cache_fill_def)
  moreover have "remembers (cc_columns cache')
      (\<lambda>col cv. cv = read_column (ev_document ev) (ev_values ev) failures col)"
    using assms(1) column_table.remembers_fill [of cache _ col]
    by (simp add: fill cache_fill_def cache_ok_def)
  ultimately show "cache_ok ev failures cache'"
    using assms(1) unfolding cache_ok_def by (auto simp: remembers_def)
qed

lemma fill_columns_ok:
  assumes "cache_ok ev failures cache"
  shows "cache_ok ev failures (fill_columns ev failures e cache)"
    "dom (cc_columns (fill_columns ev failures e cache)) = set (column_totals e) \<union> dom (cc_columns cache)"
    "filled (cc_columns (fill_columns ev failures e cache)) e"
proof -
  let ?fill = "foldl (\<lambda>c col. cache_fill (ev_document ev) (ev_values ev) failures col c)"
  have all: "cache_ok ev failures c \<Longrightarrow> cache_ok ev failures (?fill c cols) \<and>
      dom (cc_columns (?fill c cols)) = set cols \<union> dom (cc_columns c)" for c cols
    by (induction cols arbitrary: c) (simp_all add: cache_fill_ok [OF _ refl])
  show "cache_ok ev failures (fill_columns ev failures e cache)"
    using all [OF assms] by (simp add: fill_columns_def)
  show known: "dom (cc_columns (fill_columns ev failures e cache)) = set (column_totals e) \<union> dom (cc_columns cache)"
    using all [OF assms, of "ord_set (column_totals e)"] by (simp add: fill_columns_def)
  show "filled (cc_columns (fill_columns ev failures e cache)) e"
    using known by (auto simp: filled_def list_all_iff dom_def)
qed

lemma evaluate_formula_outcome:
  assumes ids: "store_ids_ok (ev_document ev)" and ok: "cache_ok ev failures cache"
  shows "\<exists>cache'. evaluate_formula ev failures e cache =
      (map_err Fails (formula_outcome ev failures e), cache') \<and> cache_ok ev failures cache' \<and>
      dom (cc_columns cache') = set (column_totals e) \<union> dom (cc_columns cache)"
proof -
  have ent: "bt_get (doc_entities (ev_document ev)) i = Some x \<Longrightarrow> ent_id x = i" for i x
    by (rule store_ids_okD(3) [OF ids])
  let ?c = "fill_columns ev failures e cache"
  note c = fill_columns_ok [OF ok]
  obtain c1 where c1: "failed_required_references ev e failures ?c =
        (Some (failed_required ev failures e), c1)" "cache_ok ev failures c1" "cc_columns c1 = cc_columns ?c"
    using failed_loop_result [where pending = "[e]" and refs = "{||}", OF ent c(1) refl] c(3)
    by (auto simp: failed_required_references_def)
  have "implements ev failures (cc_columns ?c) (number ev e) (plain_number ev e)"
    using implements_expression [OF ent c(3)] by blast
  then obtain c2 where c2: "number ev e c1 = (map_err Fails (plain_number ev e), c2)"
      "cache_ok ev failures c2" "cc_columns c2 = cc_columns ?c"
    using c1 unfolding implements_def by blast
  show ?thesis
  proof (cases "failed_required ev failures e = {||}")
    case True
    then show ?thesis using c1 c2 c(2) by (simp add: evaluate_formula_def formula_outcome_def)
  next
    case False
    then show ?thesis using c1 c(2) by (simp add: evaluate_formula_def formula_outcome_def Let_def)
  qed
qed

section \<open>Properties\<close>

text \<open>C12. The caches are invisible.  Over a document whose stored ids are consistent and with a
  right cache, a formula evaluates to what the plain evaluation gives that walks every row of
  every column and keeps no memo: the same number or the same failure, bit for bit.  The
  evaluation reaches none of its panics and leaves a right cache behind.\<close>

theorem evaluate_formula_is_plain:
  assumes "store_ids_ok (ev_document ev)" "cache_ok ev failures cache"
  shows "\<exists>cache'. evaluate_formula ev failures e cache =
      (map_err Fails (formula_outcome ev failures e), cache') \<and> cache_ok ev failures cache'"
  using evaluate_formula_outcome [OF assms] by blast

definition sample_column :: column_ref where
  "sample_column = ColumnRef ''t'' ''a''"

definition sample_entity :: "entity_id \<Rightarrow> f64 \<Rightarrow> entity" where
  "sample_entity i v =
     \<lparr>ent_id = i, ent_key = i, ent_schema = ''t'',
      ent_fields = bt_insert ''a'' (VNumber (Number v)) bt_empty\<rparr>"

definition sample_rows :: document where
  "sample_rows = (document_empty ''d'' ''d'')\<lparr>doc_entities :=
     bt_insert ''p'' (sample_entity ''p'' f64_zero) (bt_insert ''q'' (sample_entity ''q'' f64_zero) bt_empty)\<rparr>"

definition sample_evaluation :: evaluation where
  "sample_evaluation =
     \<lparr>ev_lower = ascii_lower, ev_document = sample_rows, ev_owner = FieldRef ''p'' ''f'',
      ev_values = bt_insert (FieldRef ''p'' ''a'') (Number f64_zero)
        (bt_insert (FieldRef ''q'' ''a'') (Number f64_zero) bt_empty)\<rparr>"

definition sample_sum :: expression where
  "sample_sum = EColumnConditional (CondSum sample_column)
     [ColumnCriterion sample_column CmpEqual (Some (ENumber (Number f64_zero)))]"

lemma sample_rows_ids: "store_ids_ok (ev_document sample_evaluation)"
  by (simp add: store_ids_ok_def sample_evaluation_def sample_rows_def document_empty_def
      sample_entity_def bt_eval)

lemma evaluate_formula_is_plain_witness:
  "\<exists>cache'. evaluate_formula sample_evaluation bt_empty sample_sum cache_empty =
      (map_err Fails (formula_outcome sample_evaluation bt_empty sample_sum), cache') \<and>
    cache_ok sample_evaluation bt_empty cache'"
  by (rule evaluate_formula_is_plain [OF sample_rows_ids cache_ok_empty])

text \<open>C19. The worklist that collects the failed references a formula reads answers the failed
  members of the recursive reading set: the condition and the taken branch of an \<open>IF\<close>, no
  blank test, and of a column the first failed cell in entity order.\<close>

theorem failed_references_exact:
  assumes "store_ids_ok (ev_document ev)" "cache_ok ev failures cache" "filled (cc_columns cache) e"
  shows "fst (failed_required_references ev e failures cache) =
    Some (fset_of_list (filter (bt_contains failures) (required ev failures e)))"
proof -
  have ent: "bt_get (doc_entities (ev_document ev)) i = Some x \<Longrightarrow> ent_id x = i" for i x
    by (rule store_ids_okD(3) [OF assms(1)])
  show ?thesis
    using failed_loop_result [where pending = "[e]" and refs = "{||}", OF ent assms(2) refl] assms(3)
    by (auto simp: failed_required_references_def failed_required_def)
qed

lemma failed_references_exact_witness:
  "fst (failed_required_references sample_evaluation sample_sum
      (bt_insert (FieldRef ''q'' ''a'') FailNonFinite bt_empty)
      (fill_columns sample_evaluation (bt_insert (FieldRef ''q'' ''a'') FailNonFinite bt_empty)
         sample_sum cache_empty)) = Some {|FieldRef ''q'' ''a''|}"
proof -
  let ?F = "bt_insert (FieldRef ''q'' ''a'') FailNonFinite bt_empty"
  have cells: "column_cells sample_rows sample_column = [FieldRef ''p'' ''a'', FieldRef ''q'' ''a'']"
    by (simp add: column_cells_def sample_rows_def sample_column_def sample_entity_def
        document_empty_def bt_eval)
  have "first_failed_cell sample_rows ?F sample_column = [FieldRef ''q'' ''a'']"
    unfolding first_failed_cell_def cells by (simp add: bt_contains_fun)
  then have "required sample_evaluation ?F sample_sum =
      [FieldRef ''q'' ''a'', FieldRef ''q'' ''a'']"
    by (simp add: sample_sum_def sample_evaluation_def required.simps criterion_values_def
        List.map_filter_def)
  then show ?thesis
    using failed_references_exact [OF sample_rows_ids
        fill_columns_ok(1) [OF cache_ok_empty] fill_columns_ok(3) [OF cache_ok_empty]]
    by (simp, auto)
qed

end
