(* ===== verification/Graph.thy ===== *)
theory Graph
  imports Evaluation
begin

text \<open>
  The dependency graph of \<open>formula-engine/src/lib.rs\<close>: a formula holds one edge per cell it
  names and one per column it reads; the slots of a read column are kept once, and both kinds
  of edges are inverted.  The operations build the graph of a document, replace the edges of a
  formula, refresh the slots of columns and walk the reverse edges.
\<close>

section \<open>Data\<close>

type_synonym formula_nodes = "(field_ref, expression) btree"

record dependency_graph =
  dg_reference_uses :: "(field_ref, field_ref fset) btree"
  dg_column_uses :: "(field_ref, column_ref fset) btree"
  dg_cell_readers :: "(field_ref, field_ref fset) btree"
  dg_column_readers :: "(column_ref, field_ref fset) btree"
  dg_column_slots :: "(column_ref, field_ref fset) btree"
  dg_slot_columns :: "(field_ref, column_ref) btree"
  dg_entity_schemas :: "(entity_id, schema_id) btree"

definition graph_empty :: dependency_graph where
  "graph_empty =
     \<lparr>dg_reference_uses = bt_empty, dg_column_uses = bt_empty, dg_cell_readers = bt_empty,
      dg_column_readers = bt_empty, dg_column_slots = bt_empty, dg_slot_columns = bt_empty,
      dg_entity_schemas = bt_empty\<rparr>"

text \<open>\<open>map.get(k).into_iter().flatten()\<close>, a missing set read as empty\<close>

definition set_at :: "('k::linorder, 'v fset) btree \<Rightarrow> 'k \<Rightarrow> 'v fset" where
  "set_at m k = (case bt_get m k of None \<Rightarrow> {||} | Some s \<Rightarrow> s)"

text \<open>\<open>entry(k).or_default().insert(x)\<close>\<close>

definition set_add :: "'k::linorder \<Rightarrow> 'v \<Rightarrow> ('k, 'v fset) btree \<Rightarrow> ('k, 'v fset) btree" where
  "set_add k x m = bt_insert k (finsert x (set_at m k)) m"

text \<open>
  \<open>get_mut(k).is_some_and(|s| { s.remove(x); s.is_empty() })\<close>: the map after it, and whether
  the set is now empty.
\<close>

definition set_drop ::
    "'k::linorder \<Rightarrow> 'v \<Rightarrow> ('k, 'v fset) btree \<Rightarrow> ('k, 'v fset) btree \<times> bool" where
  "set_drop k x m =
     (case bt_get m k of
        None \<Rightarrow> (m, False)
      | Some s \<Rightarrow> (bt_insert k (s |-| {|x|}) m, s |-| {|x|} = {||}))"

definition bt_remove_all :: "'k::linorder list \<Rightarrow> ('k, 'v) btree \<Rightarrow> ('k, 'v) btree" where
  "bt_remove_all ks m = foldl (\<lambda>m k. bt_remove k m) m ks"

definition bt_insert_all :: "'k::linorder list \<Rightarrow> 'v \<Rightarrow> ('k, 'v) btree \<Rightarrow> ('k, 'v) btree" where
  "bt_insert_all ks v m = foldl (\<lambda>m k. bt_insert k v m) m ks"

section \<open>What a formula uses\<close>

definition direct_references :: "field_ref \<Rightarrow> expression \<Rightarrow> field_ref fset" where
  "direct_references owner e = fset_of_list (map fst (reference_uses e owner))"

definition extract_column_totals :: "expression \<Rightarrow> column_ref fset" where
  "extract_column_totals e = fset_of_list (column_totals e)"

definition extract_value_columns :: "expression \<Rightarrow> column_ref fset" where
  "extract_value_columns e = fset_of_list (numeric_columns e)"

text \<open>The slots of a column: every entity of its schema, blank or not.\<close>

definition column_slots_in :: "document \<Rightarrow> column_ref \<Rightarrow> field_ref fset" where
  "column_slots_in d col =
     fset_of_list (map (\<lambda>(i, e). FieldRef i (cr_field col))
       (filter (\<lambda>(i, e). ent_schema e = cr_schema col) (bt_entries (doc_entities d))))"

definition extract_dependencies :: "document \<Rightarrow> field_ref \<Rightarrow> expression \<Rightarrow> field_ref fset" where
  "extract_dependencies d owner e =
     foldl (\<lambda>deps col. foldl (\<lambda>deps (i, x).
         if ent_schema x = cr_schema col then finsert (FieldRef i (cr_field col)) deps else deps)
         deps (bt_entries (doc_entities d)))
       (direct_references owner e) (column_totals e)"

definition is_calculation :: "val \<Rightarrow> bool" where
  "is_calculation v = (case v of VNumber n \<Rightarrow> True | VFormula e \<Rightarrow> True | _ \<Rightarrow> False)"

definition calculation_value :: "document \<Rightarrow> field_ref \<Rightarrow> val option" where
  "calculation_value d f =
     (case bt_get (doc_entities d) (fr_entity f) of
        None \<Rightarrow> None
      | Some e \<Rightarrow>
          (case bt_get (ent_fields e) (fr_field f) of
             None \<Rightarrow> None
           | Some v \<Rightarrow> if is_calculation v then Some v else None))"

definition formula_uses :: "document \<Rightarrow> field_ref \<Rightarrow> (field_ref fset \<times> column_ref fset) option" where
  "formula_uses d f =
     (case calculation_value d f of
        Some (VFormula e) \<Rightarrow> Some (direct_references f e, extract_column_totals e)
      | _ \<Rightarrow> None)"

section \<open>Building and changing the graph\<close>

definition ensure_column_slots ::
    "document \<Rightarrow> column_ref \<Rightarrow> dependency_graph \<Rightarrow> dependency_graph" where
  "ensure_column_slots d col g =
     (if bt_contains (dg_column_slots g) col then g
      else let slots = column_slots_in d col in
        g\<lparr>dg_slot_columns := bt_insert_all (sorted_list_of_fset slots) col (dg_slot_columns g),
          dg_column_slots := bt_insert col slots (dg_column_slots g)\<rparr>)"

definition read_cells ::
    "field_ref \<Rightarrow> field_ref fset \<Rightarrow> dependency_graph \<Rightarrow> dependency_graph" where
  "read_cells formula refs g =
     foldl (\<lambda>g r. g\<lparr>dg_cell_readers := set_add r formula (dg_cell_readers g)\<rparr>) g
       (sorted_list_of_fset refs)"

definition read_columns ::
    "document \<Rightarrow> field_ref \<Rightarrow> column_ref fset \<Rightarrow> dependency_graph \<Rightarrow> dependency_graph" where
  "read_columns d formula cols g =
     foldl (\<lambda>g col. ensure_column_slots d col
         (g\<lparr>dg_column_readers := set_add col formula (dg_column_readers g)\<rparr>)) g
       (sorted_list_of_fset cols)"

definition insert_edges ::
    "document \<Rightarrow> field_ref \<Rightarrow> field_ref fset \<Rightarrow> column_ref fset \<Rightarrow> dependency_graph
     \<Rightarrow> dependency_graph" where
  "insert_edges d formula refs cols g =
     (let g = read_columns d formula cols (read_cells formula refs g) in
      g\<lparr>dg_reference_uses := bt_insert formula refs (dg_reference_uses g),
        dg_column_uses := bt_insert formula cols (dg_column_uses g)\<rparr>)"

definition graph_new :: "document \<Rightarrow> formula_nodes \<Rightarrow> dependency_graph" where
  "graph_new d formulas =
     foldl (\<lambda>g (f, e). insert_edges d f (direct_references f e) (extract_column_totals e) g)
       (graph_empty\<lparr>dg_entity_schemas := foldl (\<lambda>m (i, e). bt_insert i (ent_schema e) m) bt_empty
          (bt_entries (doc_entities d))\<rparr>)
       (bt_entries formulas)"

definition drop_cell :: "field_ref \<Rightarrow> dependency_graph \<Rightarrow> field_ref \<Rightarrow> dependency_graph" where
  "drop_cell root g r =
     (case set_drop r root (dg_cell_readers g) of (m, gone) \<Rightarrow>
      g\<lparr>dg_cell_readers := (if gone then bt_remove r m else m)\<rparr>)"

text \<open>Forget the slots of a column.\<close>

definition clear_column :: "dependency_graph \<Rightarrow> column_ref \<Rightarrow> dependency_graph" where
  "clear_column g col =
     (case bt_get (dg_column_slots g) col of
        None \<Rightarrow> g
      | Some slots \<Rightarrow>
          g\<lparr>dg_column_slots := bt_remove col (dg_column_slots g),
            dg_slot_columns := bt_remove_all (sorted_list_of_fset slots) (dg_slot_columns g)\<rparr>)"

definition drop_column :: "field_ref \<Rightarrow> dependency_graph \<Rightarrow> column_ref \<Rightarrow> dependency_graph" where
  "drop_column root g col =
     (case set_drop col root (dg_column_readers g) of (m, gone) \<Rightarrow>
      if gone then clear_column (g\<lparr>dg_column_readers := bt_remove col m\<rparr>) col
      else g\<lparr>dg_column_readers := m\<rparr>)"

definition remove_edges :: "field_ref \<Rightarrow> dependency_graph \<Rightarrow> dependency_graph" where
  "remove_edges root g =
     (let g = (case bt_get (dg_reference_uses g) root of
            None \<Rightarrow> g
          | Some refs \<Rightarrow> foldl (drop_cell root)
              (g\<lparr>dg_reference_uses := bt_remove root (dg_reference_uses g)\<rparr>) (sorted_list_of_fset refs)) in
      case bt_get (dg_column_uses g) root of
        None \<Rightarrow> g
      | Some cols \<Rightarrow> foldl (drop_column root)
          (g\<lparr>dg_column_uses := bt_remove root (dg_column_uses g)\<rparr>) (sorted_list_of_fset cols))"

definition replace_formula :: "document \<Rightarrow> field_ref \<Rightarrow> dependency_graph \<Rightarrow> dependency_graph" where
  "replace_formula d root g =
     (let g = remove_edges root g in
      case formula_uses d root of None \<Rightarrow> g | Some (refs, cols) \<Rightarrow> insert_edges d root refs cols g)"

definition refresh_column_slots ::
    "document \<Rightarrow> column_ref list \<Rightarrow> dependency_graph \<Rightarrow> dependency_graph" where
  "refresh_column_slots d cols g =
     foldl (\<lambda>g col. if bt_contains (dg_column_readers g) col then ensure_column_slots d col g else g)
       (foldl clear_column g cols) cols"

definition remember_entity :: "document \<Rightarrow> entity_id \<Rightarrow> dependency_graph \<Rightarrow> dependency_graph" where
  "remember_entity d i g =
     (case bt_get (doc_entities d) i of
        None \<Rightarrow> g
      | Some e \<Rightarrow> g\<lparr>dg_entity_schemas := bt_insert (ent_id e) (ent_schema e) (dg_entity_schemas g)\<rparr>)"

definition forget_entity :: "entity_id \<Rightarrow> dependency_graph \<Rightarrow> dependency_graph" where
  "forget_entity i g = g\<lparr>dg_entity_schemas := bt_remove i (dg_entity_schemas g)\<rparr>"

definition schemas_of :: "document \<Rightarrow> entity_id \<Rightarrow> dependency_graph \<Rightarrow> schema_id list" where
  "schemas_of d i g =
     (case bt_get (dg_entity_schemas g) i of None \<Rightarrow> [] | Some s \<Rightarrow> [s]) @
     (case bt_get (doc_entities d) i of None \<Rightarrow> [] | Some e \<Rightarrow> [ent_schema e])"

section \<open>Queries\<close>

definition graph_formulas :: "dependency_graph \<Rightarrow> field_ref list" where
  "graph_formulas g = bt_keys (dg_reference_uses g)"

definition tracked_columns :: "dependency_graph \<Rightarrow> column_ref list" where
  "tracked_columns g = bt_keys (dg_column_slots g)"

definition dependencies_of :: "dependency_graph \<Rightarrow> field_ref \<Rightarrow> field_ref fset option" where
  "dependencies_of g f =
     (case bt_get (dg_reference_uses g) f of
        None \<Rightarrow> None
      | Some refs \<Rightarrow> Some (foldl (\<lambda>deps col. deps |\<union>| set_at (dg_column_slots g) col) refs
          (sorted_list_of_fset (set_at (dg_column_uses g) f))))"

text \<open>\<open>None\<close> is the panic of the \<open>expect\<close> on a formula without an entry.\<close>

definition expanded_dependencies :: "dependency_graph \<Rightarrow> (field_ref, field_ref fset) btree option" where
  "expanded_dependencies g =
     map_option bt_of_list (those (map (\<lambda>f. map_option (Pair f) (dependencies_of g f)) (graph_formulas g)))"

definition direct_dependents :: "dependency_graph \<Rightarrow> field_ref \<Rightarrow> field_ref fset" where
  "direct_dependents g f =
     set_at (dg_cell_readers g) f |\<union>|
     (case bt_get (dg_slot_columns g) f of
        None \<Rightarrow> {||} | Some col \<Rightarrow> set_at (dg_column_readers g) col)"

definition formula_dependencies_within ::
    "dependency_graph \<Rightarrow> field_ref \<Rightarrow> field_ref fset \<Rightarrow> field_ref fset" where
  "formula_dependencies_within g f within =
     foldl (\<lambda>deps col. foldl (\<lambda>deps slot. if slot |\<in>| within then finsert slot deps else deps) deps
         (sorted_list_of_fset (set_at (dg_column_slots g) col)))
       (set_at (dg_reference_uses g) f |\<inter>| within)
       (sorted_list_of_fset (set_at (dg_column_uses g) f))"

definition entry_count :: "dependency_graph \<Rightarrow> nat" where
  "entry_count g =
     length (bt_entries (dg_reference_uses g)) + length (bt_entries (dg_column_uses g)) +
     sum_list (map fcard (bt_values (dg_cell_readers g))) +
     sum_list (map fcard (bt_values (dg_column_readers g))) +
     sum_list (map fcard (bt_values (dg_column_slots g))) +
     length (bt_entries (dg_slot_columns g)) + length (bt_entries (dg_entity_schemas g))"

section \<open>The reverse closure\<close>

text \<open>\<open>saturating_add\<close> of a 64-bit \<open>usize\<close>\<close>

definition usize_max :: nat where
  "usize_max = 2 ^ 64 - 1"

definition saturating_add :: "nat \<Rightarrow> nat \<Rightarrow> nat" where
  "saturating_add a b = min usize_max (a + b)"

text \<open>One dependent of the cell taken from the queue.\<close>

definition closure_step ::
    "field_ref fset \<Rightarrow> bool \<Rightarrow> field_ref fset \<times> field_ref list \<times> nat \<Rightarrow> field_ref
     \<Rightarrow> field_ref fset \<times> field_ref list \<times> nat" where
  "closure_step roots include_roots st dependent =
     (case st of (affected, queue, traversed) \<Rightarrow>
      if (\<not> include_roots \<and> dependent |\<in>| roots) \<or> dependent |\<in>| affected
      then (affected, queue, saturating_add traversed 1)
      else (finsert dependent affected, queue @ [dependent], saturating_add traversed 1))"

definition all_readers :: "dependency_graph \<Rightarrow> field_ref fset" where
  "all_readers g = fset_of_list (concat (map sorted_list_of_fset
     (bt_values (dg_cell_readers g) @ bt_values (dg_column_readers g))))"

lemma set_at_readers:
  "set_at (dg_cell_readers g) f |\<subseteq>| all_readers g"
  "set_at (dg_column_readers g) col |\<subseteq>| all_readers g"
  by (force simp: set_at_def all_readers_def in_bt_values fset_of_list_elem split: option.split)+

lemma direct_dependents_readers: "direct_dependents g f |\<subseteq>| all_readers g"
  using set_at_readers [of g] by (auto simp: direct_dependents_def split: option.split)

lemma closure_steps:
  "foldl (closure_step roots incl) (affected, queue, t) ds = (affected', queue', t') \<Longrightarrow>
   fset affected' = fset affected \<union> {x \<in> set ds. incl \<or> x |\<notin>| roots} \<and>
   (\<exists>news. queue' = queue @ news \<and> set news = fset affected' - fset affected \<and>
      (news = [] \<longleftrightarrow> affected' = affected))"
proof (induction ds arbitrary: affected queue t)
  case Nil
  then show ?case by auto
next
  case (Cons d ds)
  show ?case
  proof (cases "(\<not> incl \<and> d |\<in>| roots) \<or> d |\<in>| affected")
    case True
    then have "closure_step roots incl (affected, queue, t) d = (affected, queue, saturating_add t 1)"
      by (simp add: closure_step_def)
    then have "foldl (closure_step roots incl) (affected, queue, saturating_add t 1) ds =
        (affected', queue', t')"
      using Cons.prems by simp
    from Cons.IH [OF this] True show ?thesis by auto
  next
    case False
    then have "closure_step roots incl (affected, queue, t) d =
        (finsert d affected, queue @ [d], saturating_add t 1)"
      by (auto simp: closure_step_def)
    then have "foldl (closure_step roots incl) (finsert d affected, queue @ [d], saturating_add t 1) ds =
        (affected', queue', t')"
      using Cons.prems by simp
    from Cons.IH [OF this] obtain news where
      a: "fset affected' = fset (finsert d affected) \<union> {x \<in> set ds. incl \<or> x |\<notin>| roots}"
      and q: "queue' = (queue @ [d]) @ news" "set news = fset affected' - fset (finsert d affected)"
      by blast
    have "queue' = queue @ d # news" using q by simp
    moreover have "set (d # news) = fset affected' - fset affected" using q a False by auto
    moreover have "affected' \<noteq> affected" using a False by auto
    ultimately show ?thesis using a False by auto
  qed
qed

function (sequential) closure_loop ::
    "dependency_graph \<Rightarrow> field_ref fset \<Rightarrow> bool \<Rightarrow> field_ref list \<Rightarrow> field_ref fset \<Rightarrow> nat
     \<Rightarrow> field_ref fset \<times> nat" where
  "closure_loop g roots incl [] affected traversed = (affected, traversed)"
| "closure_loop g roots incl (f # queue) affected traversed =
     (case foldl (closure_step roots incl) (affected, queue, traversed)
             (sorted_list_of_fset (direct_dependents g f)) of
        (affected, queue, traversed) \<Rightarrow> closure_loop g roots incl queue affected traversed)"
  by pat_completeness auto
termination
proof (relation "measures [\<lambda>(g, roots, incl, queue, affected, t). fcard (all_readers g |-| affected),
    \<lambda>(g, roots, incl, queue, affected, t). length queue]", goal_cases)
  case 1
  show ?case by simp
next
  case (2 g roots incl f queue affected traversed affected' st queue' traversed')
  then have eq: "foldl (closure_step roots incl) (affected, queue, traversed)
      (sorted_list_of_fset (direct_dependents g f)) = (affected', queue', traversed')" by simp
  note all = closure_steps [OF eq]
  show ?case
  proof (cases "affected' = affected")
    case True
    then show ?thesis using all by auto
  next
    case False
    have "fset affected \<subset> fset affected'" using all False by (metis Un_upper1 fset_cong psubsetI)
    then obtain x where x: "x |\<in>| affected'" "x |\<notin>| affected" by blast
    then have "x |\<in>| direct_dependents g f" using all by auto
    then have "x |\<in>| all_readers g" using direct_dependents_readers by blast
    then have "all_readers g |-| affected' |\<subset>| all_readers g |-| affected"
      using x \<open>fset affected \<subset> fset affected'\<close> by (auto simp: pfsubset_eq less_eq_fset.rep_eq)
    then have "fcard (all_readers g |-| affected') < fcard (all_readers g |-| affected)"
      by (rule pfsubset_fcard_mono)
    then show ?thesis by simp
  qed
qed

declare closure_loop.simps [simp del]

definition reverse_closure ::
    "dependency_graph \<Rightarrow> field_ref fset \<Rightarrow> bool \<Rightarrow> field_ref fset \<times> nat" where
  "reverse_closure g roots incl = closure_loop g roots incl (sorted_list_of_fset roots) {||} 0"

definition affected_by :: "dependency_graph \<Rightarrow> field_ref \<Rightarrow> field_ref list" where
  "affected_by g changed = sorted_list_of_fset (fst (reverse_closure g {|changed|} True))"

definition reaching_fields ::
    "dependency_graph \<Rightarrow> field_ref list \<Rightarrow> field_ref fset \<Rightarrow> (field_ref, field_ref fset) btree" where
  "reaching_fields g changed targets =
     foldl (\<lambda>m c. foldl (\<lambda>m f. if f |\<in>| targets then set_add f c m else m) m
         (sorted_list_of_fset (fst (reverse_closure g {|c|} True))))
       bt_empty changed"

section \<open>Following an update\<close>

text \<open>One dirty root: its row's schemas are noted, then its edges are replaced.\<close>

definition root_step ::
    "document \<Rightarrow> dependency_graph \<times> schema_id fset \<Rightarrow> field_ref \<Rightarrow> dependency_graph \<times> schema_id fset" where
  "root_step d st root =
     (case st of (g, touched) \<Rightarrow>
      (replace_formula d root (remember_entity d (fr_entity root) g),
       touched |\<union>| fset_of_list (schemas_of d (fr_entity root) g)))"

definition update_graph :: "document \<Rightarrow> field_ref list \<Rightarrow> dependency_graph \<Rightarrow> dependency_graph" where
  "update_graph d roots g =
     (case foldl (root_step d) (g, {||}) roots of (g, touched) \<Rightarrow>
      let cols = filter (\<lambda>c. cr_schema c |\<in>| touched) (tracked_columns g);
          g = refresh_column_slots d cols g in
      foldl (\<lambda>g root. if bt_contains (doc_entities d) (fr_entity root) then g
                      else forget_entity (fr_entity root) g) g roots)"

record dirty_impact =
  di_dirty :: "field_ref fset"
  di_old_dependents :: "field_ref fset"
  di_new_dependents :: "field_ref fset"
  di_edges_traversed :: nat

definition update_dependency_impact ::
    "document \<Rightarrow> field_ref fset \<Rightarrow> dependency_graph \<Rightarrow> dirty_impact \<times> dependency_graph" where
  "update_dependency_impact d roots g =
     (case reverse_closure g roots False of (old_dependents, old_edges) \<Rightarrow>
      let g = update_graph d (sorted_list_of_fset roots) g in
      case reverse_closure g roots False of (new_dependents, new_edges) \<Rightarrow>
        (\<lparr>di_dirty = roots |\<union>| old_dependents |\<union>| new_dependents,
          di_old_dependents = old_dependents, di_new_dependents = new_dependents,
          di_edges_traversed = saturating_add old_edges new_edges\<rparr>, g))"

text \<open>
  A changed row can change the members of a column, so the readers of every read column of the
  row's schemas are roots too.
\<close>

definition with_column_total_roots ::
    "document \<Rightarrow> dependency_graph \<Rightarrow> field_ref fset \<Rightarrow> field_ref fset" where
  "with_column_total_roots d g roots =
     (let schemas = fset_of_list
            (concat (map (\<lambda>root. schemas_of d (fr_entity root) g) (sorted_list_of_fset roots))) in
      foldl (\<lambda>roots col. if cr_schema col |\<in>| schemas then roots |\<union>| set_at (dg_column_readers g) col
                         else roots) roots (tracked_columns g))"

end
