(* ===== verification/GraphInvariant.thy ===== *)
theory GraphInvariant
  imports Graph
begin

text \<open>
  What the dependency graph represents.  The reverse closure is reachability along the reverse
  edges; the invariant \<open>graph_of\<close> ties the seven maps of a graph to a document and determines
  them; building a graph establishes it, and replacing the edges of the changed formulas and
  refreshing the touched columns leads from the graph of one document to that of the next.
\<close>

section \<open>Reachability\<close>

definition dependents_rel :: "dependency_graph \<Rightarrow> (field_ref \<times> field_ref) set" where
  "dependents_rel g = {(f, h). h |\<in>| direct_dependents g f}"

text \<open>A set closed under a successor relation, up to roots that are expanded anyway.\<close>

lemma closed_reach:
  assumes closed: "\<And>x y. x \<in> R \<union> A \<Longrightarrow> (x, y) \<in> E \<Longrightarrow> y \<in> A \<union> X" and X: "X \<subseteq> R"
  shows "(r, y) \<in> E\<^sup>+ \<Longrightarrow> r \<in> R \<Longrightarrow> y \<in> A \<union> X"
  by (induction rule: trancl_induct) (use closed X in blast)+

lemma closure_loop_result:
  assumes "closure_loop g roots incl queue affected t = (result, t')"
    "set queue \<subseteq> fset roots \<union> fset affected"
    "\<And>x y. x \<in> fset roots \<union> fset affected \<Longrightarrow> x \<notin> set queue \<Longrightarrow> y |\<in>| direct_dependents g x \<Longrightarrow>
       y |\<in>| affected \<or> (\<not> incl \<and> y |\<in>| roots)"
    "fset affected \<subseteq> {y. \<exists>r. r |\<in>| roots \<and> (r, y) \<in> (dependents_rel g)\<^sup>+ \<and> (incl \<or> y |\<notin>| roots)}"
  shows "fset result = {y. \<exists>r. r |\<in>| roots \<and> (r, y) \<in> (dependents_rel g)\<^sup>+ \<and> (incl \<or> y |\<notin>| roots)}"
  using assms
proof (induction g roots incl queue affected t rule: closure_loop.induct)
  case (1 g roots incl affected t)
  let ?X = "if incl then {} else fset roots"
  have result: "result = affected" using 1(1) by (simp add: closure_loop.simps)
  have closed: "\<And>x y. x \<in> fset roots \<union> fset affected \<Longrightarrow> (x, y) \<in> dependents_rel g \<Longrightarrow>
      y \<in> fset affected \<union> ?X"
    using 1(3) by (auto simp: dependents_rel_def)
  have "y |\<in>| affected" if "r |\<in>| roots" "(r, y) \<in> (dependents_rel g)\<^sup>+" "incl \<or> y |\<notin>| roots" for r y
  proof -
    have "y \<in> fset affected \<union> ?X"
      by (rule closed_reach [where R = "fset roots" and E = "dependents_rel g" and r = r])
        (use closed that in auto)
    then show ?thesis using that(3) by (auto split: if_splits)
  qed
  then show ?case using 1(4) result by blast
next
  case (2 g roots incl f queue affected t)
  let ?reach = "{y. \<exists>r. r |\<in>| roots \<and> (r, y) \<in> (dependents_rel g)\<^sup>+ \<and> (incl \<or> y |\<notin>| roots)}"
  obtain affected' queue' t'' where step: "foldl (closure_step roots incl) (affected, queue, t)
      (sorted_list_of_fset (direct_dependents g f)) = (affected', queue', t'')"
    by (metis prod_cases3)
  have a: "fset affected' = fset affected \<union> {x \<in> fset (direct_dependents g f). incl \<or> x |\<notin>| roots}"
    using closure_steps [OF step] by simp
  obtain news where q: "queue' = queue @ news" "set news = fset affected' - fset affected"
    using closure_steps [OF step] by blast
  have f: "f \<in> fset roots \<union> fset affected" using 2(3) by simp
  have reach_f: "x \<in> ?reach" if "x |\<in>| direct_dependents g f" "incl \<or> x |\<notin>| roots" for x
  proof -
    have "(f, x) \<in> dependents_rel g" using that by (simp add: dependents_rel_def)
    then show ?thesis
      using f 2(5) that by (auto dest: subsetD intro: trancl_into_trancl)
  qed
  show ?case
  proof (rule 2(1) [OF step [symmetric] refl])
    show "closure_loop g roots incl queue' affected' t'' = (result, t')"
      using 2(2) step by (simp add: closure_loop.simps)
    show "set queue' \<subseteq> fset roots \<union> fset affected'" using 2(3) q a by auto
    show "fset affected' \<subseteq> ?reach" using 2(5) a reach_f by auto
    fix x y
    assume x: "x \<in> fset roots \<union> fset affected'" "x \<notin> set queue'" "y |\<in>| direct_dependents g x"
    show "y |\<in>| affected' \<or> (\<not> incl \<and> y |\<in>| roots)"
    proof (cases "x = f")
      case True
      then show ?thesis using x a by auto
    next
      case False
      then have "x \<in> fset roots \<union> fset affected" "x \<notin> set (f # queue)" using x q a by auto
      from 2(4) [OF this x(3)] show ?thesis using a by auto
    qed
  qed
qed

lemma reverse_closure_reach:
  "fset (fst (reverse_closure g roots incl)) =
     {y. \<exists>r. r |\<in>| roots \<and> (r, y) \<in> (dependents_rel g)\<^sup>+ \<and> (incl \<or> y |\<notin>| roots)}"
proof -
  obtain result t where "closure_loop g roots incl (sorted_list_of_fset roots) {||} 0 = (result, t)" by force
  then show ?thesis by (simp add: reverse_closure_def) (rule closure_loop_result, auto)
qed

section \<open>Inverted edges\<close>

text \<open>The set stored at a key stands for \<open>s\<close>; an empty set has no entry.\<close>

definition entry_of :: "'v fset option \<Rightarrow> 'v set \<Rightarrow> bool" where
  "entry_of x s \<longleftrightarrow> (case x of None \<Rightarrow> s = {} | Some t \<Rightarrow> t \<noteq> {||} \<and> fset t = s)"

definition inverts :: "('k::linorder, 'v fset) btree \<Rightarrow> ('k \<Rightarrow> 'v set) \<Rightarrow> bool" where
  "inverts m R \<longleftrightarrow> (\<forall>k. entry_of (bt_get m k) (R k))"

lemma entry_of_unique: "entry_of x s \<Longrightarrow> entry_of y s \<Longrightarrow> x = y"
  by (auto simp: entry_of_def fset_cong split: option.splits)

lemma inverts_unique: "inverts m R \<Longrightarrow> inverts n R \<Longrightarrow> m = n"
  by (rule btree_eqI) (metis entry_of_unique inverts_def)

lemma inverts_set_at: "inverts m R \<Longrightarrow> fset (set_at m k) = R k"
  unfolding inverts_def set_at_def entry_of_def
  by (erule allE [of _ k]) (simp split: option.splits)

lemma inverts_Some: "inverts m R \<Longrightarrow> bt_get m k = None \<longleftrightarrow> R k = {}"
  unfolding inverts_def entry_of_def
  by (erule allE [of _ k]) (auto split: option.splits)

lemma inverts_set_add:
  assumes "inverts m R"
  shows "inverts (set_add k x m) (R(k := insert x (R k)))"
  using assms inverts_set_at [OF assms, of k] by (auto simp: inverts_def entry_of_def set_add_def)

lemma fminus_empty: "s |-| t = {||} \<longleftrightarrow> fset s - fset t = {}"
  by (metis bot_fset.rep_eq fset_cong minus_fset.rep_eq)

lemma inverts_set_drop:
  assumes "inverts m R" "set_drop k x m = (m', gone)"
  shows "inverts (if gone then bt_remove k m' else m') (R(k := R k - {x}))"
    "gone \<longleftrightarrow> R k \<noteq> {} \<and> R k - {x} = {}"
proof -
  have k: "entry_of (bt_get m k) (R k)" using assms(1) by (simp add: inverts_def)
  show "inverts (if gone then bt_remove k m' else m') (R(k := R k - {x}))"
    using assms k
    by (cases "bt_get m k") (auto simp: inverts_def entry_of_def set_drop_def less_eq_fset.rep_eq)
  show "gone \<longleftrightarrow> R k \<noteq> {} \<and> R k - {x} = {}"
    using assms(2) k
    by (cases "bt_get m k") (auto simp: entry_of_def set_drop_def fminus_empty)
qed

section \<open>Columns and their slots\<close>

definition touched_ok :: "(schema_id \<Rightarrow> bool) \<Rightarrow> document \<Rightarrow> document \<Rightarrow> bool" where
  "touched_ok T d0 d \<longleftrightarrow>
     (\<forall>i. map_option ent_schema (bt_get (doc_entities d0) i) = map_option ent_schema (bt_get (doc_entities d) i) \<or>
        (\<forall>e. bt_get (doc_entities d0) i = Some e \<longrightarrow> T (ent_schema e)) \<and>
        (\<forall>e. bt_get (doc_entities d) i = Some e \<longrightarrow> T (ent_schema e)))"

lemma in_column_slots:
  "s |\<in>| column_slots_in d col \<longleftrightarrow>
     fr_field s = cr_field col \<and>
     map_option ent_schema (bt_get (doc_entities d) (fr_entity s)) = Some (cr_schema col)"
  by (cases s) (force simp: column_slots_in_def fset_of_list.rep_eq bt_entries_iff image_iff)

text \<open>
  The slots of the read columns and the columns of the slots.  The slots of a touched schema may
  still be those of an older document; then no slot belongs to an untouched schema now.
\<close>

definition slots_inv :: "(schema_id \<Rightarrow> bool) \<Rightarrow> document \<Rightarrow> dependency_graph \<Rightarrow> bool" where
  "slots_inv T d g \<longleftrightarrow>
     (\<forall>s c. bt_get (dg_slot_columns g) s = Some c \<longrightarrow>
        (\<exists>S. bt_get (dg_column_slots g) c = Some S \<and> s |\<in>| S)) \<and>
     (\<forall>c S. bt_get (dg_column_slots g) c = Some S \<longrightarrow>
        (if T (cr_schema c)
         then (\<forall>s e. s |\<in>| S \<and> bt_get (doc_entities d) (fr_entity s) = Some e \<longrightarrow> T (ent_schema e))
         else S = column_slots_in d c \<and> (\<forall>s. s |\<in>| S \<longrightarrow> bt_get (dg_slot_columns g) s = Some c)))"

text \<open>\<open>R\<close> gives the readers of a column; a column with readers is tracked.\<close>

definition columns_inv ::
    "(schema_id \<Rightarrow> bool) \<Rightarrow> document \<Rightarrow> (column_ref \<Rightarrow> field_ref set) \<Rightarrow> dependency_graph \<Rightarrow> bool" where
  "columns_inv T d R g \<longleftrightarrow>
     inverts (dg_column_readers g) R \<and>
     (\<forall>c. bt_get (dg_column_slots g) c = None \<longleftrightarrow> R c = {}) \<and> slots_inv T d g"

lemma slots_invD:
  assumes "slots_inv T d g"
  shows "bt_get (dg_slot_columns g) s = Some c \<Longrightarrow> \<exists>S. bt_get (dg_column_slots g) c = Some S \<and> s |\<in>| S"
    "bt_get (dg_column_slots g) c = Some S \<Longrightarrow> T (cr_schema c) \<Longrightarrow> s |\<in>| S \<Longrightarrow>
       bt_get (doc_entities d) (fr_entity s) = Some e \<Longrightarrow> T (ent_schema e)"
    "bt_get (dg_column_slots g) c = Some S \<Longrightarrow> \<not> T (cr_schema c) \<Longrightarrow> S = column_slots_in d c"
    "bt_get (dg_column_slots g) c = Some S \<Longrightarrow> \<not> T (cr_schema c) \<Longrightarrow> s |\<in>| S \<Longrightarrow>
       bt_get (dg_slot_columns g) s = Some c"
  using assms unfolding slots_inv_def by (metis)+

lemma columns_invD:
  assumes "columns_inv T d R g"
  shows "inverts (dg_column_readers g) R" "bt_get (dg_column_slots g) c = None \<longleftrightarrow> R c = {}"
    "slots_inv T d g"
  using assms unfolding columns_inv_def by blast+

lemma bt_get_insert_all:
  "bt_get (bt_insert_all ks v m) k = (if k \<in> set ks then Some v else bt_get m k)"
  by (induction ks arbitrary: m) (auto simp: bt_insert_all_def)

lemma bt_get_remove_all:
  "bt_get (bt_remove_all ks m) k = (if k \<in> set ks then None else bt_get m k)"
  by (induction ks arbitrary: m) (auto simp: bt_remove_all_def)

lemma ensure_column_slots_fields [simp]:
  "dg_reference_uses (ensure_column_slots d col g) = dg_reference_uses g"
  "dg_column_uses (ensure_column_slots d col g) = dg_column_uses g"
  "dg_cell_readers (ensure_column_slots d col g) = dg_cell_readers g"
  "dg_column_readers (ensure_column_slots d col g) = dg_column_readers g"
  "dg_entity_schemas (ensure_column_slots d col g) = dg_entity_schemas g"
  by (simp_all add: ensure_column_slots_def Let_def)

lemma clear_column_fields [simp]:
  "dg_reference_uses (clear_column g col) = dg_reference_uses g"
  "dg_column_uses (clear_column g col) = dg_column_uses g"
  "dg_cell_readers (clear_column g col) = dg_cell_readers g"
  "dg_column_readers (clear_column g col) = dg_column_readers g"
  "dg_entity_schemas (clear_column g col) = dg_entity_schemas g"
  by (simp_all add: clear_column_def split: option.split)

text \<open>Two columns share no slot of one document.\<close>

lemma column_slots_disjoint:
  "s |\<in>| column_slots_in d a \<Longrightarrow> s |\<in>| column_slots_in d b \<Longrightarrow> a = b"
  by (cases a; cases b) (auto simp: in_column_slots)

text \<open>Making sure a column has its slots adds those of the current document.\<close>

lemma ensure_column_slots_slots:
  assumes inv: "slots_inv T d g"
  shows "slots_inv T d (ensure_column_slots d col g)"
    "bt_get (dg_column_slots (ensure_column_slots d col g)) c = None \<longleftrightarrow>
       c \<noteq> col \<and> bt_get (dg_column_slots g) c = None"
proof -
  show "bt_get (dg_column_slots (ensure_column_slots d col g)) c = None \<longleftrightarrow>
      c \<noteq> col \<and> bt_get (dg_column_slots g) c = None"
    by (auto simp: ensure_column_slots_def Let_def)
  note D = slots_invD [OF inv]
  show "slots_inv T d (ensure_column_slots d col g)"
  proof (cases "bt_get (dg_column_slots g) col")
    case (Some S)
    then show ?thesis using inv by (simp add: ensure_column_slots_def)
  next
    case None
    let ?S = "column_slots_in d col"
    let ?h = "ensure_column_slots d col g"
    have slots: "bt_get (dg_column_slots ?h) c = (if c = col then Some ?S else bt_get (dg_column_slots g) c)" for c
      using None by (simp add: ensure_column_slots_def Let_def)
    have cols: "bt_get (dg_slot_columns ?h) s = (if s |\<in>| ?S then Some col else bt_get (dg_slot_columns g) s)" for s
      using None by (simp add: ensure_column_slots_def Let_def bt_get_insert_all)
    have old: "bt_get (dg_slot_columns g) s = Some c \<Longrightarrow> c \<noteq> col" for s c
      using D(1) None by force
    have keep: "bt_get (dg_slot_columns ?h) s = Some c"
      if "bt_get (dg_column_slots g) c = Some S" "\<not> T (cr_schema c)" "s |\<in>| S" for c S s
      using that D(3) [OF that(1,2)] D(4) [OF that(1,2)] column_slots_disjoint None cols by auto
    show ?thesis
      unfolding slots_inv_def
    proof (intro conjI allI impI)
      fix s c
      assume "bt_get (dg_slot_columns ?h) s = Some c"
      then show "\<exists>S. bt_get (dg_column_slots ?h) c = Some S \<and> s |\<in>| S"
        using D(1) old by (auto simp: slots cols split: if_splits)
    next
      fix c S
      assume S: "bt_get (dg_column_slots ?h) c = Some S"
      show "if T (cr_schema c)
          then \<forall>s e. s |\<in>| S \<and> bt_get (doc_entities d) (fr_entity s) = Some e \<longrightarrow> T (ent_schema e)
          else S = column_slots_in d c \<and> (\<forall>s. s |\<in>| S \<longrightarrow> bt_get (dg_slot_columns ?h) s = Some c)"
      proof (cases "c = col")
        case True
        then show ?thesis using S by (auto simp: slots cols in_column_slots)
      next
        case False
        then have "bt_get (dg_column_slots g) c = Some S" using S slots by simp
        then show ?thesis using D(2,3) keep by auto
      qed
    qed
  qed
qed

lemma slots_inv_fields:
  "dg_column_slots g = dg_column_slots h \<Longrightarrow> dg_slot_columns g = dg_slot_columns h \<Longrightarrow>
   slots_inv T d g \<longleftrightarrow> slots_inv T d h"
  by (simp add: slots_inv_def)

lemma ensure_column_slots_inv:
  assumes inv: "columns_inv T d R g"
  shows "columns_inv T d (R(col := insert f (R col)))
    (ensure_column_slots d col (g\<lparr>dg_column_readers := set_add col f (dg_column_readers g)\<rparr>))"
proof -
  let ?g = "g\<lparr>dg_column_readers := set_add col f (dg_column_readers g)\<rparr>"
  note D = columns_invD [OF inv]
  have "slots_inv T d ?g" using D(3) slots_inv_fields [of ?g g] by simp
  note E = ensure_column_slots_slots [OF this, of col]
  have "bt_get (dg_column_slots (ensure_column_slots d col ?g)) c = None \<longleftrightarrow> (R(col := insert f (R col))) c = {}" for c
    unfolding E(2) using D(2) by simp
  then show ?thesis
    using inverts_set_add [OF D(1)] E(1) unfolding columns_inv_def by simp
qed

lemma clear_column_get:
  "bt_get (dg_column_slots (clear_column g col)) c =
     (if c = col then None else bt_get (dg_column_slots g) c)"
  "bt_get (dg_slot_columns (clear_column g col)) s =
     (if \<exists>S. bt_get (dg_column_slots g) col = Some S \<and> s |\<in>| S then None
      else bt_get (dg_slot_columns g) s)"
  by (cases "bt_get (dg_column_slots g) col"; simp add: clear_column_def bt_get_remove_all)+

text \<open>
  Forgetting one column's slots keeps those of the others: a column of an untouched schema
  shares no slot with it, whatever document the slots come from.
\<close>

lemma clear_column_other:
  assumes inv: "slots_inv T d g" and c: "c \<noteq> col" "bt_get (dg_column_slots g) c = Some S"
    "\<not> T (cr_schema c)" "s |\<in>| S"
  shows "bt_get (dg_slot_columns (clear_column g col)) s = Some c"
proof -
  note D = slots_invD [OF inv]
  have S: "S = column_slots_in d c" by (rule D(3) [OF c(2,3)])
  then have sch: "map_option ent_schema (bt_get (doc_entities d) (fr_entity s)) = Some (cr_schema c)"
    using c(4) by (simp add: in_column_slots)
  have "\<not> s |\<in>| S'" if "bt_get (dg_column_slots g) col = Some S'" for S'
  proof (cases "T (cr_schema col)")
    case True
    then show ?thesis using D(2) [OF that True, of s] sch c(3) by auto
  next
    case False
    then show ?thesis using D(3) [OF that False] S c(1,4) column_slots_disjoint by blast
  qed
  then show ?thesis using D(4) [OF c(2-4)] by (auto simp: clear_column_get)
qed

lemma clear_column_slots:
  assumes inv: "slots_inv T d g"
  shows "slots_inv T d (clear_column g col)"
proof -
  note D = slots_invD [OF inv]
  show ?thesis
    unfolding slots_inv_def
  proof (intro conjI allI impI)
    fix s c
    assume "bt_get (dg_slot_columns (clear_column g col)) s = Some c"
    then show "\<exists>S. bt_get (dg_column_slots (clear_column g col)) c = Some S \<and> s |\<in>| S"
      using D(1) [of s c] by (auto simp: clear_column_get split: if_splits)
  next
    fix c S
    assume "bt_get (dg_column_slots (clear_column g col)) c = Some S"
    then have c: "c \<noteq> col" "bt_get (dg_column_slots g) c = Some S"
      by (auto simp: clear_column_get split: if_splits)
    then show "if T (cr_schema c)
        then \<forall>s e. s |\<in>| S \<and> bt_get (doc_entities d) (fr_entity s) = Some e \<longrightarrow> T (ent_schema e)
        else S = column_slots_in d c \<and>
          (\<forall>s. s |\<in>| S \<longrightarrow> bt_get (dg_slot_columns (clear_column g col)) s = Some c)"
      using D(2,3) clear_column_other [OF inv c] by auto
  qed
qed

lemma clear_column_inv:
  assumes inv: "columns_inv T d R g" and "readers = R(col := {})" "inverts m readers"
  shows "columns_inv T d readers (clear_column (g\<lparr>dg_column_readers := m\<rparr>) col)"
proof -
  let ?g = "g\<lparr>dg_column_readers := m\<rparr>"
  note D = columns_invD [OF inv]
  have "slots_inv T d ?g" using D(3) slots_inv_fields [of ?g g] by simp
  then have "slots_inv T d (clear_column ?g col)" by (rule clear_column_slots)
  moreover have "bt_get (dg_column_slots (clear_column ?g col)) c = None \<longleftrightarrow> readers c = {}" for c
    using D(2) assms(2) by (simp add: clear_column_get)
  ultimately show ?thesis using assms(3) by (simp add: columns_inv_def)
qed

lemma drop_column_inv:
  assumes inv: "columns_inv T d R g"
  shows "columns_inv T d (R(col := R col - {f})) (drop_column f g col)"
proof -
  note D = columns_invD [OF inv]
  obtain m gone where drop: "set_drop col f (dg_column_readers g) = (m, gone)" by force
  note drop' = inverts_set_drop [OF D(1) drop]
  show ?thesis
  proof (cases gone)
    case True
    then have "R col - {f} = {}" using drop'(2) by blast
    then have "R(col := R col - {f}) = R(col := {})" by (simp only:)
    then show ?thesis
      using clear_column_inv [OF inv] drop'(1) True by (simp add: drop_column_def drop)
  next
    case False
    then have "R col - {f} = {} \<longleftrightarrow> R col = {}" using drop'(2) by auto
    then show ?thesis
      using D(2,3) drop'(1) False slots_inv_fields [of "drop_column f g col" g]
      by (simp add: columns_inv_def drop_column_def drop)
  qed
qed

section \<open>The graph of the uses\<close>

type_synonym uses = "field_ref \<Rightarrow> (field_ref fset \<times> column_ref fset) option"

definition cell_readers_of :: "uses \<Rightarrow> field_ref \<Rightarrow> field_ref set" where
  "cell_readers_of U r = {f. \<exists>refs cols. U f = Some (refs, cols) \<and> r |\<in>| refs}"

definition column_readers_of :: "uses \<Rightarrow> column_ref \<Rightarrow> field_ref set" where
  "column_readers_of U c = {f. \<exists>refs cols. U f = Some (refs, cols) \<and> c |\<in>| cols}"

definition graph_inv :: "(schema_id \<Rightarrow> bool) \<Rightarrow> document \<Rightarrow> uses \<Rightarrow> dependency_graph \<Rightarrow> bool" where
  "graph_inv T d U g \<longleftrightarrow>
     (\<forall>f. bt_get (dg_reference_uses g) f = map_option fst (U f)) \<and>
     (\<forall>f. bt_get (dg_column_uses g) f = map_option snd (U f)) \<and>
     inverts (dg_cell_readers g) (cell_readers_of U) \<and>
     columns_inv T d (column_readers_of U) g"

definition add_reader :: "('k \<Rightarrow> 'v set) \<Rightarrow> 'k set \<Rightarrow> 'v \<Rightarrow> 'k \<Rightarrow> 'v set" where
  "add_reader R ks f = (\<lambda>k. if k \<in> ks then insert f (R k) else R k)"

definition drop_reader :: "('k \<Rightarrow> 'v set) \<Rightarrow> 'k set \<Rightarrow> 'v \<Rightarrow> 'k \<Rightarrow> 'v set" where
  "drop_reader R ks f = (\<lambda>k. if k \<in> ks then R k - {f} else R k)"

lemma add_reader_step: "add_reader (R(k := insert f (R k))) ks f = add_reader R (insert k ks) f"
  by (auto simp: add_reader_def fun_eq_iff)

lemma drop_reader_step: "drop_reader (R(k := R k - {f})) ks f = drop_reader R (insert k ks) f"
  by (auto simp: drop_reader_def fun_eq_iff)

lemma readers_of_insert:
  "U f = None \<Longrightarrow> cell_readers_of (U(f \<mapsto> (refs, cols))) = add_reader (cell_readers_of U) (fset refs) f"
  "U f = None \<Longrightarrow> column_readers_of (U(f \<mapsto> (refs, cols))) = add_reader (column_readers_of U) (fset cols) f"
  by (auto simp: cell_readers_of_def column_readers_of_def add_reader_def fun_eq_iff)

lemma readers_of_remove:
  "U f = Some (refs, cols) \<Longrightarrow> cell_readers_of (U(f := None)) = drop_reader (cell_readers_of U) (fset refs) f"
  "U f = Some (refs, cols) \<Longrightarrow> column_readers_of (U(f := None)) = drop_reader (column_readers_of U) (fset cols) f"
  by (auto simp: cell_readers_of_def column_readers_of_def drop_reader_def fun_eq_iff)

lemma columns_inv_fields:
  "dg_column_readers g = dg_column_readers h \<Longrightarrow> dg_column_slots g = dg_column_slots h \<Longrightarrow>
   dg_slot_columns g = dg_slot_columns h \<Longrightarrow> columns_inv T d R g \<longleftrightarrow> columns_inv T d R h"
  by (simp add: columns_inv_def slots_inv_def)

subsection \<open>Adding a formula\<close>

lemma read_cells_fields [simp]:
  "dg_reference_uses (read_cells f refs g) = dg_reference_uses g"
  "dg_column_uses (read_cells f refs g) = dg_column_uses g"
  "dg_column_readers (read_cells f refs g) = dg_column_readers g"
  "dg_column_slots (read_cells f refs g) = dg_column_slots g"
  "dg_slot_columns (read_cells f refs g) = dg_slot_columns g"
  "dg_entity_schemas (read_cells f refs g) = dg_entity_schemas g"
proof -
  have "dg_reference_uses (foldl (\<lambda>g r. g\<lparr>dg_cell_readers := set_add r f (dg_cell_readers g)\<rparr>) g rs) = dg_reference_uses g \<and>
    dg_column_uses (foldl (\<lambda>g r. g\<lparr>dg_cell_readers := set_add r f (dg_cell_readers g)\<rparr>) g rs) = dg_column_uses g \<and>
    dg_column_readers (foldl (\<lambda>g r. g\<lparr>dg_cell_readers := set_add r f (dg_cell_readers g)\<rparr>) g rs) = dg_column_readers g \<and>
    dg_column_slots (foldl (\<lambda>g r. g\<lparr>dg_cell_readers := set_add r f (dg_cell_readers g)\<rparr>) g rs) = dg_column_slots g \<and>
    dg_slot_columns (foldl (\<lambda>g r. g\<lparr>dg_cell_readers := set_add r f (dg_cell_readers g)\<rparr>) g rs) = dg_slot_columns g \<and>
    dg_entity_schemas (foldl (\<lambda>g r. g\<lparr>dg_cell_readers := set_add r f (dg_cell_readers g)\<rparr>) g rs) = dg_entity_schemas g" for rs
    by (induction rs arbitrary: g) simp_all
  then show "dg_reference_uses (read_cells f refs g) = dg_reference_uses g"
    "dg_column_uses (read_cells f refs g) = dg_column_uses g"
    "dg_column_readers (read_cells f refs g) = dg_column_readers g"
    "dg_column_slots (read_cells f refs g) = dg_column_slots g"
    "dg_slot_columns (read_cells f refs g) = dg_slot_columns g"
    "dg_entity_schemas (read_cells f refs g) = dg_entity_schemas g"
    unfolding read_cells_def by blast+
qed

lemma read_cells_inverts:
  assumes "inverts (dg_cell_readers g) R"
  shows "inverts (dg_cell_readers (read_cells f refs g)) (add_reader R (fset refs) f)"
proof -
  have "inverts (dg_cell_readers g) R \<Longrightarrow>
      inverts (dg_cell_readers (foldl (\<lambda>g r. g\<lparr>dg_cell_readers := set_add r f (dg_cell_readers g)\<rparr>) g rs))
        (add_reader R (set rs) f)" for rs R
  proof (induction rs arbitrary: g R)
    case Nil
    then show ?case by (simp add: add_reader_def)
  next
    case (Cons r rs)
    then have "inverts (dg_cell_readers (g\<lparr>dg_cell_readers := set_add r f (dg_cell_readers g)\<rparr>)) (R(r := insert f (R r)))"
      using inverts_set_add by simp
    from Cons.IH [OF this, unfolded add_reader_step] show ?case by simp
  qed
  from this [OF assms, of "sorted_list_of_fset refs"] show ?thesis by (simp add: read_cells_def)
qed

lemma read_columns_inv:
  assumes "columns_inv T d R g"
  shows "columns_inv T d (add_reader R (fset cols) f) (read_columns d f cols g)"
    "dg_reference_uses (read_columns d f cols g) = dg_reference_uses g"
    "dg_column_uses (read_columns d f cols g) = dg_column_uses g"
    "dg_cell_readers (read_columns d f cols g) = dg_cell_readers g"
    "dg_entity_schemas (read_columns d f cols g) = dg_entity_schemas g"
proof -
  let ?step = "\<lambda>g col. ensure_column_slots d col
      (g\<lparr>dg_column_readers := set_add col f (dg_column_readers g)\<rparr>)"
  have "columns_inv T d R g \<Longrightarrow> columns_inv T d (add_reader R (set cs) f) (foldl ?step g cs) \<and>
      dg_reference_uses (foldl ?step g cs) = dg_reference_uses g \<and>
      dg_column_uses (foldl ?step g cs) = dg_column_uses g \<and>
      dg_cell_readers (foldl ?step g cs) = dg_cell_readers g \<and>
      dg_entity_schemas (foldl ?step g cs) = dg_entity_schemas g" for cs R
  proof (induction cs arbitrary: g R)
    case Nil
    then show ?case by (simp add: add_reader_def)
  next
    case (Cons c cs)
    from Cons.IH [OF ensure_column_slots_inv [OF Cons.prems, of c f], unfolded add_reader_step]
    show ?case by simp
  qed
  from this [OF assms, of "sorted_list_of_fset cols"]
  show "columns_inv T d (add_reader R (fset cols) f) (read_columns d f cols g)"
    "dg_reference_uses (read_columns d f cols g) = dg_reference_uses g"
    "dg_column_uses (read_columns d f cols g) = dg_column_uses g"
    "dg_cell_readers (read_columns d f cols g) = dg_cell_readers g"
    "dg_entity_schemas (read_columns d f cols g) = dg_entity_schemas g"
    by (simp_all add: read_columns_def)
qed

lemma insert_edges_inv:
  assumes inv: "graph_inv T d U g" and U: "U f = None"
  shows "graph_inv T d (U(f \<mapsto> (refs, cols))) (insert_edges d f refs cols g)"
    "dg_entity_schemas (insert_edges d f refs cols g) = dg_entity_schemas g"
proof -
  let ?g = "read_cells f refs g"
  have old: "columns_inv T d (column_readers_of U) ?g"
    using inv columns_inv_fields [of ?g g] by (simp add: graph_inv_def)
  note R = read_columns_inv [OF old, where f = f and cols = cols]
  have cells: "inverts (dg_cell_readers ?g) (add_reader (cell_readers_of U) (fset refs) f)"
    using inv by (intro read_cells_inverts) (simp add: graph_inv_def)
  show "dg_entity_schemas (insert_edges d f refs cols g) = dg_entity_schemas g"
    using R by (simp add: insert_edges_def Let_def)
  show "graph_inv T d (U(f \<mapsto> (refs, cols))) (insert_edges d f refs cols g)"
    unfolding graph_inv_def readers_of_insert [of U f refs cols, OF U]
    using inv R cells columns_inv_fields [of "insert_edges d f refs cols g" "read_columns d f cols ?g"]
    by (simp add: insert_edges_def Let_def graph_inv_def)
qed

subsection \<open>Removing a formula\<close>

lemma drop_cell_fields [simp]:
  "dg_reference_uses (drop_cell f g r) = dg_reference_uses g"
  "dg_column_uses (drop_cell f g r) = dg_column_uses g"
  "dg_column_readers (drop_cell f g r) = dg_column_readers g"
  "dg_column_slots (drop_cell f g r) = dg_column_slots g"
  "dg_slot_columns (drop_cell f g r) = dg_slot_columns g"
  "dg_entity_schemas (drop_cell f g r) = dg_entity_schemas g"
  by (simp_all add: drop_cell_def split: prod.split)

lemma drop_column_fields [simp]:
  "dg_reference_uses (drop_column f g c) = dg_reference_uses g"
  "dg_column_uses (drop_column f g c) = dg_column_uses g"
  "dg_cell_readers (drop_column f g c) = dg_cell_readers g"
  "dg_entity_schemas (drop_column f g c) = dg_entity_schemas g"
  by (simp_all add: drop_column_def split: prod.split)

lemma drop_cells_inv:
  assumes "inverts (dg_cell_readers g) R" "columns_inv T d S g"
  shows "inverts (dg_cell_readers (foldl (drop_cell f) g rs)) (drop_reader R (set rs) f) \<and>
    columns_inv T d S (foldl (drop_cell f) g rs) \<and>
    dg_reference_uses (foldl (drop_cell f) g rs) = dg_reference_uses g \<and>
    dg_column_uses (foldl (drop_cell f) g rs) = dg_column_uses g \<and>
    dg_entity_schemas (foldl (drop_cell f) g rs) = dg_entity_schemas g"
  using assms
proof (induction rs arbitrary: g R)
  case Nil
  then show ?case by (simp add: drop_reader_def)
next
  case (Cons r rs)
  obtain m gone where "set_drop r f (dg_cell_readers g) = (m, gone)" by force
  then have "inverts (dg_cell_readers (drop_cell f g r)) (R(r := R r - {f}))"
    using inverts_set_drop(1) [OF Cons.prems(1)] by (simp add: drop_cell_def)
  moreover have "columns_inv T d S (drop_cell f g r)"
    using Cons.prems(2) columns_inv_fields [of "drop_cell f g r" g] by simp
  ultimately show ?case
    using Cons.IH [of "drop_cell f g r", unfolded drop_reader_step]
    by (metis drop_cell_fields(1,2,6) drop_reader_step foldl_Cons list.simps(15))
qed

lemma drop_columns_inv:
  assumes "columns_inv T d R g"
  shows "columns_inv T d (drop_reader R (set cs) f) (foldl (drop_column f) g cs) \<and>
    dg_reference_uses (foldl (drop_column f) g cs) = dg_reference_uses g \<and>
    dg_column_uses (foldl (drop_column f) g cs) = dg_column_uses g \<and>
    dg_cell_readers (foldl (drop_column f) g cs) = dg_cell_readers g \<and>
    dg_entity_schemas (foldl (drop_column f) g cs) = dg_entity_schemas g"
  using assms
proof (induction cs arbitrary: g R)
  case Nil
  then show ?case by (simp add: drop_reader_def)
next
  case (Cons c cs)
  from Cons.IH [OF drop_column_inv [OF Cons.prems, of c f], unfolded drop_reader_step]
  show ?case by simp
qed

lemma remove_edges_inv:
  assumes inv: "graph_inv T d U g"
  shows "graph_inv T d (U(f := None)) (remove_edges f g) \<and>
    dg_entity_schemas (remove_edges f g) = dg_entity_schemas g"
proof (cases "U f")
  case None
  then have "remove_edges f g = g" "U(f := None) = U"
    using inv by (auto simp: remove_edges_def graph_inv_def)
  then show ?thesis using inv by simp
next
  case (Some u)
  obtain refs cols where u: "u = (refs, cols)" by force
  let ?g1 = "g\<lparr>dg_reference_uses := bt_remove f (dg_reference_uses g)\<rparr>"
  let ?g2 = "foldl (drop_cell f) ?g1 (sorted_list_of_fset refs)"
  let ?g3 = "?g2\<lparr>dg_column_uses := bt_remove f (dg_column_uses ?g2)\<rparr>"
  have c1: "columns_inv T d (column_readers_of U) ?g1" "inverts (dg_cell_readers ?g1) (cell_readers_of U)"
    using inv columns_inv_fields [of ?g1 g] by (simp_all add: graph_inv_def)
  note s2 = drop_cells_inv [OF c1(2,1), where f = f and rs = "sorted_list_of_fset refs"]
  have c3: "columns_inv T d (column_readers_of U) ?g3"
    using s2 columns_inv_fields [of ?g3 ?g2] by simp
  note s3 = drop_columns_inv [OF c3, where f = f and cs = "sorted_list_of_fset cols"]
  have uses: "bt_get (dg_reference_uses g) f = Some refs" "bt_get (dg_column_uses g) f = Some cols"
    using inv Some u by (simp_all add: graph_inv_def)
  then have eq: "remove_edges f g = foldl (drop_column f) ?g3 (sorted_list_of_fset cols)"
    using s2 by (simp add: remove_edges_def)
  have R: "cell_readers_of (U(f := None)) = drop_reader (cell_readers_of U) (fset refs) f"
    "column_readers_of (U(f := None)) = drop_reader (column_readers_of U) (fset cols) f"
    using readers_of_remove [of U f refs cols] Some u by simp_all
  have "bt_get (dg_reference_uses (remove_edges f g)) h = map_option fst ((U(f := None)) h)"
    "bt_get (dg_column_uses (remove_edges f g)) h = map_option snd ((U(f := None)) h)" for h
    using inv s2 s3 unfolding eq by (simp_all add: graph_inv_def)
  then show ?thesis
    using s2 s3 unfolding graph_inv_def R eq by simp
qed

lemma replace_formula_inv:
  assumes "graph_inv T d U g"
  shows "graph_inv T d (U(f := formula_uses d f)) (replace_formula d f g) \<and>
    dg_entity_schemas (replace_formula d f g) = dg_entity_schemas g"
proof -
  note r = remove_edges_inv [OF assms, of f]
  show ?thesis
  proof (cases "formula_uses d f")
    case None
    then show ?thesis using r by (simp add: replace_formula_def)
  next
    case (Some u)
    obtain refs cols where u: "u = (refs, cols)" by force
    have "graph_inv T d ((U(f := None))(f \<mapsto> (refs, cols))) (insert_edges d f refs cols (remove_edges f g)) \<and>
        dg_entity_schemas (insert_edges d f refs cols (remove_edges f g)) = dg_entity_schemas (remove_edges f g)"
      using insert_edges_inv [where T = T and d = d and U = "U(f := None)" and f = f] r by simp
    then show ?thesis using r Some u by (simp add: replace_formula_def)
  qed
qed

subsection \<open>Refreshing the touched columns\<close>

lemma clear_columns_get:
  "bt_get (dg_column_slots (foldl clear_column g cs)) c =
     (if c \<in> set cs then None else bt_get (dg_column_slots g) c)"
  "dg_column_readers (foldl clear_column g cs) = dg_column_readers g"
  "dg_reference_uses (foldl clear_column g cs) = dg_reference_uses g"
  "dg_column_uses (foldl clear_column g cs) = dg_column_uses g"
  "dg_cell_readers (foldl clear_column g cs) = dg_cell_readers g"
  "dg_entity_schemas (foldl clear_column g cs) = dg_entity_schemas g"
  by (induction cs arbitrary: g) (simp_all add: clear_column_get)

lemma clear_columns_slots: "slots_inv T d g \<Longrightarrow> slots_inv T d (foldl clear_column g cs)"
  by (induction cs arbitrary: g) (simp_all add: clear_column_slots)

abbreviation exact :: "schema_id \<Rightarrow> bool" where
  "exact \<equiv> \<lambda>s. False"

lemma slots_inv_exact:
  assumes "slots_inv T d g" "\<And>c. bt_get (dg_column_slots g) c \<noteq> None \<Longrightarrow> \<not> T (cr_schema c)"
  shows "slots_inv exact d g"
  using assms unfolding slots_inv_def by (metis option.distinct(1))

definition refill :: "document \<Rightarrow> dependency_graph \<Rightarrow> column_ref \<Rightarrow> dependency_graph" where
  "refill d g col = (if bt_contains (dg_column_readers g) col then ensure_column_slots d col g else g)"

lemma refill_fields [simp]:
  "dg_reference_uses (refill d g col) = dg_reference_uses g"
  "dg_column_uses (refill d g col) = dg_column_uses g"
  "dg_cell_readers (refill d g col) = dg_cell_readers g"
  "dg_column_readers (refill d g col) = dg_column_readers g"
  "dg_entity_schemas (refill d g col) = dg_entity_schemas g"
  by (simp_all add: refill_def)

lemma refill_columns:
  assumes "slots_inv T d g"
  shows "slots_inv T d (foldl (refill d) g cs) \<and>
    (\<forall>c. bt_get (dg_column_slots (foldl (refill d) g cs)) c = None \<longleftrightarrow>
       \<not> (c \<in> set cs \<and> bt_get (dg_column_readers g) c \<noteq> None) \<and> bt_get (dg_column_slots g) c = None) \<and>
    dg_reference_uses (foldl (refill d) g cs) = dg_reference_uses g \<and>
    dg_column_uses (foldl (refill d) g cs) = dg_column_uses g \<and>
    dg_cell_readers (foldl (refill d) g cs) = dg_cell_readers g \<and>
    dg_column_readers (foldl (refill d) g cs) = dg_column_readers g \<and>
    dg_entity_schemas (foldl (refill d) g cs) = dg_entity_schemas g"
  using assms
proof (induction cs arbitrary: g)
  case (Cons c cs)
  have "slots_inv T d (refill d g c)"
    using Cons.prems by (simp add: refill_def ensure_column_slots_slots)
  note IH = Cons.IH [OF this]
  have "bt_get (dg_column_slots (refill d g c)) k = None \<longleftrightarrow>
      \<not> (k = c \<and> bt_get (dg_column_readers g) k \<noteq> None) \<and> bt_get (dg_column_slots g) k = None" for k
    using ensure_column_slots_slots(2) [OF Cons.prems, of c k] by (auto simp: refill_def)
  then show ?case using IH by auto
qed simp

lemma refresh_inv:
  assumes inv: "graph_inv T d U g"
    and cols: "\<And>c. T (cr_schema c) \<Longrightarrow> bt_get (dg_column_slots g) c \<noteq> None \<Longrightarrow> c \<in> set cs"
  shows "graph_inv exact d U (refresh_column_slots d cs g) \<and>
    dg_entity_schemas (refresh_column_slots d cs g) = dg_entity_schemas g"
proof -
  let ?c = "foldl clear_column g cs"
  have inv': "inverts (dg_column_readers g) (column_readers_of U)"
    "\<And>c. bt_get (dg_column_slots g) c = None \<longleftrightarrow> column_readers_of U c = {}" "slots_inv T d g"
    using inv by (auto simp: graph_inv_def columns_inv_def)
  have "slots_inv exact d ?c"
  proof (rule slots_inv_exact [OF clear_columns_slots [OF inv'(3)]])
    fix c
    assume "bt_get (dg_column_slots ?c) c \<noteq> None"
    then have "c \<notin> set cs" "bt_get (dg_column_slots g) c \<noteq> None"
      by (simp_all add: clear_columns_get split: if_splits)
    then show "\<not> T (cr_schema c)" using cols by blast
  qed
  note R = refill_columns [OF this, of cs]
  have eq: "refresh_column_slots d cs g = foldl (refill d) ?c cs"
    by (simp add: refresh_column_slots_def refill_def [abs_def])
  have "bt_get (dg_column_slots (refresh_column_slots d cs g)) c = None \<longleftrightarrow> column_readers_of U c = {}" for c
    using R inv'(2) [of c] inverts_Some [OF inv'(1), of c] unfolding eq
    by (auto simp: clear_columns_get)
  then show ?thesis
    using inv R inv'(1) unfolding graph_inv_def columns_inv_def eq
    by (simp add: clear_columns_get)
qed

section \<open>The graph of a document\<close>

definition graph_of :: "document \<Rightarrow> dependency_graph \<Rightarrow> bool" where
  "graph_of d g \<longleftrightarrow>
     graph_inv exact d (formula_uses d) g \<and>
     (\<forall>i. bt_get (dg_entity_schemas g) i = map_option ent_schema (bt_get (doc_entities d) i))"

lemma graph_inv_slot_columns:
  assumes "graph_inv exact d U g"
  shows "bt_get (dg_slot_columns g) s = Some c \<longleftrightarrow> column_readers_of U c \<noteq> {} \<and> s |\<in>| column_slots_in d c"
    "bt_get (dg_column_slots g) c =
       (if column_readers_of U c = {} then None else Some (column_slots_in d c))"
proof -
  have i: "slots_inv exact d g" "bt_get (dg_column_slots g) c = None \<longleftrightarrow> column_readers_of U c = {}" for c
    using assms by (auto simp: graph_inv_def columns_inv_def)
  note D = slots_invD [OF i(1)]
  show slots: "bt_get (dg_column_slots g) c =
      (if column_readers_of U c = {} then None else Some (column_slots_in d c))" for c
    using D(3) [of c] i(2) [of c] by auto
  show "bt_get (dg_slot_columns g) s = Some c \<longleftrightarrow> column_readers_of U c \<noteq> {} \<and> s |\<in>| column_slots_in d c"
    using D(1) [of s c] D(4) [of c _ s] slots [of c] by (auto split: if_splits)
qed

text \<open>The invariant determines the graph.\<close>

lemma graph_of_unique:
  assumes g: "graph_of d g" and h: "graph_of d h"
  shows "g = h"
proof (rule dependency_graph.equality)
  have gi: "graph_inv exact d (formula_uses d) g" and hi: "graph_inv exact d (formula_uses d) h"
    using g h by (simp_all add: graph_of_def)
  show "dg_reference_uses g = dg_reference_uses h" "dg_column_uses g = dg_column_uses h"
    using gi hi by (auto simp: graph_inv_def intro: btree_eqI)
  show "dg_cell_readers g = dg_cell_readers h"
    by (rule inverts_unique [of _ "cell_readers_of (formula_uses d)"])
      (use gi hi in \<open>simp_all add: graph_inv_def\<close>)
  show "dg_column_readers g = dg_column_readers h"
    by (rule inverts_unique [of _ "column_readers_of (formula_uses d)"])
      (use gi hi in \<open>simp_all add: graph_inv_def columns_inv_def\<close>)
  show "dg_column_slots g = dg_column_slots h"
    using graph_inv_slot_columns(2) [OF gi] graph_inv_slot_columns(2) [OF hi]
    by (intro btree_eqI) simp
  show "dg_slot_columns g = dg_slot_columns h"
  proof (rule btree_eqI)
    fix s
    have "\<forall>c. bt_get (dg_slot_columns g) s = Some c \<longleftrightarrow> bt_get (dg_slot_columns h) s = Some c"
      using graph_inv_slot_columns(1) [OF gi] graph_inv_slot_columns(1) [OF hi] by blast
    then show "bt_get (dg_slot_columns g) s = bt_get (dg_slot_columns h) s"
      by (metis option.exhaust)
  qed
  show "dg_entity_schemas g = dg_entity_schemas h"
    using g h by (intro btree_eqI) (simp add: graph_of_def)
qed simp

section \<open>Building the graph\<close>

definition formula_nodes_of :: "document \<Rightarrow> formula_nodes \<Rightarrow> bool" where
  "formula_nodes_of d formulas \<longleftrightarrow>
     (\<forall>f. bt_get formulas f = (case calculation_value d f of Some (VFormula e) \<Rightarrow> Some e | _ \<Rightarrow> None))"

lemma formula_uses_nodes:
  "formula_nodes_of d formulas \<Longrightarrow>
   formula_uses d f = map_option (\<lambda>e. (direct_references f e, extract_column_totals e)) (bt_get formulas f)"
  by (auto simp: formula_nodes_of_def formula_uses_def split: option.split val.split)

lemma graph_inv_empty:
  "graph_inv exact d (\<lambda>f. None) (graph_empty\<lparr>dg_entity_schemas := m\<rparr>)"
  by (simp add: graph_inv_def graph_empty_def cell_readers_of_def column_readers_of_def inverts_def
      entry_of_def columns_inv_def slots_inv_def)

lemma insert_all_inv:
  assumes "graph_inv exact d U g" "distinct (map fst fs)" "\<forall>f\<in>set (map fst fs). U f = None"
  shows "graph_inv exact d
      (\<lambda>f. case map_of fs f of None \<Rightarrow> U f
           | Some e \<Rightarrow> Some (direct_references f e, extract_column_totals e))
      (foldl (\<lambda>g (f, e). insert_edges d f (direct_references f e) (extract_column_totals e) g) g fs) \<and>
    dg_entity_schemas (foldl (\<lambda>g (f, e). insert_edges d f (direct_references f e) (extract_column_totals e) g) g fs) =
      dg_entity_schemas g"
  using assms
proof (induction fs arbitrary: U g)
  case (Cons p fs)
  obtain f e where p: "p = (f, e)" by force
  let ?u = "(direct_references f e, extract_column_totals e)"
  let ?U = "U(f \<mapsto> ?u)"
  note step = insert_edges_inv [OF Cons.prems(1), of f "direct_references f e" "extract_column_totals e"]
  have U: "U f = None" using Cons.prems(3) p by simp
  have fresh: "map_of fs f = None" using Cons.prems(2) p by (simp add: map_of_eq_None_iff)
  have "(\<lambda>h. case map_of fs h of None \<Rightarrow> ?U h | Some e \<Rightarrow> Some (direct_references h e, extract_column_totals e)) =
    (\<lambda>h. case map_of (p # fs) h of None \<Rightarrow> U h | Some e \<Rightarrow> Some (direct_references h e, extract_column_totals e))"
    using fresh by (auto simp: fun_eq_iff p split: option.split)
  moreover have "\<forall>h\<in>set (map fst fs). ?U h = None" using Cons.prems(2,3) p by auto
  moreover have "distinct (map fst fs)" using Cons.prems(2) by simp
  ultimately show ?case using Cons.IH [OF step(1) [OF U]] step(2) [OF U] by (simp add: p)
qed simp

lemma graph_new_of:
  assumes "formula_nodes_of d formulas"
  shows "graph_of d (graph_new d formulas)"
proof -
  let ?m = "foldl (\<lambda>m (i, e). bt_insert i (ent_schema e) m) bt_empty (bt_entries (doc_entities d))"
  have fold: "foldl (\<lambda>m (i, e). bt_insert i (ent_schema e) m) m xs =
      foldl (\<lambda>m (k, v). bt_insert k v m) m (map (\<lambda>(i, e). (i, ent_schema e)) xs)"
    for m and xs :: "(entity_id \<times> entity) list"
    by (induction xs arbitrary: m) auto
  have "distinct (map fst (map (\<lambda>(i, e). (i, ent_schema e)) (bt_entries (doc_entities d))))"
    using bt_entries_distinct [of "doc_entities d"] by (simp add: comp_def case_prod_beta)
  note get = bt_get_foldl_insert [OF this, of bt_empty]
  have map_of: "map_of (map (\<lambda>(i, e). (i, ent_schema e)) xs) i = map_option ent_schema (map_of xs i)"
    for i and xs :: "(entity_id \<times> entity) list"
    by (induction xs) auto
  have schemas: "bt_get ?m i = map_option ent_schema (bt_get (doc_entities d) i)" for i
    unfolding fold get map_of bt_get_empty unfolding bt_get_def by (simp split: option.split)
  have U: "formula_uses d = (\<lambda>f. case map_of (bt_entries formulas) f of None \<Rightarrow> None
      | Some e \<Rightarrow> Some (direct_references f e, extract_column_totals e))"
    using formula_uses_nodes [OF assms] by (auto simp: fun_eq_iff bt_get_def split: option.split)
  show ?thesis
    unfolding graph_of_def U graph_new_def
    using insert_all_inv [OF graph_inv_empty [of d ?m], of "bt_entries formulas"] schemas
    by simp
qed

end
