(* ===== verification/GraphUpdate.thy ===== *)
theory GraphUpdate
  imports GraphInvariant
begin

text \<open>
  The calculation nodes of a document and the graph they make, and what the graph answers: its
  dependencies are those extracted from the formulas, its dependents are their inverse, its
  reverse closure is reachability, and following the changed roots of an edited document gives
  the graph a rebuild would give.
\<close>

section \<open>Collecting the calculation nodes\<close>

type_synonym value_nodes = "(field_ref, val) btree"

definition collect_value ::
    "entity_id \<Rightarrow> value_nodes \<times> formula_nodes \<Rightarrow> field_id \<times> val \<Rightarrow> value_nodes \<times> formula_nodes" where
  "collect_value i st kv =
     (case (st, kv) of ((nodes, formulas), (k, v)) \<Rightarrow>
      if is_calculation v
      then (bt_insert (FieldRef i k) v nodes,
            case v of VFormula e \<Rightarrow> bt_insert (FieldRef i k) e formulas | _ \<Rightarrow> formulas)
      else (nodes, formulas))"

definition collect_calculation_nodes ::
    "document \<Rightarrow> value_nodes \<times> formula_nodes \<times> dependency_graph" where
  "collect_calculation_nodes d =
     (case foldl (\<lambda>st (i, e). foldl (collect_value i) st (bt_entries (ent_fields e)))
         (bt_empty, bt_empty) (bt_entries (doc_entities d)) of
        (nodes, formulas) \<Rightarrow> (nodes, formulas, graph_new d formulas))"

definition formula_of :: "val \<Rightarrow> expression option" where
  "formula_of v = (case v of VFormula e \<Rightarrow> Some e | _ \<Rightarrow> None)"

lemma formula_is_calculation: "formula_of v = Some e \<Longrightarrow> is_calculation v"
  by (simp add: formula_of_def is_calculation_def split: val.splits)

text \<open>The formula in a slot, if it holds one.\<close>

definition formula_at :: "document \<Rightarrow> field_ref \<Rightarrow> expression option" where
  "formula_at d f = Option.bind (calculation_value d f) formula_of"

lemma formula_uses_at:
  "formula_uses d f = map_option (\<lambda>e. (direct_references f e, extract_column_totals e)) (formula_at d f)"
  by (cases "calculation_value d f") (auto simp: formula_uses_def formula_at_def formula_of_def split: val.split)

lemma collect_value_get:
  assumes "collect_value i (n, fs) (k, v) = (n', fs')"
  shows "bt_get n' r = (if r = FieldRef i k \<and> is_calculation v then Some v else bt_get n r)"
    "bt_get fs' r = (if r = FieldRef i k \<and> formula_of v \<noteq> None then formula_of v else bt_get fs r)"
  using assms formula_is_calculation [of v]
  by (auto simp: collect_value_def formula_of_def split: if_splits val.splits)

lemma collect_values_get:
  "foldl (collect_value i) (n, fs) xs = (n', fs') \<Longrightarrow> distinct (map fst xs) \<Longrightarrow>
   bt_get n' r = (if fr_entity r = i
     then (case map_of xs (fr_field r) of
             Some v \<Rightarrow> if is_calculation v then Some v else bt_get n r | None \<Rightarrow> bt_get n r)
     else bt_get n r) \<and>
   bt_get fs' r = (if fr_entity r = i
     then (case map_of xs (fr_field r) of
             Some v \<Rightarrow> if formula_of v \<noteq> None then formula_of v else bt_get fs r | None \<Rightarrow> bt_get fs r)
     else bt_get fs r)"
proof (induction xs arbitrary: n fs)
  case (Cons x xs)
  obtain k v where x: "x = (k, v)" by force
  obtain n1 fs1 where one: "collect_value i (n, fs) (k, v) = (n1, fs1)" by force
  have "foldl (collect_value i) (n1, fs1) xs = (n', fs')" "distinct (map fst xs)"
    using Cons.prems by (simp_all add: x one)
  note IH = Cons.IH [OF this]
  have "map_of xs k = None" using Cons.prems(2) x by (simp add: map_of_eq_None_iff)
  then show ?case
    unfolding IH [THEN conjunct1] IH [THEN conjunct2] collect_value_get [OF one] x
    by (cases r) (auto split: option.split)
qed simp

lemma collect_entities_get:
  "foldl (\<lambda>st (i, e). foldl (collect_value i) st (bt_entries (ent_fields e))) (n, fs) es = (n', fs') \<Longrightarrow>
   distinct (map fst es) \<Longrightarrow> \<forall>r. fr_entity r \<in> fst ` set es \<longrightarrow> bt_get n r = None \<and> bt_get fs r = None \<Longrightarrow>
   bt_get n' r = (case map_of es (fr_entity r) of
       None \<Rightarrow> bt_get n r
     | Some e \<Rightarrow> (case bt_get (ent_fields e) (fr_field r) of
           Some v \<Rightarrow> if is_calculation v then Some v else None | None \<Rightarrow> None)) \<and>
   bt_get fs' r = (case map_of es (fr_entity r) of
       None \<Rightarrow> bt_get fs r
     | Some e \<Rightarrow> (case bt_get (ent_fields e) (fr_field r) of Some v \<Rightarrow> formula_of v | None \<Rightarrow> None))"
proof (induction es arbitrary: n fs)
  case (Cons x es)
  obtain i e where x: "x = (i, e)" by force
  obtain n1 fs1 where one: "foldl (collect_value i) (n, fs) (bt_entries (ent_fields e)) = (n1, fs1)" by force
  note get = collect_values_get [OF one bt_entries_distinct]
  have "\<forall>r. fr_entity r \<in> fst ` set es \<longrightarrow> bt_get n1 r = None \<and> bt_get fs1 r = None"
    using Cons.prems(2,3) get x by auto
  moreover have "foldl (\<lambda>st (i, e). foldl (collect_value i) st (bt_entries (ent_fields e))) (n1, fs1) es = (n', fs')"
    using Cons.prems(1) by (simp add: x one)
  moreover have "distinct (map fst es)" using Cons.prems(2) by simp
  ultimately have IH: "bt_get n' r = (case map_of es (fr_entity r) of
       None \<Rightarrow> bt_get n1 r
     | Some e \<Rightarrow> (case bt_get (ent_fields e) (fr_field r) of
           Some v \<Rightarrow> if is_calculation v then Some v else None | None \<Rightarrow> None))"
   "bt_get fs' r = (case map_of es (fr_entity r) of
       None \<Rightarrow> bt_get fs1 r
     | Some e \<Rightarrow> (case bt_get (ent_fields e) (fr_field r) of Some v \<Rightarrow> formula_of v | None \<Rightarrow> None))"
    using Cons.IH by blast+
  have "bt_get n r = None \<and> bt_get fs r = None" if "fr_entity r = i"
    using Cons.prems(3) that x by simp
  moreover have "map_of es i = None" using Cons.prems(2) x by (simp add: map_of_eq_None_iff)
  ultimately show ?case
    unfolding IH get [THEN conjunct1] get [THEN conjunct2] x
    by (auto simp: bt_get_def split: option.split)
qed simp

lemma collect_calculation_nodes_get:
  assumes "collect_calculation_nodes d = (nodes, formulas, g)"
  shows "bt_get nodes f = calculation_value d f"
    "bt_get formulas f = formula_at d f"
    "g = graph_new d formulas"
proof -
  obtain n fs where c: "foldl (\<lambda>st (i, e). foldl (collect_value i) st (bt_entries (ent_fields e)))
         (bt_empty, bt_empty) (bt_entries (doc_entities d)) = (n, fs)" by force
  then have eq: "n = nodes" "fs = formulas" and g: "g = graph_new d formulas"
    using assms unfolding collect_calculation_nodes_def c by auto
  note get = collect_entities_get [OF c bt_entries_distinct, simplified]
  show "bt_get nodes f = calculation_value d f"
    unfolding eq [symmetric] get [THEN conjunct1] calculation_value_def
    by (simp add: bt_get_def [of "doc_entities d"] split: option.split)
  show "bt_get formulas f = formula_at d f"
    unfolding eq [symmetric] get [THEN conjunct2] calculation_value_def formula_at_def
    using formula_is_calculation
    by (auto simp: bt_get_def [of "doc_entities d"] split: option.split) (metis not_Some_eq)
  show "g = graph_new d formulas" by (rule g)
qed

definition document_graph :: "document \<Rightarrow> dependency_graph" where
  "document_graph d = snd (snd (collect_calculation_nodes d))"

lemma document_graph_of: "graph_of d (document_graph d)"
proof -
  obtain nodes formulas g where c: "collect_calculation_nodes d = (nodes, formulas, g)" by (metis prod_cases3)
  note get = collect_calculation_nodes_get [OF c]
  have "formula_nodes_of d formulas"
    unfolding formula_nodes_of_def get(2) formula_at_def
    by (auto simp: formula_of_def split: option.split val.split)
  then show ?thesis using graph_new_of get(3) by (simp add: document_graph_def c)
qed

section \<open>What the graph answers\<close>

lemma foldl_funion: "fset (foldl (\<lambda>deps c. deps |\<union>| h c) s cs) = fset s \<union> (\<Union>c\<in>set cs. fset (h c))"
  by (induction cs arbitrary: s) auto

lemma foldl_if_finsert:
  "fset (foldl (\<lambda>deps x. if P x then finsert (h x) deps else deps) s xs) = fset s \<union> h ` {x \<in> set xs. P x}"
  by (induction xs arbitrary: s) auto

lemma fset_extract_dependencies:
  "fset (extract_dependencies d f e) =
     fset (direct_references f e) \<union> (\<Union>c\<in>set (column_totals e). fset (column_slots_in d c))"
proof -
  have "fset (foldl (\<lambda>deps (i, x). if ent_schema x = cr_schema c then finsert (FieldRef i (cr_field c)) deps
        else deps) s xs) =
      fset s \<union> (\<lambda>(i, x). FieldRef i (cr_field c)) ` {p \<in> set xs. ent_schema (snd p) = cr_schema c}"
    for s c and xs :: "(entity_id \<times> entity) list"
    using foldl_if_finsert [of "\<lambda>p. ent_schema (snd p) = cr_schema c" "\<lambda>p. FieldRef (fst p) (cr_field c)" s xs]
    by (simp add: case_prod_beta')
  then have inner: "foldl (\<lambda>deps (i, x). if ent_schema x = cr_schema c
        then finsert (FieldRef i (cr_field c)) deps else deps) s (bt_entries (doc_entities d)) =
      s |\<union>| column_slots_in d c" for s c
    by (intro fset_cong [THEN iffD1])
      (auto simp: column_slots_in_def fset_of_list.rep_eq case_prod_beta')
  show ?thesis
    unfolding extract_dependencies_def inner by (rule foldl_funion)
qed

lemma dependencies_of_graph:
  assumes "graph_of d g"
  shows "dependencies_of g f = map_option (extract_dependencies d f) (formula_at d f)"
proof (cases "formula_at d f")
  case None
  have "bt_get (dg_reference_uses g) f = map_option fst (formula_uses d f)"
    using assms by (simp add: graph_of_def graph_inv_def)
  then show ?thesis
    using None by (simp add: dependencies_of_def formula_uses_at)
next
  case (Some e)
  let ?u = "(direct_references f e, extract_column_totals e)"
  have inv: "graph_inv exact d (formula_uses d) g" using assms by (simp add: graph_of_def)
  then have get: "bt_get (dg_reference_uses g) f = Some (fst ?u)" "bt_get (dg_column_uses g) f = Some (snd ?u)"
    using Some by (simp_all add: graph_inv_def formula_uses_at)
  have "set_at (dg_column_slots g) c = column_slots_in d c" if "c |\<in>| snd ?u" for c
  proof -
    have "f \<in> column_readers_of (formula_uses d) c"
      using Some that by (auto simp: column_readers_of_def formula_uses_at)
    then show ?thesis using graph_inv_slot_columns(2) [OF inv, of c] by (auto simp: set_at_def)
  qed
  then have "fset (foldl (\<lambda>deps col. deps |\<union>| set_at (dg_column_slots g) col) (fst ?u)
      (sorted_list_of_fset (snd ?u))) = fset (extract_dependencies d f e)"
    unfolding foldl_funion fset_extract_dependencies
    by (simp add: extract_column_totals_def fset_of_list.rep_eq)
  then have "foldl (\<lambda>deps col. deps |\<union>| set_at (dg_column_slots g) col) (fst ?u)
      (sorted_list_of_fset (snd ?u)) = extract_dependencies d f e"
    by (rule fset_cong [THEN iffD1])
  then show ?thesis
    by (simp add: dependencies_of_def get set_at_def [of "dg_column_uses g"] Some)
qed

lemma direct_dependents_graph:
  assumes "graph_of d g"
  shows "f |\<in>| direct_dependents g x \<longleftrightarrow> (\<exists>deps. dependencies_of g f = Some deps \<and> x |\<in>| deps)"
proof -
  have inv: "graph_inv exact d (formula_uses d) g" using assms by (simp add: graph_of_def)
  then have cells: "fset (set_at (dg_cell_readers g) x) = cell_readers_of (formula_uses d) x"
    and cols: "fset (set_at (dg_column_readers g) c) = column_readers_of (formula_uses d) c" for c
    using inverts_set_at by (auto simp: graph_inv_def columns_inv_def)
  have column: "f \<in> fset (case bt_get (dg_slot_columns g) x of None \<Rightarrow> {||} | Some c \<Rightarrow> set_at (dg_column_readers g) c)
      \<longleftrightarrow> (\<exists>c. x |\<in>| column_slots_in d c \<and> f \<in> column_readers_of (formula_uses d) c)"
    (is "?l \<longleftrightarrow> ?r")
  proof
    assume ?l
    then obtain c where "bt_get (dg_slot_columns g) x = Some c" "f \<in> column_readers_of (formula_uses d) c"
      using cols by (auto split: option.splits)
    then show ?r using graph_inv_slot_columns(1) [OF inv] by blast
  next
    assume ?r
    then obtain c where c: "x |\<in>| column_slots_in d c" "f \<in> column_readers_of (formula_uses d) c" by blast
    then have "bt_get (dg_slot_columns g) x = Some c" using graph_inv_slot_columns(1) [OF inv] by blast
    then show ?l using c(2) cols by simp
  qed
  have "f |\<in>| direct_dependents g x \<longleftrightarrow> f \<in> cell_readers_of (formula_uses d) x \<or> ?r"
    using cells column unfolding direct_dependents_def by auto
  also have "\<dots> \<longleftrightarrow> (\<exists>refs cols. formula_uses d f = Some (refs, cols) \<and>
      (x |\<in>| refs \<or> (\<exists>c. c |\<in>| cols \<and> x |\<in>| column_slots_in d c)))"
    by (auto simp: cell_readers_of_def column_readers_of_def)
  also have "\<dots> \<longleftrightarrow> (\<exists>e. formula_at d f = Some e \<and> x |\<in>| extract_dependencies d f e)"
    unfolding fset_extract_dependencies
    by (auto simp: formula_uses_at extract_column_totals_def fset_of_list.rep_eq)
  also have "\<dots> \<longleftrightarrow> (\<exists>deps. dependencies_of g f = Some deps \<and> x |\<in>| deps)"
    unfolding dependencies_of_graph [OF assms] by auto
  finally show ?thesis .
qed

section \<open>Following the changed roots\<close>

text \<open>
  What an edit may change: the schema of a row only when some root is on the row, and the
  formula of a slot only when the slot is a root.
\<close>

definition schema_at :: "document \<Rightarrow> entity_id \<Rightarrow> schema_id option" where
  "schema_at d i = map_option ent_schema (bt_get (doc_entities d) i)"

definition changes_covered :: "document \<Rightarrow> document \<Rightarrow> field_ref set \<Rightarrow> bool" where
  "changes_covered d0 d roots \<longleftrightarrow>
     {i. schema_at d0 i \<noteq> schema_at d i} \<subseteq> fr_entity ` roots \<and>
     {f. formula_uses d0 f \<noteq> formula_uses d f} \<subseteq> roots"

definition entities_keyed :: "document \<Rightarrow> bool" where
  "entities_keyed d \<longleftrightarrow> list_all (\<lambda>(i, e). ent_id e = i) (bt_entries (doc_entities d))"

lemma entities_keyedD: "entities_keyed d \<Longrightarrow> bt_get (doc_entities d) i = Some e \<Longrightarrow> ent_id e = i"
  unfolding entities_keyed_def list_all_iff bt_get_eq_Some by auto

lemma touched_ok_at:
  "touched_ok T d0 d \<longleftrightarrow>
     (\<forall>i. schema_at d0 i = schema_at d i \<or>
        (\<forall>s. schema_at d0 i = Some s \<longrightarrow> T s) \<and> (\<forall>s. schema_at d i = Some s \<longrightarrow> T s))"
  unfolding touched_ok_def schema_at_def by (intro iff_allI) auto

lemma in_column_slots_at:
  "s |\<in>| column_slots_in d c \<longleftrightarrow>
     fr_field s = cr_field c \<and> schema_at d (fr_entity s) = Some (cr_schema c)"
  unfolding in_column_slots schema_at_def ..

lemma graph_inv_touched:
  assumes inv: "graph_inv exact d0 U g" and ok: "touched_ok T d0 d"
  shows "graph_inv T d U g"
proof -
  have "slots_inv exact d0 g" using inv by (simp add: graph_inv_def columns_inv_def)
  note D = slots_invD [OF this, simplified]
  have same: "column_slots_in d0 c = column_slots_in d c" if "\<not> T (cr_schema c)" for c
  proof -
    have "s |\<in>| column_slots_in d0 c \<longleftrightarrow> s |\<in>| column_slots_in d c" for s
      using ok that unfolding in_column_slots_at touched_ok_at by metis
    then show ?thesis by blast
  qed
  have "slots_inv T d g"
    unfolding slots_inv_def
  proof (intro conjI allI impI)
    fix s c assume "bt_get (dg_slot_columns g) s = Some c"
    then show "\<exists>S. bt_get (dg_column_slots g) c = Some S \<and> s |\<in>| S" by (rule D(1))
  next
    fix c S assume S: "bt_get (dg_column_slots g) c = Some S"
    have "T (ent_schema e)" if "T (cr_schema c)" "s |\<in>| S" "bt_get (doc_entities d) (fr_entity s) = Some e" for s e
    proof -
      have "schema_at d0 (fr_entity s) = Some (cr_schema c)"
        using D(3) [OF S] that(2) by (simp add: in_column_slots_at)
      moreover have "schema_at d (fr_entity s) = Some (ent_schema e)" using that(3) by (simp add: schema_at_def)
      ultimately show ?thesis using ok that(1) unfolding touched_ok_at by (metis option.inject)
    qed
    then show "if T (cr_schema c)
        then \<forall>s e. s |\<in>| S \<and> bt_get (doc_entities d) (fr_entity s) = Some e \<longrightarrow> T (ent_schema e)
        else S = column_slots_in d c \<and> (\<forall>s. s |\<in>| S \<longrightarrow> bt_get (dg_slot_columns g) s = Some c)"
      using D(3) [OF S] D(4) [OF S] same [of c] by (cases "T (cr_schema c)") auto
  qed
  then show ?thesis using inv by (simp add: graph_inv_def columns_inv_def)
qed

lemma remember_entity_get:
  assumes "entities_keyed d"
  shows "bt_get (dg_entity_schemas (remember_entity d i g)) j =
      (if j = i \<and> schema_at d i \<noteq> None then schema_at d i else bt_get (dg_entity_schemas g) j)"
    "graph_inv T d U (remember_entity d i g) \<longleftrightarrow> graph_inv T d U g"
  using entities_keyedD [OF assms]
  by (auto simp: remember_entity_def schema_at_def graph_inv_def columns_inv_def slots_inv_def
      split: option.split)

lemma in_schemas_of:
  "s \<in> set (schemas_of d i g) \<longleftrightarrow> bt_get (dg_entity_schemas g) i = Some s \<or> schema_at d i = Some s"
  by (cases "bt_get (dg_entity_schemas g) i"; cases "bt_get (doc_entities d) i")
    (auto simp: schemas_of_def schema_at_def)

lemma root_steps:
  assumes keyed: "entities_keyed d"
  shows "foldl (root_step d) (g, t) roots = (g', t') \<Longrightarrow> graph_inv T d U g \<Longrightarrow>
    graph_inv T d (\<lambda>f. if f \<in> set roots then formula_uses d f else U f) g' \<and>
    (\<forall>i. bt_get (dg_entity_schemas g') i =
       (if i \<in> fr_entity ` set roots \<and> schema_at d i \<noteq> None then schema_at d i
        else bt_get (dg_entity_schemas g) i)) \<and>
    t |\<subseteq>| t' \<and>
    (\<forall>i s. i \<in> fr_entity ` set roots \<and> s \<in> set (schemas_of d i g) \<longrightarrow> s |\<in>| t')"
proof (induction roots arbitrary: g t U)
  case (Cons r roots)
  let ?i = "fr_entity r"
  let ?g = "replace_formula d r (remember_entity d ?i g)" and ?t = "t |\<union>| fset_of_list (schemas_of d ?i g)"
  let ?U = "U(r := formula_uses d r)"
  have step: "graph_inv T d ?U ?g" "dg_entity_schemas ?g = dg_entity_schemas (remember_entity d ?i g)"
    using replace_formula_inv [of T d U "remember_entity d ?i g" r] Cons.prems(2)
    by (simp_all add: remember_entity_get(2) [OF keyed])
  have get: "bt_get (dg_entity_schemas ?g) j =
      (if j = ?i \<and> schema_at d ?i \<noteq> None then schema_at d ?i else bt_get (dg_entity_schemas g) j)" for j
    by (simp add: step(2) remember_entity_get(1) [OF keyed])
  have "foldl (root_step d) (?g, ?t) roots = (g', t')" using Cons.prems(1) root_step_def [of d "(g, t)" r] by simp
  from Cons.IH [OF this step(1)]
  have IH: "graph_inv T d (\<lambda>f. if f \<in> set roots then formula_uses d f else ?U f) g'"
    "\<And>i. bt_get (dg_entity_schemas g') i =
       (if i \<in> fr_entity ` set roots \<and> schema_at d i \<noteq> None then schema_at d i
        else bt_get (dg_entity_schemas ?g) i)" "?t |\<subseteq>| t'"
    "\<And>i s. i \<in> fr_entity ` set roots \<Longrightarrow> s \<in> set (schemas_of d i ?g) \<Longrightarrow> s |\<in>| t'"
    by blast+
  have "(\<lambda>f. if f \<in> set roots then formula_uses d f else ?U f) =
      (\<lambda>f. if f \<in> set (r # roots) then formula_uses d f else U f)" by (auto simp: fun_eq_iff)
  moreover have "s |\<in>| t'" if "i \<in> fr_entity ` set (r # roots)" "s \<in> set (schemas_of d i g)" for i s
  proof (cases "i = ?i")
    case True
    then have "s |\<in>| ?t" using that(2) by (simp add: fset_of_list_elem)
    then show ?thesis using IH(3) by blast
  next
    case False
    then show ?thesis using that IH(4) [of i s] get [of i] by (auto simp: in_schemas_of)
  qed
  ultimately show ?case using IH(1,2,3) get by auto
qed auto

definition forget_gone :: "document \<Rightarrow> dependency_graph \<Rightarrow> field_ref \<Rightarrow> dependency_graph" where
  "forget_gone d g root =
     (if bt_contains (doc_entities d) (fr_entity root) then g else forget_entity (fr_entity root) g)"

lemma forget_gone_get:
  "graph_inv T d U (forget_gone d g r) \<longleftrightarrow> graph_inv T d U g"
  "bt_get (dg_entity_schemas (forget_gone d g r)) i =
     (if i = fr_entity r \<and> schema_at d i = None then None else bt_get (dg_entity_schemas g) i)"
  by (auto simp: forget_gone_def forget_entity_def graph_inv_def columns_inv_def slots_inv_def
      bt_contains_def schema_at_def)

lemma forget_entities_inv: "graph_inv T d U (foldl (forget_gone d) g roots) \<longleftrightarrow> graph_inv T d U g"
  by (induction roots arbitrary: g) (simp_all add: forget_gone_get)

lemma forget_entities_get:
  "bt_get (dg_entity_schemas (foldl (forget_gone d) g roots)) i =
     (if i \<in> fr_entity ` set roots \<and> schema_at d i = None then None
      else bt_get (dg_entity_schemas g) i)"
  by (induction roots arbitrary: g) (auto simp: forget_gone_get)

lemma update_graph_of:
  assumes g: "graph_of d0 g" and keyed: "entities_keyed d" and cov: "changes_covered d0 d (set roots)"
  shows "graph_of d (update_graph d roots g)"
proof -
  obtain g1 t1 where one: "foldl (root_step d) (g, {||}) roots = (g1, t1)" by force
  let ?T = "\<lambda>s. s |\<in>| t1"
  let ?cols = "filter (\<lambda>c. cr_schema c |\<in>| t1) (tracked_columns g1)"
  let ?g2 = "refresh_column_slots d ?cols g1"
  let ?U = "\<lambda>f. if f \<in> set roots then formula_uses d f else formula_uses d0 f"
  have inv: "graph_inv exact d0 (formula_uses d0) g"
    and es: "bt_get (dg_entity_schemas g) i = schema_at d0 i" for i
    using g by (auto simp: graph_of_def schema_at_def)
  have outside: "schema_at d0 i = schema_at d i" if "i \<notin> fr_entity ` set roots" for i
    using cov that by (auto simp: changes_covered_def)
  have U: "?U = formula_uses d" using cov by (auto simp: changes_covered_def fun_eq_iff)
  have "touched_ok (\<lambda>s. True) d0 d" by (simp add: touched_ok_def)
  note all = root_steps [OF keyed one graph_inv_touched [OF inv this],
      THEN conjunct2, THEN conjunct2, THEN conjunct2, rule_format]
  have touched: "s |\<in>| t1" if "i \<in> fr_entity ` set roots" "schema_at d0 i = Some s \<or> schema_at d i = Some s"
    for i s
    using all [of i s] that by (simp add: in_schemas_of es)
  have "touched_ok ?T d0 d"
    unfolding touched_ok_at using outside touched by blast
  from root_steps [OF keyed one graph_inv_touched [OF inv this]]
  have inv1: "graph_inv ?T d (formula_uses d) g1"
    and es1: "bt_get (dg_entity_schemas g1) i =
       (if i \<in> fr_entity ` set roots \<and> schema_at d i \<noteq> None then schema_at d i else schema_at d0 i)" for i
    unfolding U es by blast+
  have refreshed: "graph_inv exact d (formula_uses d) ?g2 \<and> dg_entity_schemas ?g2 = dg_entity_schemas g1"
    by (rule refresh_inv [OF inv1]) (simp add: tracked_columns_def set_bt_keys)
  have eq: "update_graph d roots g = foldl (forget_gone d) ?g2 roots"
    unfolding update_graph_def one Let_def forget_gone_def [abs_def] by simp
  have "bt_get (dg_entity_schemas (update_graph d roots g)) i = schema_at d i" for i
    unfolding eq forget_entities_get using refreshed es1 outside [of i] by simp
  moreover have "graph_inv exact d (formula_uses d) (update_graph d roots g)"
    unfolding eq forget_entities_inv by (rule refreshed [THEN conjunct1])
  ultimately show ?thesis by (simp add: graph_of_def schema_at_def)
qed

text \<open>Following the roots of an edit is rebuilding.\<close>

lemma update_graph_rebuild:
  assumes "graph_of d0 g" "entities_keyed d" "changes_covered d0 d (set roots)"
  shows "update_graph d roots g = document_graph d"
  by (rule graph_of_unique [OF update_graph_of [OF assms] document_graph_of])

section \<open>The work of a reverse closure\<close>

lemma saturating_sum: "saturating_add (min usize_max a) b = min usize_max (a + b)"
  by (simp add: saturating_add_def)

lemma closure_steps_count:
  "foldl (closure_step roots incl) (affected, queue, min usize_max t) ds = (affected', queue', t') \<Longrightarrow>
   t' = min usize_max (t + length ds) \<and> fset affected \<subseteq> fset affected' \<and>
   (\<exists>news. queue' = queue @ news \<and> distinct news \<and> set news = fset affected' - fset affected)"
proof (induction ds arbitrary: affected queue t)
  case (Cons d ds)
  show ?case
  proof (cases "(\<not> incl \<and> d |\<in>| roots) \<or> d |\<in>| affected")
    case True
    have "closure_step roots incl (affected, queue, min usize_max t) d = (affected, queue, min usize_max (t + 1))"
      using True unfolding closure_step_def prod.case saturating_sum by auto
    then have "foldl (closure_step roots incl) (affected, queue, min usize_max (t + 1)) ds = (affected', queue', t')"
      using Cons.prems by simp
    from Cons.IH [OF this] show ?thesis by simp
  next
    case False
    have "closure_step roots incl (affected, queue, min usize_max t) d =
        (finsert d affected, queue @ [d], min usize_max (t + 1))"
      using False unfolding closure_step_def prod.case saturating_sum by auto
    then have "foldl (closure_step roots incl) (finsert d affected, queue @ [d], min usize_max (t + 1)) ds =
        (affected', queue', t')"
      using Cons.prems by simp
    from Cons.IH [OF this] obtain news where n: "t' = min usize_max (t + length (d # ds))"
      "insert d (fset affected) \<subseteq> fset affected'" "queue' = queue @ d # news" "distinct news"
      "set news = fset affected' - insert d (fset affected)"
      by auto
    have "distinct (d # news) \<and> set (d # news) = fset affected' - fset affected" using n False by auto
    then show ?thesis using n(1,2,3) by blast
  qed
qed auto

definition edges_from :: "dependency_graph \<Rightarrow> field_ref \<Rightarrow> nat" where
  "edges_from g f = fcard (direct_dependents g f)"

lemma closure_loop_count:
  "closure_loop g roots incl queue affected t0 = (result, t') \<Longrightarrow> t0 = min usize_max t \<Longrightarrow>
   fset affected \<subseteq> fset result \<and>
   t' = min usize_max (t + sum_list (map (edges_from g) queue) +
      (\<Sum>f\<in>fset result - fset affected. edges_from g f))"
proof (induction g roots incl queue affected t0 arbitrary: t rule: closure_loop.induct)
  case (1 g roots incl affected t0)
  then show ?case by (simp add: closure_loop.simps)
next
  case (2 g roots incl f queue affected t0)
  let ?ds = "sorted_list_of_fset (direct_dependents g f)"
  obtain affected' queue' t1 where s:
    "foldl (closure_step roots incl) (affected, queue, t0) ?ds = (affected', queue', t1)"
    by (metis prod_cases3)
  have rest: "closure_loop g roots incl queue' affected' t1 = (result, t')"
    using "2.prems"(1) by (simp add: closure_loop.simps s)
  have "length ?ds = edges_from g f"
    by (simp add: edges_from_def fcard.rep_eq sorted_list_of_fset.rep_eq)
  with closure_steps_count [OF s [unfolded "2.prems"(2)]] obtain news where
    n: "t1 = min usize_max (t + edges_from g f)" "fset affected \<subseteq> fset affected'" "queue' = queue @ news"
      "distinct news" "set news = fset affected' - fset affected"
    by auto
  have IH: "fset affected' \<subseteq> fset result"
    "t' = min usize_max (t + edges_from g f + sum_list (map (edges_from g) queue') +
      (\<Sum>f\<in>fset result - fset affected'. edges_from g f))"
    using "2.IH" [OF s [symmetric] refl rest n(1)] by blast+
  have "sum_list (map (edges_from g) news) = (\<Sum>f\<in>fset affected' - fset affected. edges_from g f)"
    using sum_list_distinct_conv_sum_set [OF n(4)] n(5) by simp
  moreover have "(\<Sum>f\<in>fset result - fset affected. edges_from g f) =
      (\<Sum>f\<in>fset affected' - fset affected. edges_from g f) + (\<Sum>f\<in>fset result - fset affected'. edges_from g f)"
  proof -
    have "fset result - fset affected = (fset affected' - fset affected) \<union> (fset result - fset affected')"
      using n(2) IH(1) by blast
    then show ?thesis by (simp add: sum.union_disjoint Diff_Int_distrib2 Int_Diff)
  qed
  ultimately show ?case using IH n(2,3) by (simp add: ac_simps)
qed

section \<open>Which changed fields reach a target\<close>

lemma set_at_add: "set_at (set_add k x m) a = (if a = k then finsert x (set_at m k) else set_at m a)"
  by (simp add: set_at_def set_add_def)

lemma reaching_one:
  "fset (set_at (foldl (\<lambda>m f. if f |\<in>| targets then set_add f c m else m) m fs) f) =
     fset (set_at m f) \<union> (if f \<in> set fs \<and> f |\<in>| targets then {c} else {})"
  by (induction fs arbitrary: m) (auto simp: set_at_add)

lemma reaching_fields_set:
  "fset (set_at (reaching_fields g changed targets) f) =
     {c \<in> set changed. f |\<in>| targets \<and> (c, f) \<in> (dependents_rel g)\<^sup>+}"
proof -
  have "fset (set_at (foldl (\<lambda>m c. foldl (\<lambda>m f. if f |\<in>| targets then set_add f c m else m) m
         (sorted_list_of_fset (fst (reverse_closure g {|c|} True)))) m changed) f) =
      fset (set_at m f) \<union> {c \<in> set changed. f |\<in>| targets \<and> (c, f) \<in> (dependents_rel g)\<^sup>+}" for m
  proof (induction changed arbitrary: m)
    case (Cons c changed)
    have "f \<in> set (sorted_list_of_fset (fst (reverse_closure g {|c|} True))) \<longleftrightarrow> (c, f) \<in> (dependents_rel g)\<^sup>+"
      by (simp add: reverse_closure_reach)
    then show ?case by (simp add: Cons.IH reaching_one) auto
  qed simp
  from this [of bt_empty] show ?thesis unfolding reaching_fields_def by (simp add: set_at_def)
qed

section \<open>Properties\<close>

text \<open>C15. The graph of a document gives every formula exactly the dependencies extracted from its
  expression, a column read as the slots of its schema's current rows, and gives nothing else
  dependencies.\<close>

theorem document_dependencies:
  "dependencies_of (document_graph d) f = map_option (extract_dependencies d f) (formula_at d f)"
  by (rule dependencies_of_graph [OF document_graph_of])

text \<open>C14. The inverted edges of a document's graph are the inverse of its dependencies, through the
  cells named directly and through the columns a cell is a slot of.\<close>

theorem document_dependents:
  "fset (direct_dependents (document_graph d) x) =
     {f. \<exists>e. formula_at d f = Some e \<and> x |\<in>| extract_dependencies d f e}"
  using direct_dependents_graph [OF document_graph_of]
  by (auto simp: dependencies_of_graph [OF document_graph_of])

text \<open>C16. The queue of the reverse closure ends with exactly the cells reachable from a root over
  one dependent edge or more, without the roots themselves when they are excluded.\<close>

theorem reverse_closure_reachable:
  "fset (fst (reverse_closure g roots include_roots)) =
     (dependents_rel g)\<^sup>+ `` fset roots \<inter> (if include_roots then UNIV else - fset roots)"
  unfolding reverse_closure_reach by auto

text \<open>C17. The closure expands every root once and every cell it finds once: the traversed edges it
  reports are those leaving the roots and the cells of its result, up to saturation.\<close>

theorem reverse_closure_work:
  "snd (reverse_closure g roots include_roots) =
     min usize_max ((\<Sum>f\<in>fset roots. edges_from g f) +
       (\<Sum>f\<in>fset (fst (reverse_closure g roots include_roots)). edges_from g f))"
proof -
  obtain result t where
    r: "closure_loop g roots include_roots (sorted_list_of_fset roots) {||} 0 = (result, t)" by force
  have "sum_list (map (edges_from g) (sorted_list_of_fset roots)) = (\<Sum>f\<in>fset roots. edges_from g f)"
    by (simp add: sum_list_distinct_conv_sum_set sorted_list_of_fset.rep_eq)
  then show ?thesis
    using closure_loop_count [OF r, of 0] by (simp add: reverse_closure_def r)
qed

text \<open>C13. Replacing the edges of the changed roots and refreshing the columns of their rows'
  schemas turns the graph of the old document into the graph of the new one, entry by entry, so
  an edited workspace holds the graph a rebuild would make.\<close>

theorem update_graph_is_rebuild:
  assumes "entities_keyed d" "changes_covered d0 d (set roots)"
  shows "update_graph d roots (document_graph d0) = document_graph d"
  by (rule update_graph_rebuild [OF document_graph_of assms])

definition sample_total_row :: entity where
  "sample_total_row =
     \<lparr>ent_id = ''p'', ent_key = ''p'', ent_schema = ''t'',
      ent_fields = bt_insert ''sum'' (VFormula (EColumnTotal (ColumnRef ''t'' ''a'')))
        (bt_insert ''a'' (VNumber (Number f64_zero)) bt_empty)\<rparr>"

definition sample_new_row :: entity where
  "sample_new_row =
     \<lparr>ent_id = ''q'', ent_key = ''q'', ent_schema = ''t'',
      ent_fields = bt_insert ''a'' (VNumber (Number f64_zero)) bt_empty\<rparr>"

definition sample_before :: document where
  "sample_before = (document_empty ''d'' ''d'')\<lparr>doc_entities := bt_insert ''p'' sample_total_row bt_empty\<rparr>"

definition sample_after :: document where
  "sample_after = sample_before\<lparr>doc_entities := bt_insert ''q'' sample_new_row (doc_entities sample_before)\<rparr>"

lemma update_graph_is_rebuild_witness:
  "update_graph sample_after [FieldRef ''q'' ''a''] (document_graph sample_before) =
     document_graph sample_after"
proof (rule update_graph_is_rebuild)
  show "entities_keyed sample_after"
    by (simp add: entities_keyed_def sample_after_def sample_before_def sample_new_row_def
        sample_total_row_def document_empty_def bt_eval)
  have ents: "bt_get (doc_entities sample_after) i =
      (if i = ''q'' then Some sample_new_row else bt_get (doc_entities sample_before) i)" for i
    by (simp add: sample_after_def)
  have old: "bt_get (doc_entities sample_before) ''q'' = None"
    by (simp add: sample_before_def document_empty_def)
  have "formula_uses sample_before f = formula_uses sample_after f" for f
  proof (cases "fr_entity f = ''q''")
    case True
    then show ?thesis
      by (simp add: formula_uses_def calculation_value_def ents old sample_new_row_def)
  next
    case False
    then show ?thesis by (simp add: formula_uses_def calculation_value_def ents)
  qed
  then show "changes_covered sample_before sample_after (set [FieldRef ''q'' ''a''])"
    by (auto simp: changes_covered_def schema_at_def ents split: if_splits)
qed

end
