(* ===== verification/DepthFirst.thy ===== *)
theory DepthFirst
  imports Prelude
begin

text \<open>
  The two graph searches of \<open>formula-engine/src/lib.rs\<close> over adjacency lists: the depth-first
  finish order with an explicit stack, and the collection of components over reversed edges in
  the reversed finish order.  Together they yield the strongly connected components.  \<open>None\<close> is
  an index out of bounds.
\<close>

section \<open>The searches\<close>

type_synonym adjacency = "nat list list"

lemma unset_update:
  "i < length bs \<Longrightarrow> \<not> bs ! i \<Longrightarrow> length (filter Not (bs[i := True])) < length (filter Not bs)"
  by (induction bs arbitrary: i) (auto simp: nth_Cons split: nat.splits)

function (sequential) dfs_loop ::
    "adjacency \<Rightarrow> bool list \<Rightarrow> (nat \<times> nat) list \<Rightarrow> nat list \<Rightarrow> (bool list \<times> nat list) option" where
  "dfs_loop adj visited [] finish = Some (visited, finish)"
| "dfs_loop adj visited ((node, next_index) # stack) finish =
     (if node < length adj
      then if next_index < length (adj ! node)
        then if adj ! node ! next_index < length visited
          then if visited ! (adj ! node ! next_index)
            then dfs_loop adj visited ((node, next_index + 1) # stack) finish
            else dfs_loop adj (visited[adj ! node ! next_index := True])
                   ((adj ! node ! next_index, 0) # (node, next_index + 1) # stack) finish
          else None
        else dfs_loop adj visited stack (finish @ [node])
      else None)"
  by pat_completeness auto

termination
  by (relation "measures [\<lambda>(adj, visited, stack, finish). length (filter Not visited),
      \<lambda>(adj, visited, stack, finish). \<Sum>(n, i)\<leftarrow>stack. length (adj ! n) - i + 1]")
    (auto simp: unset_update)

declare dfs_loop.simps [simp del]

definition dfs_root ::
    "adjacency \<Rightarrow> (bool list \<times> nat list) option \<Rightarrow> nat \<Rightarrow> (bool list \<times> nat list) option" where
  "dfs_root adj st root =
     (case st of
        None \<Rightarrow> None
      | Some (visited, finish) \<Rightarrow>
          if root < length visited
          then if visited ! root then st
               else dfs_loop adj (visited[root := True]) [(root, 0)] finish
          else None)"

definition depth_first_finish_order :: "adjacency \<Rightarrow> nat list option" where
  "depth_first_finish_order adj =
     map_option snd (foldl (dfs_root adj) (Some (replicate (length adj) False, [])) [0..<length adj])"

text \<open>A dependent not assigned yet is assigned and pushed.\<close>

definition claim_dependent ::
    "(bool list \<times> nat list) option \<Rightarrow> nat \<Rightarrow> (bool list \<times> nat list) option" where
  "claim_dependent st dependent =
     (case st of
        None \<Rightarrow> None
      | Some (assigned, stack) \<Rightarrow>
          if dependent < length assigned
          then if assigned ! dependent then st
               else Some (assigned[dependent := True], dependent # stack)
          else None)"

lemma claim_dependent_Some [simp]:
  "claim_dependent (Some (assigned, stack)) d =
     (if d < length assigned
      then if assigned ! d then Some (assigned, stack) else Some (assigned[d := True], d # stack)
      else None)"
  by (simp add: claim_dependent_def)

lemma claim_dependent_None [simp]: "claim_dependent None d = None"
  by (simp add: claim_dependent_def)

lemma claim_dependents_None [simp]: "foldl claim_dependent None ds = None"
  by (induction ds) simp_all

text \<open>What a run over the dependents assigns and pushes.\<close>

lemma claim_dependents:
  "foldl claim_dependent (Some (assigned, stack)) ds = Some (assigned', stack') \<Longrightarrow>
   \<exists>news. stack' = news @ stack \<and> distinct news \<and> set news = {d \<in> set ds. \<not> assigned ! d} \<and>
     length assigned' = length assigned \<and> set ds \<subseteq> {..<length assigned} \<and>
     (\<forall>v<length assigned. assigned' ! v \<longleftrightarrow> assigned ! v \<or> v \<in> set ds) \<and>
     (if news = [] then assigned' = assigned
      else length (filter Not assigned') < length (filter Not assigned))"
proof (induction ds arbitrary: assigned stack)
  case (Cons d ds)
  have d: "d < length assigned"
    using Cons.prems by (cases "d < length assigned") simp_all
  show ?case
  proof (cases "assigned ! d")
    case True
    then have "foldl claim_dependent (Some (assigned, stack)) ds = Some (assigned', stack')"
      using Cons.prems d by simp
    from Cons.IH [OF this] obtain news where n: "stack' = news @ stack" "distinct news"
      "set news = {x \<in> set ds. \<not> assigned ! x}" "length assigned' = length assigned"
      "set ds \<subseteq> {..<length assigned}" "\<forall>v<length assigned. assigned' ! v \<longleftrightarrow> assigned ! v \<or> v \<in> set ds"
      "if news = [] then assigned' = assigned else length (filter Not assigned') < length (filter Not assigned)"
      by blast
    moreover have "set news = {x \<in> set (d # ds). \<not> assigned ! x}" using n(3) True by auto
    moreover have "\<forall>v<length assigned. assigned' ! v \<longleftrightarrow> assigned ! v \<or> v \<in> set (d # ds)"
      using n(6) True by auto
    moreover have "set (d # ds) \<subseteq> {..<length assigned}" using n(5) d by simp
    ultimately show ?thesis by blast
  next
    case False
    let ?a = "assigned[d := True]"
    have "foldl claim_dependent (Some (?a, d # stack)) ds = Some (assigned', stack')"
      using Cons.prems d False by simp
    from Cons.IH [OF this] obtain news where n: "stack' = news @ d # stack" "distinct news"
      "set news = {x \<in> set ds. \<not> ?a ! x}" "length assigned' = length assigned"
      "set ds \<subseteq> {..<length assigned}" "\<forall>v<length assigned. assigned' ! v \<longleftrightarrow> ?a ! v \<or> v \<in> set ds"
      "if news = [] then assigned' = ?a else length (filter Not assigned') < length (filter Not ?a)"
      by auto
    have at: "?a ! x \<longleftrightarrow> x = d \<or> assigned ! x" if "x < length assigned" for x
      using that d by (simp add: nth_list_update)
    let ?news = "news @ [d]"
    have "set ?news = {x \<in> set (d # ds). \<not> assigned ! x}"
      using n(3,5) at False by auto
    moreover have "distinct ?news" using n(2,3) at d by simp
    moreover have "stack' = ?news @ stack" using n(1) by simp
    moreover have "set (d # ds) \<subseteq> {..<length assigned}" using n(5) d by simp
    moreover have "\<forall>v<length assigned. assigned' ! v \<longleftrightarrow> assigned ! v \<or> v \<in> set (d # ds)"
      using n(6) at by auto
    moreover have "if ?news = [] then assigned' = assigned
        else length (filter Not assigned') < length (filter Not assigned)"
      using n(7) unset_update [OF d False] by (simp split: if_splits)
    ultimately show ?thesis using n(4) by blast
  qed
qed auto

function (sequential) component_loop ::
    "adjacency \<Rightarrow> bool list \<Rightarrow> nat list \<Rightarrow> nat list \<Rightarrow> (bool list \<times> nat list) option" where
  "component_loop reverse assigned [] component = Some (assigned, component)"
| "component_loop reverse assigned (node # stack) component =
     (if node < length reverse
      then case foldl claim_dependent (Some (assigned, stack)) (reverse ! node) of
             None \<Rightarrow> None
           | Some (assigned, stack) \<Rightarrow> component_loop reverse assigned stack (component @ [node])
      else None)"
  by pat_completeness auto
termination
proof (relation "measures [\<lambda>(reverse, assigned, stack, component). length (filter Not assigned),
    \<lambda>(reverse, assigned, stack, component). length stack]", goal_cases)
  case 1
  show ?case by simp
next
  case (2 reverse assigned node stack component st assigned' stack')
  then show ?case
    using claim_dependents [of assigned stack "reverse ! node" assigned' stack']
    by (auto split: if_splits)
qed

declare component_loop.simps [simp del]

text \<open>One root of the second search; \<open>emit\<close> is what a component contributes to the result.\<close>

definition component_root ::
    "(nat list \<Rightarrow> 'a list) \<Rightarrow> adjacency \<Rightarrow> (bool list \<times> 'a list) option \<Rightarrow> nat
     \<Rightarrow> (bool list \<times> 'a list) option" where
  "component_root emit reverse st root =
     (case st of
        None \<Rightarrow> None
      | Some (assigned, result) \<Rightarrow>
          if root < length assigned
          then if assigned ! root then st
               else map_option (\<lambda>(assigned, component). (assigned, result @ emit component))
                      (component_loop reverse (assigned[root := True]) [root] [])
          else None)"

section \<open>The finish order\<close>

definition edges_of :: "adjacency \<Rightarrow> (nat \<times> nat) set" where
  "edges_of adj = {(u, v). u < length adj \<and> v \<in> set (adj ! u)}"

definition adjacency_ok :: "adjacency \<Rightarrow> bool" where
  "adjacency_ok adj \<longleftrightarrow> (\<forall>u v. (u, v) \<in> edges_of adj \<longrightarrow> v < length adj)"

definition mutual :: "adjacency \<Rightarrow> nat \<Rightarrow> nat \<Rightarrow> bool" where
  "mutual adj u v \<longleftrightarrow> (u, v) \<in> (edges_of adj)\<^sup>* \<and> (v, u) \<in> (edges_of adj)\<^sup>*"

text \<open>\<open>u\<close> stands at \<open>r\<close> or after it.\<close>

definition at_or_after :: "nat list \<Rightarrow> nat \<Rightarrow> nat \<Rightarrow> bool" where
  "at_or_after order r u \<longleftrightarrow> u \<in> set (dropWhile (\<lambda>x. x \<noteq> r) order)"

lemma at_or_after_append:
  "at_or_after (xs @ ys) r u \<longleftrightarrow>
     (if r \<in> set xs then at_or_after xs r u \<or> u \<in> set ys else at_or_after ys r u)"
proof (cases "r \<in> set xs")
  case True
  then show ?thesis by (simp add: at_or_after_def dropWhile_append1)
next
  case False
  then have "dropWhile (\<lambda>x. x \<noteq> r) (xs @ ys) = dropWhile (\<lambda>x. x \<noteq> r) ys"
    by (intro dropWhile_append2) auto
  then show ?thesis using False by (simp add: at_or_after_def)
qed

lemma at_or_after_Cons:
  "at_or_after (x # xs) r u \<longleftrightarrow> (if x = r then u = r \<or> u \<in> set xs else at_or_after xs r u)"
  by (simp add: at_or_after_def)

lemma at_or_after_member: "at_or_after order r u \<Longrightarrow> u \<in> set order"
  unfolding at_or_after_def by (rule set_dropWhileD)

lemma at_or_after_refl: "r \<in> set order \<Longrightarrow> at_or_after order r r"
  by (induction order) (auto simp: at_or_after_Cons)

lemma at_or_after_insert: "at_or_after (xs @ ys) r u \<Longrightarrow> at_or_after (xs @ t # ys) r u"
  using at_or_after_member by (auto simp: at_or_after_append at_or_after_Cons split: if_splits)

lemma at_or_after_tail:
  "at_or_after (xs @ ys) r u \<Longrightarrow> r \<in> set ys \<Longrightarrow> distinct (xs @ ys) \<Longrightarrow> u \<in> set ys"
  using at_or_after_member by (auto simp: at_or_after_append split: if_splits)

text \<open>
  The finished nodes and the stack, top first, are the visited nodes in the order they finish.
  Finished nodes have visited successors, the scanned successors of a stacked node are visited,
  and each stacked node reaches those above it.  A finished node that reaches a visited one
  lies on a cycle with some node that finishes no earlier.
\<close>

definition visits :: "adjacency \<Rightarrow> bool list \<Rightarrow> nat list \<Rightarrow> bool" where
  "visits adj visited order \<longleftrightarrow>
     adjacency_ok adj \<and> length visited = length adj \<and> distinct order \<and> set order \<subseteq> {..<length adj} \<and>
     (\<forall>v<length adj. visited ! v \<longleftrightarrow> v \<in> set order)"

definition expanded :: "adjacency \<Rightarrow> nat list \<Rightarrow> nat list \<Rightarrow> bool" where
  "expanded adj order finish \<longleftrightarrow> (\<forall>u\<in>set finish. \<forall>v. (u, v) \<in> edges_of adj \<longrightarrow> v \<in> set order)"

definition scanned :: "adjacency \<Rightarrow> nat list \<Rightarrow> nat \<times> nat \<Rightarrow> bool" where
  "scanned adj order p \<longleftrightarrow> (\<forall>j < snd p. j < length (adj ! fst p) \<longrightarrow> adj ! fst p ! j \<in> set order)"

definition stack_path :: "adjacency \<Rightarrow> nat list \<Rightarrow> bool" where
  "stack_path adj = sorted_wrt (\<lambda>n m. (m, n) \<in> (edges_of adj)\<^sup>*)"

definition finishes_late :: "adjacency \<Rightarrow> nat list \<Rightarrow> nat list \<Rightarrow> bool" where
  "finishes_late adj order finish \<longleftrightarrow>
     (\<forall>u\<in>set finish. \<forall>r\<in>set order. (u, r) \<in> (edges_of adj)\<^sup>* \<longrightarrow>
        (\<exists>u'. mutual adj u u' \<and> at_or_after order r u'))"

definition dfs_inv :: "adjacency \<Rightarrow> bool list \<Rightarrow> (nat \<times> nat) list \<Rightarrow> nat list \<Rightarrow> bool" where
  "dfs_inv adj visited stack finish \<longleftrightarrow>
     (let order = finish @ map fst stack in
      visits adj visited order \<and> expanded adj order finish \<and> list_all (scanned adj order) stack \<and>
      stack_path adj (map fst stack) \<and> finishes_late adj order finish)"

lemma dfs_invI:
  "visits adj visited (finish @ map fst stack) \<Longrightarrow> expanded adj (finish @ map fst stack) finish \<Longrightarrow>
   list_all (scanned adj (finish @ map fst stack)) stack \<Longrightarrow> stack_path adj (map fst stack) \<Longrightarrow>
   finishes_late adj (finish @ map fst stack) finish \<Longrightarrow> dfs_inv adj visited stack finish"
  by (simp add: dfs_inv_def)

lemma dfs_invD:
  assumes "dfs_inv adj visited stack finish"
  shows "visits adj visited (finish @ map fst stack)" "expanded adj (finish @ map fst stack) finish"
    "list_all (scanned adj (finish @ map fst stack)) stack" "stack_path adj (map fst stack)"
    "finishes_late adj (finish @ map fst stack) finish"
  using assms by (simp_all add: dfs_inv_def Let_def)

lemma scannedD:
  "scanned adj order (n, i) \<Longrightarrow> j < i \<Longrightarrow> j < length (adj ! n) \<Longrightarrow> adj ! n ! j \<in> set order"
  by (simp add: scanned_def)

lemma scanned_mono: "scanned adj order p \<Longrightarrow> set order \<subseteq> set order' \<Longrightarrow> scanned adj order' p"
  by (auto simp: scanned_def)

lemma expanded_mono: "expanded adj order finish \<Longrightarrow> set order \<subseteq> set order' \<Longrightarrow> expanded adj order' finish"
  by (auto simp: expanded_def)

text \<open>A path out of the finished nodes passes through the stack.\<close>

lemma leaves_through_stack:
  assumes inv: "dfs_inv adj visited stack finish"
    and path: "(u, v) \<in> (edges_of adj)\<^sup>*" and u: "u \<in> set finish" and v: "v \<notin> set finish"
  shows "\<exists>w\<in>set (map fst stack). (u, w) \<in> (edges_of adj)\<^sup>* \<and> (w, v) \<in> (edges_of adj)\<^sup>*"
  using path u
proof (induction rule: converse_rtrancl_induct)
  case base
  then show ?case using v by simp
next
  case (step x y)
  have y: "y \<in> set (finish @ map fst stack)"
    using dfs_invD(2) [OF inv] step.prems step.hyps(1) unfolding expanded_def by blast
  show ?case
  proof (cases "y \<in> set finish")
    case True
    then show ?thesis using step.IH step.hyps(1) by (meson converse_rtrancl_into_rtrancl)
  next
    case False
    then show ?thesis using y step.hyps by auto
  qed
qed

lemma dfs_push:
  assumes inv: "dfs_inv adj visited stack finish"
    and t: "t < length adj" "\<not> visited ! t"
    and path: "\<And>m. m \<in> set (map fst stack) \<Longrightarrow> (m, t) \<in> (edges_of adj)\<^sup>*"
  shows "dfs_inv adj (visited[t := True]) ((t, 0) # stack) finish"
proof (rule dfs_invI; (unfold list.map prod.sel)?)
  let ?O = "finish @ map fst stack" and ?P = "finish @ t # map fst stack"
  note D = dfs_invD [OF inv]
  have sub: "set ?O \<subseteq> set ?P" by auto
  have fresh: "t \<notin> set ?O" using D(1) t by (auto simp: visits_def)
  then show "visits adj (visited[t := True]) ?P"
    using D(1) t(1) by (auto simp: visits_def nth_list_update)
  show "expanded adj ?P finish" by (rule expanded_mono [OF D(2) sub])
  show "list_all (scanned adj ?P) ((t, 0) # stack)"
    using D(3) scanned_mono [OF _ sub] by (simp add: list_all_iff scanned_def [of _ _ "(t, 0)"])
  show "stack_path adj (t # map fst stack)" using D(4) path by (simp add: stack_path_def)
  show "finishes_late adj ?P finish"
    unfolding finishes_late_def
  proof (intro ballI impI)
    fix u r
    assume u: "u \<in> set finish" and r: "r \<in> set ?P" "(u, r) \<in> (edges_of adj)\<^sup>*"
    have late: "\<exists>u'. mutual adj u u' \<and> at_or_after ?O r u'" if "r \<in> set ?O" "(u, r) \<in> (edges_of adj)\<^sup>*" for r
      using D(5) u that unfolding finishes_late_def by blast
    show "\<exists>u'. mutual adj u u' \<and> at_or_after ?P r u'"
    proof (cases "r = t")
      case False
      then show ?thesis using late [of r] r at_or_after_insert by (auto simp del: append.simps)
    next
      case True
      then obtain w where w: "w \<in> set (map fst stack)" "(u, w) \<in> (edges_of adj)\<^sup>*"
        using leaves_through_stack [OF inv r(2) u] fresh by auto
      then obtain u' where u': "mutual adj u u'" "at_or_after ?O w u'" using late [of w] by auto
      have "u' \<in> set (map fst stack)"
        using at_or_after_tail [OF u'(2) w(1)] D(1) by (simp add: visits_def)
      then have "at_or_after ?P t u'" using fresh by (simp add: at_or_after_append at_or_after_Cons)
      then show ?thesis using u'(1) True by blast
    qed
  qed
qed

lemma dfs_scan:
  assumes inv: "dfs_inv adj visited (ps @ (n, i) # stack) finish"
    and seen: "adj ! n ! i \<in> set (finish @ map fst (ps @ (n, i) # stack))"
  shows "dfs_inv adj visited (ps @ (n, i + 1) # stack) finish"
proof -
  have eq: "map fst (ps @ (n, i + 1) # stack) = map fst (ps @ (n, i) # stack)" by simp
  have "scanned adj order (n, i) \<Longrightarrow> adj ! n ! i \<in> set order \<Longrightarrow> scanned adj order (n, i + 1)" for order
    by (auto simp: scanned_def less_Suc_eq)
  then show ?thesis
    using dfs_invD [OF inv] seen
    by (intro dfs_invI; unfold eq list_all_append list.pred_inject) blast+
qed

lemma dfs_advance:
  assumes inv: "dfs_inv adj visited ((n, i) # stack) finish" and t: "adj ! n ! i < length adj"
    and seen: "visited ! (adj ! n ! i)"
  shows "dfs_inv adj visited ((n, i + 1) # stack) finish"
  using dfs_scan [where ps = "[]", simplified, OF inv] dfs_invD(1) [OF inv] t seen by (simp add: visits_def)

lemma dfs_pop:
  assumes inv: "dfs_inv adj visited ((n, i) # stack) finish" and finished: "\<not> i < length (adj ! n)"
  shows "dfs_inv adj visited stack (finish @ [n])"
proof (rule dfs_invI)
  let ?O = "finish @ n # map fst stack"
  have O: "(finish @ [n]) @ map fst stack = ?O" by simp
  note D = dfs_invD [OF inv, unfolded list.map prod.sel]
  show "visits adj visited ((finish @ [n]) @ map fst stack)" unfolding O by (rule D(1))
  have "v \<in> set ?O" if e: "(n, v) \<in> edges_of adj" for v
  proof -
    obtain j where j: "j < length (adj ! n)" "adj ! n ! j = v"
      using e unfolding edges_of_def in_set_conv_nth by blast
    have "scanned adj ?O (n, i)" using D(3) by simp
    from scannedD [OF this _ j(1)] j finished show ?thesis by simp
  qed
  then show "expanded adj ((finish @ [n]) @ map fst stack) (finish @ [n])"
    unfolding O using D(2) by (auto simp: expanded_def)
  show "list_all (scanned adj ((finish @ [n]) @ map fst stack)) stack"
    unfolding O using D(3) by simp
  show "stack_path adj (map fst stack)" using D(4) by (simp add: stack_path_def)
  have "\<exists>u'. mutual adj n u' \<and> at_or_after ?O r u'"
    if r: "r \<in> set ?O" "(n, r) \<in> (edges_of adj)\<^sup>*" for r
  proof (cases "r \<in> set (map fst stack)")
    case True
    then have "mutual adj n r" using D(4) r(2) by (auto simp: mutual_def stack_path_def)
    then show ?thesis using at_or_after_refl [OF r(1)] by blast
  next
    case False
    then have "at_or_after ?O r n" using r(1) by (auto simp: at_or_after_append at_or_after_Cons)
    then show ?thesis by (intro exI [of _ n]) (simp add: mutual_def)
  qed
  then show "finishes_late adj ((finish @ [n]) @ map fst stack) (finish @ [n])"
    unfolding O using D(5) by (simp add: finishes_late_def)
qed

lemma dfs_loop_inv:
  "dfs_inv adj visited stack finish \<Longrightarrow>
   \<exists>visited' finish'. dfs_loop adj visited stack finish = Some (visited', finish') \<and>
     dfs_inv adj visited' [] finish' \<and> set (finish @ map fst stack) \<subseteq> set finish'"
proof (induction adj visited stack finish rule: dfs_loop.induct)
  case (1 adj visited finish)
  then show ?case by (simp add: dfs_loop.simps)
next
  case (2 adj visited n i stack finish)
  let ?t = "adj ! n ! i"
  have n: "n < length adj" and len: "length visited = length adj"
    using dfs_invD(1) [OF "2.prems"] by (auto simp: visits_def)
  show ?case
  proof (cases "i < length (adj ! n)")
    case False
    have eq: "dfs_loop adj visited ((n, i) # stack) finish = dfs_loop adj visited stack (finish @ [n])"
      using n False by (simp add: dfs_loop.simps)
    from "2.IH"(3) [OF n False dfs_pop [OF "2.prems" False]]
    show ?thesis unfolding eq by simp
  next
    case True
    have e: "(n, ?t) \<in> edges_of adj" using n True by (simp add: edges_of_def)
    then have t: "?t < length adj" using dfs_invD(1) [OF "2.prems"] unfolding visits_def adjacency_ok_def by blast
    show ?thesis
    proof (cases "visited ! ?t")
      case seen: True
      have eq: "dfs_loop adj visited ((n, i) # stack) finish = dfs_loop adj visited ((n, i + 1) # stack) finish"
        using n True t len seen by (simp add: dfs_loop.simps)
      from "2.IH"(1) [OF n True t [folded len] seen dfs_advance [OF "2.prems" t seen]]
      show ?thesis unfolding eq by simp
    next
      case fresh: False
      have "(m, ?t) \<in> (edges_of adj)\<^sup>*" if "m \<in> set (map fst ((n, i) # stack))" for m
      proof -
        have "(m, n) \<in> (edges_of adj)\<^sup>*"
          using dfs_invD(4) [OF "2.prems"] that by (auto simp: stack_path_def)
        then show ?thesis using e by (rule rtrancl_into_rtrancl)
      qed
      from dfs_push [OF "2.prems" t fresh this]
      have "dfs_inv adj (visited[?t := True]) ((?t, 0) # (n, i + 1) # stack) finish"
        using dfs_scan [where ps = "[(?t, 0)]" and i = i and n = n] by simp
      note IH = "2.IH"(2) [OF n True t [folded len] fresh this]
      have eq: "dfs_loop adj visited ((n, i) # stack) finish =
          dfs_loop adj (visited[?t := True]) ((?t, 0) # (n, i + 1) # stack) finish"
        using n True t len fresh by (simp add: dfs_loop.simps)
      from IH show ?thesis unfolding eq by force
    qed
  qed
qed

definition finish_order_of :: "adjacency \<Rightarrow> nat list \<Rightarrow> bool" where
  "finish_order_of adj order \<longleftrightarrow>
     distinct order \<and> set order = {..<length adj} \<and> finishes_late adj order order"

lemma dfs_roots_inv:
  "dfs_inv adj visited [] finish \<Longrightarrow> set roots \<subseteq> {..<length adj} \<Longrightarrow>
   \<exists>visited' finish'. foldl (dfs_root adj) (Some (visited, finish)) roots = Some (visited', finish') \<and>
     dfs_inv adj visited' [] finish' \<and> set finish \<union> set roots \<subseteq> set finish'"
proof (induction roots arbitrary: visited finish)
  case (Cons r roots)
  note D = dfs_invD(1) [OF Cons.prems(1), simplified]
  have r: "r < length adj" "length visited = length adj" using Cons.prems(2) D by (auto simp: visits_def)
  obtain v1 f1 where one: "dfs_root adj (Some (visited, finish)) r = Some (v1, f1)"
    "dfs_inv adj v1 [] f1" "insert r (set finish) \<subseteq> set f1"
  proof (cases "visited ! r")
    case True
    then have "r \<in> set finish" using D r by (simp add: visits_def)
    then show ?thesis using that True r Cons.prems(1) by (simp add: dfs_root_def insert_absorb)
  next
    case False
    have "dfs_inv adj (visited[r := True]) [(r, 0)] finish"
      using dfs_push [OF Cons.prems(1) r(1) False] by simp
    from dfs_loop_inv [OF this] obtain v1 f1 where
      "dfs_loop adj (visited[r := True]) [(r, 0)] finish = Some (v1, f1)" "dfs_inv adj v1 [] f1"
      "insert r (set finish) \<subseteq> set f1"
      by auto
    then show ?thesis using that False r by (simp add: dfs_root_def)
  qed
  from Cons.IH [OF one(2)] Cons.prems(2) obtain v2 f2 where
    two: "foldl (dfs_root adj) (Some (v1, f1)) roots = Some (v2, f2)" "dfs_inv adj v2 [] f2"
      "set f1 \<union> set roots \<subseteq> set f2"
    by auto
  have "set finish \<union> set (r # roots) \<subseteq> set f2" using one(3) two(3) by auto
  then show ?case using one(1) two by simp
qed auto

lemma finish_order_exists:
  assumes "adjacency_ok adj"
  shows "\<exists>order. depth_first_finish_order adj = Some order \<and> finish_order_of adj order"
proof -
  have "dfs_inv adj (replicate (length adj) False) [] []"
    using assms
    by (simp add: dfs_inv_def visits_def expanded_def stack_path_def finishes_late_def)
  from dfs_roots_inv [OF this, of "[0..<length adj]"] obtain visited order where
    r: "foldl (dfs_root adj) (Some (replicate (length adj) False, [])) [0..<length adj] = Some (visited, order)"
      "dfs_inv adj visited [] order" "{..<length adj} \<subseteq> set order"
    by (auto simp: lessThan_atLeast0)
  note D = dfs_invD [OF r(2), simplified]
  have "finish_order_of adj order"
    using D(1,5) r(3) by (auto simp: finish_order_of_def visits_def)
  then show ?thesis using r(1) by (simp add: depth_first_finish_order_def)
qed

section \<open>The components\<close>

definition reverses :: "adjacency \<Rightarrow> adjacency \<Rightarrow> bool" where
  "reverses adj reverse \<longleftrightarrow> length reverse = length adj \<and>
     (\<forall>v<length adj. \<forall>u. u \<in> set (reverse ! v) \<longleftrightarrow> (u, v) \<in> edges_of adj)"

text \<open>Collecting the nodes that reach \<open>r\<close> outside the nodes \<open>A\<close> assigned before.\<close>

definition component_inv ::
    "adjacency \<Rightarrow> nat set \<Rightarrow> nat \<Rightarrow> bool list \<Rightarrow> nat list \<Rightarrow> nat list \<Rightarrow> bool" where
  "component_inv adj A r assigned stack component \<longleftrightarrow>
     length assigned = length adj \<and> distinct (component @ stack) \<and> r \<in> set (component @ stack) \<and>
     set (component @ stack) \<subseteq> {..<length adj} - A \<and>
     (\<forall>v<length adj. assigned ! v \<longleftrightarrow> v \<in> A \<union> set (component @ stack)) \<and>
     (\<forall>x\<in>set (component @ stack). (x, r) \<in> (edges_of adj)\<^sup>*) \<and>
     (\<forall>x\<in>set component. \<forall>u. (u, x) \<in> edges_of adj \<longrightarrow> u \<in> A \<union> set (component @ stack))"

lemma component_invD:
  assumes "component_inv adj A r assigned stack component"
  shows "length assigned = length adj" "distinct (component @ stack)" "r \<in> set (component @ stack)"
    "set (component @ stack) \<subseteq> {..<length adj} - A"
    "v < length adj \<Longrightarrow> assigned ! v \<longleftrightarrow> v \<in> A \<union> set (component @ stack)"
    "x \<in> set (component @ stack) \<Longrightarrow> (x, r) \<in> (edges_of adj)\<^sup>*"
    "x \<in> set component \<Longrightarrow> (u, x) \<in> edges_of adj \<Longrightarrow> u \<in> A \<union> set (component @ stack)"
  using assms unfolding component_inv_def by blast+

lemma claim_dependents_total:
  "set ds \<subseteq> {..<length assigned} \<Longrightarrow>
   \<exists>assigned' stack'. foldl claim_dependent (Some (assigned, stack)) ds = Some (assigned', stack')"
  by (induction ds arbitrary: assigned stack) auto

lemma component_step:
  assumes reverse: "reverses adj reverse" and inv: "component_inv adj A r assigned (node # stack) component"
    and claim: "foldl claim_dependent (Some (assigned, stack)) (reverse ! node) = Some (assigned', stack')"
  shows "component_inv adj A r assigned' stack' (component @ [node])"
proof -
  note D = component_invD [OF inv]
  have node: "node < length adj" using D(4) by auto
  then have pred: "u \<in> set (reverse ! node) \<longleftrightarrow> (u, node) \<in> edges_of adj" for u
    using reverse by (simp add: reverses_def)
  obtain news where n: "stack' = news @ stack" "distinct news"
    "set news = {d \<in> set (reverse ! node). \<not> assigned ! d}" "length assigned' = length assigned"
    "set (reverse ! node) \<subseteq> {..<length assigned}"
    "\<forall>v<length assigned. assigned' ! v \<longleftrightarrow> assigned ! v \<or> v \<in> set (reverse ! node)"
    using claim_dependents [OF claim] by blast
  let ?old = "set (component @ node # stack)"
  have all: "set ((component @ [node]) @ stack') = ?old \<union> set news" using n(1) by auto
  have news: "x < length adj" "x \<notin> A" "x \<notin> ?old" "(x, node) \<in> edges_of adj" if "x \<in> set news" for x
    using that n(3,5) pred D(1) D(5) [of x] by auto
  show ?thesis
    unfolding component_inv_def all
  proof (intro conjI ballI allI impI)
    show "length assigned' = length adj" using n(4) D(1) by simp
    show "distinct ((component @ [node]) @ stack')" using D(2) n(1,2) news(3) by auto
    show "r \<in> ?old \<union> set news" using D(3) by auto
    show "?old \<union> set news \<subseteq> {..<length adj} - A" using D(4) news(1,2) by auto
    show "assigned' ! v \<longleftrightarrow> v \<in> A \<union> (?old \<union> set news)" if "v < length adj" for v
      using n(3,6) D(1) D(5) [OF that] that by auto
    show "(x, r) \<in> (edges_of adj)\<^sup>*" if "x \<in> ?old \<union> set news" for x
    proof (cases "x \<in> ?old")
      case True
      then show ?thesis by (rule D(6))
    next
      case False
      then have "(x, node) \<in> edges_of adj" using that news(4) by blast
      then show ?thesis using D(6) [of node] by (simp add: converse_rtrancl_into_rtrancl)
    qed
    fix x u
    assume x: "x \<in> set (component @ [node])" and u: "(u, x) \<in> edges_of adj"
    show "u \<in> A \<union> (?old \<union> set news)"
    proof (cases "x \<in> set component")
      case True
      then show ?thesis using D(7) u by blast
    next
      case False
      then have "u \<in> set (reverse ! node)" using x u pred by auto
      then show ?thesis using n(3,5) D(1) D(5) [of u] by auto
    qed
  qed
qed

lemma component_loop_inv:
  "reverses adj reverse \<Longrightarrow> component_inv adj A r assigned stack component \<Longrightarrow>
    \<exists>assigned' component'. component_loop reverse assigned stack component = Some (assigned', component') \<and>
      component_inv adj A r assigned' [] component'"
proof (induction reverse assigned stack component rule: component_loop.induct)
  case (1 reverse assigned component)
  then show ?case by (simp add: component_loop.simps)
next
  case (2 reverse assigned node stack component)
  note D = component_invD [OF "2.prems"(2)]
  have node: "node < length reverse" "node < length adj"
    using D(4) "2.prems"(1) by (auto simp: reverses_def)
  have "set (reverse ! node) \<subseteq> {..<length assigned}"
    using "2.prems"(1) node(2) D(1) by (auto simp: reverses_def edges_of_def)
  then obtain assigned' stack' where
    claim: "foldl claim_dependent (Some (assigned, stack)) (reverse ! node) = Some (assigned', stack')"
    using claim_dependents_total by blast
  from "2.IH" [OF node(1) claim refl "2.prems"(1) component_step [OF "2.prems" claim]]
  show ?case using node(1) claim by (simp add: component_loop.simps)
qed

lemma component_of_root:
  assumes reverse: "reverses adj reverse" and r: "r < length adj" "r \<notin> A" and len: "length assigned = length adj"
    and A: "\<And>v. v < length adj \<Longrightarrow> assigned ! v \<longleftrightarrow> v \<in> A"
    and closed: "\<And>u v. (u, v) \<in> edges_of adj \<Longrightarrow> v \<in> A \<Longrightarrow> u \<in> A"
  shows "\<exists>assigned' component. component_loop reverse (assigned[r := True]) [r] [] = Some (assigned', component) \<and>
    length assigned' = length adj \<and> distinct component \<and>
    set component = {u. (u, r) \<in> (edges_of adj)\<^sup>*} - A \<and>
    (\<forall>v<length adj. assigned' ! v \<longleftrightarrow> v \<in> A \<union> {u. (u, r) \<in> (edges_of adj)\<^sup>*})"
proof -
  have "component_inv adj A r (assigned[r := True]) [r] []"
    using r len A by (auto simp: component_inv_def nth_list_update)
  from component_loop_inv [OF reverse this] obtain assigned' component where
    c: "component_loop reverse (assigned[r := True]) [r] [] = Some (assigned', component)"
      "component_inv adj A r assigned' [] component"
    by blast
  note D = component_invD [OF c(2), simplified]
  have reach: "u \<in> A \<union> set component" if "(u, r) \<in> (edges_of adj)\<^sup>*" for u
    using that
  proof (induction rule: converse_rtrancl_induct)
    case base
    then show ?case using D(3) by simp
  next
    case (step u y)
    then show ?case using D(7) [of y u] closed [of u y] by blast
  qed
  have "set component = {u. (u, r) \<in> (edges_of adj)\<^sup>*} - A"
    using reach D(4,6) by auto
  then show ?thesis using c(1) D(1,2,5) by auto
qed

text \<open>The strongly connected components, each once and without repetitions.\<close>

definition components_of :: "adjacency \<Rightarrow> nat set \<Rightarrow> nat list list \<Rightarrow> bool" where
  "components_of adj roots comps \<longleftrightarrow>
     distinct (map set comps) \<and> list_all distinct comps \<and>
     set ` set comps = (\<lambda>r. {u. mutual adj r u}) ` roots"

lemma mutual_refl [simp]: "mutual adj u u"
  by (simp add: mutual_def)

lemma mutual_sym: "mutual adj u v \<Longrightarrow> mutual adj v u"
  by (simp add: mutual_def)

lemma mutual_trans: "mutual adj u v \<Longrightarrow> mutual adj v w \<Longrightarrow> mutual adj u w"
  by (auto simp: mutual_def)

lemma mutual_class_eq: "mutual adj u v \<Longrightarrow> {w. mutual adj u w} = {w. mutual adj v w}"
  using mutual_sym mutual_trans by blast

definition reaching :: "adjacency \<Rightarrow> nat set \<Rightarrow> nat set" where
  "reaching adj roots = {u. \<exists>r\<in>roots. (u, r) \<in> (edges_of adj)\<^sup>*}"

lemma component_roots:
  assumes reverse: "reverses adj reverse" and order: "finish_order_of adj order"
  shows "order = xs @ ys \<Longrightarrow>
    \<exists>assigned comps. foldl (component_root emit reverse) (Some (replicate (length adj) False, [])) (rev ys) =
        Some (assigned, concat (map emit comps)) \<and>
      length assigned = length adj \<and> (\<forall>v<length adj. assigned ! v \<longleftrightarrow> v \<in> reaching adj (set ys)) \<and>
      components_of adj (set ys) comps"
proof (induction ys arbitrary: xs)
  case Nil
  then show ?case by (auto simp: reaching_def components_of_def intro: exI [of _ "[]"])
next
  case (Cons r ys)
  let ?A = "reaching adj (set ys)"
  have "order = (xs @ [r]) @ ys" using Cons.prems by simp
  from Cons.IH [OF this] obtain assigned comps where
    IH: "foldl (component_root emit reverse) (Some (replicate (length adj) False, [])) (rev ys) =
        Some (assigned, concat (map emit comps))"
      "length assigned = length adj" "\<And>v. v < length adj \<Longrightarrow> assigned ! v \<longleftrightarrow> v \<in> ?A"
      "components_of adj (set ys) comps"
    by blast
  have r: "r < length adj" "r \<notin> set xs" and ys: "set ys \<subseteq> set order"
    using order Cons.prems by (auto simp: finish_order_of_def)
  have late: "\<exists>u'. mutual adj u u' \<and> (u' = r \<or> u' \<in> set ys)"
    if u: "u \<in> set order" "(u, r) \<in> (edges_of adj)\<^sup>*" for u
  proof -
    have "r \<in> set order" using Cons.prems by simp
    then obtain u' where "mutual adj u u'" "at_or_after order r u'"
      using order u unfolding finish_order_of_def finishes_late_def by blast
    then show ?thesis using r(2) Cons.prems by (auto simp: at_or_after_append at_or_after_Cons)
  qed
  have all: "reaching adj (set (r # ys)) = ?A \<union> {u. (u, r) \<in> (edges_of adj)\<^sup>*}"
    by (auto simp: reaching_def)
  show ?case
  proof (cases "r \<in> ?A")
    case True
    then obtain s where s: "s \<in> set ys" "(r, s) \<in> (edges_of adj)\<^sup>*" by (auto simp: reaching_def)
    have "\<exists>u'. mutual adj r u' \<and> at_or_after ((xs @ [r]) @ ys) s u'"
      using order s Cons.prems by (auto simp: finish_order_of_def finishes_late_def)
    then obtain u where u: "mutual adj r u" "at_or_after ((xs @ [r]) @ ys) s u" by blast
    then have "u \<in> set ys"
      using at_or_after_tail [OF u(2) s(1)] order Cons.prems by (simp add: finish_order_of_def)
    then have "(\<lambda>r. {w. mutual adj r w}) ` set (r # ys) = (\<lambda>r. {w. mutual adj r w}) ` set ys"
      using mutual_class_eq [OF u(1)] by auto
    then have "components_of adj (set (r # ys)) comps" using IH(4) unfolding components_of_def by simp
    moreover have "u \<in> ?A" if "(u, r) \<in> (edges_of adj)\<^sup>*" for u
      using s rtrancl_trans [OF that s(2)] unfolding reaching_def by blast
    then have "reaching adj (set (r # ys)) = ?A" unfolding all by blast
    moreover have "component_root emit reverse (Some (assigned, concat (map emit comps))) r =
        Some (assigned, concat (map emit comps))"
      using IH(2) IH(3) [OF r(1)] r(1) True by (simp add: component_root_def)
    then have "foldl (component_root emit reverse) (Some (replicate (length adj) False, [])) (rev (r # ys)) =
        Some (assigned, concat (map emit comps))"
      using IH(1) by simp
    ultimately show ?thesis using IH(2,3) by metis
  next
    case False
    have closed: "u \<in> ?A" if "(u, v) \<in> edges_of adj" "v \<in> ?A" for u v
      using that by (auto simp: reaching_def intro: converse_rtrancl_into_rtrancl)
    have "\<exists>assigned' component. component_loop reverse (assigned[r := True]) [r] [] = Some (assigned', component) \<and>
        length assigned' = length adj \<and> distinct component \<and>
        set component = {u. (u, r) \<in> (edges_of adj)\<^sup>*} - ?A \<and>
        (\<forall>v<length adj. assigned' ! v \<longleftrightarrow> v \<in> ?A \<union> {u. (u, r) \<in> (edges_of adj)\<^sup>*})"
      by (rule component_of_root [OF reverse r(1) False IH(2)]) (fact IH(3), erule (1) closed)
    then obtain assigned' component where
      c: "component_loop reverse (assigned[r := True]) [r] [] = Some (assigned', component)"
        "length assigned' = length adj" "distinct component"
        "set component = {u. (u, r) \<in> (edges_of adj)\<^sup>*} - ?A"
        "\<forall>v<length adj. assigned' ! v \<longleftrightarrow> v \<in> ?A \<union> {u. (u, r) \<in> (edges_of adj)\<^sup>*}"
      by blast
    have "component_root emit reverse (Some (assigned, concat (map emit comps))) r =
        Some (assigned', concat (map emit (comps @ [component])))"
      using c(1) IH(2) IH(3) [OF r(1)] r(1) False by (simp add: component_root_def)
    then have run: "foldl (component_root emit reverse) (Some (replicate (length adj) False, [])) (rev (r # ys)) =
        Some (assigned', concat (map emit (comps @ [component])))"
      using IH(1) by simp
    have outside: "u \<notin> ?A" if "mutual adj r u" for u
    proof
      assume "u \<in> ?A"
      then obtain s where "s \<in> set ys" "(u, s) \<in> (edges_of adj)\<^sup>*" by (auto simp: reaching_def)
      then have "r \<in> ?A" using that by (auto simp: reaching_def mutual_def intro: rtrancl_trans)
      then show False using False by contradiction
    qed
    have "mutual adj r u" if u: "(u, r) \<in> (edges_of adj)\<^sup>*" "u \<notin> ?A" for u
    proof -
      have "u \<in> set order" using u(1) r(1) order
        by (cases rule: converse_rtranclE) (auto simp: finish_order_of_def edges_of_def)
      then obtain w where w: "mutual adj u w" "w = r \<or> w \<in> set ys" using late u(1) by blast
      then have "w = r" using u(2) by (auto simp: reaching_def mutual_def)
      then show ?thesis using w(1) mutual_sym by blast
    qed
    then have members: "set component = {u. mutual adj r u}"
      using c(4) outside by (auto simp: mutual_def)
    have "set component \<notin> set ` set comps"
    proof
      assume "set component \<in> set ` set comps"
      then obtain s where "s \<in> set ys" "{u. mutual adj r u} = {u. mutual adj s u}"
        using IH(4) members by (auto simp: components_of_def)
      then have "s \<in> ?A" "mutual adj r s" by (auto simp: reaching_def)
      then show False using outside by blast
    qed
    then have "components_of adj (set (r # ys)) (comps @ [component])"
      using IH(4) c(3) members by (auto simp: components_of_def)
    then show ?thesis using run c(2,5) unfolding all by blast
  qed
qed

text \<open>Kosaraju's two passes together.\<close>

lemma strongly_connected_components:
  assumes "adjacency_ok adj" "reverses adj reverse"
  shows "\<exists>order assigned comps. depth_first_finish_order adj = Some order \<and>
    foldl (component_root emit reverse) (Some (replicate (length adj) False, [])) (rev order) =
      Some (assigned, concat (map emit comps)) \<and>
    components_of adj {..<length adj} comps"
proof -
  obtain order where order: "depth_first_finish_order adj = Some order" "finish_order_of adj order"
    using finish_order_exists [OF assms(1)] by blast
  have "set order = {..<length adj}" using order(2) by (simp add: finish_order_of_def)
  then show ?thesis
    using component_roots [OF assms(2) order(2), of "[]" order emit] order(1) by auto
qed

end
