(* ===== verification/Cycles.thy ===== *)
theory Cycles
  imports Graph DepthFirst
begin

text \<open>
  The cycles of \<open>formula-engine/src/lib.rs\<close>: formulas and the columns they read are the nodes of a
  bipartite graph, its strongly connected components are found by the two searches of
  \<open>DepthFirst\<close>, and a component is a cycle when it has two nodes or a formula naming itself.
  \<open>None\<close> is a panic.
\<close>

section \<open>The bipartite graph\<close>

datatype graph_node = CellNode field_ref | ColumnNode column_ref

definition graph_node_key :: "graph_node \<Rightarrow> nat \<times> string \<times> string" where
  "graph_node_key n =
     (case n of CellNode f \<Rightarrow> (0, field_ref_key f) | ColumnNode c \<Rightarrow> (1, column_ref_key c))"

lemma graph_node_key_inject: "graph_node_key m = graph_node_key n \<longleftrightarrow> m = n"
  by (auto simp: graph_node_key_def ref_key_inject split: graph_node.splits)

instantiation graph_node :: linorder
begin

definition less_eq_graph_node :: "graph_node \<Rightarrow> graph_node \<Rightarrow> bool" where
  "less_eq_graph_node x y \<longleftrightarrow> graph_node_key x \<le> graph_node_key y"

definition less_graph_node :: "graph_node \<Rightarrow> graph_node \<Rightarrow> bool" where
  "less_graph_node x y \<longleftrightarrow> graph_node_key x < graph_node_key y"

instance
  by standard (auto simp: less_eq_graph_node_def less_graph_node_def less_le_not_le
      graph_node_key_inject dest: antisym)

end

definition cycle_columns :: "field_ref fset \<Rightarrow> dependency_graph \<Rightarrow> column_ref fset" where
  "cycle_columns eligible g =
     foldl (\<lambda>cs f. cs |\<union>| set_at (dg_column_uses g) f) {||} (sorted_list_of_fset eligible)"

definition cycle_nodes :: "field_ref fset \<Rightarrow> dependency_graph \<Rightarrow> graph_node list" where
  "cycle_nodes eligible g =
     map CellNode (sorted_list_of_fset eligible) @
     map ColumnNode (sorted_list_of_fset (cycle_columns eligible g))"

definition node_index :: "graph_node list \<Rightarrow> (graph_node, nat) btree" where
  "node_index nodes =
     foldl (\<lambda>m (n, i). bt_insert n i m) bt_empty (zip nodes [0..<length nodes])"

definition connect :: "nat \<Rightarrow> nat \<Rightarrow> adjacency \<times> adjacency \<Rightarrow> (adjacency \<times> adjacency) option" where
  "connect source target st =
     (case st of (adj, reverse) \<Rightarrow>
      if source < length adj \<and> target < length reverse
      then Some (adj[source := adj ! source @ [target]], reverse[target := reverse ! target @ [source]])
      else None)"

definition connect_to ::
    "(graph_node, nat) btree \<Rightarrow> nat \<Rightarrow> (adjacency \<times> adjacency) option \<Rightarrow> graph_node
     \<Rightarrow> (adjacency \<times> adjacency) option" where
  "connect_to index source st node =
     Option.bind st (\<lambda>st. Option.bind (bt_get index node) (\<lambda>target. connect source target st))"

definition formula_targets :: "field_ref fset \<Rightarrow> dependency_graph \<Rightarrow> field_ref \<Rightarrow> graph_node list" where
  "formula_targets eligible g f =
     map CellNode (filter (\<lambda>r. r |\<in>| eligible) (sorted_list_of_fset (set_at (dg_reference_uses g) f))) @
     map ColumnNode (sorted_list_of_fset (set_at (dg_column_uses g) f))"

definition column_targets :: "field_ref fset \<Rightarrow> dependency_graph \<Rightarrow> column_ref \<Rightarrow> graph_node list" where
  "column_targets eligible g c =
     map CellNode (filter (\<lambda>s. s |\<in>| eligible) (sorted_list_of_fset (set_at (dg_column_slots g) c)))"

definition connect_all ::
    "field_ref fset \<Rightarrow> dependency_graph \<Rightarrow> (graph_node, nat) btree \<Rightarrow> nat
     \<Rightarrow> (adjacency \<times> adjacency) option" where
  "connect_all eligible g index n =
     foldl (\<lambda>st c. Option.bind (bt_get index (ColumnNode c))
         (\<lambda>source. foldl (connect_to index source) st (column_targets eligible g c)))
       (foldl (\<lambda>st (source, f). foldl (connect_to index source) st (formula_targets eligible g f))
          (Some (replicate n [], replicate n []))
          (enumerate 0 (sorted_list_of_fset eligible)))
       (sorted_list_of_fset (cycle_columns eligible g))"

definition cell_at :: "graph_node list \<Rightarrow> nat \<Rightarrow> field_ref option" where
  "cell_at nodes p = (case nodes ! p of CellNode f \<Rightarrow> Some f | ColumnNode c \<Rightarrow> None)"

text \<open>What one component adds to the cycles; an entry \<open>None\<close> is the \<open>unreachable!\<close>.\<close>

definition cycle_of ::
    "dependency_graph \<Rightarrow> graph_node list \<Rightarrow> nat \<Rightarrow> nat list \<Rightarrow> field_ref fset option list" where
  "cycle_of g nodes formula_count component =
     (case those (map (cell_at nodes) (filter (\<lambda>p. p < formula_count) component)) of
        None \<Rightarrow> [None]
      | Some cells \<Rightarrow>
          let members = fset_of_list cells;
              cyclic = 1 < length component \<or>
                (case component of [] \<Rightarrow> False | p # ps \<Rightarrow> p < formula_count) \<and>
                (case sorted_list_of_fset members of
                   [] \<Rightarrow> False | m # ms \<Rightarrow> m |\<in>| set_at (dg_reference_uses g) m)
          in if cyclic then [Some members] else [])"

definition cyclic_components ::
    "field_ref fset \<Rightarrow> dependency_graph \<Rightarrow> field_ref fset list option" where
  "cyclic_components eligible g =
     (let nodes = cycle_nodes eligible g;
          formula_count = fcard eligible in
      case connect_all eligible g (node_index nodes) (length nodes) of
        None \<Rightarrow> None
      | Some (adj, reverse) \<Rightarrow>
          (case depth_first_finish_order adj of
             None \<Rightarrow> None
           | Some order \<Rightarrow>
               (case foldl (component_root (cycle_of g nodes formula_count) reverse)
                   (Some (replicate (length nodes) False, [])) (rev order) of
                  None \<Rightarrow> None
                | Some (assigned, cycles) \<Rightarrow> those cycles)))"

section \<open>The graph that is searched\<close>

definition node_targets :: "field_ref fset \<Rightarrow> dependency_graph \<Rightarrow> graph_node \<Rightarrow> graph_node list" where
  "node_targets eligible g n =
     (case n of CellNode f \<Rightarrow> formula_targets eligible g f | ColumnNode c \<Rightarrow> column_targets eligible g c)"

lemma in_cycle_columns:
  "c |\<in>| cycle_columns eligible g \<longleftrightarrow> (\<exists>f. f |\<in>| eligible \<and> c |\<in>| set_at (dg_column_uses g) f)"
proof -
  have "fset (foldl (\<lambda>cs f. cs |\<union>| h f) s fs) = fset s \<union> (\<Union>f\<in>set fs. fset (h f))"
    for h :: "field_ref \<Rightarrow> column_ref fset" and s fs
    by (induction fs arbitrary: s) auto
  then show ?thesis by (auto simp: cycle_columns_def)
qed

lemma set_cycle_nodes:
  "x \<in> set (cycle_nodes eligible g) \<longleftrightarrow>
     (case x of CellNode f \<Rightarrow> f |\<in>| eligible | ColumnNode c \<Rightarrow> c |\<in>| cycle_columns eligible g)"
  by (auto simp: cycle_nodes_def split: graph_node.split)

lemma distinct_cycle_nodes [simp]: "distinct (cycle_nodes eligible g)"
  by (auto simp: cycle_nodes_def distinct_map inj_on_def sorted_list_of_fset.rep_eq)

lemma node_targets_closed:
  "x \<in> set (cycle_nodes eligible g) \<Longrightarrow> y \<in> set (node_targets eligible g x) \<Longrightarrow>
   y \<in> set (cycle_nodes eligible g)"
  by (auto simp: set_cycle_nodes node_targets_def formula_targets_def column_targets_def in_cycle_columns
      split: graph_node.splits)

lemma node_index_get:
  assumes "distinct nodes" "i < length nodes"
  shows "bt_get (node_index nodes) (nodes ! i) = Some i"
  using assms by (simp add: node_index_def bt_get_foldl_insert map_of_zip_nth)

text \<open>The two lists of lists hold the edges \<open>S\<close> and their reverse.\<close>

definition represents :: "nat \<Rightarrow> (nat \<times> nat) set \<Rightarrow> adjacency \<times> adjacency \<Rightarrow> bool" where
  "represents n S st \<longleftrightarrow>
     length (fst st) = n \<and> length (snd st) = n \<and> S \<subseteq> {..<n} \<times> {..<n} \<and>
     (\<forall>u<n. set (fst st ! u) = {v. (u, v) \<in> S}) \<and> (\<forall>v<n. set (snd st ! v) = {u. (u, v) \<in> S})"

lemma connect_represents:
  assumes "represents n S st" "u < n" "v < n"
  shows "\<exists>st'. connect u v st = Some st' \<and> represents n (insert (u, v) S) st'"
  using assms
  by (cases st) (auto simp: represents_def connect_def nth_list_update)

lemma connect_targets:
  assumes "represents n S st" "u < n" "\<And>x. x \<in> set xs \<Longrightarrow> x \<in> set nodes" "distinct nodes" "n = length nodes"
  shows "\<exists>st'. foldl (connect_to (node_index nodes) u) (Some st) xs = Some st' \<and>
    represents n (S \<union> {(u, v) |v. v < n \<and> nodes ! v \<in> set xs}) st'"
  using assms(1,3)
proof (induction xs arbitrary: S st)
  case (Cons x xs)
  obtain v where v: "v < n" "nodes ! v = x"
    using Cons.prems(2) [of x] assms(5) by (auto simp: in_set_conv_nth)
  have get: "bt_get (node_index nodes) x = Some v"
    using node_index_get [OF assms(4), of v] v assms(5) by simp
  obtain st1 where one: "connect u v st = Some st1" "represents n (insert (u, v) S) st1"
    using connect_represents [OF Cons.prems(1) assms(2) v(1)] by blast
  from Cons.IH [OF one(2)] Cons.prems(2) obtain st2 where
    two: "foldl (connect_to (node_index nodes) u) (Some st1) xs = Some st2"
      "represents n (insert (u, v) S \<union> {(u, v) |v. v < n \<and> nodes ! v \<in> set xs}) st2"
    by auto
  have unique: "nodes ! w = x \<longleftrightarrow> w = v" if "w < n" for w
    using nth_eq_iff_index_eq [OF assms(4), of w v] that v assms(5) by simp
  have "{(u, w) |w. w < n \<and> nodes ! w \<in> set (x # xs)} =
      insert (u, v) {(u, w) |w. w < n \<and> nodes ! w \<in> set xs}"
  proof -
    have "w < n \<and> nodes ! w \<in> set (x # xs) \<longleftrightarrow> w = v \<or> w < n \<and> nodes ! w \<in> set xs" for w
      using unique [of w] v(1) by auto
    then show ?thesis by auto
  qed
  then have eq: "S \<union> {(u, w) |w. w < n \<and> nodes ! w \<in> set (x # xs)} =
      insert (u, v) S \<union> {(u, w) |w. w < n \<and> nodes ! w \<in> set xs}"
    by simp
  have "foldl (connect_to (node_index nodes) u) (Some st) (x # xs) = Some st2"
    using one(1) two(1) get by (simp add: connect_to_def)
  then show ?case using two(2) unfolding eq by blast
qed simp

lemma connect_nodes:
  assumes "distinct nodes" and n: "n = length nodes"
    and closed: "\<And>x y. x \<in> set nodes \<Longrightarrow> y \<in> set (targets x) \<Longrightarrow> y \<in> set nodes"
  shows "represents n S st \<Longrightarrow> k \<le> n \<Longrightarrow>
    \<exists>st'. foldl (\<lambda>st (u, x). foldl (connect_to (node_index nodes) u) st (targets x)) (Some st)
        (enumerate k (drop k nodes)) = Some st' \<and>
      represents n (S \<union> {(u, v). k \<le> u \<and> u < n \<and> v < n \<and> nodes ! v \<in> set (targets (nodes ! u))}) st'"
proof (induction "n - k" arbitrary: k S st)
  case 0
  have "{(u, v). k \<le> u \<and> u < n \<and> v < n \<and> nodes ! v \<in> set (targets (nodes ! u))} = {}"
    using 0 by auto
  then show ?case using 0 n by (simp only: Un_empty_right) simp
next
  case (Suc m)
  then have k: "k < n" by simp
  then have drop: "drop k nodes = nodes ! k # drop (Suc k) nodes" using n by (simp add: Cons_nth_drop_Suc)
  obtain st1 where one:
    "foldl (connect_to (node_index nodes) k) (Some st) (targets (nodes ! k)) = Some st1"
    "represents n (S \<union> {(k, v) |v. v < n \<and> nodes ! v \<in> set (targets (nodes ! k))}) st1"
    using connect_targets [OF Suc.prems(1) k _ assms(1) n, of "targets (nodes ! k)"] closed [of "nodes ! k"] k n
    by auto
  have "m = n - Suc k" "Suc k \<le> n" using Suc.hyps(2) k by simp_all
  from Suc.hyps(1) [OF this(1) one(2) this(2)] obtain st2 where two:
    "foldl (\<lambda>st (u, x). foldl (connect_to (node_index nodes) u) st (targets x)) (Some st1)
        (enumerate (Suc k) (drop (Suc k) nodes)) = Some st2"
    "represents n (S \<union> {(k, v) |v. v < n \<and> nodes ! v \<in> set (targets (nodes ! k))} \<union>
       {(u, v). Suc k \<le> u \<and> u < n \<and> v < n \<and> nodes ! v \<in> set (targets (nodes ! u))}) st2"
    by blast
  have "S \<union> {(k, v) |v. v < n \<and> nodes ! v \<in> set (targets (nodes ! k))} \<union>
       {(u, v). Suc k \<le> u \<and> u < n \<and> v < n \<and> nodes ! v \<in> set (targets (nodes ! u))} =
      S \<union> {(u, v). k \<le> u \<and> u < n \<and> v < n \<and> nodes ! v \<in> set (targets (nodes ! u))}"
    using k by (auto simp: Suc_le_eq le_less)
  then show ?case using one(1) two by (simp add: drop)
qed

definition search_edges :: "field_ref fset \<Rightarrow> dependency_graph \<Rightarrow> (nat \<times> nat) set" where
  "search_edges eligible g =
     (let nodes = cycle_nodes eligible g in
      {(u, v). u < length nodes \<and> v < length nodes \<and> nodes ! v \<in> set (node_targets eligible g (nodes ! u))})"

lemma connect_all_nodes:
  fixes eligible g
  defines "nodes \<equiv> cycle_nodes eligible g"
  shows "connect_all eligible g (node_index nodes) n =
    foldl (\<lambda>st (u, x). foldl (connect_to (node_index nodes) u) st (node_targets eligible g x))
      (Some (replicate n [], replicate n [])) (enumerate 0 nodes)"
proof -
  let ?fs = "sorted_list_of_fset eligible" and ?cs = "sorted_list_of_fset (cycle_columns eligible g)"
  let ?step = "\<lambda>st (u, x). foldl (connect_to (node_index nodes) u) st (node_targets eligible g x)"
  have cells: "foldl (\<lambda>st (u, f). foldl (connect_to (node_index nodes) u) st (formula_targets eligible g f))
      st (enumerate k fs) = foldl ?step st (enumerate k (map CellNode fs))" for st k fs
    by (induction fs arbitrary: st k) (simp_all add: node_targets_def)
  have columns: "foldl (\<lambda>st c. Option.bind (bt_get (node_index nodes) (ColumnNode c))
         (\<lambda>u. foldl (connect_to (node_index nodes) u) st (column_targets eligible g c))) st cs =
      foldl ?step st (enumerate k (map ColumnNode cs))"
    if "k + length cs = length nodes" "\<And>i. i < length cs \<Longrightarrow> nodes ! (k + i) = ColumnNode (cs ! i)" for st k cs
    using that
  proof (induction cs arbitrary: st k)
    case (Cons c cs)
    have "bt_get (node_index nodes) (ColumnNode c) = Some k"
      using node_index_get [of nodes k] Cons.prems(1) Cons.prems(2) [of 0] by (simp add: nodes_def)
    moreover have "nodes ! (Suc k + i) = ColumnNode (cs ! i)" if "i < length cs" for i
      using Cons.prems(2) [of "Suc i"] that by simp
    ultimately show ?case
      using Cons.IH [of "Suc k"] Cons.prems(1) by (simp add: node_targets_def)
  qed simp
  have "enumerate 0 nodes = enumerate 0 (map CellNode ?fs) @ enumerate (length ?fs) (map ColumnNode ?cs)"
    by (simp add: nodes_def cycle_nodes_def enumerate_append_eq)
  then show ?thesis
    unfolding connect_all_def cells
    by (subst columns [where k = "length ?fs"]) (simp_all add: nodes_def cycle_nodes_def nth_append)
qed

lemma connect_all_represents:
  fixes eligible g
  defines "nodes \<equiv> cycle_nodes eligible g"
  shows "\<exists>st. connect_all eligible g (node_index nodes) (length nodes) = Some st \<and>
    represents (length nodes) (search_edges eligible g) st"
proof -
  have "represents (length nodes) {} (replicate (length nodes) [], replicate (length nodes) [])"
    by (simp add: represents_def)
  from connect_nodes [of nodes "length nodes" "node_targets eligible g", OF _ refl _ this, of 0]
  show ?thesis
    unfolding connect_all_nodes nodes_def search_edges_def Let_def
    using node_targets_closed by auto
qed

lemma represents_adjacency:
  assumes "represents n S (adj, reverse)"
  shows "edges_of adj = S" "adjacency_ok adj" "reverses adj reverse" "length adj = n"
proof -
  show len: "length adj = n" using assms by (simp add: represents_def)
  show edges: "edges_of adj = S" using assms by (auto simp: represents_def edges_of_def)
  show "adjacency_ok adj" using assms unfolding adjacency_ok_def edges len by (auto simp: represents_def)
  show "reverses adj reverse" using assms unfolding reverses_def edges len by (auto simp: represents_def)
qed

section \<open>Cycles of formulas\<close>

text \<open>The dependencies of formulas on each other, which the columns of the search stand for.\<close>

definition reads_within :: "field_ref fset \<Rightarrow> dependency_graph \<Rightarrow> (field_ref \<times> field_ref) set" where
  "reads_within eligible g = {(f, h). f |\<in>| eligible \<and> h |\<in>| formula_dependencies_within g f eligible}"

lemma in_formula_dependencies_within:
  "h |\<in>| formula_dependencies_within g f within \<longleftrightarrow>
     h |\<in>| within \<and> (h |\<in>| set_at (dg_reference_uses g) f \<or>
       (\<exists>c. c |\<in>| set_at (dg_column_uses g) f \<and> h |\<in>| set_at (dg_column_slots g) c))"
proof -
  have inner: "foldl (\<lambda>deps slot. if slot |\<in>| within then finsert slot deps else deps) s xs =
      s |\<union>| ffilter (\<lambda>x. x |\<in>| within) (fset_of_list xs)" for s xs
    by (induction xs arbitrary: s) auto
  have outer: "fset (foldl (\<lambda>deps col. deps |\<union>| k col) s cs) = fset s \<union> (\<Union>c\<in>set cs. fset (k c))"
    for s cs and k :: "column_ref \<Rightarrow> field_ref fset"
    by (induction cs arbitrary: s) auto
  show ?thesis
    unfolding formula_dependencies_within_def inner outer
    by (auto simp: fset_of_list.rep_eq)
qed

definition node_edges :: "field_ref fset \<Rightarrow> dependency_graph \<Rightarrow> (graph_node \<times> graph_node) set" where
  "node_edges eligible g =
     {(x, y). x \<in> set (cycle_nodes eligible g) \<and> y \<in> set (node_targets eligible g x)}"

lemma node_edges_iff:
  "(CellNode f, CellNode h) \<in> node_edges eligible g \<longleftrightarrow>
     f |\<in>| eligible \<and> h |\<in>| eligible \<and> h |\<in>| set_at (dg_reference_uses g) f"
  "(CellNode f, ColumnNode c) \<in> node_edges eligible g \<longleftrightarrow>
     f |\<in>| eligible \<and> c |\<in>| set_at (dg_column_uses g) f"
  "(ColumnNode c, CellNode h) \<in> node_edges eligible g \<longleftrightarrow>
     c |\<in>| cycle_columns eligible g \<and> h |\<in>| eligible \<and> h |\<in>| set_at (dg_column_slots g) c"
  "(ColumnNode c, ColumnNode c') \<notin> node_edges eligible g"
  by (auto simp: node_edges_def set_cycle_nodes node_targets_def formula_targets_def column_targets_def)

lemma reads_within_iff:
  "(f, h) \<in> reads_within eligible g \<longleftrightarrow>
     (CellNode f, CellNode h) \<in> node_edges eligible g \<or>
     (\<exists>c. (CellNode f, ColumnNode c) \<in> node_edges eligible g \<and>
          (ColumnNode c, CellNode h) \<in> node_edges eligible g)"
  by (auto simp: reads_within_def in_formula_dependencies_within node_edges_iff in_cycle_columns)

lemma node_path_reads:
  "(CellNode f, y) \<in> (node_edges eligible g)\<^sup>+ \<Longrightarrow>
   (case y of CellNode h \<Rightarrow> (f, h) \<in> (reads_within eligible g)\<^sup>+
    | ColumnNode c \<Rightarrow> \<exists>k. (f, k) \<in> (reads_within eligible g)\<^sup>* \<and> (CellNode k, ColumnNode c) \<in> node_edges eligible g)"
proof (induction rule: trancl_induct)
  case (base y)
  then show ?case by (cases y) (auto simp: reads_within_iff)
next
  case (step y z)
  show ?case
  proof (cases y)
    case y: (CellNode h)
    then have h: "(f, h) \<in> (reads_within eligible g)\<^sup>+" using step.IH by simp
    show ?thesis
    proof (cases z)
      case (CellNode k)
      then have "(h, k) \<in> reads_within eligible g" using step.hyps(2) y by (simp add: reads_within_iff)
      then show ?thesis using h CellNode by (simp add: trancl_into_trancl)
    next
      case (ColumnNode c)
      then show ?thesis using h step.hyps(2) y trancl_into_rtrancl by fastforce
    qed
  next
    case y: (ColumnNode c)
    then obtain k where k: "(f, k) \<in> (reads_within eligible g)\<^sup>*" "(CellNode k, ColumnNode c) \<in> node_edges eligible g"
      using step.IH by auto
    obtain h where z: "z = CellNode h" using step.hyps(2) y node_edges_iff(4) by (cases z) auto
    then have "(k, h) \<in> reads_within eligible g" using k(2) step.hyps(2) y by (auto simp: reads_within_iff)
    then show ?thesis using k(1) z by (simp add: rtrancl_into_trancl1)
  qed
qed

lemma reads_node_path:
  "(f, h) \<in> (reads_within eligible g)\<^sup>+ \<Longrightarrow> (CellNode f, CellNode h) \<in> (node_edges eligible g)\<^sup>+"
proof (induction rule: trancl_induct)
  case (base h)
  then show ?case by (auto simp: reads_within_iff intro: trancl_trans)
next
  case (step h k)
  have "(CellNode h, CellNode k) \<in> (node_edges eligible g)\<^sup>+"
    using step.hyps(2) by (auto simp: reads_within_iff intro: trancl_trans)
  then show ?case using step.IH by (rule trancl_trans [rotated])
qed

lemma node_path_iff:
  "(CellNode f, CellNode h) \<in> (node_edges eligible g)\<^sup>+ \<longleftrightarrow> (f, h) \<in> (reads_within eligible g)\<^sup>+"
  using node_path_reads [of f "CellNode h"] reads_node_path by auto

lemma search_path_iff:
  assumes "u < length (cycle_nodes eligible g)" "v < length (cycle_nodes eligible g)"
  shows "(u, v) \<in> (search_edges eligible g)\<^sup>* \<longleftrightarrow>
    (cycle_nodes eligible g ! u, cycle_nodes eligible g ! v) \<in> (node_edges eligible g)\<^sup>*"
proof
  let ?n = "cycle_nodes eligible g"
  assume "(u, v) \<in> (search_edges eligible g)\<^sup>*"
  then show "(?n ! u, ?n ! v) \<in> (node_edges eligible g)\<^sup>*"
    by (induction rule: rtrancl_induct)
      (auto simp: search_edges_def node_edges_def Let_def intro: rtrancl_into_rtrancl)
next
  let ?n = "cycle_nodes eligible g"
  have "(?n ! u, y) \<in> (node_edges eligible g)\<^sup>* \<Longrightarrow>
      \<exists>w<length ?n. ?n ! w = y \<and> (u, w) \<in> (search_edges eligible g)\<^sup>*" for y
  proof (induction rule: rtrancl_induct)
    case base
    then show ?case using assms(1) by blast
  next
    case (step y z)
    then obtain w where w: "w < length ?n" "?n ! w = y" "(u, w) \<in> (search_edges eligible g)\<^sup>*" by blast
    have "z \<in> set ?n" using step.hyps(2) node_targets_closed by (auto simp: node_edges_def)
    then obtain x where x: "x < length ?n" "?n ! x = z" by (auto simp: in_set_conv_nth)
    then have "(w, x) \<in> search_edges eligible g"
      using step.hyps(2) w by (simp add: search_edges_def node_edges_def Let_def)
    with w(3) have "(u, x) \<in> (search_edges eligible g)\<^sup>*" by (rule rtrancl_into_rtrancl)
    then show ?case using x by blast
  qed
  moreover assume "(?n ! u, ?n ! v) \<in> (node_edges eligible g)\<^sup>*"
  ultimately obtain w where "w < length ?n" "?n ! w = ?n ! v" "(u, w) \<in> (search_edges eligible g)\<^sup>*" by blast
  then show "(u, v) \<in> (search_edges eligible g)\<^sup>*" using assms(2) by (simp add: nth_eq_iff_index_eq)
qed

section \<open>The components that are cycles\<close>

definition component_cells :: "graph_node list \<Rightarrow> nat list \<Rightarrow> field_ref set" where
  "component_cells nodes c = {f. \<exists>p. p \<in> set c \<and> nodes ! p = CellNode f}"

definition is_component :: "field_ref fset \<Rightarrow> dependency_graph \<Rightarrow> nat list \<Rightarrow> bool" where
  "is_component eligible g c \<longleftrightarrow>
     (let nodes = cycle_nodes eligible g in
      distinct c \<and> c \<noteq> [] \<and> set c \<subseteq> {..<length nodes} \<and>
      (\<forall>p\<in>set c. \<forall>q<length nodes. q \<in> set c \<longleftrightarrow>
         (nodes ! p, nodes ! q) \<in> (node_edges eligible g)\<^sup>* \<and>
         (nodes ! q, nodes ! p) \<in> (node_edges eligible g)\<^sup>*))"

lemma is_componentD:
  assumes "is_component eligible g c"
  shows "distinct c" "c \<noteq> []" "set c \<subseteq> {..<length (cycle_nodes eligible g)}"
    "p \<in> set c \<Longrightarrow> q < length (cycle_nodes eligible g) \<Longrightarrow> q \<in> set c \<longleftrightarrow>
       (cycle_nodes eligible g ! p, cycle_nodes eligible g ! q) \<in> (node_edges eligible g)\<^sup>* \<and>
       (cycle_nodes eligible g ! q, cycle_nodes eligible g ! p) \<in> (node_edges eligible g)\<^sup>*"
  using assms unfolding is_component_def Let_def by blast+

lemma cell_position:
  assumes "p < length (cycle_nodes eligible g)"
  shows "p < fcard eligible \<longleftrightarrow> (\<exists>f. cycle_nodes eligible g ! p = CellNode f)"
proof -
  have "length (sorted_list_of_fset eligible) = fcard eligible"
    by (simp add: fcard.rep_eq sorted_list_of_fset.rep_eq)
  then show ?thesis using assms by (auto simp: cycle_nodes_def nth_append)
qed

lemma component_cell_list:
  "set c \<subseteq> {..<length (cycle_nodes eligible g)} \<Longrightarrow>
   \<exists>cells. those (map (cell_at (cycle_nodes eligible g)) (filter (\<lambda>p. p < fcard eligible) c)) = Some cells \<and>
     set cells = component_cells (cycle_nodes eligible g) c"
proof (induction c)
  case (Cons p c)
  then obtain cells where IH:
    "those (map (cell_at (cycle_nodes eligible g)) (filter (\<lambda>p. p < fcard eligible) c)) = Some cells"
    "set cells = component_cells (cycle_nodes eligible g) c" by auto
  have p: "p < length (cycle_nodes eligible g)" using Cons.prems by simp
  show ?case
  proof (cases "cycle_nodes eligible g ! p")
    case (CellNode f)
    then have "p < fcard eligible" "cell_at (cycle_nodes eligible g) p = Some f"
      using cell_position [OF p] by (auto simp: cell_at_def)
    moreover have "set (f # cells) = component_cells (cycle_nodes eligible g) (p # c)"
      using IH(2) CellNode by (auto simp: component_cells_def)
    ultimately show ?thesis using IH(1) by (intro exI [of _ "f # cells"]) simp
  next
    case (ColumnNode x)
    then have "\<not> p < fcard eligible" using cell_position [OF p] by simp
    then show ?thesis using IH ColumnNode by (auto simp: component_cells_def)
  qed
qed (simp add: component_cells_def)

text \<open>A cell of a component and the nodes of the component.\<close>

lemma component_node:
  assumes c: "is_component eligible g c" and f: "f \<in> component_cells (cycle_nodes eligible g) c"
    and path: "(CellNode f, y) \<in> (node_edges eligible g)\<^sup>*" "(y, CellNode f) \<in> (node_edges eligible g)\<^sup>*"
  shows "\<exists>q. q \<in> set c \<and> cycle_nodes eligible g ! q = y"
proof -
  obtain p where p: "p \<in> set c" "cycle_nodes eligible g ! p = CellNode f"
    using f by (auto simp: component_cells_def)
  have "y \<in> set (cycle_nodes eligible g)"
  proof (cases "y = CellNode f")
    case True
    then show ?thesis using p is_componentD(3) [OF c] by (metis lessThan_iff nth_mem subsetD)
  next
    case False
    then obtain z where "(y, z) \<in> node_edges eligible g" using path(2) by (metis converse_rtranclE)
    then show ?thesis by (simp add: node_edges_def)
  qed
  then obtain q where q: "q < length (cycle_nodes eligible g)" "cycle_nodes eligible g ! q = y"
    by (auto simp: in_set_conv_nth)
  then show ?thesis using is_componentD(4) [OF c p(1) q(1)] p(2) path by auto
qed

lemma component_members:
  assumes c: "is_component eligible g c" and f: "f \<in> component_cells (cycle_nodes eligible g) c"
    and loop: "(f, f) \<in> (reads_within eligible g)\<^sup>+"
  shows "component_cells (cycle_nodes eligible g) c =
    {h. (f, h) \<in> (reads_within eligible g)\<^sup>+ \<and> (h, f) \<in> (reads_within eligible g)\<^sup>+}"
proof (intro equalityI subsetI CollectI)
  fix h
  assume h: "h \<in> component_cells (cycle_nodes eligible g) c"
  obtain p q where pq: "p \<in> set c" "cycle_nodes eligible g ! p = CellNode f"
    "q \<in> set c" "cycle_nodes eligible g ! q = CellNode h"
    using f h by (auto simp: component_cells_def)
  have "q < length (cycle_nodes eligible g)" using is_componentD(3) [OF c] pq(3) by auto
  then have "(CellNode f, CellNode h) \<in> (node_edges eligible g)\<^sup>*" "(CellNode h, CellNode f) \<in> (node_edges eligible g)\<^sup>*"
    using is_componentD(4) [OF c pq(1)] pq by auto
  then show "(f, h) \<in> (reads_within eligible g)\<^sup>+ \<and> (h, f) \<in> (reads_within eligible g)\<^sup>+"
    using loop by (auto simp: rtrancl_eq_or_trancl node_path_iff)
next
  fix h
  assume "h \<in> {h. (f, h) \<in> (reads_within eligible g)\<^sup>+ \<and> (h, f) \<in> (reads_within eligible g)\<^sup>+}"
  then have "(CellNode f, CellNode h) \<in> (node_edges eligible g)\<^sup>*" "(CellNode h, CellNode f) \<in> (node_edges eligible g)\<^sup>*"
    by (auto simp: rtrancl_eq_or_trancl node_path_iff)
  from component_node [OF c f this]
  show "h \<in> component_cells (cycle_nodes eligible g) c" by (auto simp: component_cells_def)
qed

definition has_loop :: "field_ref fset \<Rightarrow> dependency_graph \<Rightarrow> nat list \<Rightarrow> bool" where
  "has_loop eligible g c \<longleftrightarrow>
     (\<exists>f. f \<in> component_cells (cycle_nodes eligible g) c \<and> (f, f) \<in> (reads_within eligible g)\<^sup>+)"

lemma long_component_loops:
  assumes c: "is_component eligible g c" and long: "1 < length c"
  shows "has_loop eligible g c"
proof -
  let ?n = "cycle_nodes eligible g" and ?B = "node_edges eligible g"
  obtain p q ps where c_eq: "c = p # q # ps"
    using long by (cases c; cases "tl c") auto
  have pq: "p \<in> set c" "q \<in> set c" "p \<noteq> q" "p < length ?n" "q < length ?n"
    using is_componentD(1,3) [OF c] c_eq by auto
  have "?n ! p \<noteq> ?n ! q" using pq by (simp add: nth_eq_iff_index_eq)
  then have path: "(?n ! p, ?n ! q) \<in> ?B\<^sup>+" "(?n ! q, ?n ! p) \<in> ?B\<^sup>+"
    using is_componentD(4) [OF c pq(1,5)] pq(2) by (auto simp: rtrancl_eq_or_trancl)
  show ?thesis
  proof (cases "?n ! p")
    case (CellNode f)
    then have "(f, f) \<in> (reads_within eligible g)\<^sup>+"
      using trancl_trans [OF path] by (simp add: node_path_iff)
    then show ?thesis using pq(1) CellNode by (auto simp: has_loop_def component_cells_def)
  next
    case (ColumnNode x)
    obtain y where y: "(?n ! p, y) \<in> ?B" "(y, ?n ! q) \<in> ?B\<^sup>*" using tranclD [OF path(1)] by blast
    then obtain f where f: "y = CellNode f" using ColumnNode node_edges_iff(4) by (cases y) auto
    have loop: "(CellNode f, CellNode f) \<in> ?B\<^sup>+"
      using rtrancl_trancl_trancl [OF y(2) path(2)] y(1) f by (auto intro: trancl_into_trancl)
    have "y \<in> set ?n" using y(1) node_targets_closed by (auto simp: node_edges_def)
    then obtain r where r: "r < length ?n" "?n ! r = y" by (auto simp: in_set_conv_nth)
    have "(y, ?n ! p) \<in> ?B\<^sup>*" using y(2) path(2) by (meson rtrancl_trans trancl_into_rtrancl)
    then have "r \<in> set c" using is_componentD(4) [OF c pq(1) r(1)] r(2) y(1) by auto
    then show ?thesis using r(2) f loop by (auto simp: has_loop_def component_cells_def node_path_iff)
  qed
qed

lemma cycle_of_component:
  assumes c: "is_component eligible g c"
  shows "if has_loop eligible g c
    then \<exists>m. cycle_of g (cycle_nodes eligible g) (fcard eligible) c = [Some m] \<and>
           fset m = component_cells (cycle_nodes eligible g) c
    else cycle_of g (cycle_nodes eligible g) (fcard eligible) c = []"
proof -
  let ?n = "cycle_nodes eligible g"
  obtain cells where cells: "those (map (cell_at ?n) (filter (\<lambda>p. p < fcard eligible) c)) = Some cells"
    "set cells = component_cells ?n c"
    using component_cell_list [OF is_componentD(3) [OF c]] by blast
  define single where "single \<longleftrightarrow> (case c of [] \<Rightarrow> False | p # ps \<Rightarrow> p < fcard eligible) \<and>
    (case sorted_list_of_fset (fset_of_list cells) of
       [] \<Rightarrow> False | m # ms \<Rightarrow> m |\<in>| set_at (dg_reference_uses g) m)"
  have one: "single \<longleftrightarrow> has_loop eligible g c" if short: "\<not> 1 < length c"
  proof -
    obtain p where p: "c = [p]" using short is_componentD(2) [OF c] by (cases c; cases "tl c") auto
    have len: "p < length ?n" using is_componentD(3) [OF c] p by simp
    show ?thesis
    proof (cases "?n ! p")
      case (ColumnNode x)
      then show ?thesis
        using cell_position [OF len] p by (simp add: single_def has_loop_def component_cells_def)
    next
      case (CellNode f)
      have comp: "component_cells ?n c = {f}" using p CellNode by (auto simp: component_cells_def)
      then have "fset_of_list cells = {|f|}" using cells(2) by (auto simp: fset_of_list.rep_eq)
      then have "single \<longleftrightarrow> f |\<in>| set_at (dg_reference_uses g) f"
        using p cell_position [OF len] CellNode by (simp add: single_def sorted_list_of_fset.rep_eq)
      moreover have "f |\<in>| eligible"
        using nth_mem [OF len] CellNode by (simp add: set_cycle_nodes)
      moreover have "(CellNode f, CellNode f) \<in> node_edges eligible g" if "(f, f) \<in> (reads_within eligible g)\<^sup>+"
      proof -
        have "(CellNode f, CellNode f) \<in> (node_edges eligible g)\<^sup>+" using that by (simp add: node_path_iff)
        then obtain y where y: "(CellNode f, y) \<in> node_edges eligible g" "(y, CellNode f) \<in> (node_edges eligible g)\<^sup>*"
          using tranclD by metis
        then have "y = CellNode f"
          using component_node [OF c, of f y] comp p CellNode by auto
        then show ?thesis using y(1) by simp
      qed
      ultimately show ?thesis
        using comp by (auto simp: has_loop_def node_edges_iff reads_within_iff)
    qed
  qed
  have eq: "cycle_of g ?n (fcard eligible) c = (if 1 < length c \<or> single then [Some (fset_of_list cells)] else [])"
    by (simp add: cycle_of_def cells(1) single_def Let_def)
  have "1 < length c \<or> single \<longleftrightarrow> has_loop eligible g c"
    using one long_component_loops [OF c] by blast
  then show ?thesis unfolding eq using cells(2) by (auto simp: fset_of_list.rep_eq)
qed

lemma cycles_of_components:
  "list_all (is_component eligible g) comps \<Longrightarrow>
   \<exists>cycles. those (concat (map (cycle_of g (cycle_nodes eligible g) (fcard eligible)) comps)) = Some cycles \<and>
     map fset cycles = map (component_cells (cycle_nodes eligible g)) (filter (has_loop eligible g) comps)"
proof (induction comps)
  case (Cons c comps)
  then obtain cycles where IH:
    "those (concat (map (cycle_of g (cycle_nodes eligible g) (fcard eligible)) comps)) = Some cycles"
    "map fset cycles = map (component_cells (cycle_nodes eligible g)) (filter (has_loop eligible g) comps)"
    by auto
  have c: "is_component eligible g c" using Cons.prems by simp
  show ?case
  proof (cases "has_loop eligible g c")
    case True
    then obtain m where "cycle_of g (cycle_nodes eligible g) (fcard eligible) c = [Some m]"
      "fset m = component_cells (cycle_nodes eligible g) c"
      using cycle_of_component [OF c] by auto
    then show ?thesis using IH True by (intro exI [of _ "m # cycles"]) simp
  next
    case False
    then show ?thesis using IH cycle_of_component [OF c] by simp
  qed
qed simp

lemma components_are_components:
  assumes comps: "components_of adj {..<n} comps" and edges: "edges_of adj = search_edges eligible g"
    and n: "length adj = n" "n = length (cycle_nodes eligible g)"
  shows "list_all (is_component eligible g) comps"
    "q < n \<Longrightarrow> \<exists>c\<in>set comps. q \<in> set c"
proof -
  have sets: "set ` set comps = (\<lambda>r. {u. mutual adj r u}) ` {..<n}"
    using comps by (simp add: components_of_def)
  have classes: "\<exists>r<n. set c = {u. mutual adj r u}" if "c \<in> set comps" for c
  proof -
    have "set c \<in> (\<lambda>r. {u. mutual adj r u}) ` {..<n}" unfolding sets [symmetric] using that by (rule imageI)
    then show ?thesis by blast
  qed
  have inside: "u < n" if "mutual adj r u" "r < n" for r u
  proof (cases "u = r")
    case False
    have "(u, r) \<in> (edges_of adj)\<^sup>*" using that(1) by (simp add: mutual_def)
    then obtain z where "(u, z) \<in> edges_of adj" using False by (metis converse_rtranclE)
    then show ?thesis using n(1) by (simp add: edges_of_def)
  qed (use that in simp)
  have "is_component eligible g c" if c: "c \<in> set comps" for c
  proof -
    obtain r where r: "r < n" "set c = {u. mutual adj r u}" using classes [OF c] by blast
    have "r \<in> set c" unfolding r(2) by simp
    then have "c \<noteq> []" by auto
    moreover have "distinct c" using comps c by (auto simp: components_of_def list_all_iff)
    moreover have sub: "set c \<subseteq> {..<n}" using r inside by auto
    moreover have "q \<in> set c \<longleftrightarrow> mutual adj p q" if "p \<in> set c" for p q
      using r(2) that mutual_sym mutual_trans by blast
    moreover have "mutual adj p q \<longleftrightarrow>
        (cycle_nodes eligible g ! p, cycle_nodes eligible g ! q) \<in> (node_edges eligible g)\<^sup>* \<and>
        (cycle_nodes eligible g ! q, cycle_nodes eligible g ! p) \<in> (node_edges eligible g)\<^sup>*"
      if "p \<in> set c" "q < n" for p q
      using search_path_iff [of p eligible g q] search_path_iff [of q eligible g p] sub that n(2)
      by (auto simp: mutual_def edges)
    ultimately show ?thesis
      unfolding is_component_def Let_def using n(2) by auto
  qed
  then show "list_all (is_component eligible g) comps" by (simp add: list_all_iff)
  show "\<exists>c\<in>set comps. q \<in> set c" if "q < n"
  proof -
    have "{u. mutual adj q u} \<in> set ` set comps" using comps that by (simp add: components_of_def)
    then show ?thesis using mutual_refl by (metis imageE mem_Collect_eq)
  qed
qed

text \<open>C10. The cycles reported are exactly the strongly connected components of the formulas over
  their dependencies on each other, through cells and through columns, that hold a cycle; every
  one is complete and reported once, and the search does not panic.\<close>

theorem cyclic_components_exact:
  "\<exists>cycles. cyclic_components eligible g = Some cycles \<and> distinct cycles \<and>
     fset ` set cycles =
       (\<lambda>f. {h. (f, h) \<in> (reads_within eligible g)\<^sup>+ \<and> (h, f) \<in> (reads_within eligible g)\<^sup>+}) `
       {f. (f, f) \<in> (reads_within eligible g)\<^sup>+}"
proof -
  let ?n = "cycle_nodes eligible g" and ?R = "(reads_within eligible g)\<^sup>+"
  let ?emit = "cycle_of g ?n (fcard eligible)"
  let ?mates = "\<lambda>f. {h. (f, h) \<in> ?R \<and> (h, f) \<in> ?R}"
  obtain adj reverse where all: "connect_all eligible g (node_index ?n) (length ?n) = Some (adj, reverse)"
    "represents (length ?n) (search_edges eligible g) (adj, reverse)"
    using connect_all_represents by force
  note A = represents_adjacency [OF all(2)]
  obtain order assigned comps where run: "depth_first_finish_order adj = Some order"
    "foldl (component_root ?emit reverse) (Some (replicate (length ?n) False, [])) (rev order) =
       Some (assigned, concat (map ?emit comps))"
    "components_of adj {..<length ?n} comps"
    using strongly_connected_components [OF A(2,3), of ?emit] A(4) by auto
  note C = components_are_components [OF run(3) A(1) A(4) refl]
  obtain cycles where cycles: "those (concat (map ?emit comps)) = Some cycles"
    "map fset cycles = map (component_cells ?n) (filter (has_loop eligible g) comps)"
    using cycles_of_components [OF C(1)] by blast
  have result: "cyclic_components eligible g = Some cycles"
    using all(1) run(1,2) cycles(1) by (simp add: cyclic_components_def Let_def)
  have comp: "is_component eligible g c" if "c \<in> set comps" for c using C(1) that by (simp add: list_all_iff)
  have "inj_on (component_cells ?n) (set (filter (has_loop eligible g) comps))"
  proof (rule inj_onI)
    fix c c'
    assume c: "c \<in> set (filter (has_loop eligible g) comps)" "c' \<in> set (filter (has_loop eligible g) comps)"
      and eq: "component_cells ?n c = component_cells ?n c'"
    obtain f where f: "f \<in> component_cells ?n c" using c(1) by (auto simp: has_loop_def)
    then obtain p where "p \<in> set c" "?n ! p = CellNode f" by (auto simp: component_cells_def)
    moreover obtain p' where "p' \<in> set c'" "?n ! p' = CellNode f"
      using f unfolding eq by (auto simp: component_cells_def)
    ultimately have p: "p \<in> set c" "?n ! p = CellNode f" "p' \<in> set c'" "?n ! p' = CellNode f" by blast+
    moreover have "p < length ?n" "p' < length ?n"
      using is_componentD(3) [OF comp] c p(1,3) by (auto simp: subset_iff)
    ultimately have "p = p'" using nth_eq_iff_index_eq [OF distinct_cycle_nodes] by metis
    moreover have cc: "is_component eligible g c" "is_component eligible g c'" using comp c by simp_all
    ultimately have "q \<in> set c \<longleftrightarrow> q \<in> set c'" if "q < length ?n" for q
      using is_componentD(4) [OF cc(1) p(1) that] is_componentD(4) [OF cc(2) p(3) that] by simp
    then have "set c = set c'" using is_componentD(3) [OF cc(1)] is_componentD(3) [OF cc(2)] by blast
    then show "c = c'"
      using run(3) c by (auto simp: components_of_def distinct_map dest: inj_onD)
  qed
  moreover have "distinct comps" using run(3) by (simp add: components_of_def distinct_map)
  ultimately have "distinct (map fset cycles)" unfolding cycles(2) by (simp add: distinct_map)
  then have "distinct cycles" by (simp add: distinct_map)
  moreover have "fset ` set cycles = ?mates ` {f. (f, f) \<in> ?R}"
  proof -
    have sets: "fset ` set cycles = component_cells ?n ` {c \<in> set comps. has_loop eligible g c}"
      using arg_cong [OF cycles(2), of set] by simp
    have "component_cells ?n c \<in> ?mates ` {f. (f, f) \<in> ?R}" if "c \<in> set comps" "has_loop eligible g c" for c
      using component_members [OF comp [OF that(1)]] that(2) by (auto simp: has_loop_def)
    moreover have "?mates f \<in> component_cells ?n ` {c \<in> set comps. has_loop eligible g c}" if f: "(f, f) \<in> ?R" for f
    proof -
      have "f |\<in>| eligible" using tranclD [OF f] by (auto simp: reads_within_def)
      then have "CellNode f \<in> set ?n" by (simp add: set_cycle_nodes)
      then obtain p where p: "p < length ?n" "?n ! p = CellNode f" by (auto simp: in_set_conv_nth)
      then obtain c where c: "c \<in> set comps" "p \<in> set c" using C(2) by blast
      then have "f \<in> component_cells ?n c" using p(2) by (auto simp: component_cells_def)
      then show ?thesis using component_members [OF comp [OF c(1)] _ f] c(1) f by (auto simp: has_loop_def)
    qed
    ultimately show ?thesis unfolding sets by blast
  qed
  ultimately show ?thesis using result by blast
qed

end
