(* ===== verification/Calculation.thy ===== *)
theory Calculation
  imports CachedEvaluation GraphUpdate Cycles
begin

text \<open>
  The calculation of \<open>formula-engine/src/lib.rs\<close>: the failures found before the graph is
  walked, the cycles, the pass that evaluates the remaining formulas dependency first, the full
  calculation and the retained state that is updated after an edit.  \<open>None\<close> is a panic.
  \<open>lower\<close> is the lower case of a character, which the criteria of a formula use.
\<close>

section \<open>Failures before the graph\<close>

text \<open>The stack of the structure check: a node and its depth, the top at the head.\<close>

function (sequential) structure_loop ::
    "(expression \<times> nat) list \<Rightarrow> nat \<Rightarrow> complexity_error + unit" where
  "structure_loop [] nodes = Inr ()"
| "structure_loop ((node, depth) # stack) nodes =
     (if max_expression_depth < depth then Inl DepthLimit
      else if max_expression_nodes < nodes + 1 then Inl NodeLimit
      else structure_loop (map (\<lambda>child. (child, depth + 1)) (children node) @ stack) (nodes + 1))"
  by pat_completeness auto
termination
  by (relation "measure (\<lambda>(stack, nodes). forest_count (map fst stack))")
    (auto simp: node_count_children comp_def)

declare structure_loop.simps [simp del]

definition validate_expression_structure :: "expression \<Rightarrow> complexity_error + unit" where
  "validate_expression_structure e = structure_loop [(e, 1)] 0"

definition column_failure_of :: "document \<Rightarrow> bool \<Rightarrow> column_ref \<Rightarrow> column_failure option" where
  "column_failure_of d needs_number col =
     (case bt_get (doc_schemas d) (cr_schema col) of
        None \<Rightarrow> Some ColMissingSchema
      | Some s \<Rightarrow>
          (case bt_get (sch_fields s) (cr_field col) of
             None \<Rightarrow> Some ColMissingField
           | Some f \<Rightarrow>
               if (needs_number \<and> fd_type f \<noteq> TNumber) \<or> (case fd_type f of TReference i \<Rightarrow> True | _ \<Rightarrow> False)
               then Some ColNonNumeric else None))"

definition column_failures :: "document \<Rightarrow> expression \<Rightarrow> (column_ref, column_failure) btree" where
  "column_failures d e =
     foldl (\<lambda>m col. case column_failure_of d (col |\<in>| extract_value_columns e) col of
          None \<Rightarrow> m | Some f \<Rightarrow> bt_insert col f m)
       bt_empty (sorted_list_of_fset (extract_column_totals e))"

definition structural_reference_failure ::
    "document \<Rightarrow> field_ref \<Rightarrow> bool \<Rightarrow> reference_failure option" where
  "structural_reference_failure d r numeric =
     (case bt_get (doc_entities d) (fr_entity r) of
        None \<Rightarrow> Some RefMissing
      | Some e \<Rightarrow>
          (case Option.bind (bt_get (doc_schemas d) (ent_schema e)) (\<lambda>s. bt_get (sch_fields s) (fr_field r)) of
             None \<Rightarrow> Some RefMissing
           | Some f \<Rightarrow> if numeric \<and> fd_type f \<noteq> TNumber then Some RefNonNumeric else None))"

text \<open>
  The value the reference holds.  The maps are indexed here; the structural check has just
  found the keys.
\<close>

definition reference_failure :: "document \<Rightarrow> field_ref \<Rightarrow> bool \<Rightarrow> reference_failure option" where
  "reference_failure d r numeric =
     (case structural_reference_failure d r numeric of
        Some f \<Rightarrow> Some f
      | None \<Rightarrow>
          if \<not> numeric then None
          else case bt_get (doc_entities d) (fr_entity r) of
            None \<Rightarrow> None
          | Some e \<Rightarrow>
              (case Option.bind (bt_get (doc_schemas d) (ent_schema e)) (\<lambda>s. bt_get (sch_fields s) (fr_field r)) of
                 None \<Rightarrow> None
               | Some f \<Rightarrow>
                   (case bt_get (ent_fields e) (fr_field r) of
                      Some v \<Rightarrow> if is_calculation v then None else Some RefNonNumeric
                    | None \<Rightarrow> if fd_required f then Some RefMissing else None)))"

text \<open>\<open>find_map\<close> over the cells of a column\<close>

fun first_target :: "document \<Rightarrow> field_ref list \<Rightarrow> (field_ref \<times> reference_failure) option" where
  "first_target d [] = None"
| "first_target d (cell # cells) =
     (case reference_failure d cell True of
        Some f \<Rightarrow> Some (cell, f) | None \<Rightarrow> first_target d cells)"

type_synonym column_targets = "(column_ref, (field_ref \<times> reference_failure) option) btree"
type_synonym reference_check = "field_ref \<times> reference_failure option"

text \<open>The columns of a formula, each looked up once in a phase.\<close>

function (sequential) column_checks ::
    "document \<Rightarrow> expression list \<Rightarrow> column_targets \<Rightarrow> reference_check list
     \<Rightarrow> column_targets \<times> reference_check list" where
  "column_checks d [] targets checks = (targets, checks)"
| "column_checks d (node # pending) targets checks =
     (case node of
        EColumnTotal col \<Rightarrow>
          let targets = (if bt_contains targets col then targets
                else bt_insert col (first_target d (column_cells d col)) targets);
              checks = (case bt_get targets col of
                  Some (Some (cell, f)) \<Rightarrow> checks @ [(cell, Some f)] | _ \<Rightarrow> checks)
          in column_checks d (rev (children node) @ pending) targets checks
      | _ \<Rightarrow> column_checks d (rev (children node) @ pending) targets checks)"
  by pat_completeness auto
termination
  by (relation "measure (\<lambda>(d, pending, targets, checks). forest_count pending)")
    (auto simp: node_count_children forest_count_def rev_map [symmetric])

declare column_checks.simps [simp del]

definition reference_checks :: "document \<Rightarrow> field_ref \<Rightarrow> expression \<Rightarrow> reference_check list" where
  "reference_checks d field e =
     (let unconditional = unconditional_references e field in
      map (\<lambda>(dependency, numeric). (dependency,
          if dependency \<in> set unconditional then reference_failure d dependency numeric
          else structural_reference_failure d dependency numeric))
        (reference_uses e field))"

definition insert_checks ::
    "reference_check list \<Rightarrow> (field_ref, reference_failure) btree \<Rightarrow> (field_ref, reference_failure) btree" where
  "insert_checks checks m =
     foldl (\<lambda>m (dependency, f). case f of None \<Rightarrow> m | Some f \<Rightarrow> bt_insert dependency f m) m checks"

definition invalid_targets ::
    "document \<Rightarrow> field_ref \<Rightarrow> val \<Rightarrow> column_targets
     \<Rightarrow> (field_ref, reference_failure) btree \<times> column_targets" where
  "invalid_targets d field v targets =
     (let invalid = (case reference_failure d field True of
            None \<Rightarrow> bt_empty | Some f \<Rightarrow> bt_insert field f bt_empty) in
      case v of
        VFormula e \<Rightarrow>
          (case column_checks d [e] targets (reference_checks d field e) of
             (targets, checks) \<Rightarrow> (insert_checks checks invalid, targets))
      | _ \<Rightarrow> (invalid, targets))"

definition structure_phase :: "failure_map \<Rightarrow> field_ref \<times> expression \<Rightarrow> failure_map" where
  "structure_phase failures fe =
     (case fe of (f, e) \<Rightarrow>
      case validate_expression_structure e of
        Inl error \<Rightarrow> bt_insert f (FailInvalidExpression error) failures
      | Inr u \<Rightarrow>
          if infer_type e \<noteq> Some TypeNumber then bt_insert f FailTypeMismatch failures else failures)"

definition column_phase :: "document \<Rightarrow> failure_map \<Rightarrow> field_ref \<times> expression \<Rightarrow> failure_map" where
  "column_phase d failures fe =
     (case fe of (f, e) \<Rightarrow>
      if bt_contains failures f then failures
      else let columns = column_failures d e in
        if columns \<noteq> bt_empty then bt_insert f (FailInvalidColumn columns) failures else failures)"

definition target_phase ::
    "document \<Rightarrow> failure_map \<times> column_targets \<Rightarrow> field_ref \<times> val \<Rightarrow> failure_map \<times> column_targets" where
  "target_phase d st fv =
     (case (st, fv) of ((failures, targets), (field, v)) \<Rightarrow>
      if bt_contains failures field then (failures, targets)
      else case invalid_targets d field v targets of (invalid, targets) \<Rightarrow>
        (if invalid \<noteq> bt_empty then bt_insert field (FailInvalidReferences invalid) failures
         else failures, targets))"

definition pregraph_failures :: "document \<Rightarrow> value_nodes \<Rightarrow> formula_nodes \<Rightarrow> failure_map" where
  "pregraph_failures d nodes formulas =
     (let failures = foldl structure_phase bt_empty (bt_entries formulas);
          failures = foldl (column_phase d) failures (bt_entries formulas)
      in fst (foldl (target_phase d) (failures, bt_empty) (bt_entries nodes)))"

section \<open>Cycles and initial values\<close>

definition eligible_formulas :: "formula_nodes \<Rightarrow> failure_map \<Rightarrow> field_ref fset" where
  "eligible_formulas formulas failures =
     fset_of_list (filter (\<lambda>f. \<not> bt_contains failures f) (bt_keys formulas))"

definition fail_members :: "failure_map \<Rightarrow> field_ref fset \<Rightarrow> failure_map" where
  "fail_members failures members =
     foldl (\<lambda>failures m. bt_insert m (FailCycle members) failures) failures (sorted_list_of_fset members)"

definition assign_cycle_failures ::
    "formula_nodes \<Rightarrow> dependency_graph \<Rightarrow> failure_map \<Rightarrow> failure_map option" where
  "assign_cycle_failures formulas g failures =
     map_option (foldl fail_members failures)
       (cyclic_components (eligible_formulas formulas failures) g)"

definition initial_values :: "value_nodes \<Rightarrow> failure_map \<Rightarrow> value_map" where
  "initial_values nodes failures =
     bt_filter_map (\<lambda>f v. case v of
         VNumber n \<Rightarrow> if bt_contains failures f then None else Some n
       | _ \<Rightarrow> None) nodes"

section \<open>The pass over the remaining formulas\<close>

type_synonym counts = "(field_ref, nat) btree"
type_synonym column_counts = "(column_ref, nat) btree"

definition count_column :: "dependency_graph \<Rightarrow> field_ref fset \<Rightarrow> column_counts \<Rightarrow> column_ref \<Rightarrow> column_counts" where
  "count_column g remaining counts col =
     (if bt_contains counts col then counts
      else bt_insert col (length (filter (\<lambda>slot. slot |\<in>| remaining)
          (sorted_list_of_fset (set_at (dg_column_slots g) col)))) counts)"

definition remaining_column_counts :: "dependency_graph \<Rightarrow> field_ref fset \<Rightarrow> column_counts" where
  "remaining_column_counts g remaining =
     foldl (\<lambda>counts f. foldl (count_column g remaining) counts (sorted_list_of_fset (set_at (dg_column_uses g) f)))
       bt_empty (sorted_list_of_fset remaining)"

definition remaining_counts :: "dependency_graph \<Rightarrow> field_ref fset \<Rightarrow> counts \<times> column_counts" where
  "remaining_counts g remaining =
     (let columns = remaining_column_counts g remaining in
      (bt_of_list (map (\<lambda>f. (f,
          length (filter (\<lambda>r. r |\<in>| remaining) (sorted_list_of_fset (set_at (dg_reference_uses g) f))) +
          length (filter (\<lambda>col. 0 < (case bt_get columns col of None \<Rightarrow> 0 | Some n \<Rightarrow> n))
            (sorted_list_of_fset (set_at (dg_column_uses g) f)))))
        (sorted_list_of_fset remaining)), columns))"

record pass_state =
  ps_failures :: failure_map
  ps_values :: value_map
  ps_counts :: counts
  ps_column_counts :: column_counts
  ps_ready :: "field_ref fset"
  ps_cache :: column_cache

text \<open>Releasing one reader; \<open>None\<close> is an underflow of its count.\<close>

definition release_reader :: "pass_state option \<Rightarrow> field_ref \<Rightarrow> pass_state option" where
  "release_reader opt reader =
     Option.bind opt (\<lambda>st.
       case bt_get (ps_counts st) reader of
         None \<Rightarrow> Some st
       | Some n \<Rightarrow>
           if n = 0 then None
           else Some (st\<lparr>ps_counts := bt_insert reader (n - 1) (ps_counts st),
             ps_ready := (if n - 1 = 0 then finsert reader (ps_ready st) else ps_ready st)\<rparr>))"

definition release_readers :: "field_ref fset \<Rightarrow> pass_state option \<Rightarrow> pass_state option" where
  "release_readers readers st = foldl release_reader st (sorted_list_of_fset readers)"

definition release_column ::
    "dependency_graph \<Rightarrow> field_ref \<Rightarrow> pass_state option \<Rightarrow> pass_state option" where
  "release_column g f opt =
     Option.bind opt (\<lambda>st.
       case bt_get (dg_slot_columns g) f of
         None \<Rightarrow> Some st
       | Some col \<Rightarrow>
           (case bt_get (ps_column_counts st) col of
              None \<Rightarrow> Some st
            | Some n \<Rightarrow>
                if n = 0 then None
                else let st = st\<lparr>ps_column_counts := bt_insert col (n - 1) (ps_column_counts st)\<rparr> in
                  if n - 1 = 0 then release_readers (set_at (dg_column_readers g) col) (Some st)
                  else Some st))"

definition resolve_formula ::
    "(nat \<Rightarrow> nat list) \<Rightarrow> document \<Rightarrow> formula_nodes \<Rightarrow> field_ref \<Rightarrow> pass_state \<Rightarrow> pass_state option" where
  "resolve_formula lower d formulas f st =
     Option.bind (bt_get formulas f) (\<lambda>e.
       case evaluate_formula \<lparr>ev_lower = lower, ev_document = d, ev_owner = f, ev_values = ps_values st\<rparr>
           (ps_failures st) e (ps_cache st) of
         (Inl Panics, cache) \<Rightarrow> None
       | (Inl (Fails x), cache) \<Rightarrow>
           Some (st\<lparr>ps_failures := bt_insert f x (ps_failures st), ps_cache := cache\<rparr>)
       | (Inr v, cache) \<Rightarrow>
           Some (st\<lparr>ps_values := bt_insert f v (ps_values st), ps_cache := cache\<rparr>))"

definition pass_step ::
    "(nat \<Rightarrow> nat list) \<Rightarrow> document \<Rightarrow> formula_nodes \<Rightarrow> dependency_graph \<Rightarrow> field_ref
     \<Rightarrow> pass_state \<Rightarrow> pass_state option" where
  "pass_step lower d formulas g f st =
     release_column g f (release_readers (set_at (dg_cell_readers g) f)
       (resolve_formula lower d formulas f
         (st\<lparr>ps_ready := ps_ready st |-| {|f|}, ps_counts := bt_remove f (ps_counts st)\<rparr>)))"

text \<open>The loop pops the least ready formula; a run that does not end is \<open>None\<close> as well.\<close>

partial_function (option) pass_loop ::
    "(nat \<Rightarrow> nat list) \<Rightarrow> document \<Rightarrow> formula_nodes \<Rightarrow> dependency_graph \<Rightarrow> pass_state
     \<Rightarrow> pass_state option" where
  "pass_loop lower d formulas g st =
     (case sorted_list_of_fset (ps_ready st) of
        [] \<Rightarrow> Some st
      | f # fs \<Rightarrow> Option.bind (pass_step lower d formulas g f st) (pass_loop lower d formulas g))"

definition pass_start ::
    "formula_nodes \<Rightarrow> dependency_graph \<Rightarrow> failure_map \<Rightarrow> value_map \<Rightarrow> pass_state" where
  "pass_start formulas g failures values_now =
     (case remaining_counts g (eligible_formulas formulas failures) of
        (counts, columns) \<Rightarrow>
          \<lparr>ps_failures = failures, ps_values = values_now, ps_counts = counts,
           ps_column_counts = columns,
           ps_ready = fset_of_list (map fst (filter (\<lambda>(f, n). n = 0) (bt_entries counts))),
           ps_cache = cache_empty\<rparr>)"

definition evaluate_remaining_formulas ::
    "(nat \<Rightarrow> nat list) \<Rightarrow> document \<Rightarrow> formula_nodes \<Rightarrow> dependency_graph \<Rightarrow> failure_map \<Rightarrow> value_map
     \<Rightarrow> (failure_map \<times> value_map) option" where
  "evaluate_remaining_formulas lower d formulas g failures values_now =
     Option.bind (pass_loop lower d formulas g (pass_start formulas g failures values_now)) (\<lambda>st.
       if bt_keys (ps_counts st) = [] then Some (ps_failures st, ps_values st) else None)"

section \<open>The full calculation\<close>

record calculation_parts =
  cp_nodes :: "field_ref fset"
  cp_values :: value_map
  cp_failures :: failure_map
  cp_graph :: dependency_graph

definition full_calculation_parts ::
    "(nat \<Rightarrow> nat list) \<Rightarrow> document \<Rightarrow> calculation_parts option" where
  "full_calculation_parts lower d =
     (case collect_calculation_nodes d of (nodes, formulas, g) \<Rightarrow>
      Option.bind (assign_cycle_failures formulas g (pregraph_failures d nodes formulas)) (\<lambda>failures.
      Option.bind (evaluate_remaining_formulas lower d formulas g failures (initial_values nodes failures))
        (\<lambda>(failures, values_now).
          Some \<lparr>cp_nodes = fset_of_list (bt_keys nodes), cp_values = values_now,
            cp_failures = failures, cp_graph = g\<rparr>)))"

datatype calculation_outcome =
    CalculationComplete value_map dependency_graph
  | CalculationFailed failure_map dependency_graph

definition calculate_complete :: "(nat \<Rightarrow> nat list) \<Rightarrow> document \<Rightarrow> calculation_outcome option" where
  "calculate_complete lower d =
     map_option (\<lambda>parts.
       if cp_failures parts = bt_empty then CalculationComplete (cp_values parts) (cp_graph parts)
       else CalculationFailed (cp_failures parts) (cp_graph parts))
     (full_calculation_parts lower d)"

end
