(* ===== verification/Locality.thy ===== *)
theory Locality
  imports Calculation
begin

text \<open>
  What a formula reads.  The value of a formula depends only on the cells it names and on the
  rows of the columns it reads: two documents, two value maps and two failure maps that agree
  there give the same outcome.  The same holds for what a cache remembers.
\<close>

section \<open>What is read\<close>

definition value_at :: "document \<Rightarrow> field_ref \<Rightarrow> val option" where
  "value_at d r = Option.bind (bt_get (doc_entities d) (fr_entity r)) (\<lambda>e. bt_get (ent_fields e) (fr_field r))"

text \<open>The rows of a schema with their cells.\<close>

definition rows_of :: "document \<Rightarrow> schema_id \<Rightarrow> (entity_id, (field_id, val) btree) btree" where
  "rows_of d s = bt_filter_map (\<lambda>i e. if ent_schema e = s then Some (ent_fields e) else None) (doc_entities d)"

definition refs_of :: "field_ref \<Rightarrow> expression \<Rightarrow> field_ref set" where
  "refs_of owner e = set (preorder (unconditional_emit owner) e)"

definition columns_of :: "expression \<Rightarrow> column_ref set" where
  "columns_of e = set (preorder own_columns e)"

text \<open>
  The columns of one conditional aggregate come from one table, which the validator demands:
  otherwise it reads rows of one table through a column of another.
\<close>

definition conditional_columns :: "conditional_aggregate \<Rightarrow> column_criterion list \<Rightarrow> column_ref list" where
  "conditional_columns a criteria = value_column a @ map cc_column criteria"

fun own_table :: "expression \<Rightarrow> bool list" where
  "own_table (EColumnConditional a criteria) =
     [\<forall>c\<in>set (conditional_columns a criteria). \<forall>c'\<in>set (conditional_columns a criteria).
        cr_schema c = cr_schema c']"
| "own_table e = []"

definition one_table :: "expression \<Rightarrow> bool" where
  "one_table e \<longleftrightarrow> list_all id (preorder own_table e)"

lemma refs_of_node: "refs_of owner e = set (unconditional_emit owner e) \<union> (\<Union>c\<in>set (children e). refs_of owner c)"
  unfolding refs_of_def by (rule set_preorder)

lemma columns_of_node: "columns_of e = set (own_columns e) \<union> (\<Union>c\<in>set (children e). columns_of c)"
  unfolding columns_of_def by (rule set_preorder)

lemma one_table_node: "one_table e \<longleftrightarrow> list_all id (own_table e) \<and> (\<forall>c\<in>set (children e). one_table c)"
  unfolding one_table_def list_all_iff set_preorder [of own_table e] by blast

lemma uses_in_refs: "fst ` set (uses_in owner (e, numeric)) = refs_of owner e"
proof (induction e arbitrary: numeric rule: expression_induct)
  case (node e)
  have "fst ` set (uses_in owner (e, numeric)) = set (unconditional_emit owner e) \<union>
      (\<Union>n\<in>set (use_next (e, numeric)). fst ` set (uses_in owner n))"
    by (subst uses_in.simps) (auto simp: use_emit_def image_Un image_UN image_image)
  also have "(\<Union>n\<in>set (use_next (e, numeric)). fst ` set (uses_in owner n)) =
      (\<Union>n\<in>set (use_next (e, numeric)). refs_of owner (fst n))"
  proof (rule SUP_cong [OF refl])
    fix n
    assume n: "n \<in> set (use_next (e, numeric))"
    then have "fst n \<in> set (children e)" using use_next_children [of "(e, numeric)"] by force
    from node.IH [OF this, of "snd n"] show "fst ` set (uses_in owner n) = refs_of owner (fst n)" by simp
  qed
  also have "\<dots> = (\<Union>c\<in>fst ` set (use_next (e, numeric)). refs_of owner c)" by simp
  also have "\<dots> = (\<Union>c\<in>set (children e). refs_of owner c)" unfolding use_next_children by simp
  finally show ?case by (simp add: refs_of_node [of owner e])
qed

lemma fset_direct_references: "fset (direct_references owner e) = refs_of owner e"
  by (simp add: direct_references_def fset_of_list.rep_eq reference_uses_in uses_in_refs)

lemma fset_extract_column_totals: "fset (extract_column_totals e) = columns_of e"
  by (simp add: extract_column_totals_def fset_of_list.rep_eq column_totals_preorder columns_of_def)

section \<open>Agreement\<close>

definition env_agrees :: "evaluation \<Rightarrow> evaluation \<Rightarrow> bool" where
  "env_agrees ev ev' \<longleftrightarrow>
     ev_lower ev = ev_lower ev' \<and> doc_schemas (ev_document ev) = doc_schemas (ev_document ev') \<and>
     entities_keyed (ev_document ev) \<and> entities_keyed (ev_document ev')"

definition reference_agrees ::
    "evaluation \<Rightarrow> failure_map \<Rightarrow> evaluation \<Rightarrow> failure_map \<Rightarrow> field_ref \<Rightarrow> bool" where
  "reference_agrees ev F ev' F' r \<longleftrightarrow>
     value_at (ev_document ev) r = value_at (ev_document ev') r \<and>
     schema_at (ev_document ev) (fr_entity r) = schema_at (ev_document ev') (fr_entity r) \<and>
     bt_get (ev_values ev) r = bt_get (ev_values ev') r \<and> (bt_get F r = None \<longleftrightarrow> bt_get F' r = None)"

definition cell_agrees ::
    "evaluation \<Rightarrow> failure_map \<Rightarrow> evaluation \<Rightarrow> failure_map \<Rightarrow> field_ref \<Rightarrow> bool" where
  "cell_agrees ev F ev' F' r \<longleftrightarrow>
     bt_get (ev_values ev) r = bt_get (ev_values ev') r \<and> (bt_get F r = None \<longleftrightarrow> bt_get F' r = None)"

definition column_agrees ::
    "evaluation \<Rightarrow> failure_map \<Rightarrow> evaluation \<Rightarrow> failure_map \<Rightarrow> column_ref \<Rightarrow> bool" where
  "column_agrees ev F ev' F' c \<longleftrightarrow>
     rows_of (ev_document ev) (cr_schema c) = rows_of (ev_document ev') (cr_schema c) \<and>
     list_all (cell_agrees ev F ev' F') (column_cells (ev_document ev) c)"

lemma map_filter_entries:
  "bt_entries (bt_filter_map f m) = map (\<lambda>(k, v). (k, the (f k v))) (filter (\<lambda>(k, v). f k v \<noteq> None) (bt_entries m))"
  by (simp add: bt_filter_map_def bt_entries_eval)

lemma column_cells_rows:
  "column_cells d c = map (\<lambda>(i, fs). FieldRef i (cr_field c))
     (filter (\<lambda>(i, fs). bt_contains fs (cr_field c)) (bt_entries (rows_of d (cr_schema c))))"
proof -
  have "map (\<lambda>(i, e). FieldRef i x) (filter (\<lambda>(i, e). ent_schema e = s \<and> bt_contains (ent_fields e) x) es) =
      map (\<lambda>(i, fs). FieldRef i x) (filter (\<lambda>(i, fs). bt_contains fs x)
        (map (\<lambda>(k, v). (k, the (if ent_schema v = s then Some (ent_fields v) else None)))
          (filter (\<lambda>(k, v). (if ent_schema v = s then Some (ent_fields v) else None) \<noteq> None) es)))"
    for x s and es :: "(entity_id \<times> entity) list"
    by (induction es) auto
  then show ?thesis unfolding column_cells_def rows_of_def map_filter_entries by blast
qed

lemma column_agrees_cells:
  "column_agrees ev F ev' F' c \<Longrightarrow> column_cells (ev_document ev) c = column_cells (ev_document ev') c"
  by (simp add: column_cells_rows column_agrees_def)

lemma read_column_agrees:
  assumes "column_agrees ev F ev' F' c"
  shows "read_column (ev_document ev) (ev_values ev) F c = read_column (ev_document ev') (ev_values ev') F' c"
proof -
  have "foldl (read_cell (ev_values ev) F) cv rs = foldl (read_cell (ev_values ev') F') cv rs"
    if "list_all (cell_agrees ev F ev' F') rs" for rs cv
    using that
  proof (induction rs arbitrary: cv)
    case (Cons r rs)
    then have "read_cell (ev_values ev) F cv r = read_cell (ev_values ev') F' cv r"
      by (auto simp: read_cell_def cell_agrees_def)
    then show ?case using Cons by simp
  qed simp
  then show ?thesis
    using assms
    unfolding read_column_def column_agrees_cells [OF assms, symmetric] column_agrees_def by blast
qed

lemma column_agrees_values:
  "column_agrees ev F ev' F' c \<Longrightarrow> column_agrees ev bt_empty ev' bt_empty c"
  by (auto simp: column_agrees_def cell_agrees_def list_all_iff)

lemma column_now_agrees: "column_agrees ev F ev' F' c \<Longrightarrow> column_now ev c = column_now ev' c"
  unfolding column_now_def by (rule read_column_agrees [OF column_agrees_values])

lemma first_failed_agrees:
  assumes "column_agrees ev F ev' F' c"
  shows "first_failed_cell (ev_document ev) F c = first_failed_cell (ev_document ev') F' c"
  using arg_cong [OF read_column_agrees [OF assms], of cv_first_failed]
  by (simp add: first_failed_cell_def read_column_first_failed)

section \<open>Conditional aggregates\<close>

text \<open>The rows an aggregate walks, as ids and cells.\<close>

lemma schema_rows_entries:
  assumes "entities_keyed d"
  shows "map (\<lambda>e. (ent_id e, ent_fields e)) (schema_rows d s) = bt_entries (rows_of d s)"
proof -
  have walk: "map (\<lambda>e. (ent_id e, ent_fields e)) (filter (\<lambda>e. ent_schema e = s) (map snd es)) =
      map (\<lambda>(k, v). (k, the (if ent_schema v = s then Some (ent_fields v) else None)))
        (filter (\<lambda>(k, v). (if ent_schema v = s then Some (ent_fields v) else None) \<noteq> None) es)"
    if "list_all (\<lambda>(i, e). ent_id e = i) es" for es :: "(entity_id \<times> entity) list"
    using that by (induction es) (simp_all add: split_def)
  have "list_all (\<lambda>(i, e). ent_id e = i) (bt_entries (doc_entities d))"
    using assms by (simp only: entities_keyed_def)
  from walk [OF this] show ?thesis unfolding schema_rows_def rows_of_def map_filter_entries bt_values_def .
qed

definition row_agrees :: "evaluation \<Rightarrow> evaluation \<Rightarrow> column_ref \<Rightarrow> entity \<Rightarrow> entity \<Rightarrow> bool" where
  "row_agrees ev ev' c e e' \<longleftrightarrow> ent_id e = ent_id e' \<and> ent_fields e = ent_fields e' \<and>
     (bt_get (ent_fields e) (cr_field c) \<noteq> None \<longrightarrow>
      bt_get (ev_values ev) (FieldRef (ent_id e) (cr_field c)) = bt_get (ev_values ev') (FieldRef (ent_id e) (cr_field c)))"

lemma criterion_cell_agrees:
  "row_agrees ev ev' c e e' \<Longrightarrow> criterion_cell ev e (cr_field c) = criterion_cell ev' e' (cr_field c)"
  by (auto simp: row_agrees_def criterion_cell_def Let_def split: option.split val.split)

lemma row_matches_agrees:
  "ev_lower ev = ev_lower ev' \<Longrightarrow> \<forall>c\<in>cc_column ` fst ` set cts. row_agrees ev ev' c e e' \<Longrightarrow>
   row_matches ev cts e = row_matches ev' cts e'"
proof (induction cts)
  case (Cons ct cts)
  obtain c t where ct: "ct = (c, t)" by force
  have "criterion_cell ev e (cr_field (cc_column c)) = criterion_cell ev' e' (cr_field (cc_column c))"
    using Cons.prems(2) ct by (intro criterion_cell_agrees) simp
  moreover have "row_matches ev cts e = row_matches ev' cts e'" using Cons by simp
  ultimately show ?case using Cons.prems(1) by (simp add: ct cong: if_cong)
qed simp

lemma conditional_row_agrees:
  assumes "ev_lower ev = ev_lower ev'" "\<forall>c\<in>set (conditional_columns a cs). row_agrees ev ev' c e e'"
    "\<forall>c\<in>set cs. row_agrees ev ev' (cc_column c) e e'" "e = e \<Longrightarrow> ent_fields e = ent_fields e'" "ent_id e = ent_id e'"
  shows "conditional_row ev a cs ts e collected = conditional_row ev' a cs ts e' collected"
proof -
  have "\<forall>c\<in>cc_column ` fst ` set (zip cs ts). row_agrees ev ev' c e e'"
    using assms(3) by (auto dest: set_zip_leftD)
  then have m: "row_matches ev (zip cs ts) e = row_matches ev' (zip cs ts) e'"
    by (rule row_matches_agrees [OF assms(1)])
  show ?thesis
  proof (cases "value_column a")
    case Nil
    then show ?thesis by (simp add: conditional_row_def m cong: if_cong)
  next
    case (Cons col rest)
    then have "row_agrees ev ev' col e e'" using assms(2) by (simp add: conditional_columns_def)
    then have "ent_fields e = ent_fields e'" "ent_id e = ent_id e'"
      "bt_get (ent_fields e) (cr_field col) \<noteq> None \<Longrightarrow>
       bt_get (ev_values ev) (FieldRef (ent_id e) (cr_field col)) = bt_get (ev_values ev') (FieldRef (ent_id e) (cr_field col))"
      by (auto simp: row_agrees_def)
    then show ?thesis
      using Cons by (cases "bt_get (ent_fields e) (cr_field col)") (simp_all add: conditional_row_def m cong: if_cong)
  qed
qed

lemma conditional_rows_agrees:
  "list_all2 (\<lambda>e e'. \<forall>collected. row e collected = row' e' collected) es es' \<Longrightarrow>
   conditional_rows row es n collected = conditional_rows row' es' n collected"
  by (induction arbitrary: n collected rule: list_all2_induct) (simp_all add: split_def)

lemma plain_conditional_agrees:
  assumes env: "env_agrees ev ev'" and ne: "cs \<noteq> []"
    and cols: "\<forall>c\<in>set (conditional_columns a cs). column_agrees ev F ev' F' c"
    and table: "\<forall>c\<in>set (conditional_columns a cs). cr_schema c = cr_schema (cc_column (hd cs))"
  shows "plain_conditional ev a cs ts = plain_conditional ev' a cs ts"
proof -
  let ?s = "cr_schema (cc_column (hd cs))" and ?d = "ev_document ev" and ?d' = "ev_document ev'"
  have keyed: "entities_keyed ?d" "entities_keyed ?d'" and lower: "ev_lower ev = ev_lower ev'"
    using env by (simp_all add: env_agrees_def)
  have hd: "cc_column (hd cs) \<in> set (conditional_columns a cs)" using ne by (simp add: conditional_columns_def)
  then have rows: "rows_of ?d ?s = rows_of ?d' ?s" using cols by (auto simp: column_agrees_def)
  have eq: "map (\<lambda>e. (ent_id e, ent_fields e)) (schema_rows ?d ?s) =
      map (\<lambda>e. (ent_id e, ent_fields e)) (schema_rows ?d' ?s)"
    unfolding schema_rows_entries [OF keyed(1)] schema_rows_entries [OF keyed(2)] rows ..
  have agree: "row_agrees ev ev' c e e'"
    if c: "c \<in> set (conditional_columns a cs)" and e: "e \<in> set (schema_rows ?d ?s)"
      and same: "ent_id e = ent_id e'" "ent_fields e = ent_fields e'" for c e e'
  proof -
    have "bt_get (ev_values ev) (FieldRef (ent_id e) (cr_field c)) =
        bt_get (ev_values ev') (FieldRef (ent_id e) (cr_field c))"
      if "bt_get (ent_fields e) (cr_field c) \<noteq> None"
    proof -
      have "(ent_id e, ent_fields e) \<in> set (bt_entries (rows_of ?d ?s))"
        using e unfolding schema_rows_entries [OF keyed(1), symmetric] by force
      then have "FieldRef (ent_id e) (cr_field c) \<in> set (column_cells ?d c)"
        using table c that unfolding column_cells_rows by force
      then show ?thesis using cols c by (auto simp: column_agrees_def list_all_iff cell_agrees_def)
    qed
    then show ?thesis using same by (simp add: row_agrees_def)
  qed
  have "list_all2 (\<lambda>e e'. \<forall>collected. conditional_row ev a cs ts e collected = conditional_row ev' a cs ts e' collected)
      (schema_rows ?d ?s) (schema_rows ?d' ?s)"
  proof (rule list_all2_all_nthI)
    show len: "length (schema_rows ?d ?s) = length (schema_rows ?d' ?s)" using eq by (rule map_eq_imp_length_eq)
    fix n
    assume n: "n < length (schema_rows ?d ?s)"
    let ?e = "schema_rows ?d ?s ! n" and ?e' = "schema_rows ?d' ?s ! n"
    have "(ent_id ?e, ent_fields ?e) = (ent_id ?e', ent_fields ?e')"
      using arg_cong [OF eq, of "\<lambda>xs. xs ! n"] n len by simp
    then have same: "ent_id ?e = ent_id ?e'" "ent_fields ?e = ent_fields ?e'" by simp_all
    have all: "row_agrees ev ev' c ?e ?e'" if "c \<in> set (conditional_columns a cs)" for c
      by (rule agree [OF that nth_mem [OF n] same])
    have "conditional_row ev a cs ts ?e collected = conditional_row ev' a cs ts ?e' collected" for collected
      by (rule conditional_row_agrees [OF lower])
        (use all same in \<open>auto simp: conditional_columns_def\<close>)
    then show "\<forall>collected. conditional_row ev a cs ts ?e collected = conditional_row ev' a cs ts ?e' collected" by blast
  qed
  then show ?thesis
    unfolding plain_conditional_def by (subst conditional_rows_agrees) (assumption, rule refl)
qed

section \<open>Formulas\<close>

definition agrees :: "evaluation \<Rightarrow> failure_map \<Rightarrow> evaluation \<Rightarrow> failure_map \<Rightarrow> expression \<Rightarrow> bool" where
  "agrees ev F ev' F' e \<longleftrightarrow>
     env_agrees ev ev' \<and> ev_owner ev = ev_owner ev' \<and>
     (\<forall>r\<in>refs_of (ev_owner ev) e. reference_agrees ev F ev' F' r) \<and>
     (\<forall>c\<in>columns_of e. column_agrees ev F ev' F' c) \<and> one_table e"

lemma agrees_child: "agrees ev F ev' F' e \<Longrightarrow> c \<in> set (children e) \<Longrightarrow> agrees ev F ev' F' c"
  unfolding agrees_def refs_of_node [of _ e] columns_of_node [of e] one_table_node [of e] by blast

lemma agreesD:
  assumes "agrees ev F ev' F' e"
  shows "env_agrees ev ev'" "ev_owner ev = ev_owner ev'"
    "r \<in> set (unconditional_emit (ev_owner ev) e) \<Longrightarrow> reference_agrees ev F ev' F' r"
    "c \<in> set (own_columns e) \<Longrightarrow> column_agrees ev F ev' F' c" "list_all id (own_table e)"
  using assms unfolding agrees_def refs_of_node [of _ e] columns_of_node [of e] one_table_node [of e] by blast+

lemma entity_at_agrees:
  assumes "reference_agrees ev F ev' F' r"
  shows "(bt_get (doc_entities (ev_document ev)) (fr_entity r) = None) =
      (bt_get (doc_entities (ev_document ev')) (fr_entity r) = None)"
    "bt_get (doc_entities (ev_document ev)) (fr_entity r) = Some e \<Longrightarrow>
     bt_get (doc_entities (ev_document ev')) (fr_entity r) = Some e' \<Longrightarrow>
     ent_schema e = ent_schema e' \<and> bt_get (ent_fields e) (fr_field r) = bt_get (ent_fields e') (fr_field r)"
proof -
  have s: "schema_at (ev_document ev) (fr_entity r) = schema_at (ev_document ev') (fr_entity r)"
    and v: "value_at (ev_document ev) r = value_at (ev_document ev') r"
    using assms by (simp_all add: reference_agrees_def)
  show "(bt_get (doc_entities (ev_document ev)) (fr_entity r) = None) =
      (bt_get (doc_entities (ev_document ev')) (fr_entity r) = None)"
    using s unfolding schema_at_def by (metis option.map_disc_iff)
  assume "bt_get (doc_entities (ev_document ev)) (fr_entity r) = Some e"
    "bt_get (doc_entities (ev_document ev')) (fr_entity r) = Some e'"
  then show "ent_schema e = ent_schema e' \<and> bt_get (ent_fields e) (fr_field r) = bt_get (ent_fields e') (fr_field r)"
    using s v by (simp add: schema_at_def value_at_def)
qed

lemma read_reference_agrees:
  assumes env: "env_agrees ev ev'" and r: "reference_agrees ev F ev' F' r"
  shows "read_reference ev r = read_reference ev' r" "is_blank ev (EReference r) = is_blank ev' (EReference r)"
    "reference_criterion_test ev r = reference_criterion_test ev' r"
proof -
  let ?g = "bt_get (doc_entities (ev_document ev)) (fr_entity r)"
  let ?g' = "bt_get (doc_entities (ev_document ev')) (fr_entity r)"
  note E = entity_at_agrees [OF r]
  have V: "bt_get (ev_values ev) r = bt_get (ev_values ev') r" using r by (simp add: reference_agrees_def)
  have S: "doc_schemas (ev_document ev) = doc_schemas (ev_document ev')" using env by (simp add: env_agrees_def)
  consider (none) "?g = None" "?g' = None" |
      (some) e e' where "?g = Some e" "?g' = Some e'" "ent_schema e = ent_schema e'"
        "bt_get (ent_fields e) (fr_field r) = bt_get (ent_fields e') (fr_field r)"
  proof (cases ?g)
    case None
    then have "?g' = None" using E(1) by simp
    with None show ?thesis by (rule that(1))
  next
    case (Some e)
    then obtain e' where e': "?g' = Some e'" using E(1) by fastforce
    show ?thesis using that(2) [OF Some e'] E(2) [OF Some e'] by blast
  qed
  note row = this
  from row have "reads_blank (ev_document ev) r = reads_blank (ev_document ev') r"
    by cases (simp_all add: reads_blank_def S)
  then show "read_reference ev r = read_reference ev' r" by (simp add: read_reference_def V)
  from row show "is_blank ev (EReference r) = is_blank ev' (EReference r)"
    by cases (simp_all add: is_blank_def)
  from row have "(case ?g of None \<Rightarrow> None | Some e \<Rightarrow> bt_get (ent_fields e) (fr_field r)) =
      (case ?g' of None \<Rightarrow> None | Some e \<Rightarrow> bt_get (ent_fields e) (fr_field r))"
    by cases simp_all
  then show "reference_criterion_test ev r = reference_criterion_test ev' r"
    unfolding reference_criterion_test_def V by simp
qed

lemma and_then_eq: "r = s \<Longrightarrow> (\<And>x. f x = g x) \<Longrightarrow> and_then r f = and_then s g"
  by (cases s) auto

lemma plain_test_agrees:
  assumes agree: "\<And>x. cc_value c = Some x \<Longrightarrow> agrees ev F ev' F' x"
    and number: "\<And>x. cc_value c = Some x \<Longrightarrow> plain_number ev x = plain_number ev' x"
  shows "plain_test ev c = plain_test ev' c"
proof (cases c)
  case c: (ColumnCriterion col p v)
  show ?thesis
  proof (cases v)
    case None
    then show ?thesis using c by simp
  next
    case (Some x)
    then have x: "agrees ev F ev' F' x" "plain_number ev x = plain_number ev' x"
      using agree number c by simp_all
    note D = agreesD [OF x(1)]
    show ?thesis
    proof (cases x)
      case (EReference r)
      then have "reference_agrees ev F ev' F' r" using D(3) by (simp add: unconditional_emit_def)
      then show ?thesis using read_reference_agrees(3) [OF D(1)] by (simp add: c Some EReference)
    next
      case (ESameRowReference f)
      then have "reference_agrees ev F ev' F' (own_row ev f)" using D(3) by (simp add: unconditional_emit_def)
      then show ?thesis
        using read_reference_agrees(3) [OF D(1)] D(2) by (simp add: c Some ESameRowReference)
    qed (use x(2) in \<open>simp_all add: c Some del: plain_number.simps\<close>)
  qed
qed

lemma plain_tests_agrees:
  "(\<And>c. c \<in> set cs \<Longrightarrow> plain_test ev c = plain_test ev' c) \<Longrightarrow> plain_tests ev cs = plain_tests ev' cs"
proof (induction cs)
  case (Cons c cs)
  have "plain_test ev c = plain_test ev' c" "plain_tests ev cs = plain_tests ev' cs"
    using Cons by simp_all
  then show ?case by (simp only: plain_tests.simps)
qed simp

lemma plain_conditions_agrees:
  "(\<And>x. x \<in> set xs \<Longrightarrow> plain_condition ev x = plain_condition ev' x) \<Longrightarrow>
   plain_conditions ev both xs b = plain_conditions ev' both xs b"
proof (induction xs arbitrary: b)
  case (Cons x xs)
  have x: "plain_condition ev x = plain_condition ev' x" using Cons.prems by simp
  have "plain_conditions ev both xs b = plain_conditions ev' both xs b" for b
    by (rule Cons.IH) (simp add: Cons.prems)
  then show ?case by (simp add: x)
qed simp

lemma plain_binary_agrees: "l = l' \<Longrightarrow> r = r' \<Longrightarrow> plain_binary f l r = plain_binary f l' r'"
  by simp

lemma plain_agrees:
  "agrees ev F ev' F' e \<Longrightarrow> plain_number ev e = plain_number ev' e \<and> plain_condition ev e = plain_condition ev' e"
proof (induction e rule: expression_induct)
  case (node e)
  have IH: "plain_number ev c = plain_number ev' c" "plain_condition ev c = plain_condition ev' c"
    if "c \<in> set (children e)" for c
    using node.IH [OF that agrees_child [OF node.prems that]] by blast+
  note D = agreesD [OF node.prems]
  show ?case
  proof (cases e)
    case (EReference r)
    then show ?thesis
      using read_reference_agrees(1) [OF D(1) D(3) [of r]] by (simp add: unconditional_emit_def)
  next
    case (ESameRowReference f)
    then show ?thesis
      using read_reference_agrees(1) [OF D(1) D(3) [of "own_row ev f"]] D(2) by (simp add: unconditional_emit_def)
  next
    case (EColumnTotal c)
    then show ?thesis using column_now_agrees [OF D(4) [of c]] by simp
  next
    case (EColumnAggregate g c)
    then show ?thesis using column_now_agrees [OF D(4) [of c]] by simp
  next
    case (EColumnConditional a cs)
    have tests: "plain_tests ev cs = plain_tests ev' cs"
    proof (rule plain_tests_agrees, rule plain_test_agrees)
      fix c x
      assume "c \<in> set cs" "cc_value c = Some x"
      then have "x \<in> set (children e)" using EColumnConditional by (auto simp: in_criterion_values)
      then show "agrees ev F ev' F' x" "plain_number ev x = plain_number ev' x"
        using agrees_child [OF node.prems] IH(1) by blast+
    qed
    have all: "plain_conditional ev a cs ts = plain_conditional ev' a cs ts" if "cs \<noteq> []" for ts
    proof (rule plain_conditional_agrees [OF D(1) that])
      show "\<forall>c\<in>set (conditional_columns a cs). column_agrees ev F ev' F' c"
        using D(4) EColumnConditional by (simp add: conditional_columns_def)
      have "cc_column (hd cs) \<in> set (conditional_columns a cs)" using that by (simp add: conditional_columns_def)
      then show "\<forall>c\<in>set (conditional_columns a cs). cr_schema c = cr_schema (cc_column (hd cs))"
        using D(5) unfolding EColumnConditional own_table.simps list.pred_inject id_apply by blast
    qed
    have "plain_conditional ev a cs = plain_conditional ev' a cs" if "cs \<noteq> []"
      by (rule ext) (rule all [OF that])
    then show ?thesis by (cases "cs = []") (simp_all add: EColumnConditional tests)
  next
    case (EIsBlank v)
    then have v: "agrees ev F ev' F' v" using agrees_child [OF node.prems] by simp
    note V = agreesD [OF v]
    have "is_blank ev v = is_blank ev' v"
    proof (cases v)
      case (EReference r)
      then show ?thesis using read_reference_agrees(2) [OF V(1) V(3) [of r]] by (simp add: unconditional_emit_def)
    next
      case (ESameRowReference f)
      then have "is_blank ev (EReference (own_row ev f)) = is_blank ev' (EReference (own_row ev f))"
        using read_reference_agrees(2) [OF V(1) V(3) [of "own_row ev f"]] by (simp add: unconditional_emit_def)
      then show ?thesis using ESameRowReference V(2) by (simp add: is_blank_def)
    qed (simp_all add: is_blank_def)
    then show ?thesis by (simp add: EIsBlank)
  qed (use IH in \<open>auto intro!: and_then_eq plain_conditions_agrees\<close>)
qed

lemma required_parts:
  "required ev F (EReference r) = [r]"
  "required ev F (ESameRowReference f) = [own_row ev f]"
  "required ev F (EColumnTotal c) = first_failed_cell (ev_document ev) F c"
  "required ev F (EColumnAggregate g c) = first_failed_cell (ev_document ev) F c"
  "required ev F (EColumnConditional a cs) =
     concat (map (first_failed_cell (ev_document ev) F) (own_columns (EColumnConditional a cs))) @
     concat (map (required ev F) (children (EColumnConditional a cs)))"
  "required ev F (EIf b t e) = required ev F b @
     (case plain_condition ev b of Inl x \<Rightarrow> [] | Inr v \<Rightarrow> required ev F (if v then t else e))"
  "required ev F (EIsBlank v) = []"
  by (subst required.simps, simp)+

lemma required_agrees:
  "agrees ev F ev' F' e \<Longrightarrow> required ev F e = required ev' F' e"
proof (induction e rule: expression_induct)
  case (node e)
  have IH: "required ev F c = required ev' F' c" if "c \<in> set (children e)" for c
    using node.IH [OF that agrees_child [OF node.prems that]] .
  note D = agreesD [OF node.prems]
  have "first_failed_cell (ev_document ev) F c = first_failed_cell (ev_document ev') F' c"
    if "c \<in> set (own_columns e)" for c
    by (rule first_failed_agrees [OF D(4) [OF that]])
  then have cells: "map (first_failed_cell (ev_document ev) F) (own_columns e) =
      map (first_failed_cell (ev_document ev') F') (own_columns e)" by simp
  have kids: "map (required ev F) (children e) = map (required ev' F') (children e)" using IH by simp
  show ?case
  proof (cases e)
    case (EIf c t f)
    then have "plain_condition ev c = plain_condition ev' c"
      using plain_agrees [OF agrees_child [OF node.prems], of c] by simp
    then show ?thesis using kids unfolding EIf required_parts by (simp split: sum.split)
  next
    case (EColumnConditional a cs)
    show ?thesis
      using cells kids unfolding EColumnConditional required_parts by metis
  next
    case (EAnd xs)
    show ?thesis unfolding EAnd required_steps by (rule arg_cong [OF kids [unfolded EAnd]])
  next
    case (EOr xs)
    show ?thesis unfolding EOr required_steps by (rule arg_cong [OF kids [unfolded EOr]])
  qed (use kids cells D(2) in \<open>simp_all add: required_steps required_parts(1-4,7)\<close>)
qed

lemma required_read:
  "set (required ev F e) \<subseteq>
     refs_of (ev_owner ev) e \<union> (\<Union>c\<in>columns_of e. set (column_cells (ev_document ev) c))"
proof (induction e rule: expression_induct)
  case (node e)
  let ?reads = "\<lambda>e. refs_of (ev_owner ev) e \<union> (\<Union>c\<in>columns_of e. set (column_cells (ev_document ev) c))"
  have child: "set (required ev F c) \<subseteq> ?reads e" if "c \<in> set (children e)" for c
  proof -
    have sub: "refs_of (ev_owner ev) c \<subseteq> refs_of (ev_owner ev) e" "columns_of c \<subseteq> columns_of e"
      using that by (subst refs_of_node, force) (subst columns_of_node, use that in force)
    show ?thesis
      by (rule order_trans [OF node.IH [OF that]])
        (rule Un_mono [OF sub(1)], rule UN_mono [OF sub(2) order_refl])
  qed
  have first: "set (first_failed_cell (ev_document ev) F c) \<subseteq> set (column_cells (ev_document ev) c)" for c
  proof -
    have found: "r \<in> set rs" if "find P rs = Some r" for P r and rs :: "field_ref list"
      using that by (metis find_Some_iff nth_mem)
    show ?thesis
      using found by (cases "find (bt_contains F) (column_cells (ev_document ev) c)")
        (simp_all add: first_failed_cell_def)
  qed
  have cells: "set (first_failed_cell (ev_document ev) F c) \<subseteq> ?reads e" if "c \<in> set (own_columns e)" for c
  proof -
    have "c \<in> columns_of e" using columns_of_node [of e] that by blast
    then show ?thesis using first [of c] by blast
  qed
  have own: "set (unconditional_emit (ev_owner ev) e) \<subseteq> ?reads e"
    using refs_of_node [of "ev_owner ev" e] by blast
  have kids: "set (concat (map (required ev F) (children e))) \<subseteq> ?reads e" using child by auto
  show ?case
  proof (cases e)
    case (EColumnConditional a cs)
    have "set (concat (map (first_failed_cell (ev_document ev) F) (own_columns e))) \<subseteq> ?reads e"
      using cells by auto
    then show ?thesis using kids unfolding EColumnConditional required_parts(5) by simp
  next
    case (EIf c t f)
    have k: "set (required ev F c) \<subseteq> ?reads e" "set (required ev F t) \<subseteq> ?reads e"
      "set (required ev F f) \<subseteq> ?reads e"
      by (rule child; simp add: EIf)+
    show ?thesis
    proof (cases "plain_condition ev c")
      case (Inl x)
      then show ?thesis using k(1) by (simp add: EIf required_parts(6))
    next
      case (Inr b)
      then show ?thesis using k by (cases b) (simp_all add: EIf required_parts(6))
    qed
  next
    case (EReference r)
    then show ?thesis using own by (simp add: required_parts unconditional_emit_def)
  next
    case (ESameRowReference f)
    then show ?thesis using own by (simp add: required_parts unconditional_emit_def)
  next
    case (EColumnTotal c)
    then show ?thesis using cells [of c] by (simp add: required_parts)
  next
    case (EColumnAggregate g c)
    then show ?thesis using cells [of c] by (simp add: required_parts)
  next
    case (EIsBlank v)
    then show ?thesis by (simp add: required_parts)
  qed (use kids in \<open>simp_all add: required_steps\<close>)
qed

theorem formula_outcome_agrees:
  assumes "agrees ev F ev' F' e"
  shows "formula_outcome ev F e = formula_outcome ev' F' e"
proof -
  have same: "bt_contains F r = bt_contains F' r" if r: "r \<in> set (required ev F e)" for r
  proof -
    have "cell_agrees ev F ev' F' r"
    proof (cases "r \<in> refs_of (ev_owner ev) e")
      case True
      then show ?thesis using assms by (simp add: agrees_def reference_agrees_def cell_agrees_def)
    next
      case False
      then obtain c where "c \<in> columns_of e" "r \<in> set (column_cells (ev_document ev) c)"
        using required_read [of ev F e] r by blast
      then show ?thesis using assms by (auto simp: agrees_def column_agrees_def list_all_iff)
    qed
    then show ?thesis by (auto simp: cell_agrees_def)
  qed
  then have "filter (bt_contains F) (required ev F e) = filter (bt_contains F') (required ev F e)"
    by (intro filter_cong refl same)
  then have "failed_required ev F e = failed_required ev' F' e"
    by (simp add: failed_required_def required_agrees [OF assms])
  then show ?thesis using plain_agrees [OF assms] by (simp add: formula_outcome_def cong: if_cong)
qed

section \<open>Moving a cache\<close>

definition one_schema :: "column_ref list \<Rightarrow> bool" where
  "one_schema cols \<longleftrightarrow> (\<forall>c\<in>set cols. \<forall>c'\<in>set cols. cr_schema c = cr_schema c')"

definition memo_ok :: "column_cache \<Rightarrow> bool" where
  "memo_ok cache \<longleftrightarrow> (\<forall>key. cc_conditionals cache key \<noteq> None \<longrightarrow> one_schema (key_columns key))"

definition keeps :: "'a eval \<Rightarrow> bool" where
  "keeps m \<longleftrightarrow> (\<forall>cache. memo_ok cache \<longrightarrow> memo_ok (snd (m cache)))"

lemma keeps_lift [intro!]: "keeps (ev_lift r)" "keeps (ev_return x)" "keeps (ev_entry col)" "keeps (ev_round digits n)"
  by (auto simp: keeps_def ev_lift_def ev_return_def ev_entry_def ev_round_def split: option.split)

lemma keeps_bind [intro]:
  assumes "keeps m" "\<And>x. keeps (f x)"
  shows "keeps (ev_bind m f)"
  unfolding keeps_def
proof (intro allI impI)
  fix cache
  assume "memo_ok cache"
  obtain r cache' where m: "m cache = (r, cache')" by force
  then have "memo_ok cache'" using assms(1) \<open>memo_ok cache\<close> by (metis keeps_def snd_conv)
  then show "memo_ok (snd (ev_bind m f cache))"
    using assms(2) by (cases r) (simp_all add: ev_bind_def m keeps_def)
qed

lemma keeps_binary [intro]: "keeps l \<Longrightarrow> keeps r \<Longrightarrow> keeps (ev_binary f l r)"
  unfolding ev_binary_def by (intro keeps_bind keeps_lift)

lemma key_columns_subset: "set (key_columns (conditional_key a cs ts)) \<subseteq> set (conditional_columns a cs)"
  by (cases a) (auto simp: key_columns_def conditional_key_def conditional_columns_def dest: set_zip_leftD)

lemma keeps_lookup:
  assumes "one_schema (conditional_columns a cs)"
  shows "keeps (conditional_lookup ev a cs ts)"
  unfolding keeps_def
proof (intro allI impI)
  fix cache
  assume ok: "memo_ok cache"
  have key: "one_schema (key_columns (conditional_key a cs ts))"
    using assms key_columns_subset unfolding one_schema_def by blast
  have store: "memo_ok (c\<lparr>cc_conditionals := (cc_conditionals c)(conditional_key a cs ts \<mapsto> r)\<rparr>)"
    if "memo_ok c" for c r
    using that key by (auto simp: memo_ok_def)
  have index: "memo_ok (cache_index l d V col cache)" for l d V col
    using ok by (simp add: memo_ok_def cache_index_def)
  show "memo_ok (snd (conditional_lookup ev a cs ts cache))"
    using ok store index
    by (auto simp: conditional_lookup_def Let_def split: option.split sum.split stop.split)
qed

lemma keeps_conditions: "(\<And>x. x \<in> set xs \<Longrightarrow> keeps (condition ev x)) \<Longrightarrow> keeps (conditions ev both xs b)"
proof (induction xs arbitrary: b)
  case Nil
  have "conditions ev both [] b = ev_return b" by (rule ext) simp
  then show ?case by auto
next
  case (Cons x xs)
  have "conditions ev both (x # xs) b = ev_bind (condition ev x)
      (\<lambda>v. conditions ev both xs (if both then b \<and> v else b \<or> v))" by (rule ext) simp
  moreover have "keeps (condition ev x)" "\<And>b. keeps (conditions ev both xs b)" using Cons by simp_all
  ultimately show ?case by auto
qed

lemma keeps_test:
  assumes "\<And>x. cc_value c = Some x \<Longrightarrow> keeps (number ev x)"
  shows "keeps (criterion_test_of ev c)"
proof -
  obtain col p v where c: "c = ColumnCriterion col p v" by (cases c)
  show ?thesis
  proof (cases v)
    case None
    have "criterion_test_of ev c = (if p = CmpEqual \<or> p = CmpNotEqual then ev_return (blank_test p)
        else ev_lift (Inl FailTypeMismatch))" by (rule ext) (simp add: c None)
    then show ?thesis by auto
  next
    case (Some x)
    have number: "keeps (number ev x)" using assms Some c by simp
    then have call: "keeps (ev_bind (number ev x) (\<lambda>n. ev_return (equal_number (number_get n))))" by blast
    have "memo_ok (snd (criterion_test_of ev c cache))" if "memo_ok cache" for cache
      using call that by (cases x) (auto simp: c Some keeps_def ev_lift_def ev_return_def)
    then show ?thesis by (simp add: keeps_def)
  qed
qed

lemma keeps_tests: "(\<And>c. c \<in> set cs \<Longrightarrow> keeps (criterion_test_of ev c)) \<Longrightarrow> keeps (criterion_tests ev cs)"
proof (induction cs)
  case Nil
  have "criterion_tests ev [] = ev_return []" by (rule ext) simp
  then show ?case by auto
next
  case (Cons c cs)
  have "criterion_tests ev (c # cs) = ev_bind (criterion_test_of ev c)
      (\<lambda>t. ev_bind (criterion_tests ev cs) (\<lambda>ts. ev_return (t # ts)))" by (rule ext) simp
  moreover have "keeps (criterion_test_of ev c)" "keeps (criterion_tests ev cs)" using Cons by simp_all
  ultimately show ?case by auto
qed

lemma keeps_expression: "one_table e \<Longrightarrow> keeps (number ev e) \<and> keeps (condition ev e)"
proof (induction e rule: expression_induct)
  case (node e)
  have IH: "keeps (number ev c)" "keeps (condition ev c)" if "c \<in> set (children e)" for c
    using node.IH [OF that] node.prems that one_table_node [of e] by blast+
  have "keeps (number ev e)"
  proof (cases e)
    case (EColumnConditional a cs)
    have "keeps (criterion_tests ev cs)"
      using IH(1) EColumnConditional by (intro keeps_tests keeps_test) (auto simp: in_criterion_values)
    moreover have "one_schema (conditional_columns a cs)"
      using node.prems unfolding one_table_node [of e]
      unfolding EColumnConditional one_schema_def own_table.simps list.pred_inject id_apply by blast
    then have "keeps (conditional_lookup ev a cs ts)" for ts by (rule keeps_lookup)
    ultimately show ?thesis unfolding EColumnConditional number_steps by auto
  qed (use IH in \<open>auto simp: number_steps\<close>)
  moreover have "keeps (condition ev e)"
    using IH by (cases e) (auto simp: condition_steps intro!: keeps_conditions)
  ultimately show ?case by blast
qed

lemma criteria_references_pending:
  "criteria_references ev F cache cs refs pending = Some (refs', pending') \<Longrightarrow>
   set pending' \<subseteq> set (criterion_values cs) \<union> set pending"
proof (induction cs arbitrary: refs pending)
  case Nil
  then show ?case by simp
next
  case (Cons c cs)
  have v: "set (criterion_values (c # cs)) =
      (case cc_value c of None \<Rightarrow> {} | Some x \<Rightarrow> {x}) \<union> set (criterion_values cs)"
    by (auto simp: criterion_values_def List.map_filter_def split: option.split)
  obtain refs1 where e: "extend_failed cache (cc_column c) refs = Some refs1"
    using Cons.prems by (cases "extend_failed cache (cc_column c) refs") auto
  consider (same) refs2 where "criteria_references ev F cache cs refs2 pending = Some (refs', pending')" |
      (push) x refs2 where "cc_value c = Some x"
        "criteria_references ev F cache cs refs2 (x # pending) = Some (refs', pending')"
  proof (cases "cc_value c")
    case None
    then show thesis using Cons.prems e by (intro same [of refs1]) simp
  next
    case (Some x)
    show thesis
    proof (cases x)
      case (EReference r)
      then show thesis using Cons.prems e Some by (intro same) simp
    next
      case (ESameRowReference f)
      then show thesis using Cons.prems e Some by (intro same) simp
    qed (rule push [OF Some, of refs1], use Cons.prems e Some in simp)+
  qed
  then show ?case
  proof cases
    case same
    then show ?thesis using Cons.IH [OF same] v by blast
  next
    case push
    then show ?thesis using Cons.IH [OF push(2)] v by auto
  qed
qed

lemma failed_loop_keeps:
  "list_all one_table pending \<Longrightarrow> memo_ok cache \<Longrightarrow> memo_ok (snd (failed_loop ev F pending refs cache))"
proof (induction pending arbitrary: refs cache rule: measure_induct_rule [where f = forest_count])
  case (less pending)
  show ?case
  proof (cases pending)
    case Nil
    then show ?thesis using less.prems by (simp add: failed_loop.simps)
  next
    case (Cons node rest)
    have rest: "list_all one_table rest" and kids: "list_all one_table (children node)"
      using less.prems Cons one_table_node [of node] by (simp_all add: list_all_iff)
    have IH: "memo_ok (snd (failed_loop ev F p r c))"
      if "forest_count p < forest_count pending" "memo_ok c" "list_all one_table p" for p r c
      by (rule less.IH [OF that(1) that(3) that(2)])
    have short: "forest_count rest < forest_count pending" by (simp add: Cons node_count_children)
    note next_rest = IH [OF short less.prems(2) rest]
    have walk: "memo_ok (snd (failed_loop ev F (children node @ rest) refs cache))"
      using IH [of "children node @ rest" cache] less.prems(2) rest kids
      by (simp add: Cons node_count_children)
    show ?thesis
    proof (cases node)
      case (EColumnConditional a cs)
      have "memo_ok (snd (failed_loop ev F pending' refs' cache))"
        if "criteria_references ev F cache cs refs1 rest = Some (refs', pending')" for refs1 refs' pending'
      proof (rule IH [OF _ less.prems(2)])
        show "forest_count pending' < forest_count pending"
          using criteria_references_count [OF that] by (simp add: Cons EColumnConditional node_count_children)
        show "list_all one_table pending'"
          using criteria_references_pending [OF that] rest kids
          by (auto simp: EColumnConditional list_all_iff)
      qed
      then show ?thesis
        using less.prems(2)
        by (auto simp: Cons EColumnConditional failed_loop.simps split: option.split)
    next
      case (EIf c t e)
      have ok: "one_table c" "one_table t" "one_table e" using kids by (simp_all add: EIf)
      obtain r c1 where c: "condition ev c cache = (r, c1)" by force
      have c1: "memo_ok c1" using keeps_expression [OF ok(1), of ev] less.prems(2) c by (metis keeps_def snd_conv)
      have "memo_ok (snd (failed_loop ev F (c # rest) refs c1))"
        "memo_ok (snd (failed_loop ev F (t # c # rest) refs c1))"
        "memo_ok (snd (failed_loop ev F (e # c # rest) refs c1))"
        using rest ok by (auto intro!: IH c1 simp: Cons EIf node_count_children)
      then show ?thesis
        using c1 by (auto simp: Cons EIf failed_loop.simps c split: sum.split stop.split)
    qed (use next_rest walk less.prems(2) in \<open>auto simp: Cons failed_loop.simps split: option.split\<close>)
  qed
qed

lemma fill_columns_memo: "memo_ok cache \<Longrightarrow> memo_ok (fill_columns ev F e cache)"
proof -
  have one: "memo_ok c \<Longrightarrow> memo_ok (cache_fill d V F col c)" for c col d V
    by (simp add: memo_ok_def cache_fill_def)
  have "memo_ok c \<Longrightarrow> memo_ok (foldl (\<lambda>c col. cache_fill d V F col c) c cols)" for c cols d V
    by (induction cols arbitrary: c) (simp_all add: one)
  then show "memo_ok cache \<Longrightarrow> memo_ok (fill_columns ev F e cache)" by (simp add: fill_columns_def)
qed

lemma evaluate_formula_memo:
  assumes "one_table e" "memo_ok cache"
  shows "memo_ok (snd (evaluate_formula ev F e cache))"
proof -
  obtain r c where f: "failed_required_references ev e F (fill_columns ev F e cache) = (r, c)" by force
  have c: "memo_ok c"
    using failed_loop_keeps [of "[e]" "fill_columns ev F e cache" ev F "{||}"] assms fill_columns_memo f
    by (simp add: failed_required_references_def)
  have "memo_ok (snd (number ev e c))" using keeps_expression [OF assms(1), of ev] c by (simp add: keeps_def)
  then show ?thesis using c by (simp add: evaluate_formula_def f split: option.split)
qed

text \<open>
  A right cache stays right while values and failures are added elsewhere: what it remembers
  speaks of its columns only, and those still agree.
\<close>

lemma store_entities_keyed: "store_ids_ok d \<Longrightarrow> entities_keyed d"
  unfolding entities_keyed_def list_all_iff
  by (auto simp: bt_entries_iff dest: store_ids_okD(3))

lemma build_index_agrees:
  assumes "column_agrees ev F ev' F' col" "ev_document ev' = ev_document ev"
  shows "build_index lower (ev_document ev) (ev_values ev) col = build_index lower (ev_document ev) (ev_values ev') col"
proof -
  have same: "index_row lower (ev_values ev) col ix row = index_row lower (ev_values ev') col ix row"
    if row: "row \<in> set (bt_entries (doc_entities (ev_document ev)))" for ix row
  proof -
    obtain i e where ie: "row = (i, e)" by force
    have "bt_get (ev_values ev) (FieldRef i (cr_field col)) = bt_get (ev_values ev') (FieldRef i (cr_field col))"
      if "ent_schema e = cr_schema col" "bt_get (ent_fields e) (cr_field col) = Some v" for v
    proof -
      have "FieldRef i (cr_field col) \<in> set (column_cells (ev_document ev) col)"
        using row that unfolding ie column_cells_def by (force simp: bt_contains_def)
      then show ?thesis using assms(1) by (auto simp: column_agrees_def list_all_iff cell_agrees_def)
    qed
    then show ?thesis
      by (auto simp: ie index_row_def index_cell_def split: option.split val.split)
  qed
  show ?thesis unfolding build_index_def by (rule foldl_cong [OF refl refl]) (rule same)
qed

lemma cache_ok_move:
  assumes ok: "cache_ok ev F cache" and memo: "memo_ok cache" and env: "env_agrees ev ev'"
    and doc: "ev_document ev' = ev_document ev"
    and cols: "\<And>c. cc_columns cache c \<noteq> None \<Longrightarrow> column_agrees ev F ev' F' c"
  shows "cache_ok ev' F' cache"
proof -
  have lower: "ev_lower ev' = ev_lower ev" using env by (simp add: env_agrees_def)
  have "remembers (cc_columns cache) (\<lambda>col cv. cv = read_column (ev_document ev') (ev_values ev') F' col)"
  proof -
    have "remembers (cc_columns cache) (\<lambda>col cv. cv = read_column (ev_document ev) (ev_values ev) F col)"
      using ok by (simp add: cache_ok_def)
    then show ?thesis
    proof (rule remembers_mono)
      fix c cv
      assume "cc_columns cache c = Some cv"
      then have "column_agrees ev F ev' F' c" by (intro cols) simp
      from read_column_agrees [OF this]
      show "cv = read_column (ev_document ev) (ev_values ev) F c \<Longrightarrow>
          cv = read_column (ev_document ev') (ev_values ev') F' c" by simp
    qed
  qed
  moreover have "remembers (cc_indexes cache) (\<lambda>col ix. cc_columns cache col \<noteq> None \<and>
      ix = build_index (ev_lower ev') (ev_document ev') (ev_values ev') col)"
  proof -
    have "remembers (cc_indexes cache) (\<lambda>col ix. cc_columns cache col \<noteq> None \<and>
        ix = build_index (ev_lower ev) (ev_document ev) (ev_values ev) col)"
      using ok by (simp add: cache_ok_def)
    then show ?thesis
    proof (rule remembers_mono)
      fix c ix
      assume right: "cc_columns cache c \<noteq> None \<and> ix = build_index (ev_lower ev) (ev_document ev) (ev_values ev) c"
      then have "column_agrees ev F ev' F' c" by (intro cols) simp
      from build_index_agrees [OF this doc]
      show "cc_columns cache c \<noteq> None \<and> ix = build_index (ev_lower ev') (ev_document ev') (ev_values ev') c"
        using right unfolding doc lower by simp
    qed
  qed
  moreover have "right_conditional ev' key r"
    if key: "cc_conditionals cache key = Some r"
      and cached: "list_all (\<lambda>col. cc_columns cache col \<noteq> None) (key_columns key)"
      and right: "right_conditional ev key r" for key r
    unfolding right_conditional_def
  proof (intro allI impI)
    fix a cs ts
    assume a: "cs \<noteq> [] \<and> length ts = length cs \<and> conditional_key a cs ts = key"
    then have "map fst (zip (map cc_column cs) (map test_key ts)) = map cc_column cs"
      by (intro map_fst_zip) simp
    then have "conditional_columns a cs = key_columns key"
      using a by (cases a) (auto simp: conditional_columns_def key_columns_def conditional_key_def)
    then have cols_eq: "set (conditional_columns a cs) = set (key_columns key)" by simp
    have agree: "\<forall>c\<in>set (conditional_columns a cs). column_agrees ev F ev' F' c"
      using cached cols unfolding cols_eq list_all_iff by blast
    have "cc_column (hd cs) \<in> set (conditional_columns a cs)" using a by (simp add: conditional_columns_def)
    moreover have "one_schema (key_columns key)" using memo key by (simp add: memo_ok_def)
    ultimately have "\<forall>c\<in>set (conditional_columns a cs). cr_schema c = cr_schema (cc_column (hd cs))"
      unfolding one_schema_def cols_eq by blast
    then have "plain_conditional ev a cs ts = plain_conditional ev' a cs ts"
      using plain_conditional_agrees [OF env _ agree] a by blast
    then show "r = plain_conditional ev' a cs ts" using right a by (simp add: right_conditional_def)
  qed
  then have "remembers (cc_conditionals cache) (\<lambda>key r.
      list_all (\<lambda>col. cc_columns cache col \<noteq> None) (key_columns key) \<and> right_conditional ev' key r)"
    using ok unfolding cache_ok_def remembers_def by blast
  ultimately show ?thesis by (simp add: cache_ok_def)
qed

end
