(* ===== verification/Scheduling.thy ===== *)
theory Scheduling
  imports Locality
begin

text \<open>
  The pass over the remaining formulas.  A formula awaits the unresolved cells it names and the
  columns it reads that still have an unresolved slot; a resolved formula releases its readers.
  The counts always say what is awaited, so on an acyclic graph the pass resolves every formula,
  underflows no count and ends.
\<close>

section \<open>What a formula awaits\<close>

lemma set_at_uses:
  assumes "graph_of d g"
  shows "set_at (dg_reference_uses g) f = (case formula_at d f of None \<Rightarrow> {||} | Some e \<Rightarrow> direct_references f e)"
    "set_at (dg_column_uses g) f = (case formula_at d f of None \<Rightarrow> {||} | Some e \<Rightarrow> extract_column_totals e)"
  using assms
  by (simp_all add: graph_of_def graph_inv_def set_at_def formula_uses_at split: option.split)

lemma graph_readers:
  assumes "graph_of d g"
  shows "f |\<in>| set_at (dg_cell_readers g) r \<longleftrightarrow> r |\<in>| set_at (dg_reference_uses g) f"
    "f |\<in>| set_at (dg_column_readers g) c \<longleftrightarrow> c |\<in>| set_at (dg_column_uses g) f"
proof -
  have inv: "graph_inv exact d (formula_uses d) g" using assms by (simp add: graph_of_def)
  have "fset (set_at (dg_cell_readers g) r) = cell_readers_of (formula_uses d) r"
    "fset (set_at (dg_column_readers g) c) = column_readers_of (formula_uses d) c"
    using inv inverts_set_at by (auto simp: graph_inv_def columns_inv_def)
  then show "f |\<in>| set_at (dg_cell_readers g) r \<longleftrightarrow> r |\<in>| set_at (dg_reference_uses g) f"
    "f |\<in>| set_at (dg_column_readers g) c \<longleftrightarrow> c |\<in>| set_at (dg_column_uses g) f"
    by (auto simp: set_at_uses [OF assms] cell_readers_of_def column_readers_of_def formula_uses_at
        split: option.split)
qed

lemma graph_slots:
  assumes "graph_of d g" "c |\<in>| set_at (dg_column_uses g) f"
  shows "set_at (dg_column_slots g) c = column_slots_in d c"
    "bt_get (dg_slot_columns g) s = Some c \<longleftrightarrow> s |\<in>| column_slots_in d c"
proof -
  have inv: "graph_inv exact d (formula_uses d) g" using assms by (simp add: graph_of_def)
  have "column_readers_of (formula_uses d) c \<noteq> {}"
    using assms(2) unfolding set_at_uses [OF assms(1)]
    by (auto simp: column_readers_of_def formula_uses_at split: option.splits)
  then show "set_at (dg_column_slots g) c = column_slots_in d c"
    "bt_get (dg_slot_columns g) s = Some c \<longleftrightarrow> s |\<in>| column_slots_in d c"
    using graph_inv_slot_columns [OF inv] by (simp_all add: set_at_def)
qed

lemma slot_column_slots:
  "graph_of d g \<Longrightarrow> bt_get (dg_slot_columns g) s = Some c \<Longrightarrow> s |\<in>| column_slots_in d c"
  using graph_inv_slot_columns(1) by (fastforce simp: graph_of_def)

lemma column_cells_slots: "set (column_cells d c) \<subseteq> fset (column_slots_in d c)"
  unfolding column_cells_def by (force simp: in_column_slots bt_entries_iff)

text \<open>\<open>Q\<close> holds the unresolved formulas.\<close>

definition open_columns :: "document \<Rightarrow> dependency_graph \<Rightarrow> field_ref set \<Rightarrow> field_ref \<Rightarrow> column_ref set" where
  "open_columns d g Q f =
     {c. c |\<in>| set_at (dg_column_uses g) f \<and> fset (column_slots_in d c) \<inter> Q \<noteq> {}}"

definition awaited :: "document \<Rightarrow> dependency_graph \<Rightarrow> field_ref set \<Rightarrow> field_ref \<Rightarrow> nat" where
  "awaited d g Q f = card (fset (set_at (dg_reference_uses g) f) \<inter> Q) + card (open_columns d g Q f)"

definition settled :: "document \<Rightarrow> dependency_graph \<Rightarrow> field_ref set \<Rightarrow> field_ref \<Rightarrow> bool" where
  "settled d g Q f \<longleftrightarrow> fset (set_at (dg_reference_uses g) f) \<inter> Q = {} \<and> open_columns d g Q f = {}"

lemma finite_open_columns [simp]: "finite (open_columns d g Q f)"
  by (rule finite_subset [of _ "fset (set_at (dg_column_uses g) f)"]) (auto simp: open_columns_def)

lemma awaited_0: "awaited d g Q f = 0 \<longleftrightarrow> settled d g Q f"
  by (auto simp: awaited_def settled_def)

lemma settled_mono: "settled d g Q f \<Longrightarrow> Q' \<subseteq> Q \<Longrightarrow> settled d g Q' f"
  unfolding settled_def open_columns_def by blast

text \<open>What resolving \<open>x\<close> releases: its direct reader, and the last slot of a column.\<close>

definition releases_cell :: "dependency_graph \<Rightarrow> field_ref \<Rightarrow> field_ref \<Rightarrow> nat" where
  "releases_cell g x f = (if x |\<in>| set_at (dg_reference_uses g) f then 1 else 0)"

definition last_slot :: "document \<Rightarrow> dependency_graph \<Rightarrow> field_ref set \<Rightarrow> field_ref \<Rightarrow> field_ref \<Rightarrow> nat" where
  "last_slot d g Q x f =
     (case bt_get (dg_slot_columns g) x of
        Some c \<Rightarrow>
          if c |\<in>| set_at (dg_column_uses g) f \<and> fset (column_slots_in d c) \<inter> (Q - {x}) = {} then 1 else 0
      | None \<Rightarrow> 0)"

lemma awaited_resolve:
  assumes g: "graph_of d g" and x: "x \<in> Q"
  shows "awaited d g Q f = awaited d g (Q - {x}) f + releases_cell g x f + last_slot d g Q x f"
proof -
  let ?R = "fset (set_at (dg_reference_uses g) f)"
  have cells: "card (?R \<inter> Q) = card (?R \<inter> (Q - {x})) + releases_cell g x f"
  proof (cases "x |\<in>| set_at (dg_reference_uses g) f")
    case True
    then have "?R \<inter> Q = insert x (?R \<inter> (Q - {x}))" using x by blast
    then show ?thesis using True by (simp add: releases_cell_def)
  next
    case False
    then have "?R \<inter> Q = ?R \<inter> (Q - {x})" by blast
    then show ?thesis using False by (simp add: releases_cell_def)
  qed
  have other: "fset (column_slots_in d c) \<inter> Q = fset (column_slots_in d c) \<inter> (Q - {x})"
    if "c |\<in>| set_at (dg_column_uses g) f" "bt_get (dg_slot_columns g) x \<noteq> Some c" for c
    using that graph_slots(2) [OF g that(1), of x] by blast
  have cols: "card (open_columns d g Q f) = card (open_columns d g (Q - {x}) f) + last_slot d g Q x f"
  proof (cases "last_slot d g Q x f = 1")
    case True
    then obtain c where c: "bt_get (dg_slot_columns g) x = Some c" "c |\<in>| set_at (dg_column_uses g) f"
      "fset (column_slots_in d c) \<inter> (Q - {x}) = {}"
      by (auto simp: last_slot_def split: option.splits if_splits)
    have "x |\<in>| column_slots_in d c" using graph_slots(2) [OF g c(2)] c(1) by blast
    then have "open_columns d g Q f = insert c (open_columns d g (Q - {x}) f)" "c \<notin> open_columns d g (Q - {x}) f"
      using c x other unfolding open_columns_def by auto
    then show ?thesis using True by simp
  next
    case False
    have "open_columns d g Q f = open_columns d g (Q - {x}) f"
    proof (intro equalityI subsetI)
      fix c
      assume c: "c \<in> open_columns d g Q f"
      then have u: "c |\<in>| set_at (dg_column_uses g) f" by (simp add: open_columns_def)
      have "fset (column_slots_in d c) \<inter> (Q - {x}) \<noteq> {}"
      proof (cases "bt_get (dg_slot_columns g) x = Some c")
        case True
        then show ?thesis using False u by (auto simp: last_slot_def split: if_splits)
      next
        case no: False
        then show ?thesis using other [OF u no] c by (simp add: open_columns_def)
      qed
      then show "c \<in> open_columns d g (Q - {x}) f" using u by (simp add: open_columns_def)
    next
      fix c
      assume "c \<in> open_columns d g (Q - {x}) f"
      then show "c \<in> open_columns d g Q f" unfolding open_columns_def by blast
    qed
    moreover have "last_slot d g Q x f = 0" using False by (auto simp: last_slot_def split: option.splits if_splits)
    ultimately show ?thesis by simp
  qed
  show ?thesis using cells cols by (simp add: awaited_def)
qed

section \<open>Releasing readers\<close>

definition counts_are :: "counts \<Rightarrow> field_ref set \<Rightarrow> (field_ref \<Rightarrow> nat) \<Rightarrow> bool" where
  "counts_are counts Q A \<longleftrightarrow> (\<forall>h. bt_get counts h = (if h \<in> Q then Some (A h) else None))"

definition released ::
    "field_ref set \<Rightarrow> (field_ref \<Rightarrow> nat) \<Rightarrow> field_ref set \<Rightarrow> pass_state \<Rightarrow> pass_state \<Rightarrow> bool" where
  "released Q A S st st' \<longleftrightarrow>
     counts_are (ps_counts st') Q (\<lambda>h. A h - (if h \<in> S then 1 else 0)) \<and>
     fset (ps_ready st') = fset (ps_ready st) \<union> {h \<in> S \<inter> Q. A h = 1} \<and>
     ps_failures st' = ps_failures st \<and> ps_values st' = ps_values st \<and>
     ps_column_counts st' = ps_column_counts st \<and> ps_cache st' = ps_cache st"

lemma released_outside: "r \<notin> Q \<Longrightarrow> released Q A (insert r S) st st' = released Q A S st st'"
proof -
  assume r: "r \<notin> Q"
  then have "counts_are counts Q (\<lambda>h. A h - (if h \<in> insert r S then 1 else 0)) =
      counts_are counts Q (\<lambda>h. A h - (if h \<in> S then 1 else 0))" for counts
    by (auto simp: counts_are_def)
  moreover have "{h \<in> insert r S \<inter> Q. A h = 1} = {h \<in> S \<inter> Q. A h = 1}" using r by auto
  ultimately show ?thesis unfolding released_def by simp
qed

lemma release_list:
  "distinct rs \<Longrightarrow> counts_are (ps_counts st) Q A \<Longrightarrow> \<forall>h\<in>set rs \<inter> Q. 0 < A h \<Longrightarrow>
   \<exists>st'. foldl release_reader (Some st) rs = Some st' \<and> released Q A (set rs) st st'"
proof (induction rs arbitrary: st A)
  case Nil
  then show ?case by (simp add: released_def)
next
  case (Cons r rs)
  show ?case
  proof (cases "r \<in> Q")
    case False
    then have "release_reader (Some st) r = Some st"
      using Cons.prems(2) by (simp add: release_reader_def counts_are_def)
    then show ?thesis using Cons.IH [of st A] Cons.prems released_outside [OF False] by simp
  next
    case True
    let ?st = "st\<lparr>ps_counts := bt_insert r (A r - 1) (ps_counts st),
      ps_ready := (if A r - 1 = 0 then finsert r (ps_ready st) else ps_ready st)\<rparr>"
    let ?A = "A(r := A r - 1)"
    have pos: "0 < A r" using Cons.prems(3) True by simp
    then have step: "release_reader (Some st) r = Some ?st"
      using Cons.prems(2) True by (simp add: release_reader_def counts_are_def)
    have "counts_are (ps_counts ?st) Q ?A" using Cons.prems(2) True by (auto simp: counts_are_def)
    moreover have "\<forall>h\<in>set rs \<inter> Q. 0 < ?A h" using Cons.prems(1,3) by auto
    moreover have "distinct rs" using Cons.prems(1) by simp
    ultimately obtain st' where st': "foldl release_reader (Some ?st) rs = Some st'"
      "released Q ?A (set rs) ?st st'"
      using Cons.IH [of ?st ?A] by blast
    have "counts_are (ps_counts st') Q (\<lambda>h. A h - (if h \<in> set (r # rs) then 1 else 0))"
      using st'(2) Cons.prems(1) by (auto simp: counts_are_def released_def)
    moreover have "fset (ps_ready st') = fset (ps_ready st) \<union> {h \<in> set (r # rs) \<inter> Q. A h = 1}"
      using st'(2) Cons.prems(1) True pos by (auto simp: released_def)
    ultimately have "released Q A (set (r # rs)) st st'" using st'(2) by (simp add: released_def)
    then show ?thesis using st'(1) step by auto
  qed
qed

lemma release_readers_counts:
  assumes "counts_are (ps_counts st) Q A" "\<forall>h\<in>fset S \<inter> Q. 0 < A h"
  obtains st' where "release_readers S (Some st) = Some st'" "released Q A (fset S) st st'"
proof -
  have "distinct (sorted_list_of_fset S)" by (simp add: sorted_list_of_fset.rep_eq)
  from release_list [OF this assms(1)] assms(2) that show ?thesis
    unfolding release_readers_def by auto
qed

section \<open>The state of the pass\<close>

abbreviation owned :: "(nat \<Rightarrow> nat list) \<Rightarrow> document \<Rightarrow> field_ref \<Rightarrow> value_map \<Rightarrow> evaluation" where
  "owned lower d h V \<equiv> \<lparr>ev_lower = lower, ev_document = d, ev_owner = h, ev_values = V\<rparr>"

text \<open>A formula has the value or the failure its expression has.\<close>

definition solved_at ::
    "(nat \<Rightarrow> nat list) \<Rightarrow> document \<Rightarrow> failure_map \<Rightarrow> value_map \<Rightarrow> field_ref \<Rightarrow> expression \<Rightarrow> bool" where
  "solved_at lower d F V h e \<longleftrightarrow>
     (case formula_outcome (owned lower d h V) F e of
        Inl x \<Rightarrow> bt_get F h = Some x \<and> bt_get V h = None
      | Inr v \<Rightarrow> bt_get V h = Some v \<and> bt_get F h = None)"

text \<open>What the pass is started on: \<open>R\<close> are the formulas without a failure.\<close>

definition pass_input ::
    "document \<Rightarrow> formula_nodes \<Rightarrow> dependency_graph \<Rightarrow> field_ref set \<Rightarrow> failure_map \<Rightarrow> value_map \<Rightarrow> bool" where
  "pass_input d formulas g R F V \<longleftrightarrow>
     store_ids_ok d \<and> graph_of d g \<and>
     (\<forall>f\<in>R. bt_get F f = None \<and> bt_get V f = None \<and>
        (\<exists>e. bt_get formulas f = Some e \<and> formula_at d f = Some e \<and> one_table e))"

definition tracked :: "dependency_graph \<Rightarrow> field_ref set \<Rightarrow> column_ref \<Rightarrow> bool" where
  "tracked g R c \<longleftrightarrow> (\<exists>f\<in>R. c |\<in>| set_at (dg_column_uses g) f)"

definition cache_settled :: "document \<Rightarrow> field_ref set \<Rightarrow> column_cache \<Rightarrow> bool" where
  "cache_settled d Q cache \<longleftrightarrow> memo_ok cache \<and>
     (\<forall>c. cc_columns cache c \<noteq> None \<longrightarrow> fset (column_slots_in d c) \<inter> Q = {})"

definition pass_inv ::
    "(nat \<Rightarrow> nat list) \<Rightarrow> document \<Rightarrow> formula_nodes \<Rightarrow> dependency_graph \<Rightarrow> field_ref set
     \<Rightarrow> failure_map \<Rightarrow> value_map \<Rightarrow> field_ref set \<Rightarrow> pass_state \<Rightarrow> bool" where
  "pass_inv lower d formulas g R F0 V0 Q st \<longleftrightarrow>
     Q \<subseteq> R \<and> counts_are (ps_counts st) Q (awaited d g Q) \<and>
     (\<forall>c. bt_get (ps_column_counts st) c =
        (if tracked g R c then Some (card (fset (column_slots_in d c) \<inter> Q)) else None)) \<and>
     fset (ps_ready st) = {f \<in> Q. settled d g Q f} \<and>
     (\<forall>f. f \<notin> R - Q \<longrightarrow> bt_get (ps_failures st) f = bt_get F0 f \<and> bt_get (ps_values st) f = bt_get V0 f) \<and>
     (\<forall>f\<in>R - Q. \<forall>e. bt_get formulas f = Some e \<longrightarrow>
        settled d g Q f \<and> solved_at lower d (ps_failures st) (ps_values st) f e) \<and>
     (\<forall>h. cache_ok (owned lower d h (ps_values st)) (ps_failures st) (ps_cache st)) \<and>
     cache_settled d Q (ps_cache st)"

text \<open>A change at an unresolved formula is not seen where everything read is resolved.\<close>

lemma column_agrees_away:
  assumes "fset (column_slots_in d c) \<inter> Q = {}" "x \<in> Q"
    "\<forall>y. y \<noteq> x \<longrightarrow> bt_get V' y = bt_get V y \<and> bt_get F' y = bt_get F y"
  shows "column_agrees (owned lower d h V) F (owned lower d h' V') F' c"
proof -
  have "y \<noteq> x" if "y \<in> set (column_cells d c)" for y
    using assms(1,2) column_cells_slots [of d c] that by blast
  then show ?thesis
    using assms(3) by (simp add: column_agrees_def cell_agrees_def list_all_iff)
qed

lemma agrees_away:
  assumes inp: "store_ids_ok d" "graph_of d g" "formula_at d h = Some e" "one_table e"
    and s: "settled d g Q h" and x: "x \<in> Q"
    and same: "\<forall>y. y \<noteq> x \<longrightarrow> bt_get V' y = bt_get V y \<and> bt_get F' y = bt_get F y"
  shows "agrees (owned lower d h V) F (owned lower d h V') F' e"
proof -
  have refs: "fset (set_at (dg_reference_uses g) h) = refs_of h e"
    and cols: "fset (set_at (dg_column_uses g) h) = columns_of e"
    using inp(3) by (simp_all add: set_at_uses [OF inp(2)] fset_direct_references fset_extract_column_totals)
  have r: "y \<noteq> x" if "y \<in> refs_of h e" for y
    using s x that unfolding settled_def refs by blast
  have c: "fset (column_slots_in d c) \<inter> Q = {}" if "c \<in> columns_of e" for c
  proof -
    have "c \<notin> open_columns d g Q h" using s by (simp add: settled_def)
    moreover have "c |\<in>| set_at (dg_column_uses g) h" using that cols by simp
    ultimately show ?thesis by (simp add: open_columns_def)
  qed
  have "\<forall>c\<in>columns_of e. column_agrees (owned lower d h V) F (owned lower d h V') F' c"
    using column_agrees_away [OF c x same] by blast
  moreover have "\<forall>y\<in>refs_of h e. reference_agrees (owned lower d h V) F (owned lower d h V') F' y"
    using r same by (simp add: reference_agrees_def)
  moreover have "env_agrees (owned lower d h V) (owned lower d h V')"
    using store_entities_keyed [OF inp(1)] by (simp add: env_agrees_def)
  ultimately show ?thesis using inp(4) by (simp add: agrees_def)
qed

lemma solved_away:
  assumes "store_ids_ok d" "graph_of d g" "formula_at d h = Some e" "one_table e"
    and "settled d g Q h" "x \<in> Q" "h \<noteq> x"
    and same: "\<forall>y. y \<noteq> x \<longrightarrow> bt_get V' y = bt_get V y \<and> bt_get F' y = bt_get F y"
    and "solved_at lower d F V h e"
  shows "solved_at lower d F' V' h e"
proof -
  have "formula_outcome (owned lower d h V) F e = formula_outcome (owned lower d h V') F' e"
    by (rule formula_outcome_agrees [OF agrees_away [OF assms(1-6) same]])
  then show ?thesis using assms(7,9) same by (simp add: solved_at_def split: sum.splits)
qed

section \<open>One step of the pass\<close>

definition column_counts_are ::
    "document \<Rightarrow> dependency_graph \<Rightarrow> field_ref set \<Rightarrow> field_ref set \<Rightarrow> column_counts \<Rightarrow> bool" where
  "column_counts_are d g R Q counts \<longleftrightarrow>
     (\<forall>c. bt_get counts c =
        (if tracked g R c then Some (card (fset (column_slots_in d c) \<inter> Q)) else None))"

lemma tracked_slot:
  assumes "graph_of d g" "tracked g R c"
  shows "bt_get (dg_slot_columns g) x = Some c \<longleftrightarrow> x |\<in>| column_slots_in d c"
  using assms graph_slots(2) [OF assms(1)] unfolding tracked_def by blast

lemma release_column_counts:
  assumes g: "graph_of d g" and f: "f \<in> Q" and Q: "Q \<subseteq> R"
    and counts: "counts_are (ps_counts st) (Q - {f}) (\<lambda>h. awaited d g (Q - {f}) h + last_slot d g Q f h)"
    and cols: "column_counts_are d g R Q (ps_column_counts st)"
  obtains st' where "release_column g f (Some st) = Some st'"
    "counts_are (ps_counts st') (Q - {f}) (awaited d g (Q - {f}))"
    "column_counts_are d g R (Q - {f}) (ps_column_counts st')"
    "fset (ps_ready st') = fset (ps_ready st) \<union> {h \<in> Q - {f}. last_slot d g Q f h = 1 \<and> settled d g (Q - {f}) h}"
    "ps_failures st' = ps_failures st" "ps_values st' = ps_values st" "ps_cache st' = ps_cache st"
proof -
  note finish = that
  let ?Q = "Q - {f}"
  have away: "card (fset (column_slots_in d c) \<inter> ?Q) = card (fset (column_slots_in d c) \<inter> Q)"
    if "tracked g R c" "bt_get (dg_slot_columns g) f \<noteq> Some c" for c
  proof -
    have "fset (column_slots_in d c) \<inter> ?Q = fset (column_slots_in d c) \<inter> Q"
      using tracked_slot [OF g that(1), of f] that(2) by blast
    then show ?thesis by simp
  qed
  have uses: "tracked g R c" if "h \<in> ?Q" "c |\<in>| set_at (dg_column_uses g) h" for c h
    using that Q unfolding tracked_def by blast
  have quiet: thesis
    if step: "release_column g f (Some st) = Some (st\<lparr>ps_column_counts := counts'\<rparr>)"
      and none: "\<And>h. h \<in> ?Q \<Longrightarrow> last_slot d g Q f h = 0"
      and cols': "column_counts_are d g R ?Q counts'" for counts'
  proof (rule finish [OF step])
    show "counts_are (ps_counts (st\<lparr>ps_column_counts := counts'\<rparr>)) ?Q (awaited d g ?Q)"
      using counts none by (auto simp: counts_are_def)
    show "column_counts_are d g R ?Q (ps_column_counts (st\<lparr>ps_column_counts := counts'\<rparr>))"
      using cols' by simp
    show "fset (ps_ready (st\<lparr>ps_column_counts := counts'\<rparr>)) =
        fset (ps_ready st) \<union> {h \<in> ?Q. last_slot d g Q f h = 1 \<and> settled d g ?Q h}"
      using none by auto
  qed simp_all
  show thesis
  proof (cases "bt_get (dg_slot_columns g) f")
    case None
    have "column_counts_are d g R ?Q (ps_column_counts st)"
      using cols away None by (simp add: column_counts_are_def)
    then show thesis
      by (intro quiet [of "ps_column_counts st"]) (simp_all add: release_column_def None last_slot_def)
  next
    case (Some c)
    show thesis
    proof (cases "tracked g R c")
      case False
      then have get: "bt_get (ps_column_counts st) c = None" using cols by (simp add: column_counts_are_def)
      have "bt_get (dg_slot_columns g) f \<noteq> Some c'" if "tracked g R c'" for c'
        using that Some False by auto
      then have "column_counts_are d g R ?Q (ps_column_counts st)"
        using cols away by (simp add: column_counts_are_def)
      moreover have "last_slot d g Q f h = 0" if "h \<in> ?Q" for h
        using uses [OF that, of c] False by (auto simp: last_slot_def Some)
      ultimately show thesis
        by (intro quiet [of "ps_column_counts st"]) (simp_all add: release_column_def Some get)
    next
      case True
      let ?S = "fset (column_slots_in d c)"
      let ?n = "card (?S \<inter> ?Q)"
      let ?cc = "bt_insert c ?n (ps_column_counts st)"
      have "f \<in> ?S" using tracked_slot [OF g True] Some by blast
      then have "?S \<inter> Q = insert f (?S \<inter> ?Q)" using f by blast
      then have n: "card (?S \<inter> Q) = ?n + 1" by simp
      then have get: "bt_get (ps_column_counts st) c = Some (?n + 1)"
        using cols True by (simp add: column_counts_are_def)
      have cols': "column_counts_are d g R ?Q ?cc"
        using cols away Some True by (auto simp: column_counts_are_def)
      show thesis
      proof (cases "?n = 0")
        case False
        then have "?S \<inter> ?Q \<noteq> {}" by auto
        then have "last_slot d g Q f h = 0" for h by (simp add: last_slot_def Some)
        with cols' show thesis using False by (intro quiet) (simp_all add: release_column_def Some get)
      next
        case 0: True
        then have last: "last_slot d g Q f h = (if h |\<in>| set_at (dg_column_readers g) c then 1 else 0)" for h
          by (simp add: last_slot_def Some graph_readers(2) [OF g])
        let ?st = "st\<lparr>ps_column_counts := ?cc\<rparr>"
        let ?A = "\<lambda>h. awaited d g ?Q h + last_slot d g Q f h"
        have "\<forall>h\<in>fset (set_at (dg_column_readers g) c) \<inter> ?Q. 0 < ?A h" using last by simp
        moreover have "counts_are (ps_counts ?st) ?Q ?A" using counts by simp
        ultimately obtain st' where st':
          "release_readers (set_at (dg_column_readers g) c) (Some ?st) = Some st'"
          "released ?Q ?A (fset (set_at (dg_column_readers g) c)) ?st st'"
          using release_readers_counts by blast
        show thesis
        proof (rule finish)
          show "release_column g f (Some st) = Some st'"
            using st'(1) 0 by (simp add: release_column_def Some get)
          show "counts_are (ps_counts st') ?Q (awaited d g ?Q)"
            using st'(2) last by (auto simp: released_def counts_are_def)
          show "column_counts_are d g R ?Q (ps_column_counts st')"
            using st'(2) cols' by (simp add: released_def)
          show "fset (ps_ready st') = fset (ps_ready st) \<union>
              {h \<in> ?Q. last_slot d g Q f h = 1 \<and> settled d g ?Q h}"
            using st'(2) by (auto simp: released_def last awaited_0 split: if_splits)
        qed (use st'(2) in \<open>simp_all add: released_def\<close>)
      qed
    qed
  qed
qed

lemma settled_column:
  assumes "graph_of d g" "formula_at d f = Some e" "settled d g Q f" "c \<in> set (column_totals e)"
  shows "fset (column_slots_in d c) \<inter> Q = {}"
proof -
  have "c |\<in>| set_at (dg_column_uses g) f"
    using assms(2,4) by (simp add: set_at_uses [OF assms(1)] extract_column_totals_def fset_of_list.rep_eq)
  moreover have "c \<notin> open_columns d g Q f" using assms(3) by (simp add: settled_def)
  ultimately show ?thesis by (simp add: open_columns_def)
qed

lemma resolve_formula_step:
  assumes ids: "store_ids_ok d" and g: "graph_of d g"
    and e: "bt_get formulas f = Some e" "formula_at d f = Some e" "one_table e"
    and f: "f \<in> Q" "settled d g Q f" "bt_get (ps_failures st) f = None" "bt_get (ps_values st) f = None"
    and ok: "cache_ok (owned lower d f (ps_values st)) (ps_failures st) (ps_cache st)"
      "cache_settled d Q (ps_cache st)"
  obtains F V cache where
    "resolve_formula lower d formulas f st = Some (st\<lparr>ps_failures := F, ps_values := V, ps_cache := cache\<rparr>)"
    "\<forall>y. y \<noteq> f \<longrightarrow> bt_get V y = bt_get (ps_values st) y \<and> bt_get F y = bt_get (ps_failures st) y"
    "solved_at lower d F V f e" "\<forall>h. cache_ok (owned lower d h V) F cache" "cache_settled d Q cache"
proof -
  let ?F = "ps_failures st" and ?V = "ps_values st"
  let ?ev = "owned lower d f ?V"
  let ?o = "formula_outcome ?ev ?F e"
  obtain cache where c: "evaluate_formula ?ev ?F e (ps_cache st) = (map_err Fails ?o, cache)"
      "cache_ok ?ev ?F cache" "dom (cc_columns cache) = set (column_totals e) \<union> dom (cc_columns (ps_cache st))"
    using evaluate_formula_outcome [OF _ ok(1), of e] ids by auto
  have memo: "memo_ok cache"
    using evaluate_formula_memo [OF e(3), of "ps_cache st" ?ev ?F] ok(2) c(1) by (simp add: cache_settled_def)
  have away: "fset (column_slots_in d col) \<inter> Q = {}" if "cc_columns cache col \<noteq> None" for col
  proof -
    have "col \<in> set (column_totals e) \<union> dom (cc_columns (ps_cache st))" using that c(3) by blast
    then show ?thesis
      using settled_column [OF g e(2) f(2), of col] ok(2) by (auto simp: cache_settled_def)
  qed
  have settled: "cache_settled d Q cache" using memo away by (simp add: cache_settled_def)
  define F where "F = (case ?o of Inl x \<Rightarrow> bt_insert f x ?F | Inr v \<Rightarrow> ?F)"
  define V where "V = (case ?o of Inl x \<Rightarrow> ?V | Inr v \<Rightarrow> bt_insert f v ?V)"
  have same: "\<forall>y. y \<noteq> f \<longrightarrow> bt_get V y = bt_get ?V y \<and> bt_get F y = bt_get ?F y"
    by (simp add: F_def V_def split: sum.split)
  have outcome: "?o = formula_outcome (owned lower d f V) F e"
    by (rule formula_outcome_agrees [OF agrees_away [OF ids g e(2,3) f(2,1) same]])
  have "solved_at lower d F V f e"
    unfolding solved_at_def outcome [symmetric] using f(3,4) by (simp add: F_def V_def split: sum.split)
  moreover have "cache_ok (owned lower d h V) F cache" for h
  proof (rule cache_ok_move [OF c(2) memo])
    show "env_agrees ?ev (owned lower d h V)"
      using store_entities_keyed [OF ids] by (simp add: env_agrees_def)
    show "column_agrees ?ev ?F (owned lower d h V) F col" if "cc_columns cache col \<noteq> None" for col
      by (rule column_agrees_away [OF away [OF that] f(1) same])
  qed simp
  moreover have "resolve_formula lower d formulas f st =
      Some (st\<lparr>ps_failures := F, ps_values := V, ps_cache := cache\<rparr>)"
    by (cases ?o) (simp_all add: resolve_formula_def e(1) c(1) F_def V_def)
  ultimately show thesis using that same settled by blast
qed

lemma pass_step_inv:
  assumes inp: "pass_input d formulas g R F0 V0" and inv: "pass_inv lower d formulas g R F0 V0 Q st"
    and f: "f |\<in>| ps_ready st"
  obtains st' where "pass_step lower d formulas g f st = Some st'"
    "pass_inv lower d formulas g R F0 V0 (Q - {f}) st'"
proof -
  let ?Q = "Q - {f}"
  have ids: "store_ids_ok d" and g: "graph_of d g" using inp by (simp_all add: pass_input_def)
  have QR: "Q \<subseteq> R" and counts: "counts_are (ps_counts st) Q (awaited d g Q)"
    and cols: "column_counts_are d g R Q (ps_column_counts st)"
    and ready: "fset (ps_ready st) = {f \<in> Q. settled d g Q f}"
    and outside: "\<forall>h. h \<notin> R - Q \<longrightarrow> bt_get (ps_failures st) h = bt_get F0 h \<and> bt_get (ps_values st) h = bt_get V0 h"
    and done1: "\<forall>h\<in>R - Q. \<forall>e. bt_get formulas h = Some e \<longrightarrow>
        settled d g Q h \<and> solved_at lower d (ps_failures st) (ps_values st) h e"
    and cache: "\<forall>h. cache_ok (owned lower d h (ps_values st)) (ps_failures st) (ps_cache st)"
      "cache_settled d Q (ps_cache st)"
    using inv unfolding pass_inv_def column_counts_are_def by blast+
  have fQ: "f \<in> Q" "settled d g Q f" using f ready by auto
  have formula: "\<exists>e. bt_get formulas h = Some e \<and> formula_at d h = Some e \<and> one_table e"
    "bt_get F0 h = None" "bt_get V0 h = None" if "h \<in> R" for h
    using inp that unfolding pass_input_def by blast+
  obtain e where e: "bt_get formulas f = Some e" "formula_at d f = Some e" "one_table e"
    using formula fQ QR by blast
  let ?st = "st\<lparr>ps_ready := ps_ready st |-| {|f|}, ps_counts := bt_remove f (ps_counts st)\<rparr>"
  have "bt_get (ps_failures ?st) f = None" "bt_get (ps_values ?st) f = None"
    "cache_ok (owned lower d f (ps_values ?st)) (ps_failures ?st) (ps_cache ?st)"
    "cache_settled d Q (ps_cache ?st)"
    using outside formula(2,3) [of f] fQ QR cache by auto
  note resolve = resolve_formula_step [OF ids g e fQ this]
  obtain F V cache' where r: "resolve_formula lower d formulas f ?st =
        Some (?st\<lparr>ps_failures := F, ps_values := V, ps_cache := cache'\<rparr>)"
      "\<forall>y. y \<noteq> f \<longrightarrow> bt_get V y = bt_get (ps_values st) y \<and> bt_get F y = bt_get (ps_failures st) y"
      "solved_at lower d F V f e" "\<forall>h. cache_ok (owned lower d h V) F cache'" "cache_settled d Q cache'"
    by (rule resolve) simp
  let ?st1 = "?st\<lparr>ps_failures := F, ps_values := V, ps_cache := cache'\<rparr>"
  note split = awaited_resolve [OF g fQ(1)]
  have counts1: "counts_are (ps_counts ?st1) ?Q (awaited d g Q)"
    using counts by (auto simp: counts_are_def)
  have pos: "\<forall>h\<in>fset (set_at (dg_cell_readers g) f) \<inter> ?Q. 0 < awaited d g Q h"
    by (simp add: split graph_readers(1) [OF g] releases_cell_def)
  obtain st2 where st2: "release_readers (set_at (dg_cell_readers g) f) (Some ?st1) = Some st2"
      "released ?Q (awaited d g Q) (fset (set_at (dg_cell_readers g) f)) ?st1 st2"
    using release_readers_counts [OF counts1 pos] by blast
  have cells: "(if h |\<in>| set_at (dg_cell_readers g) f then 1 else 0) = releases_cell g f h" for h
    by (simp add: graph_readers(1) [OF g] releases_cell_def)
  have counts2: "counts_are (ps_counts st2) ?Q (\<lambda>h. awaited d g ?Q h + last_slot d g Q f h)"
    using st2(2) unfolding released_def cells by (simp add: counts_are_def split)
  have cols2: "column_counts_are d g R Q (ps_column_counts st2)" using st2(2) cols by (simp add: released_def)
  obtain st3 where st3: "release_column g f (Some st2) = Some st3"
    "counts_are (ps_counts st3) ?Q (awaited d g ?Q)" "column_counts_are d g R ?Q (ps_column_counts st3)"
    "fset (ps_ready st3) = fset (ps_ready st2) \<union> {h \<in> ?Q. last_slot d g Q f h = 1 \<and> settled d g ?Q h}"
    "ps_failures st3 = ps_failures st2" "ps_values st3 = ps_values st2" "ps_cache st3 = ps_cache st2"
    using release_column_counts [OF g fQ(1) QR counts2 cols2] by blast
  have now: "ps_failures st3 = F" "ps_values st3 = V" "ps_cache st3 = cache'"
    using st3(5-7) st2(2) by (simp_all add: released_def)
  have "fset (ps_ready st3) = {h \<in> ?Q. settled d g ?Q h}"
  proof -
    have "fset (ps_ready st2) = {h \<in> ?Q. settled d g Q h} \<union> {h \<in> ?Q. releases_cell g f h = 1 \<and> awaited d g Q h = 1}"
      using st2(2) ready by (auto simp: released_def releases_cell_def graph_readers(1) [OF g])
    then have "fset (ps_ready st3) = {h \<in> ?Q. awaited d g Q h = 0 \<or>
        releases_cell g f h = 1 \<and> awaited d g Q h = 1 \<or> last_slot d g Q f h = 1 \<and> awaited d g ?Q h = 0}"
      unfolding st3(4) awaited_0 [symmetric] by blast
    also have "\<dots> = {h \<in> ?Q. awaited d g ?Q h = 0}"
    proof -
      have "releases_cell g f h = 0 \<or> releases_cell g f h = 1" "last_slot d g Q f h = 0 \<or> last_slot d g Q f h = 1" for h
        by (auto simp: releases_cell_def last_slot_def split: option.split)
      then have "(awaited d g Q h = 0 \<or> releases_cell g f h = 1 \<and> awaited d g Q h = 1 \<or>
          last_slot d g Q f h = 1 \<and> awaited d g ?Q h = 0) = (awaited d g ?Q h = 0)" for h
        unfolding split [of h] by (metis add_eq_0_iff_both_eq_0 add_right_cancel add_0 add.commute)
      then show ?thesis by simp
    qed
    finally show ?thesis by (simp add: awaited_0)
  qed
  moreover have "\<forall>h\<in>R - ?Q. \<forall>x. bt_get formulas h = Some x \<longrightarrow>
      settled d g ?Q h \<and> solved_at lower d F V h x"
  proof (intro ballI allI impI)
    fix h x
    assume h: "h \<in> R - ?Q" "bt_get formulas h = Some x"
    show "settled d g ?Q h \<and> solved_at lower d F V h x"
    proof (cases "h = f")
      case True
      then show ?thesis using settled_mono [OF fQ(2), of ?Q] r(3) h(2) e(1) by auto
    next
      case False
      then have "settled d g Q h" and s: "solved_at lower d (ps_failures st) (ps_values st) h x"
        using h done1 by auto
      moreover have "formula_at d h = Some x" "one_table x" using formula(1) [of h] h by auto
      ultimately have "solved_at lower d F V h x"
        by (intro solved_away [OF ids g _ _ _ fQ(1) False r(2) s])
      then show ?thesis using settled_mono [OF \<open>settled d g Q h\<close>, of ?Q] by auto
    qed
  qed
  moreover have "\<forall>h. h \<notin> R - ?Q \<longrightarrow> bt_get F h = bt_get F0 h \<and> bt_get V h = bt_get V0 h"
    using outside r(2) fQ QR by auto
  moreover have "cache_settled d ?Q cache'" using r(5) unfolding cache_settled_def by blast
  ultimately have "pass_inv lower d formulas g R F0 V0 ?Q st3"
    using QR st3(2,3) r(4) unfolding pass_inv_def now column_counts_are_def by blast
  moreover have "pass_step lower d formulas g f st = Some st3"
    by (simp add: pass_step_def r(1) st2(1) st3(1))
  ultimately show thesis using that by blast
qed

section \<open>The counts at the start\<close>

lemma length_filter_fset: "length (filter P (sorted_list_of_fset S)) = card {x \<in> fset S. P x}"
proof -
  have "distinct (filter P (sorted_list_of_fset S))" by (simp add: sorted_list_of_fset.rep_eq)
  then show ?thesis using distinct_card by fastforce
qed

lemma remaining_column_counts_get:
  "bt_get (remaining_column_counts g R) c =
     (if tracked g (fset R) c then Some (card (fset (set_at (dg_column_slots g) c) \<inter> fset R)) else None)"
proof -
  let ?n = "\<lambda>c. card (fset (set_at (dg_column_slots g) c) \<inter> fset R)"
  have one: "bt_get (foldl (count_column g R) m cs) c =
      (if bt_get m c = None \<and> c \<in> set cs then Some (?n c) else bt_get m c)" for cs m c
  proof (induction cs arbitrary: m)
    case (Cons x xs)
    have "{s \<in> fset (set_at (dg_column_slots g) x). s |\<in>| R} = fset (set_at (dg_column_slots g) x) \<inter> fset R"
      by blast
    then have "bt_get (count_column g R m x) c =
        (if bt_get m c = None \<and> c = x then Some (?n c) else bt_get m c)"
      by (simp add: count_column_def length_filter_fset)
    with Cons [of "count_column g R m x"] show ?case by (cases "c = x") simp_all
  qed simp
  have all: "bt_get (foldl (\<lambda>counts f. foldl (count_column g R) counts
        (sorted_list_of_fset (set_at (dg_column_uses g) f))) m fs) c =
      (if bt_get m c = None \<and> (\<exists>f\<in>set fs. c |\<in>| set_at (dg_column_uses g) f) then Some (?n c) else bt_get m c)"
    for fs m
    by (induction fs arbitrary: m) (auto simp: one)
  show ?thesis
    unfolding remaining_column_counts_def all by (simp add: tracked_def)
qed

lemma remaining_counts_awaited:
  assumes g: "graph_of d g" and counts: "remaining_counts g R = (counts, columns)"
  shows "counts_are counts (fset R) (awaited d g (fset R))" "column_counts_are d g (fset R) (fset R) columns"
proof -
  have columns: "columns = remaining_column_counts g R" using counts by (auto simp: remaining_counts_def Let_def)
  have slots: "set_at (dg_column_slots g) c = column_slots_in d c" if "tracked g (fset R) c" for c
    using that graph_slots(1) [OF g] unfolding tracked_def by blast
  then show "column_counts_are d g (fset R) (fset R) columns"
    by (simp add: column_counts_are_def columns remaining_column_counts_get)
  show "counts_are counts (fset R) (awaited d g (fset R))"
    unfolding counts_are_def
  proof
    fix f
    let ?cells = "{r \<in> fset (set_at (dg_reference_uses g) f). r |\<in>| R}"
    let ?open = "{c \<in> fset (set_at (dg_column_uses g) f).
        0 < (case bt_get columns c of None \<Rightarrow> 0 | Some n \<Rightarrow> n)}"
    have "counts = bt_of_list (map (\<lambda>f. (f, card {r \<in> fset (set_at (dg_reference_uses g) f). r |\<in>| R} +
        card {c \<in> fset (set_at (dg_column_uses g) f).
          0 < (case bt_get columns c of None \<Rightarrow> 0 | Some n \<Rightarrow> n)})) (sorted_list_of_fset R))"
      using counts by (auto simp: remaining_counts_def Let_def length_filter_fset columns)
    moreover have "bt_get (bt_of_list (map (\<lambda>f. (f, h f)) (sorted_list_of_fset R))) f =
        (if f |\<in>| R then Some (h f) else None)" for h :: "field_ref \<Rightarrow> nat"
    proof -
      have "map_of (map (\<lambda>f. (f, h f)) fs) f = (if f \<in> set fs then Some (h f) else None)" for fs
        by (induction fs) auto
      moreover have "distinct (map fst (map (\<lambda>f. (f, h f)) (sorted_list_of_fset R)))"
        by (simp add: comp_def sorted_list_of_fset.rep_eq)
      ultimately show ?thesis by (simp add: bt_get_of_list)
    qed
    ultimately have get: "bt_get counts f = (if f |\<in>| R then Some (card ?cells + card ?open) else None)" by simp
    have "?cells = fset (set_at (dg_reference_uses g) f) \<inter> fset R" by blast
    moreover have "?open = open_columns d g (fset R) f" if "f |\<in>| R"
    proof -
      have "(0 < (case bt_get columns c of None \<Rightarrow> 0 | Some n \<Rightarrow> n)) = (fset (column_slots_in d c) \<inter> fset R \<noteq> {})"
        if c: "c |\<in>| set_at (dg_column_uses g) f" for c
      proof -
        have t: "tracked g (fset R) c" using c \<open>f |\<in>| R\<close> by (auto simp: tracked_def)
        then show ?thesis
          using slots [OF t] by (simp add: columns remaining_column_counts_get card_gt_0_iff)
      qed
      then show ?thesis by (auto simp: open_columns_def)
    qed
    ultimately show "bt_get counts f = (if f \<in> fset R then Some (awaited d g (fset R) f) else None)"
      by (simp add: get awaited_def)
  qed
qed

lemma pass_start_inv:
  assumes inp: "pass_input d formulas g (fset (eligible_formulas formulas F)) F V"
  shows "pass_inv lower d formulas g (fset (eligible_formulas formulas F)) F V
    (fset (eligible_formulas formulas F)) (pass_start formulas g F V)"
proof -
  let ?R = "eligible_formulas formulas F"
  have g: "graph_of d g" using inp by (simp add: pass_input_def)
  obtain counts columns where c: "remaining_counts g ?R = (counts, columns)" by force
  note C = remaining_counts_awaited [OF g c]
  have "fset (fset_of_list (map fst (filter (\<lambda>(f, n). n = 0) (bt_entries counts)))) =
      {f. bt_get counts f = Some 0}"
    by (force simp: fset_of_list.rep_eq bt_entries_iff)
  also have "\<dots> = {f \<in> fset ?R. settled d g (fset ?R) f}"
    using C(1) by (auto simp: counts_are_def awaited_0 [symmetric])
  finally have ready: "fset (ps_ready (pass_start formulas g F V)) = {f \<in> fset ?R. settled d g (fset ?R) f}"
    by (simp add: pass_start_def c)
  have "cache_settled d (fset ?R) cache_empty" by (simp add: cache_settled_def memo_ok_def cache_empty_def)
  then show ?thesis
    using C ready unfolding pass_inv_def column_counts_are_def
    by (simp add: pass_start_def c cache_ok_empty)
qed

section \<open>The pass ends\<close>

lemma open_formula_ready:
  assumes g: "graph_of d g" and acyclic: "acyclic (reads_within R g)"
    and Q: "Q \<subseteq> fset R" "f \<in> Q"
  obtains h where "h \<in> Q" "settled d g Q h"
proof -
  have "finite (reads_within R g)"
    by (rule finite_subset [of _ "fset R \<times> fset R"])
      (auto simp: reads_within_def in_formula_dependencies_within)
  then have "wf ((reads_within R g)\<inverse>)" using acyclic by (rule finite_acyclic_wf_converse)
  then obtain h where h: "h \<in> Q" "\<And>y. (h, y) \<in> reads_within R g \<Longrightarrow> y \<notin> Q"
    using wfE_min [of _ f Q] Q(2) by (metis converse_iff)
  have R: "h |\<in>| R" using h(1) Q(1) by blast
  have "fset (set_at (dg_reference_uses g) h) \<inter> Q = {}"
    using h(2) Q(1) R by (auto simp: reads_within_def in_formula_dependencies_within)
  moreover have "open_columns d g Q h = {}"
  proof -
    have "fset (column_slots_in d c) \<inter> Q = {}" if "c |\<in>| set_at (dg_column_uses g) h" for c
      using h(2) Q(1) R that graph_slots(1) [OF g that]
      by (auto simp: reads_within_def in_formula_dependencies_within)
    then show ?thesis by (auto simp: open_columns_def)
  qed
  ultimately show thesis using that h(1) by (simp add: settled_def)
qed

lemma pass_loop_ends:
  assumes inp: "pass_input d formulas g (fset R) F0 V0" and acyclic: "acyclic (reads_within R g)"
  shows "pass_inv lower d formulas g (fset R) F0 V0 Q st \<Longrightarrow>
    \<exists>st'. pass_loop lower d formulas g st = Some st' \<and> pass_inv lower d formulas g (fset R) F0 V0 {} st'"
proof (induction "card Q" arbitrary: Q st rule: less_induct)
  case less
  have g: "graph_of d g" using inp by (simp add: pass_input_def)
  have QR: "Q \<subseteq> fset R" and ready: "fset (ps_ready st) = {f \<in> Q. settled d g Q f}"
    using less.prems by (simp_all add: pass_inv_def)
  have fin: "finite Q" by (rule finite_subset [OF QR]) simp
  show ?case
  proof (cases "sorted_list_of_fset (ps_ready st)")
    case Nil
    then have "set (sorted_list_of_fset (ps_ready st)) = {}" by simp
    then have "fset (ps_ready st) = {}" by simp
    then have "Q = {}" using ready open_formula_ready [OF g acyclic QR] by blast
    then show ?thesis using less.prems Nil by (simp add: pass_loop.simps)
  next
    case (Cons f fs)
    then have "f \<in> set (sorted_list_of_fset (ps_ready st))" by simp
    then have f: "f |\<in>| ps_ready st" by simp
    obtain st1 where st1: "pass_step lower d formulas g f st = Some st1"
      "pass_inv lower d formulas g (fset R) F0 V0 (Q - {f}) st1"
      using pass_step_inv [OF inp less.prems f] by blast
    have "f \<in> Q" using f ready by blast
    then have "card (Q - {f}) < card Q" by (rule card_Diff1_less [OF fin])
    from less.hyps [OF this st1(2)] show ?thesis
      by (simp add: pass_loop.simps [of lower d formulas g st] Cons st1(1))
  qed
qed

lemma evaluate_remaining_solves:
  assumes inp: "pass_input d formulas g (fset (eligible_formulas formulas F0)) F0 V0"
    and acyclic: "acyclic (reads_within (eligible_formulas formulas F0) g)"
  obtains F V where "evaluate_remaining_formulas lower d formulas g F0 V0 = Some (F, V)"
    "\<And>f. f |\<notin>| eligible_formulas formulas F0 \<Longrightarrow> bt_get F f = bt_get F0 f \<and> bt_get V f = bt_get V0 f"
    "\<And>f e. f |\<in>| eligible_formulas formulas F0 \<Longrightarrow> bt_get formulas f = Some e \<Longrightarrow> solved_at lower d F V f e"
proof -
  obtain st where st: "pass_loop lower d formulas g (pass_start formulas g F0 V0) = Some st"
    "pass_inv lower d formulas g (fset (eligible_formulas formulas F0)) F0 V0 {} st"
    using pass_loop_ends [OF inp acyclic pass_start_inv [OF inp]] by blast
  have "bt_get (ps_counts st) f = None" for f using st(2) by (simp add: pass_inv_def counts_are_def)
  then have "bt_keys (ps_counts st) = []" using set_bt_keys by (metis list.set_intros(1) neq_Nil_conv)
  then have "evaluate_remaining_formulas lower d formulas g F0 V0 = Some (ps_failures st, ps_values st)"
    by (simp add: evaluate_remaining_formulas_def st(1))
  then show thesis using that st(2) unfolding pass_inv_def by blast
qed

end
