(* ===== verification/Outcomes.thy ===== *)
theory Outcomes
  imports Scheduling
begin

text \<open>
  What a calculation is: every node of the document has its number, its failure found before the
  graph, the cycle it is on, or the value or failure its expression has.  The calculation of the
  code is total and gives the one solution of these equations.
\<close>

section \<open>The failure of one node before the graph\<close>

function (sequential) total_checks :: "document \<Rightarrow> expression list \<Rightarrow> reference_check list" where
  "total_checks d [] = []"
| "total_checks d (node # pending) =
     (case node of
        EColumnTotal col \<Rightarrow>
          (case first_target d (column_cells d col) of None \<Rightarrow> [] | Some (cell, f) \<Rightarrow> [(cell, Some f)])
      | _ \<Rightarrow> []) @ total_checks d (rev (children node) @ pending)"
  by pat_completeness auto
termination
  by (relation "measure (\<lambda>(d, pending). forest_count pending)")
    (auto simp: node_count_children forest_count_def rev_map [symmetric])

declare total_checks.simps [simp del]

definition structure_failure :: "expression \<Rightarrow> calculation_failure option" where
  "structure_failure e =
     (case validate_expression_structure e of
        Inl error \<Rightarrow> Some (FailInvalidExpression error)
      | Inr u \<Rightarrow> if infer_type e \<noteq> Some TypeNumber then Some FailTypeMismatch else None)"

definition column_formula_failure :: "document \<Rightarrow> expression \<Rightarrow> calculation_failure option" where
  "column_formula_failure d e =
     (if column_failures d e \<noteq> bt_empty then Some (FailInvalidColumn (column_failures d e)) else None)"

definition target_failures :: "document \<Rightarrow> field_ref \<Rightarrow> val \<Rightarrow> (field_ref, reference_failure) btree" where
  "target_failures d field v =
     insert_checks (case v of VFormula e \<Rightarrow> reference_checks d field e @ total_checks d [e] | _ \<Rightarrow> [])
       (case reference_failure d field True of None \<Rightarrow> bt_empty | Some f \<Rightarrow> bt_insert field f bt_empty)"

definition or_else :: "'a option \<Rightarrow> 'a option \<Rightarrow> 'a option" where
  "or_else a b = (case a of Some x \<Rightarrow> Some x | None \<Rightarrow> b)"

definition formula_failure :: "document \<Rightarrow> val \<Rightarrow> calculation_failure option" where
  "formula_failure d v =
     (case formula_of v of
        None \<Rightarrow> None
      | Some e \<Rightarrow> or_else (structure_failure e) (column_formula_failure d e))"

definition pre_failure :: "document \<Rightarrow> field_ref \<Rightarrow> val \<Rightarrow> calculation_failure option" where
  "pre_failure d field v =
     or_else (formula_failure d v)
       (if target_failures d field v \<noteq> bt_empty
        then Some (FailInvalidReferences (target_failures d field v)) else None)"

text \<open>The phases compute it node by node: the shared column lookups change nothing.\<close>

definition targets_ok :: "document \<Rightarrow> column_targets \<Rightarrow> bool" where
  "targets_ok d targets \<longleftrightarrow> (\<forall>c t. bt_get targets c = Some t \<longrightarrow> t = first_target d (column_cells d c))"

lemma column_checks_total:
  "targets_ok d targets \<Longrightarrow>
   \<exists>targets'. column_checks d pending targets checks = (targets', checks @ total_checks d pending) \<and>
     targets_ok d targets'"
proof (induction pending arbitrary: targets checks rule: measure_induct_rule [where f = forest_count])
  case (less pending)
  show ?case
  proof (cases pending)
    case Nil
    then show ?thesis using less.prems by (simp add: column_checks.simps total_checks.simps)
  next
    case (Cons node rest)
    let ?next = "rev (children node) @ rest"
    have short: "forest_count ?next < forest_count pending"
      by (simp add: Cons node_count_children forest_count_def rev_map [symmetric])
    show ?thesis
    proof (cases "\<exists>c. node = EColumnTotal c")
      case True
      then obtain c where node: "node = EColumnTotal c" ..
      let ?t = "first_target d (column_cells d c)"
      let ?targets = "if bt_contains targets c then targets else bt_insert c ?t targets"
      have ok: "targets_ok d ?targets" using less.prems by (simp add: targets_ok_def)
      have get: "bt_get ?targets c = Some ?t"
        using less.prems by (auto simp: targets_ok_def)
      let ?own = "case ?t of None \<Rightarrow> [] | Some (cell, f) \<Rightarrow> [(cell, Some f)]"
      have "column_checks d pending targets checks = column_checks d ?next ?targets (checks @ ?own)"
        unfolding Cons node column_checks.simps(2) Let_def expression.case get
        by (simp split: option.split prod.split)
      moreover have "total_checks d pending = ?own @ total_checks d ?next"
        unfolding Cons by (subst total_checks.simps) (simp add: node)
      ultimately show ?thesis using less.IH [OF short ok, of "checks @ ?own"] by auto
    next
      case False
      then have "column_checks d pending targets checks = column_checks d ?next targets checks"
        "total_checks d pending = total_checks d ?next"
        unfolding Cons column_checks.simps(2) total_checks.simps(2) by (cases node; simp)+
      then show ?thesis using less.IH [OF short less.prems, of checks] by simp
    qed
  qed
qed

lemma invalid_targets_failures:
  assumes "targets_ok d targets"
  shows "\<exists>targets'. invalid_targets d field v targets = (target_failures d field v, targets') \<and> targets_ok d targets'"
proof (cases v)
  case (VFormula e)
  obtain targets' where "column_checks d [e] targets (reference_checks d field e) =
      (targets', reference_checks d field e @ total_checks d [e])" "targets_ok d targets'"
    using column_checks_total [OF assms] by blast
  then show ?thesis by (simp add: invalid_targets_def target_failures_def VFormula)
qed (use assms in \<open>simp_all add: invalid_targets_def target_failures_def insert_checks_def\<close>)

text \<open>A fold in which an entry changes the map at its own key only.\<close>

lemma foldl_own_key:
  assumes other: "\<And>m k v a. a \<noteq> k \<Longrightarrow> bt_get (step m (k, v)) a = bt_get m a"
    and own: "\<And>m k v. bt_get (step m (k, v)) k = change k v (bt_get m k)"
  shows "distinct (map fst xs) \<Longrightarrow>
    bt_get (foldl step m xs) a = (case map_of xs a of None \<Rightarrow> bt_get m a | Some v \<Rightarrow> change a v (bt_get m a))"
proof (induction xs arbitrary: m)
  case (Cons x xs)
  obtain k v where x: "x = (k, v)" by force
  have "map_of xs k = None" using Cons.prems x by (simp add: map_of_eq_None_iff)
  then show ?case using Cons x other [of a k] own [of m k v]
    by (cases "a = k") (simp_all split: option.split)
qed simp

lemma target_phases:
  "distinct (map fst xs) \<Longrightarrow> targets_ok d targets \<Longrightarrow>
   bt_get (fst (foldl (target_phase d) (failures, targets) xs)) a =
     (case map_of xs a of
        None \<Rightarrow> bt_get failures a
      | Some v \<Rightarrow> or_else (bt_get failures a)
          (if target_failures d a v \<noteq> bt_empty then Some (FailInvalidReferences (target_failures d a v)) else None))"
proof (induction xs arbitrary: failures targets)
  case (Cons x xs)
  obtain k v where x: "x = (k, v)" by force
  have k: "map_of xs k = None" using Cons.prems x by (simp add: map_of_eq_None_iff)
  obtain targets' where t: "invalid_targets d k v targets = (target_failures d k v, targets')" "targets_ok d targets'"
    using invalid_targets_failures [OF Cons.prems(2)] by blast
  obtain failures' targets1 where one: "target_phase d (failures, targets) (k, v) = (failures', targets1)" by force
  have "targets_ok d targets1" and get: "bt_get failures' a =
      (if a = k then or_else (bt_get failures k)
        (if target_failures d k v \<noteq> bt_empty then Some (FailInvalidReferences (target_failures d k v)) else None)
       else bt_get failures a)" for a
    using one t Cons.prems(2) by (auto simp: target_phase_def or_else_def split: if_splits option.split)
  moreover have "distinct (map fst xs)" using Cons.prems(1) by simp
  ultimately show ?case using Cons.IH [of targets1 failures'] k
    by (cases "a = k") (simp_all add: x one split: option.split)
qed simp

lemma pregraph_failures_get:
  assumes "\<And>f. bt_get formulas f = Option.bind (bt_get nodes f) formula_of"
  shows "bt_get (pregraph_failures d nodes formulas) f = Option.bind (bt_get nodes f) (pre_failure d f)"
proof -
  let ?m1 = "foldl structure_phase bt_empty (bt_entries formulas)"
  let ?m2 = "foldl (column_phase d) ?m1 (bt_entries formulas)"
  have 1: "bt_get ?m1 a = Option.bind (bt_get formulas a) structure_failure" for a
    by (subst foldl_own_key [where change = "\<lambda>k e old. or_else (structure_failure e) old"])
      (auto simp: structure_phase_def structure_failure_def or_else_def bt_get_def [of formulas]
        split: sum.split option.split)
  have 2: "bt_get ?m2 a = Option.bind (bt_get formulas a) (\<lambda>e. or_else (structure_failure e) (column_formula_failure d e))" for a
    by (subst foldl_own_key [where change = "\<lambda>k e old. or_else old (column_formula_failure d e)"])
      (auto simp: column_phase_def column_formula_failure_def or_else_def Let_def bt_get_def [of formulas] 1
        split: option.split)
  have "targets_ok d bt_empty" by (simp add: targets_ok_def)
  note target_phases [where xs = "bt_entries nodes" and failures = ?m2 and a = f, OF bt_entries_distinct this]
  moreover have "bt_get ?m2 f = Option.bind (bt_get nodes f) (formula_failure d)"
    unfolding 2 assms by (cases "bt_get nodes f") (auto simp: formula_failure_def split: option.split)
  ultimately show ?thesis
    by (auto simp: pregraph_failures_def Let_def bt_get_def [of nodes] pre_failure_def split: option.split)
qed

section \<open>The equations of a calculation\<close>

text \<open>The formulas without an earlier failure, and which of them reads which.\<close>

definition eligible :: "document \<Rightarrow> field_ref \<Rightarrow> bool" where
  "eligible d f \<longleftrightarrow>
     (case formula_at d f of None \<Rightarrow> False | Some e \<Rightarrow> pre_failure d f (VFormula e) = None)"

definition awaits :: "document \<Rightarrow> (field_ref \<times> field_ref) set" where
  "awaits d = {(f, h). eligible d f \<and> eligible d h \<and>
     (\<exists>e. formula_at d f = Some e \<and> h |\<in>| extract_dependencies d f e)}"

definition mates :: "('a \<times> 'a) set \<Rightarrow> 'a \<Rightarrow> 'a set" where
  "mates E f = {h. (f, h) \<in> E\<^sup>+ \<and> (h, f) \<in> E\<^sup>+}"

definition node_solved ::
    "(nat \<Rightarrow> nat list) \<Rightarrow> document \<Rightarrow> (field_ref \<times> field_ref) set \<Rightarrow> failure_map \<Rightarrow> value_map
     \<Rightarrow> field_ref \<Rightarrow> bool" where
  "node_solved lower d E F V f \<longleftrightarrow>
     (case calculation_value d f of
        None \<Rightarrow> bt_get F f = None \<and> bt_get V f = None
      | Some v \<Rightarrow>
          (case pre_failure d f v of
             Some x \<Rightarrow> bt_get F f = Some x \<and> bt_get V f = None
           | None \<Rightarrow>
               (case v of
                  VNumber n \<Rightarrow> bt_get F f = None \<and> bt_get V f = Some n
                | VFormula e \<Rightarrow>
                    if (f, f) \<in> E\<^sup>+
                    then (\<exists>m. bt_get F f = Some (FailCycle m) \<and> fset m = mates E f) \<and> bt_get V f = None
                    else solved_at lower d F V f e
                | _ \<Rightarrow> False)))"

definition solves :: "(nat \<Rightarrow> nat list) \<Rightarrow> document \<Rightarrow> failure_map \<Rightarrow> value_map \<Rightarrow> bool" where
  "solves lower d F V \<longleftrightarrow> (\<forall>f. node_solved lower d (awaits d) F V f)"

text \<open>Every conditional aggregate of the document reads the columns of one table.\<close>

definition tables_ok :: "document \<Rightarrow> bool" where
  "tables_ok d \<longleftrightarrow>
     (case collect_calculation_nodes d of (nodes, formulas, g) \<Rightarrow> list_all one_table (bt_values formulas))"

lemma tables_okD: "tables_ok d \<Longrightarrow> formula_at d f = Some e \<Longrightarrow> one_table e"
proof -
  obtain nodes formulas g where c: "collect_calculation_nodes d = (nodes, formulas, g)" by (metis prod_cases3)
  show "tables_ok d \<Longrightarrow> formula_at d f = Some e \<Longrightarrow> one_table e"
    using collect_calculation_nodes_get(2) [OF c, of f]
    by (auto simp: tables_ok_def c list_all_iff in_bt_values)
qed

lemma calculation_value_cases:
  "calculation_value d f = Some v \<Longrightarrow> (\<exists>n. v = VNumber n) \<or> (\<exists>e. v = VFormula e \<and> formula_at d f = Some e)"
  by (auto simp: calculation_value_def is_calculation_def formula_at_def formula_of_def
      split: option.splits if_splits val.splits)

lemma formula_at_value: "formula_at d f = Some e \<longleftrightarrow> calculation_value d f = Some (VFormula e)"
proof (cases "calculation_value d f")
  case (Some v)
  then show ?thesis by (cases v) (simp_all add: formula_at_def formula_of_def)
qed (simp add: formula_at_def)

lemma reads_within_awaits:
  assumes g: "graph_of d g" and R: "fset R \<subseteq> Collect (eligible d)"
  shows "reads_within R g = awaits d \<inter> fset R \<times> fset R"
proof -
  have "h |\<in>| extract_dependencies d f e \<longleftrightarrow> h |\<in>| set_at (dg_reference_uses g) f \<or>
      (\<exists>c. c |\<in>| set_at (dg_column_uses g) f \<and> h |\<in>| set_at (dg_column_slots g) c)"
    if "formula_at d f = Some e" for f h e
  proof -
    have cols: "c |\<in>| set_at (dg_column_uses g) f \<longleftrightarrow> c \<in> set (column_totals e)" for c
      using that by (simp add: set_at_uses [OF g] extract_column_totals_def fset_of_list.rep_eq)
    have "set_at (dg_column_slots g) c = column_slots_in d c" if "c \<in> set (column_totals e)" for c
      using that graph_slots(1) [OF g] cols by blast
    then show ?thesis
      using that unfolding fset_extract_dependencies cols by (auto simp: set_at_uses [OF g])
  qed
  moreover have "\<exists>e. formula_at d f = Some e" if "f |\<in>| R" for f
    using that R by (auto simp: eligible_def split: option.splits)
  ultimately show ?thesis
    using R unfolding reads_within_def in_formula_dependencies_within awaits_def by fastforce
qed

section \<open>The failures of cycles\<close>

lemma fail_members_get:
  "bt_get (fail_members F m) f = (if f |\<in>| m then Some (FailCycle m) else bt_get F f)"
proof -
  have "bt_get (foldl (\<lambda>F x. bt_insert x (FailCycle m) F) F xs) f =
      (if f \<in> set xs then Some (FailCycle m) else bt_get F f)" for xs
    by (induction xs arbitrary: F) auto
  then show ?thesis by (simp add: fail_members_def)
qed

lemma fail_cycles_get:
  "(\<And>m. m \<in> set cycles \<Longrightarrow> f |\<in>| m \<Longrightarrow> m = m0) \<Longrightarrow>
   bt_get (foldl fail_members F cycles) f =
     (if \<exists>m\<in>set cycles. f |\<in>| m then Some (FailCycle m0) else bt_get F f)"
proof (induction cycles arbitrary: F)
  case (Cons m cycles)
  have "bt_get (foldl fail_members (fail_members F m) cycles) f =
      (if \<exists>m\<in>set cycles. f |\<in>| m then Some (FailCycle m0) else bt_get (fail_members F m) f)"
    by (rule Cons.IH) (use Cons.prems in auto)
  then show ?case using Cons.prems [of m] by (auto simp: fail_members_get)
qed simp

lemma mates_eq: "h \<in> mates E f \<Longrightarrow> mates E h = mates E f"
  by (auto simp: mates_def intro: trancl_trans)

lemma cycle_failures_get:
  obtains F1 where "assign_cycle_failures formulas g F0 = Some F1"
    "\<And>f. if (f, f) \<in> (reads_within (eligible_formulas formulas F0) g)\<^sup>+
       then \<exists>m. bt_get F1 f = Some (FailCycle m) \<and>
         fset m = mates (reads_within (eligible_formulas formulas F0) g) f
       else bt_get F1 f = bt_get F0 f"
proof -
  let ?E = "reads_within (eligible_formulas formulas F0) g"
  obtain cycles where c: "cyclic_components (eligible_formulas formulas F0) g = Some cycles"
    "fset ` set cycles = mates ?E ` {f. (f, f) \<in> ?E\<^sup>+}"
    using cyclic_components_exact [of "eligible_formulas formulas F0" g] unfolding mates_def by blast
  have member: "fset m = mates ?E f" if m: "m \<in> set cycles" "f |\<in>| m" for m f
  proof -
    have "fset m \<in> mates ?E ` {f. (f, f) \<in> ?E\<^sup>+}" using m(1) c(2) by blast
    then obtain h where h: "fset m = mates ?E h" by blast
    then have "f \<in> mates ?E h" using m(2) by simp
    from mates_eq [OF this] show ?thesis using h by simp
  qed
  have get: "if (f, f) \<in> ?E\<^sup>+
      then \<exists>m. bt_get (foldl fail_members F0 cycles) f = Some (FailCycle m) \<and> fset m = mates ?E f
      else bt_get (foldl fail_members F0 cycles) f = bt_get F0 f" for f
  proof (cases "(f, f) \<in> ?E\<^sup>+")
    case True
    then have "mates ?E f \<in> fset ` set cycles" using c(2) by blast
    then obtain m0 where m0: "m0 \<in> set cycles" "fset m0 = mates ?E f" by auto
    have f: "f |\<in>| m0" using m0(2) True by (simp add: mates_def)
    have "m = m0" if "m \<in> set cycles" "f |\<in>| m" for m
      using member [OF that] m0(2) by (intro fset_cong [THEN iffD1]) simp
    from fail_cycles_get [of cycles f m0 F0, OF this]
    have "bt_get (foldl fail_members F0 cycles) f =
        (if \<exists>m\<in>set cycles. f |\<in>| m then Some (FailCycle m0) else bt_get F0 f)" .
    moreover have "\<exists>m\<in>set cycles. f |\<in>| m" using m0(1) f by blast
    ultimately show ?thesis using m0(2) True by simp
  next
    case False
    have none: "\<not> f |\<in>| m" if "m \<in> set cycles" for m
    proof
      assume "f |\<in>| m"
      then have "f \<in> mates ?E f" using member [OF that] by simp
      then show False using False by (simp add: mates_def)
    qed
    then have "bt_get (foldl fail_members F0 cycles) f =
        (if \<exists>m\<in>set cycles. f |\<in>| m then Some (FailCycle undefined) else bt_get F0 f)"
      by (intro fail_cycles_get) blast
    then show ?thesis using none False by simp
  qed
  have "assign_cycle_failures formulas g F0 = Some (foldl fail_members F0 cycles)"
    by (simp add: assign_cycle_failures_def c(1))
  then show thesis by (rule that) (rule get)
qed

section \<open>A calculation over a set of nodes\<close>

text \<open>
  The code calculates all nodes, or after an edit the dirty ones over what it has kept of the
  others.  \<open>N\<close> are the calculated nodes; \<open>F0\<close> and \<open>V0\<close> hold what is kept.
\<close>

definition nodes_in :: "document \<Rightarrow> field_ref set \<Rightarrow> value_nodes \<Rightarrow> formula_nodes \<Rightarrow> bool" where
  "nodes_in d N nodes formulas \<longleftrightarrow>
     (\<forall>f. bt_get nodes f = (if f \<in> N then calculation_value d f else None)) \<and>
     (\<forall>f. bt_get formulas f = (if f \<in> N then formula_at d f else None))"

definition extended :: "('k::linorder, 'v) btree \<Rightarrow> ('k, 'v) btree \<Rightarrow> ('k, 'v) btree \<Rightarrow> bool" where
  "extended m n r \<longleftrightarrow>
     (\<forall>k. bt_get r k = (case bt_get n k of Some v \<Rightarrow> Some v | None \<Rightarrow> bt_get m k))"

definition within :: "document \<Rightarrow> field_ref set \<Rightarrow> (field_ref \<times> field_ref) set" where
  "within d N = awaits d \<inter> N \<times> N"

lemma initial_values_get:
  "bt_get (initial_values nodes F) f =
     (case bt_get nodes f of
        Some (VNumber n) \<Rightarrow> if bt_get F f = None then Some n else None | _ \<Rightarrow> None)"
proof (cases "bt_get nodes f")
  case (Some v)
  then show ?thesis by (cases v) (simp_all add: initial_values_def)
qed (simp add: initial_values_def)

lemma node_pass:
  assumes ids: "store_ids_ok d" and g: "graph_of d g" and tables: "tables_ok d"
    and N: "nodes_in d N nodes formulas"
    and kept: "\<And>f. f \<in> N \<Longrightarrow> bt_get F0 f = None \<and> bt_get V0 f = None"
    and Fp: "extended F0 (pregraph_failures d nodes formulas) Fp"
  obtains F1 where "assign_cycle_failures formulas g Fp = Some F1"
    "\<And>V1. extended V0 (initial_values nodes F1) V1 \<Longrightarrow>
       \<exists>F V. evaluate_remaining_formulas lower d formulas g F1 V1 = Some (F, V) \<and>
         (\<forall>f. f \<notin> N \<longrightarrow> bt_get F f = bt_get F0 f \<and> bt_get V f = bt_get V0 f) \<and>
         (\<forall>f\<in>N. node_solved lower d (within d N) F V f)"
proof -
  let ?E = "within d N"
  have nodes: "bt_get nodes f = (if f \<in> N then calculation_value d f else None)"
    and formulas: "bt_get formulas f = (if f \<in> N then formula_at d f else None)" for f
    using N by (simp_all add: nodes_in_def)
  have "bt_get formulas f = Option.bind (bt_get nodes f) formula_of" for f
    by (simp add: nodes formulas formula_at_def)
  note pre = pregraph_failures_get [OF this]
  have fp: "bt_get Fp f = (if f \<in> N then Option.bind (calculation_value d f) (pre_failure d f) else bt_get F0 f)" for f
    using Fp kept [of f] by (auto simp: extended_def pre nodes split: option.split)
  let ?R = "eligible_formulas formulas Fp"
  have R: "f |\<in>| ?R \<longleftrightarrow> f \<in> N \<and> eligible d f" for f
  proof -
    have "f |\<in>| ?R \<longleftrightarrow> bt_get formulas f \<noteq> None \<and> bt_get Fp f = None"
      by (auto simp: eligible_formulas_def fset_of_list.rep_eq set_bt_keys)
    also have "\<dots> \<longleftrightarrow> f \<in> N \<and> eligible d f"
    proof (cases "formula_at d f")
      case None
      then show ?thesis by (simp add: formulas eligible_def)
    next
      case (Some e)
      then have "calculation_value d f = Some (VFormula e)" by (simp add: formula_at_value)
      with Some show ?thesis by (simp add: formulas fp eligible_def)
    qed
    finally show ?thesis .
  qed
  have "fset ?R \<subseteq> Collect (eligible d)" using R by blast
  from reads_within_awaits [OF g this] have E: "reads_within ?R g = ?E"
    using R by (auto simp: within_def awaits_def)
  obtain F1 where F1: "assign_cycle_failures formulas g Fp = Some F1"
    and cyc: "\<And>f. if (f, f) \<in> ?E\<^sup>+ then \<exists>m. bt_get F1 f = Some (FailCycle m) \<and> fset m = mates ?E f
       else bt_get F1 f = bt_get Fp f"
    using cycle_failures_get [of formulas g Fp] unfolding E by blast
  have on_cycle: "f \<in> N \<and> eligible d f" if "(f, f) \<in> ?E\<^sup>+" for f
    using tranclD [OF that] by (auto simp: within_def awaits_def)
  let ?R1 = "eligible_formulas formulas F1"
  have R1: "f |\<in>| ?R1 \<longleftrightarrow> f \<in> N \<and> eligible d f \<and> (f, f) \<notin> ?E\<^sup>+" for f
  proof -
    have "f |\<in>| ?R1 \<longleftrightarrow> bt_get formulas f \<noteq> None \<and> bt_get F1 f = None"
      by (auto simp: eligible_formulas_def fset_of_list.rep_eq set_bt_keys)
    also have "\<dots> \<longleftrightarrow> f |\<in>| ?R \<and> (f, f) \<notin> ?E\<^sup>+"
      using cyc [of f] by (auto simp: eligible_formulas_def fset_of_list.rep_eq set_bt_keys split: if_splits)
    finally show ?thesis by (simp add: R)
  qed
  have "\<exists>F V. evaluate_remaining_formulas lower d formulas g F1 V1 = Some (F, V) \<and>
         (\<forall>f. f \<notin> N \<longrightarrow> bt_get F f = bt_get F0 f \<and> bt_get V f = bt_get V0 f) \<and>
         (\<forall>f\<in>N. node_solved lower d ?E F V f)"
    if V1: "extended V0 (initial_values nodes F1) V1" for V1
  proof -
    have v1: "bt_get V1 f = (if f \<in> N then (case calculation_value d f of
          Some (VNumber n) \<Rightarrow> if bt_get F1 f = None then Some n else None | _ \<Rightarrow> None) else bt_get V0 f)" for f
      using V1 kept [of f] by (auto simp: extended_def initial_values_get nodes split: option.split val.split)
    have "pass_input d formulas g (fset ?R1) F1 V1"
      unfolding pass_input_def
    proof (intro conjI ballI ids g)
      fix f
      assume "f \<in> fset ?R1"
      then have f: "f \<in> N" "eligible d f" "(f, f) \<notin> ?E\<^sup>+" using R1 by blast+
      then obtain e where e: "formula_at d f = Some e" by (auto simp: eligible_def split: option.splits)
      then have v: "calculation_value d f = Some (VFormula e)" by (simp add: formula_at_value)
      show "bt_get F1 f = None" using cyc [of f] f fp [of f] e v by (simp add: eligible_def)
      show "bt_get V1 f = None" using f v by (simp add: v1)
      show "\<exists>e. bt_get formulas f = Some e \<and> formula_at d f = Some e \<and> one_table e"
        using e f tables_okD [OF tables e] by (simp add: formulas)
    qed
    moreover have "acyclic (reads_within ?R1 g)"
    proof -
      have "fset ?R1 \<subseteq> Collect (eligible d)" using R1 by blast
      from reads_within_awaits [OF g this] have sub: "reads_within ?R1 g \<subseteq> ?E"
        using R1 by (auto simp: within_def)
      show ?thesis
        unfolding acyclic_def
      proof (intro allI notI)
        fix f
        assume f: "(f, f) \<in> (reads_within ?R1 g)\<^sup>+"
        then have "(f, f) \<in> ?E\<^sup>+" by (rule trancl_mono [OF _ sub])
        moreover have "f |\<in>| ?R1" using tranclD [OF f] by (auto simp: reads_within_def)
        ultimately show False using R1 by blast
      qed
    qed
    ultimately obtain F V where run: "evaluate_remaining_formulas lower d formulas g F1 V1 = Some (F, V)"
      and out: "\<And>f. f |\<notin>| ?R1 \<Longrightarrow> bt_get F f = bt_get F1 f \<and> bt_get V f = bt_get V1 f"
      and solved: "\<And>f e. f |\<in>| ?R1 \<Longrightarrow> bt_get formulas f = Some e \<Longrightarrow> solved_at lower d F V f e"
      by (rule evaluate_remaining_solves [of d formulas g F1 V1 lower]) (rule that, assumption+)
    have "bt_get F f = bt_get F0 f \<and> bt_get V f = bt_get V0 f" if "f \<notin> N" for f
    proof -
      have "(f, f) \<notin> ?E\<^sup>+" using on_cycle that by blast
      then have "bt_get F1 f = bt_get F0 f" using cyc [of f] fp [of f] that by simp
      moreover have "f |\<notin>| ?R1" using R1 that by blast
      ultimately show ?thesis using out [of f] v1 [of f] that by simp
    qed
    moreover have "node_solved lower d ?E F V f" if f: "f \<in> N" for f
    proof (cases "f |\<in>| ?R1")
      case True
      then have "eligible d f" "(f, f) \<notin> ?E\<^sup>+" using R1 by blast+
      moreover then obtain e where e: "formula_at d f = Some e" by (auto simp: eligible_def split: option.splits)
      moreover have "solved_at lower d F V f e" using solved [OF True] e f by (simp add: formulas)
      ultimately show ?thesis by (simp add: node_solved_def formula_at_value eligible_def)
    next
      case False
      note o = out [OF False]
      show ?thesis
      proof (cases "(f, f) \<in> ?E\<^sup>+")
        case True
        then obtain m where m: "bt_get F1 f = Some (FailCycle m)" "fset m = mates ?E f" using cyc [of f] by auto
        obtain e where e: "formula_at d f = Some e" "pre_failure d f (VFormula e) = None"
          using on_cycle [OF True] by (auto simp: eligible_def split: option.splits)
        then show ?thesis
          using o m True f v1 [of f] by (simp add: node_solved_def formula_at_value)
      next
        case no: False
        then have F1f: "bt_get F1 f = Option.bind (calculation_value d f) (pre_failure d f)"
          using cyc [of f] fp [of f] f by simp
        show ?thesis
        proof (cases "calculation_value d f")
          case None
          then show ?thesis using o F1f v1 [of f] f by (simp add: node_solved_def)
        next
          case (Some v)
          then consider n where "v = VNumber n" | e where "v = VFormula e" "formula_at d f = Some e"
            using calculation_value_cases by blast
          then show ?thesis
          proof cases
            case 1
            then show ?thesis
              using o F1f v1 [of f] f Some by (cases "pre_failure d f v") (simp_all add: node_solved_def)
          next
            case 2
            then have "pre_failure d f v \<noteq> None"
              using False no f R1 by (auto simp: eligible_def)
            then show ?thesis
              using o F1f v1 [of f] f Some 2 by (auto simp: node_solved_def)
          qed
        qed
      qed
    qed
    ultimately show ?thesis using run by blast
  qed
  with F1 show thesis by (rule that)
qed

section \<open>The equations have one solution\<close>

lemma finite_eligible: "finite (Collect (eligible d))"
proof -
  obtain nodes formulas g where c: "collect_calculation_nodes d = (nodes, formulas, g)" by (metis prod_cases3)
  have "Collect (eligible d) \<subseteq> set (bt_keys formulas)"
    using collect_calculation_nodes_get(2) [OF c] by (auto simp: eligible_def set_bt_keys split: option.splits)
  then show ?thesis by (rule finite_subset) simp
qed

lemma dependency_cases:
  "x |\<in>| extract_dependencies d f e \<longleftrightarrow>
     x \<in> refs_of f e \<or> (\<exists>c\<in>columns_of e. x |\<in>| column_slots_in d c)"
  unfolding fset_extract_dependencies fset_direct_references
  by (simp add: fset_extract_column_totals [symmetric] extract_column_totals_def fset_of_list.rep_eq)

lemma agrees_dependencies:
  assumes ids: "store_ids_ok d" and e: "one_table e"
    and same: "\<And>x. x |\<in>| extract_dependencies d f e \<Longrightarrow> bt_get F x = bt_get F' x \<and> bt_get V x = bt_get V' x"
  shows "agrees (owned lower d f V) F (owned lower d f V') F' e"
proof -
  have "env_agrees (owned lower d f V) (owned lower d f V')"
    using store_entities_keyed [OF ids] by (simp add: env_agrees_def)
  moreover have "\<forall>r\<in>refs_of f e. reference_agrees (owned lower d f V) F (owned lower d f V') F' r"
    using same unfolding dependency_cases by (simp add: reference_agrees_def)
  moreover have "\<forall>c\<in>columns_of e. column_agrees (owned lower d f V) F (owned lower d f V') F' c"
  proof
    fix c
    assume c: "c \<in> columns_of e"
    have "x |\<in>| extract_dependencies d f e" if "x \<in> set (column_cells d c)" for x
      unfolding dependency_cases using c column_cells_slots that by blast
    then show "column_agrees (owned lower d f V) F (owned lower d f V') F' c"
      using same by (simp add: column_agrees_def cell_agrees_def list_all_iff)
  qed
  ultimately show ?thesis using e by (simp add: agrees_def)
qed

lemma solution_unique:
  assumes ids: "store_ids_ok d" and tables: "tables_ok d"
    and S: "solves lower d F V" and S': "solves lower d F' V'"
  shows "F = F' \<and> V = V'"
proof -
  let ?same = "\<lambda>f. bt_get F f = bt_get F' f \<and> bt_get V f = bt_get V' f"
  let ?open = "{f. eligible d f \<and> (f, f) \<notin> (awaits d)\<^sup>+}"
  have at: "node_solved lower d (awaits d) F V f" "node_solved lower d (awaits d) F' V' f" for f
    using S S' unfolding solves_def by blast+
  have closed: "?same f" if f: "f \<notin> ?open" for f
  proof (cases "calculation_value d f")
    case None
    then show ?thesis using at [of f] by (simp add: node_solved_def)
  next
    case (Some v)
    show ?thesis
    proof (cases "pre_failure d f v")
      case pre: None
      consider n where "v = VNumber n" | e where "v = VFormula e" "formula_at d f = Some e"
        using calculation_value_cases [OF Some] by blast
      then show ?thesis
      proof cases
        case 1
        then show ?thesis using at [of f] Some pre by (simp add: node_solved_def)
      next
        case 2
        then have cycle: "(f, f) \<in> (awaits d)\<^sup>+" using f pre by (simp add: eligible_def)
        obtain m where m: "bt_get F f = Some (FailCycle m)" "fset m = mates (awaits d) f" "bt_get V f = None"
          using at(1) [of f] Some pre 2 cycle by (auto simp: node_solved_def)
        obtain m' where m': "bt_get F' f = Some (FailCycle m')" "fset m' = mates (awaits d) f" "bt_get V' f = None"
          using at(2) [of f] Some pre 2 cycle by (auto simp: node_solved_def)
        have "m = m'" using m(2) m'(2) by (intro fset_cong [THEN iffD1]) simp
        then show ?thesis using m m' by simp
      qed
    qed (use at [of f] Some in \<open>simp add: node_solved_def\<close>)
  qed
  let ?r = "awaits d \<inter> ?open \<times> ?open"
  have "acyclic ?r"
  proof (unfold acyclic_def, intro allI notI)
    fix f
    assume f: "(f, f) \<in> ?r\<^sup>+"
    then have "(f, f) \<in> (awaits d)\<^sup>+" by (rule trancl_mono) blast
    moreover have "f \<in> ?open" using tranclD [OF f] by blast
    ultimately show False by blast
  qed
  moreover have "finite ?r"
    by (rule finite_subset [of _ "Collect (eligible d) \<times> Collect (eligible d)"]) (auto simp: finite_eligible)
  ultimately have wf: "wf (?r\<inverse>)" by (intro finite_acyclic_wf_converse)
  have "?same f" for f
  proof (induction f rule: wf_induct_rule [OF wf])
    case (1 f)
    show ?case
    proof (cases "f \<in> ?open")
      case True
      then obtain e where e: "formula_at d f = Some e" "pre_failure d f (VFormula e) = None"
        by (auto simp: eligible_def split: option.splits)
      have "?same x" if x: "x |\<in>| extract_dependencies d f e" for x
      proof (cases "x \<in> ?open")
        case open_x: True
        then have "(f, x) \<in> ?r" using True x e(1) by (auto simp: awaits_def)
        then show ?thesis using 1 by blast
      next
        case False
        then show ?thesis by (rule closed)
      qed
      then have "agrees (owned lower d f V) F (owned lower d f V') F' e"
        by (intro agrees_dependencies [OF ids tables_okD [OF tables e(1)]])
      from formula_outcome_agrees [OF this]
      have o: "formula_outcome (owned lower d f V) F e = formula_outcome (owned lower d f V') F' e" .
      have "solved_at lower d F V f e" "solved_at lower d F' V' f e"
        using at [of f] True e by (simp_all add: node_solved_def formula_at_value)
      then show ?thesis unfolding solved_at_def o by (simp split: sum.splits)
    next
      case False
      then show ?thesis by (rule closed)
    qed
  qed
  then show ?thesis by (intro conjI btree_eqI) simp_all
qed

lemma full_calculation_solves:
  assumes ids: "store_ids_ok d" and tables: "tables_ok d"
  obtains parts where "full_calculation_parts lower d = Some parts"
    "cp_graph parts = document_graph d" "fset (cp_nodes parts) = {f. calculation_value d f \<noteq> None}"
    "solves lower d (cp_failures parts) (cp_values parts)"
proof -
  obtain nodes formulas g where c: "collect_calculation_nodes d = (nodes, formulas, g)" by (metis prod_cases3)
  note get = collect_calculation_nodes_get [OF c]
  have g: "graph_of d g" using document_graph_of [of d] by (simp add: document_graph_def c)
  have N: "nodes_in d UNIV nodes formulas" by (simp add: nodes_in_def get)
  let ?Fp = "pregraph_failures d nodes formulas"
  have "extended bt_empty ?Fp ?Fp" by (simp add: extended_def split: option.split)
  then obtain F1 where F1: "assign_cycle_failures formulas g ?Fp = Some F1"
    and run: "\<And>V1. extended bt_empty (initial_values nodes F1) V1 \<Longrightarrow>
       \<exists>F V. evaluate_remaining_formulas lower d formulas g F1 V1 = Some (F, V) \<and>
         (\<forall>f. f \<notin> UNIV \<longrightarrow> bt_get F f = bt_get bt_empty f \<and> bt_get V f = bt_get bt_empty f) \<and>
         (\<forall>f\<in>UNIV. node_solved lower d (within d UNIV) F V f)"
    using node_pass [OF ids g tables N, of bt_empty bt_empty ?Fp lower] by (metis bt_get_empty)
  have "extended bt_empty (initial_values nodes F1) (initial_values nodes F1)"
    by (simp add: extended_def split: option.split)
  from run [OF this] obtain F V where FV:
    "evaluate_remaining_formulas lower d formulas g F1 (initial_values nodes F1) = Some (F, V)"
    "\<And>f. node_solved lower d (within d UNIV) F V f"
    by blast
  have "fset (fset_of_list (bt_keys nodes)) = {f. calculation_value d f \<noteq> None}"
    by (auto simp: fset_of_list.rep_eq set_bt_keys get(1))
  moreover have "solves lower d F V" using FV(2) by (simp add: solves_def within_def)
  moreover have "document_graph d = g" by (simp add: document_graph_def c)
  ultimately show thesis
    using that [of "\<lparr>cp_nodes = fset_of_list (bt_keys nodes), cp_values = V, cp_failures = F, cp_graph = g\<rparr>"]
    by (simp add: full_calculation_parts_def c F1 FV(1))
qed

section \<open>The size of a formula\<close>

lemma structure_loop_Inr:
  "nodes \<le> max_expression_nodes \<Longrightarrow>
   structure_loop stack nodes = Inr u \<longleftrightarrow>
     (\<forall>(n, depth)\<in>set stack. depth + node_depth n \<le> max_expression_depth + 1) \<and>
     nodes + forest_count (map fst stack) \<le> max_expression_nodes"
proof (induction stack nodes rule: structure_loop.induct)
  case (1 nodes)
  then show ?case by (simp add: structure_loop.simps)
next
  case (2 node depth stack nodes)
  let ?kids = "map (\<lambda>c. (c, depth + 1)) (children node)"
  let ?total = "nodes + forest_count (map fst ((node, depth) # stack))"
  have count: "nodes + 1 + forest_count (map fst (?kids @ stack)) = ?total"
    by (simp add: node_count_children comp_def)
  note step = node_depth_step [of depth node max_expression_depth]
  show ?case
  proof (cases "depth \<le> max_expression_depth \<and> nodes + 1 \<le> max_expression_nodes")
    case True
    then have run: "structure_loop ((node, depth) # stack) nodes = structure_loop (?kids @ stack) (nodes + 1)"
      by (simp add: structure_loop.simps(2))
    have IH: "structure_loop (?kids @ stack) (nodes + 1) = Inr u \<longleftrightarrow>
        (\<forall>(n, k)\<in>set (?kids @ stack). k + node_depth n \<le> max_expression_depth + 1) \<and>
        nodes + 1 + forest_count (map fst (?kids @ stack)) \<le> max_expression_nodes"
      by (rule "2.IH") (use True in auto)
    have "(\<forall>(n, k)\<in>set (?kids @ stack). P n k) \<longleftrightarrow>
        (\<forall>c\<in>set (children node). P c (depth + 1)) \<and> (\<forall>(n, k)\<in>set stack. P n k)" for P
      by auto
    then have "(\<forall>(n, k)\<in>set (?kids @ stack). k + node_depth n \<le> max_expression_depth + 1) \<longleftrightarrow>
        (\<forall>(n, k)\<in>set ((node, depth) # stack). k + node_depth n \<le> max_expression_depth + 1)"
      using step True by simp
    then show ?thesis unfolding run IH count by blast
  next
    case False
    then have "structure_loop ((node, depth) # stack) nodes \<noteq> Inr u"
      by (auto simp: structure_loop.simps(2))
    moreover have "\<not> (depth + node_depth node \<le> max_expression_depth + 1 \<and> ?total \<le> max_expression_nodes)"
      using False step count by linarith
    ultimately show ?thesis by auto
  qed
qed

section \<open>Properties\<close>

text \<open>C18. A formula passes the structure check exactly when it has at most 64 levels and 256
  nodes.\<close>

theorem structure_check_bounds:
  "validate_expression_structure e = Inr () \<longleftrightarrow>
     node_depth e \<le> max_expression_depth \<and> node_count e \<le> max_expression_nodes"
  using structure_loop_Inr [of 0 "[(e, 1)]" "()"]
  by (simp add: validate_expression_structure_def max_expression_nodes_def)

text \<open>C1. The calculation of a document with consistent ids, whose conditional aggregates read one
  table each, ends without a panic, and its failures and values are the one solution of the
  equations of the document: every number that passes the checks keeps its value, every node that
  fails a check has that failure, every formula on a cycle has the complete cycle, and every other
  formula has the value or the failure its expression has over the solution itself.\<close>

theorem full_calculation_exact:
  assumes "store_ids_ok d" "tables_ok d"
  shows "\<exists>parts. full_calculation_parts lower d = Some parts \<and> cp_graph parts = document_graph d \<and>
    fset (cp_nodes parts) = {f. calculation_value d f \<noteq> None} \<and>
    (\<forall>F V. solves lower d F V \<longleftrightarrow> F = cp_failures parts \<and> V = cp_values parts)"
proof -
  obtain parts where p: "full_calculation_parts lower d = Some parts"
    "cp_graph parts = document_graph d" "fset (cp_nodes parts) = {f. calculation_value d f \<noteq> None}"
    "solves lower d (cp_failures parts) (cp_values parts)"
    using full_calculation_solves [OF assms] by blast
  have "solves lower d F V \<longleftrightarrow> F = cp_failures parts \<and> V = cp_values parts" for F V
    using solution_unique [OF assms _ p(4)] p(4) by blast
  then show ?thesis using p(1-3) by blast
qed

lemma node_solved_once:
  "node_solved lower d E F V f \<Longrightarrow>
   (calculation_value d f = None) = (bt_get F f = None \<and> bt_get V f = None) \<and>
   (bt_get F f = None \<or> bt_get V f = None)"
  by (auto simp: node_solved_def solved_at_def split: option.splits val.splits if_splits sum.splits)

text \<open>C4. A calculation always answers, and atomically.  A complete outcome has a value for every
  number and formula of the document and for nothing else; a failed outcome has at least one
  failure, and only numbers and formulas fail.\<close>

theorem calculation_is_atomic:
  assumes "store_ids_ok d" "tables_ok d"
  shows "\<exists>outcome. calculate_complete lower d = Some outcome \<and>
    (case outcome of
       CalculationComplete V g \<Rightarrow> g = document_graph d \<and>
         (\<forall>f. (bt_get V f = None) = (calculation_value d f = None))
     | CalculationFailed F g \<Rightarrow> g = document_graph d \<and> F \<noteq> bt_empty \<and>
         list_all (\<lambda>f. calculation_value d f \<noteq> None) (bt_keys F))"
proof -
  obtain parts where p: "full_calculation_parts lower d = Some parts"
    "cp_graph parts = document_graph d" "solves lower d (cp_failures parts) (cp_values parts)"
    using full_calculation_solves [OF assms] by blast
  have once: "(calculation_value d f = None) =
      (bt_get (cp_failures parts) f = None \<and> bt_get (cp_values parts) f = None)" for f
    using p(3) node_solved_once unfolding solves_def by blast
  then have "list_all (\<lambda>f. calculation_value d f \<noteq> None) (bt_keys (cp_failures parts))"
    by (simp add: list_all_iff set_bt_keys)
  moreover have "(bt_get (cp_values parts) f = None) = (calculation_value d f = None)"
    if "cp_failures parts = bt_empty" for f
    using once [of f] that by simp
  ultimately show ?thesis using p(1,2) by (simp add: calculate_complete_def)
qed

definition sheet_number :: "field_id \<Rightarrow> field_definition" where
  "sheet_number i =
     \<lparr>fd_id = i, fd_key = i, fd_display_name = None, fd_type = TNumber, fd_required = False,
      fd_constraint = ConstraintNone, fd_number_format = None\<rparr>"

definition sheet_schema :: schema where
  "sheet_schema =
     \<lparr>sch_id = ''t'', sch_key = ''t'', sch_display_name = None,
      sch_fields = bt_insert ''sum'' (sheet_number ''sum'') (bt_insert ''a'' (sheet_number ''a'') bt_empty),
      sch_field_order = None\<rparr>"

definition sample_sheet :: document where
  "sample_sheet = sample_after\<lparr>doc_schemas := bt_insert ''t'' sheet_schema bt_empty\<rparr>"

lemma sample_sheet_ok: "store_ids_ok sample_sheet" "tables_ok sample_sheet"
proof -
  show "store_ids_ok sample_sheet"
    by (simp add: store_ids_ok_def sample_sheet_def sheet_schema_def sheet_number_def sample_after_def
        sample_before_def sample_new_row_def sample_total_row_def document_empty_def bt_eval)
  have "bt_entries (doc_entities sample_sheet) = [(''p'', sample_total_row), (''q'', sample_new_row)]"
    by (simp add: sample_sheet_def sample_after_def sample_before_def document_empty_def bt_eval)
  moreover have "bt_entries (ent_fields sample_total_row) =
      [(''a'', VNumber (Number f64_zero)), (''sum'', VFormula (EColumnTotal (ColumnRef ''t'' ''a'')))]"
    by (simp add: sample_total_row_def bt_eval)
  moreover have "bt_entries (ent_fields sample_new_row) = [(''a'', VNumber (Number f64_zero))]"
    by (simp add: sample_new_row_def bt_eval)
  moreover have "one_table (EColumnTotal c)" for c
    by (simp add: one_table_def preorder.simps)
  ultimately show "tables_ok sample_sheet"
    by (simp add: tables_ok_def collect_calculation_nodes_def collect_value_def is_calculation_def
        bt_values_def bt_entries_eval)
qed

lemma full_calculation_exact_witness:
  "\<exists>parts. full_calculation_parts ascii_lower sample_sheet = Some parts \<and>
     cp_graph parts = document_graph sample_sheet \<and>
     fset (cp_nodes parts) = {f. calculation_value sample_sheet f \<noteq> None} \<and>
     (\<forall>F V. solves ascii_lower sample_sheet F V \<longleftrightarrow> F = cp_failures parts \<and> V = cp_values parts)"
  by (rule full_calculation_exact [OF sample_sheet_ok])

lemma calculation_is_atomic_witness:
  "\<exists>outcome. calculate_complete ascii_lower sample_sheet = Some outcome \<and>
    (case outcome of
       CalculationComplete V g \<Rightarrow> g = document_graph sample_sheet \<and>
         (\<forall>f. (bt_get V f = None) = (calculation_value sample_sheet f = None))
     | CalculationFailed F g \<Rightarrow> g = document_graph sample_sheet \<and> F \<noteq> bt_empty \<and>
         list_all (\<lambda>f. calculation_value sample_sheet f \<noteq> None) (bt_keys F))"
  by (rule calculation_is_atomic [OF sample_sheet_ok])

end
