(* ===== verification/Retained.thy ===== *)
theory Retained
  imports Outcomes
begin

text \<open>
  The retained calculation state of \<open>formula-engine/src/lib.rs\<close>: rebuilt from a document, and
  updated after an edit by recalculating the dirty nodes only.  An update ends in the state a
  rebuild of the edited document gives.  \<open>None\<close> is a panic.
\<close>

section \<open>The state and its work\<close>

record retained_state =
  rs_nodes :: "field_ref fset"
  rs_values :: value_map
  rs_failures :: failure_map
  rs_graph :: dependency_graph

record calculation_work =
  cw_full_rebuilds :: nat
  cw_incremental_updates :: nat
  cw_nodes_recomputed :: nat
  cw_nodes_reused :: nat
  cw_reverse_edges :: nat

definition work_default :: calculation_work where
  "work_default = \<lparr>cw_full_rebuilds = 0, cw_incremental_updates = 0, cw_nodes_recomputed = 0,
     cw_nodes_reused = 0, cw_reverse_edges = 0\<rparr>"

record calculation_transition =
  ct_work :: calculation_work
  ct_affected :: "field_ref list"
  ct_changed_projections :: "field_ref list"

datatype retained_projection =
    ProjectionValue number
  | ProjectionFailure calculation_failure
  | ProjectionUnavailable

definition is_failed :: "retained_state \<Rightarrow> bool" where
  "is_failed st \<longleftrightarrow> rs_failures st \<noteq> bt_empty"

definition retained_value :: "retained_state \<Rightarrow> field_ref \<Rightarrow> number option" where
  "retained_value st f = (if rs_failures st = bt_empty then bt_get (rs_values st) f else None)"

definition retained_complete_values :: "retained_state \<Rightarrow> value_map option" where
  "retained_complete_values st = (if rs_failures st = bt_empty then Some (rs_values st) else None)"

definition retained_outcome :: "retained_state \<Rightarrow> calculation_outcome" where
  "retained_outcome st =
     (if rs_failures st = bt_empty then CalculationComplete (rs_values st) (rs_graph st)
      else CalculationFailed (rs_failures st) (rs_graph st))"

definition node_projection :: "retained_state \<Rightarrow> field_ref \<Rightarrow> retained_projection" where
  "node_projection st f =
     (if is_failed st
      then case bt_get (rs_failures st) f of
        None \<Rightarrow> ProjectionUnavailable | Some x \<Rightarrow> ProjectionFailure x
      else case bt_get (rs_values st) f of
        None \<Rightarrow> ProjectionUnavailable | Some v \<Rightarrow> ProjectionValue v)"

definition retained_rebuild ::
    "(nat \<Rightarrow> nat list) \<Rightarrow> document \<Rightarrow> (retained_state \<times> calculation_work) option" where
  "retained_rebuild lower d =
     map_option (\<lambda>parts.
       (\<lparr>rs_nodes = cp_nodes parts, rs_values = cp_values parts, rs_failures = cp_failures parts,
         rs_graph = cp_graph parts\<rparr>,
        work_default\<lparr>cw_full_rebuilds := 1, cw_nodes_recomputed := fcard (cp_nodes parts)\<rparr>))
     (full_calculation_parts lower d)"

section \<open>Recalculating the dirty nodes\<close>

text \<open>\<open>extend\<close>\<close>

definition bt_extend :: "('k::linorder, 'v) btree \<Rightarrow> ('k, 'v) btree \<Rightarrow> ('k, 'v) btree" where
  "bt_extend m n = foldl (\<lambda>m (k, v). bt_insert k v m) m (bt_entries n)"

definition dirty_nodes :: "document \<Rightarrow> field_ref fset \<Rightarrow> value_nodes" where
  "dirty_nodes d dirty =
     foldl (\<lambda>m f. case calculation_value d f of None \<Rightarrow> m | Some v \<Rightarrow> bt_insert f v m)
       bt_empty (sorted_list_of_fset dirty)"

definition dirty_formulas :: "value_nodes \<Rightarrow> formula_nodes" where
  "dirty_formulas nodes = bt_filter_map (\<lambda>f v. formula_of v) nodes"

definition refresh_node :: "document \<Rightarrow> field_ref fset \<Rightarrow> field_ref \<Rightarrow> field_ref fset" where
  "refresh_node d nodes root =
     (if calculation_value d root \<noteq> None then finsert root nodes else nodes |-| {|root|})"

definition recompute_dirty ::
    "(nat \<Rightarrow> nat list) \<Rightarrow> document \<Rightarrow> field_ref fset \<Rightarrow> field_ref fset \<Rightarrow> retained_state
     \<Rightarrow> retained_state option" where
  "recompute_dirty lower d roots dirty st =
     (let nodes = foldl (refresh_node d) (rs_nodes st) (sorted_list_of_fset roots);
          dnodes = dirty_nodes d dirty;
          dformulas = dirty_formulas dnodes;
          failures = bt_remove_all (sorted_list_of_fset dirty) (rs_failures st);
          values_now = bt_remove_all (sorted_list_of_fset dirty) (rs_values st);
          failures = bt_extend failures (pregraph_failures d dnodes dformulas) in
      Option.bind (assign_cycle_failures dformulas (rs_graph st) failures) (\<lambda>failures.
      map_option (\<lambda>(failures, values_now).
          st\<lparr>rs_nodes := nodes, rs_failures := failures, rs_values := values_now\<rparr>)
        (evaluate_remaining_formulas lower d dformulas (rs_graph st) failures
          (bt_extend values_now (initial_values dnodes failures)))))"

definition changed_projections ::
    "retained_state \<Rightarrow> retained_state \<Rightarrow> field_ref fset \<Rightarrow> field_ref list" where
  "changed_projections before after dirty =
     (let formulas = fset_of_list (graph_formulas (rs_graph before)) |\<union>| fset_of_list (graph_formulas (rs_graph after)) in
      if is_failed before = is_failed after
      then filter (\<lambda>f. node_projection before f \<noteq> node_projection after f) (sorted_list_of_fset (formulas |\<inter>| dirty))
      else sorted_list_of_fset formulas)"

definition retained_update ::
    "(nat \<Rightarrow> nat list) \<Rightarrow> document \<Rightarrow> field_ref fset \<Rightarrow> retained_state
     \<Rightarrow> (retained_state \<times> calculation_transition) option" where
  "retained_update lower d roots st =
     (if roots = {||}
      then Some (st, \<lparr>ct_work = work_default\<lparr>cw_incremental_updates := 1, cw_nodes_reused := fcard (rs_nodes st)\<rparr>,
             ct_affected = [], ct_changed_projections = []\<rparr>)
      else let roots = with_column_total_roots d (rs_graph st) roots in
        case update_dependency_impact d roots (rs_graph st) of
          (impact, g) \<Rightarrow>
            map_option (\<lambda>after.
              let recomputed = length (filter (\<lambda>f. f |\<in>| rs_nodes after) (sorted_list_of_fset (di_dirty impact))) in
              (after,
               \<lparr>ct_work = work_default\<lparr>cw_incremental_updates := 1, cw_nodes_recomputed := recomputed,
                  cw_nodes_reused := fcard (rs_nodes after) - recomputed,
                  cw_reverse_edges := di_edges_traversed impact\<rparr>,
                ct_affected = sorted_list_of_fset (di_old_dependents impact |\<union>| di_new_dependents impact),
                ct_changed_projections = changed_projections st after (di_dirty impact)\<rparr>))
            (recompute_dirty lower d roots (di_dirty impact) (st\<lparr>rs_graph := g\<rparr>)))"

section \<open>What an edit may change\<close>

text \<open>
  The roots an edit lists: every slot whose value changed, and of a row that was added, removed
  or moved to another schema at least one slot and every stored cell.  A formula that is not
  listed names no slot of such a row; schemas are as before.
\<close>

definition rows_listed :: "document \<Rightarrow> document \<Rightarrow> field_ref fset \<Rightarrow> bool" where
  "rows_listed d0 d roots \<longleftrightarrow>
     (\<forall>i. schema_at d0 i \<noteq> schema_at d i \<longrightarrow> i \<in> fr_entity ` fset roots \<and>
        (\<forall>x. value_at d0 (FieldRef i x) \<noteq> None \<or> value_at d (FieldRef i x) \<noteq> None \<longrightarrow> FieldRef i x |\<in>| roots))"

definition references_kept :: "document \<Rightarrow> document \<Rightarrow> field_ref fset \<Rightarrow> bool" where
  "references_kept d0 d roots \<longleftrightarrow>
     (\<forall>f e r. formula_at d f = Some e \<longrightarrow> f |\<notin>| roots \<longrightarrow> r \<in> refs_of f e \<longrightarrow>
        schema_at d0 (fr_entity r) = schema_at d (fr_entity r) \<or> r |\<in>| roots)"

definition edit_listed :: "document \<Rightarrow> document \<Rightarrow> field_ref fset \<Rightarrow> bool" where
  "edit_listed d0 d roots \<longleftrightarrow>
     doc_schemas d0 = doc_schemas d \<and> {f. value_at d0 f \<noteq> value_at d f} \<subseteq> fset roots \<and>
     rows_listed d0 d roots \<and> references_kept d0 d roots"

text \<open>What is read of a document, through its values and the schemas of its rows.\<close>

lemma calculation_value_at:
  "calculation_value d f = (case value_at d f of None \<Rightarrow> None | Some v \<Rightarrow> if is_calculation v then Some v else None)"
  by (simp add: calculation_value_def value_at_def split: option.split)

lemma value_at_schema: "value_at d f \<noteq> None \<Longrightarrow> schema_at d (fr_entity f) \<noteq> None"
  by (auto simp: value_at_def schema_at_def bind_eq_Some_conv)

definition structural_at :: "(schema_id, schema) btree \<Rightarrow> schema_id option \<Rightarrow> field_id \<Rightarrow> bool \<Rightarrow> reference_failure option" where
  "structural_at schemas s x numeric =
     (case Option.bind s (\<lambda>s. Option.bind (bt_get schemas s) (\<lambda>s. bt_get (sch_fields s) x)) of
        None \<Rightarrow> Some RefMissing
      | Some f \<Rightarrow> if numeric \<and> fd_type f \<noteq> TNumber then Some RefNonNumeric else None)"

lemma structural_reference_at:
  "structural_reference_failure d r numeric =
     structural_at (doc_schemas d) (schema_at d (fr_entity r)) (fr_field r) numeric"
  by (simp add: structural_reference_failure_def structural_at_def schema_at_def split: option.split)

lemma reference_failure_at:
  "reference_failure d r numeric =
     (case structural_at (doc_schemas d) (schema_at d (fr_entity r)) (fr_field r) numeric of
        Some f \<Rightarrow> Some f
      | None \<Rightarrow>
          if \<not> numeric then None
          else (case Option.bind (schema_at d (fr_entity r)) (\<lambda>s. Option.bind (bt_get (doc_schemas d) s) (\<lambda>s. bt_get (sch_fields s) (fr_field r))) of
             None \<Rightarrow> None
           | Some f \<Rightarrow>
               (case value_at d r of
                  Some v \<Rightarrow> if is_calculation v then None else Some RefNonNumeric
                | None \<Rightarrow> if fd_required f then Some RefMissing else None)))"
  by (cases "bt_get (doc_entities d) (fr_entity r)")
    (simp_all add: reference_failure_def structural_reference_at schema_at_def value_at_def split: option.split)

lemma reference_failure_same:
  assumes "doc_schemas d0 = doc_schemas d" "schema_at d0 (fr_entity r) = schema_at d (fr_entity r)"
    "value_at d0 r = value_at d r"
  shows "reference_failure d0 r numeric = reference_failure d r numeric"
    "structural_reference_failure d0 r numeric = structural_reference_failure d r numeric"
  unfolding reference_failure_at structural_reference_at assms by (rule refl)+

text \<open>A column whose rows have no root reads the same.\<close>

definition rows_same :: "document \<Rightarrow> document \<Rightarrow> schema_id \<Rightarrow> bool" where
  "rows_same d0 d s \<longleftrightarrow>
     (\<forall>i. schema_at d0 i = Some s \<or> schema_at d i = Some s \<longrightarrow>
        schema_at d0 i = schema_at d i \<and> (\<forall>x. value_at d0 (FieldRef i x) = value_at d (FieldRef i x)))"

lemma rows_of_get:
  "bt_get (rows_of d s) i =
     (case bt_get (doc_entities d) i of
        None \<Rightarrow> None | Some e \<Rightarrow> if ent_schema e = s then Some (ent_fields e) else None)"
  by (simp add: rows_of_def split: option.split)

lemma rows_same_of:
  assumes "rows_same d0 d s"
  shows "rows_of d0 s = rows_of d s"
proof (rule btree_eqI)
  fix i
  show "bt_get (rows_of d0 s) i = bt_get (rows_of d s) i"
  proof (cases "schema_at d0 i = Some s \<or> schema_at d i = Some s")
    case True
    then have s: "schema_at d0 i = Some s" "schema_at d i = Some s"
      and v: "\<And>x. value_at d0 (FieldRef i x) = value_at d (FieldRef i x)"
      using assms unfolding rows_same_def by auto
    obtain e0 e where e: "bt_get (doc_entities d0) i = Some e0" "bt_get (doc_entities d) i = Some e"
      "ent_schema e0 = s" "ent_schema e = s"
      using s by (auto simp: schema_at_def)
    have "bt_get (ent_fields e0) x = bt_get (ent_fields e) x" for x
      using v [of x] e by (simp add: value_at_def)
    then have "ent_fields e0 = ent_fields e" by (intro btree_eqI)
    then show ?thesis using e by (simp add: rows_of_get)
  next
    case False
    then show ?thesis by (auto simp: rows_of_get schema_at_def split: option.split)
  qed
qed

lemma rows_same_cells: "rows_same d0 d (cr_schema c) \<Longrightarrow> column_cells d0 c = column_cells d c"
  unfolding column_cells_rows by (simp add: rows_same_of)

lemma in_column_slots_schema:
  "s |\<in>| column_slots_in d c \<longleftrightarrow> fr_field s = cr_field c \<and> schema_at d (fr_entity s) = Some (cr_schema c)"
  by (simp add: in_column_slots schema_at_def)

lemma rows_same_slots: "rows_same d0 d (cr_schema c) \<Longrightarrow> column_slots_in d0 c = column_slots_in d c"
  by (rule fset_cong [THEN iffD1]) (auto simp: in_column_slots_schema rows_same_def)

lemma first_target_same:
  assumes schemas: "doc_schemas d0 = doc_schemas d" and rows: "rows_same d0 d (cr_schema c)"
  shows "first_target d0 (column_cells d0 c) = first_target d (column_cells d c)"
proof -
  have same: "reference_failure d0 r True = reference_failure d r True" if "r \<in> set (column_cells d c)" for r
  proof -
    have "r |\<in>| column_slots_in d c" using that column_cells_slots by blast
    then have "schema_at d (fr_entity r) = Some (cr_schema c)" by (simp add: in_column_slots_schema)
    moreover have "value_at d0 (FieldRef (fr_entity r) (fr_field r)) = value_at d (FieldRef (fr_entity r) (fr_field r))"
      using calculation rows unfolding rows_same_def by blast
    ultimately show ?thesis
      using rows schemas unfolding rows_same_def by (intro reference_failure_same) auto
  qed
  have "first_target d0 rs = first_target d rs" if "set rs \<subseteq> set (column_cells d c)" for rs
    using that by (induction rs) (auto simp: same split: option.split)
  then show ?thesis by (simp add: rows_same_cells [OF rows])
qed

section \<open>What a node sees of an edit\<close>

text \<open>Nothing a node reads has changed.\<close>

definition unseen :: "document \<Rightarrow> document \<Rightarrow> field_ref \<Rightarrow> bool" where
  "unseen d0 d f \<longleftrightarrow>
     schema_at d0 (fr_entity f) = schema_at d (fr_entity f) \<and> value_at d0 f = value_at d f \<and>
     (\<forall>e. formula_at d f = Some e \<longrightarrow>
        (\<forall>r\<in>refs_of f e. schema_at d0 (fr_entity r) = schema_at d (fr_entity r) \<and> value_at d0 r = value_at d r) \<and>
        (\<forall>c\<in>columns_of e. rows_same d0 d (cr_schema c)))"

lemma total_checks_same:
  assumes "doc_schemas d0 = doc_schemas d"
  shows "\<forall>e\<in>set pending. \<forall>c\<in>columns_of e. rows_same d0 d (cr_schema c) \<Longrightarrow>
    total_checks d0 pending = total_checks d pending"
proof (induction pending rule: measure_induct_rule [where f = forest_count])
  case (less pending)
  show ?case
  proof (cases pending)
    case (Cons node rest)
    let ?next = "rev (children node) @ rest"
    have "\<forall>e\<in>set ?next. \<forall>c\<in>columns_of e. rows_same d0 d (cr_schema c)"
      using less.prems Cons columns_of_node [of node] by auto
    moreover have "forest_count ?next < forest_count pending"
      by (simp add: Cons node_count_children forest_count_def rev_map [symmetric])
    ultimately have "total_checks d0 ?next = total_checks d ?next" by (intro less.IH)
    moreover have "first_target d0 (column_cells d0 c) = first_target d (column_cells d c)" if "node = EColumnTotal c" for c
    proof (rule first_target_same [OF assms])
      show "rows_same d0 d (cr_schema c)" using less.prems Cons that columns_of_node [of node] by simp
    qed
    ultimately show ?thesis unfolding Cons total_checks.simps(2) by (cases node) simp_all
  qed (simp add: total_checks.simps)
qed

lemma pre_failure_same:
  assumes schemas: "doc_schemas d0 = doc_schemas d" and u: "unseen d0 d f"
    and v: "calculation_value d f = Some v"
  shows "pre_failure d0 f v = pre_failure d f v"
proof -
  have own: "reference_failure d0 f True = reference_failure d f True"
    using u schemas by (intro reference_failure_same) (simp_all add: unseen_def)
  consider n where "v = VNumber n" | e where "v = VFormula e" "formula_at d f = Some e"
    using calculation_value_cases [OF v] by blast
  then show ?thesis
  proof cases
    case 1
    then show ?thesis by (simp add: pre_failure_def target_failures_def own formula_failure_def formula_of_def)
  next
    case 2
    have refs: "reference_failure d0 r numeric = reference_failure d r numeric"
      "structural_reference_failure d0 r numeric = structural_reference_failure d r numeric"
      if "r \<in> refs_of f e" for r numeric
      using u 2(2) that schemas by (intro reference_failure_same; simp add: unseen_def)+
    have "fst ` set (reference_uses e f) = refs_of f e"
      unfolding reference_uses_in by (rule uses_in_refs)
    then have "reference_checks d0 f e = reference_checks d f e"
      by (force simp: reference_checks_def Let_def refs)
    moreover have "total_checks d0 [e] = total_checks d [e]"
      by (rule total_checks_same [OF schemas]) (use u 2(2) in \<open>simp add: unseen_def\<close>)
    moreover have "column_failures d0 e = column_failures d e"
      by (simp add: column_failures_def column_failure_of_def schemas)
    ultimately show ?thesis
      by (simp add: pre_failure_def target_failures_def own 2(1) formula_failure_def formula_of_def
          column_formula_failure_def)
  qed
qed

lemma dependencies_same:
  assumes "unseen d0 d f" "formula_at d f = Some e"
  shows "extract_dependencies d0 f e = extract_dependencies d f e"
proof (rule fset_cong [THEN iffD1])
  have "column_slots_in d0 c = column_slots_in d c" if "c \<in> columns_of e" for c
    using assms that by (intro rows_same_slots) (simp add: unseen_def)
  then show "fset (extract_dependencies d0 f e) = fset (extract_dependencies d f e)"
    by (auto simp: dependency_cases)
qed

lemma formula_at_same: "value_at d0 f = value_at d f \<Longrightarrow> formula_at d0 f = formula_at d f"
  by (simp add: formula_at_def calculation_value_at)

lemma eligible_same:
  assumes "doc_schemas d0 = doc_schemas d" "unseen d0 d f"
  shows "eligible d0 f = eligible d f"
proof -
  have f: "formula_at d0 f = formula_at d f" using assms(2) by (intro formula_at_same) (simp add: unseen_def)
  show ?thesis
  proof (cases "formula_at d f")
    case (Some e)
    then have "calculation_value d f = Some (VFormula e)" by (simp add: formula_at_value)
    from pre_failure_same [OF assms this] show ?thesis by (simp add: eligible_def f Some)
  qed (simp add: eligible_def f)
qed

text \<open>The formula has the outcome it had.\<close>

lemma outcome_same:
  assumes ids: "store_ids_ok d0" "store_ids_ok d" and schemas: "doc_schemas d0 = doc_schemas d"
    and u: "unseen d0 d f" and e: "formula_at d f = Some e" "one_table e"
    and same: "\<And>x. x |\<in>| extract_dependencies d f e \<Longrightarrow> bt_get F0 x = bt_get F x \<and> bt_get V0 x = bt_get V x"
  shows "formula_outcome (owned lower d0 f V0) F0 e = formula_outcome (owned lower d f V) F e"
proof (rule formula_outcome_agrees)
  have "env_agrees (owned lower d0 f V0) (owned lower d f V)"
    using ids store_entities_keyed schemas by (simp add: env_agrees_def)
  moreover have "\<forall>r\<in>refs_of f e. reference_agrees (owned lower d0 f V0) F0 (owned lower d f V) F r"
    using u e(1) same unfolding dependency_cases by (simp add: reference_agrees_def unseen_def)
  moreover have "\<forall>c\<in>columns_of e. column_agrees (owned lower d0 f V0) F0 (owned lower d f V) F c"
  proof
    fix c
    assume c: "c \<in> columns_of e"
    then have rows: "rows_same d0 d (cr_schema c)" using u e(1) by (simp add: unseen_def)
    have "x |\<in>| extract_dependencies d f e" if "x \<in> set (column_cells d0 c)" for x
      unfolding dependency_cases using c column_cells_slots that rows_same_cells [OF rows] by auto
    then show "column_agrees (owned lower d0 f V0) F0 (owned lower d f V) F c"
      using same rows_same_of [OF rows] by (simp add: column_agrees_def cell_agrees_def list_all_iff)
  qed
  ultimately show "agrees (owned lower d0 f V0) F0 (owned lower d f V) F e"
    using e(2) by (simp add: agrees_def)
qed

section \<open>The dirty nodes\<close>

lemma fset_foldl_union:
  "fset (foldl (\<lambda>R c. if P c then R |\<union>| h c else R) S cs) = fset S \<union> (\<Union>c\<in>{c \<in> set cs. P c}. fset (h c))"
  by (induction cs arbitrary: S) auto

text \<open>The promoted roots: the listed ones and the readers of the columns of their rows.\<close>

lemma in_promoted_roots:
  assumes g0: "graph_of d0 g0"
  shows "f |\<in>| with_column_total_roots d g0 roots \<longleftrightarrow> f |\<in>| roots \<or>
    (\<exists>e c. formula_at d0 f = Some e \<and> c \<in> columns_of e \<and>
       (\<exists>r. r |\<in>| roots \<and> (schema_at d0 (fr_entity r) = Some (cr_schema c) \<or>
          schema_at d (fr_entity r) = Some (cr_schema c))))"
proof -
  have es: "bt_get (dg_entity_schemas g0) i = schema_at d0 i" for i
    using g0 by (simp add: graph_of_def schema_at_def)
  let ?touched = "\<lambda>c. \<exists>r. r |\<in>| roots \<and> (schema_at d0 (fr_entity r) = Some (cr_schema c) \<or>
          schema_at d (fr_entity r) = Some (cr_schema c))"
  have readers: "f |\<in>| set_at (dg_column_readers g0) c \<longleftrightarrow> (\<exists>e. formula_at d0 f = Some e \<and> c \<in> columns_of e)" for c
    unfolding graph_readers(2) [OF g0] set_at_uses [OF g0]
    by (simp add: fset_extract_column_totals split: option.split)
  have tracked: "c \<in> set (tracked_columns g0)" if reader: "f |\<in>| set_at (dg_column_readers g0) c" for c
  proof -
    have inv: "graph_inv exact d0 (formula_uses d0) g0" using g0 by (simp add: graph_of_def)
    obtain e where "formula_at d0 f = Some e" "c |\<in>| extract_column_totals e"
      using reader unfolding readers fset_extract_column_totals [symmetric] by blast
    then have "f \<in> column_readers_of (formula_uses d0) c"
      by (simp add: column_readers_of_def formula_uses_at)
    then have "column_readers_of (formula_uses d0) c \<noteq> {}" by blast
    then show ?thesis using graph_inv_slot_columns(2) [OF inv, of c] by (simp add: tracked_columns_def set_bt_keys)
  qed
  have schemas: "cr_schema c |\<in>| fset_of_list (concat (map (\<lambda>root. schemas_of d (fr_entity root) g0) (sorted_list_of_fset roots)))
      \<longleftrightarrow> ?touched c" for c
    by (auto simp: fset_of_list.rep_eq in_schemas_of es)
  have "f |\<in>| with_column_total_roots d g0 roots \<longleftrightarrow>
      f |\<in>| roots \<or> (\<exists>c\<in>set (tracked_columns g0). ?touched c \<and> f |\<in>| set_at (dg_column_readers g0) c)"
    unfolding with_column_total_roots_def Let_def fset_foldl_union schemas by blast
  also have "\<dots> \<longleftrightarrow> f |\<in>| roots \<or> (\<exists>c. ?touched c \<and> f |\<in>| set_at (dg_column_readers g0) c)"
    using tracked by blast
  finally show ?thesis unfolding readers by blast
qed

lemma dependents_rel_iff:
  "graph_of d g \<Longrightarrow> (x, f) \<in> dependents_rel g \<longleftrightarrow>
     (\<exists>e. formula_at d f = Some e \<and> x |\<in>| extract_dependencies d f e)"
  by (auto simp: dependents_rel_def direct_dependents_graph dependencies_of_graph)

text \<open>Of a formula that is no promoted root only the cells behind its references can change.\<close>

lemma unpromoted:
  assumes g0: "graph_of d0 g0" and listed: "edit_listed d0 d roots"
    and f: "f |\<notin>| with_column_total_roots d g0 roots"
  shows "value_at d0 f = value_at d f" "formula_at d0 f = formula_at d f"
    "formula_at d f = Some e \<Longrightarrow> c \<in> columns_of e \<Longrightarrow> rows_same d0 d (cr_schema c)"
    "formula_at d f = Some e \<Longrightarrow> extract_dependencies d0 f e = extract_dependencies d f e"
proof -
  have notin: "f |\<notin>| roots" using f in_promoted_roots [OF g0] by blast
  show v: "value_at d0 f = value_at d f" using listed notin by (auto simp: edit_listed_def)
  show fo: "formula_at d0 f = formula_at d f" by (rule formula_at_same [OF v])
  show rows: "rows_same d0 d (cr_schema c)" if e: "formula_at d f = Some e" and c: "c \<in> columns_of e" for e c
    unfolding rows_same_def
  proof (intro allI impI)
    fix i
    assume i: "schema_at d0 i = Some (cr_schema c) \<or> schema_at d i = Some (cr_schema c)"
    have none: "r |\<notin>| roots" if "fr_entity r = i" for r
    proof
      assume "r |\<in>| roots"
      then have "f |\<in>| with_column_total_roots d g0 roots"
        unfolding in_promoted_roots [OF g0] using e c fo i that by metis
      with f show False ..
    qed
    then have "i \<notin> fr_entity ` fset roots" by auto
    then have "schema_at d0 i = schema_at d i"
      using listed by (auto simp: edit_listed_def rows_listed_def)
    moreover have "value_at d0 (FieldRef i x) = value_at d (FieldRef i x)" for x
      using none [of "FieldRef i x"] listed by (auto simp: edit_listed_def)
    ultimately show "schema_at d0 i = schema_at d i \<and> (\<forall>x. value_at d0 (FieldRef i x) = value_at d (FieldRef i x))"
      by blast
  qed
  show "extract_dependencies d0 f e = extract_dependencies d f e" if e: "formula_at d f = Some e" for e
  proof (rule fset_cong [THEN iffD1])
    show "fset (extract_dependencies d0 f e) = fset (extract_dependencies d f e)"
      using rows_same_slots [OF rows [OF e]] by (auto simp: dependency_cases)
  qed
qed

definition dirty_after :: "document \<Rightarrow> dependency_graph \<Rightarrow> dependency_graph \<Rightarrow> field_ref fset \<Rightarrow> field_ref set" where
  "dirty_after d g0 g roots =
     (let promoted = fset (with_column_total_roots d g0 roots) in
      promoted \<union> (dependents_rel g0)\<^sup>+ `` promoted \<union> (dependents_rel g)\<^sup>+ `` promoted)"

lemma dirty_closed:
  assumes g0: "graph_of d0 g0" and g: "graph_of d g" and listed: "edit_listed d0 d roots"
    and x: "x \<in> dirty_after d g0 g roots" and e: "formula_at d f = Some e" "x |\<in>| extract_dependencies d f e"
  shows "f \<in> dirty_after d g0 g roots"
proof (cases "f |\<in>| with_column_total_roots d g0 roots")
  case True
  then show ?thesis by (simp add: dirty_after_def Let_def)
next
  case False
  note same = unpromoted [OF g0 listed False]
  have "(x, f) \<in> dependents_rel g" using e by (auto simp: dependents_rel_iff [OF g])
  moreover have "(x, f) \<in> dependents_rel g0"
    using e same(2) same(4) [OF e(1)] by (auto simp: dependents_rel_iff [OF g0])
  ultimately show ?thesis
    using x unfolding dirty_after_def Let_def by (blast intro: trancl_into_trancl)
qed

text \<open>A clean node sees nothing of the edit.\<close>

lemma clean_unseen:
  assumes g0: "graph_of d0 g0" and g: "graph_of d g" and listed: "edit_listed d0 d roots"
    and f: "f \<notin> dirty_after d g0 g roots" and v: "calculation_value d f \<noteq> None"
  shows "unseen d0 d f"
proof -
  have notin: "f |\<notin>| with_column_total_roots d g0 roots" using f by (simp add: dirty_after_def Let_def)
  then have froots: "f |\<notin>| roots" using in_promoted_roots [OF g0] by blast
  note same = unpromoted [OF g0 listed notin]
  have "value_at d f \<noteq> None" using v by (auto simp: calculation_value_at split: option.splits)
  then have "value_at d (FieldRef (fr_entity f) (fr_field f)) \<noteq> None" by simp
  then have schema: "schema_at d0 (fr_entity f) = schema_at d (fr_entity f)"
    using listed froots unfolding edit_listed_def rows_listed_def by (metis field_ref.collapse)
  have refs: "schema_at d0 (fr_entity r) = schema_at d (fr_entity r) \<and> value_at d0 r = value_at d r"
    if e: "formula_at d f = Some e" and r: "r \<in> refs_of f e" for e r
  proof -
    have "r |\<notin>| roots"
    proof
      assume "r |\<in>| roots"
      then have "r \<in> dirty_after d g0 g roots"
        using in_promoted_roots [OF g0] by (simp add: dirty_after_def Let_def)
      moreover have "r |\<in>| extract_dependencies d f e" using r by (simp add: dependency_cases)
      ultimately show False using dirty_closed [OF g0 g listed _ e] f by blast
    qed
    then show ?thesis using listed e r froots unfolding edit_listed_def references_kept_def by blast
  qed
  show ?thesis unfolding unseen_def using schema same(1,3) refs by blast
qed

lemma forward_same:
  assumes same: "\<And>f h. f \<in> C \<Longrightarrow> (f, h) \<in> E \<longleftrightarrow> (f, h) \<in> E0"
    and closed: "\<And>f h. f \<in> C \<Longrightarrow> (f, h) \<in> E \<Longrightarrow> h \<in> C" and f: "f \<in> C"
  shows "(f, h) \<in> E\<^sup>+ \<longleftrightarrow> (f, h) \<in> E0\<^sup>+" "mates E f = mates E0 f"
proof -
  have there: "h \<in> C \<and> (f, h) \<in> E0\<^sup>+" if "(f, h) \<in> E\<^sup>+" "f \<in> C" for f h
    using that(1)
  proof (induction rule: trancl_induct)
    case (base y)
    then show ?case using same closed that(2) by blast
  next
    case (step y z)
    then show ?case using same closed by (blast intro: trancl_into_trancl)
  qed
  have backward: "h \<in> C \<and> (f, h) \<in> E\<^sup>+" if "(f, h) \<in> E0\<^sup>+" "f \<in> C" for f h
    using that(1)
  proof (induction rule: trancl_induct)
    case (base y)
    then show ?case using same closed that(2) by blast
  next
    case (step y z)
    then show ?case using same closed by (blast intro: trancl_into_trancl)
  qed
  show "(f, h) \<in> E\<^sup>+ \<longleftrightarrow> (f, h) \<in> E0\<^sup>+" using there backward f by blast
  show "mates E f = mates E0 f" unfolding mates_def using there backward f by blast
qed

lemma backward_within:
  assumes closed: "\<forall>f h. h \<in> N \<longrightarrow> (f, h) \<in> awaits d \<longrightarrow> f \<in> N"
  shows "(f, h) \<in> (awaits d)\<^sup>+ \<Longrightarrow> h \<in> N \<Longrightarrow> f \<in> N \<and> (f, h) \<in> (within d N)\<^sup>+"
proof (induction rule: converse_trancl_induct)
  case (base y)
  then show ?case using closed by (auto simp: within_def)
next
  case (step y z)
  then have "z \<in> N" "(z, h) \<in> (within d N)\<^sup>+" by blast+
  moreover have "y \<in> N" using closed step(1) \<open>z \<in> N\<close> by blast
  ultimately have "(y, z) \<in> within d N" using step(1) by (simp add: within_def)
  then show ?case using \<open>y \<in> N\<close> \<open>(z, h) \<in> (within d N)\<^sup>+\<close> by (blast intro: trancl_into_trancl2)
qed

lemma within_mates:
  assumes closed: "\<forall>f h. h \<in> N \<longrightarrow> (f, h) \<in> awaits d \<longrightarrow> f \<in> N" and f: "f \<in> N"
  shows "(f, f) \<in> (within d N)\<^sup>+ \<longleftrightarrow> (f, f) \<in> (awaits d)\<^sup>+" "mates (within d N) f = mates (awaits d) f"
proof -
  have sub: "(x, y) \<in> (within d N)\<^sup>+ \<Longrightarrow> (x, y) \<in> (awaits d)\<^sup>+" for x y
    by (erule trancl_mono) (simp add: within_def)
  show "(f, f) \<in> (within d N)\<^sup>+ \<longleftrightarrow> (f, f) \<in> (awaits d)\<^sup>+"
    using sub backward_within [OF closed _ f] by blast
  show "mates (within d N) f = mates (awaits d) f"
  proof (intro equalityI subsetI)
    fix h
    assume "h \<in> mates (awaits d) f"
    then have h: "(f, h) \<in> (awaits d)\<^sup>+" "(h, f) \<in> (awaits d)\<^sup>+" by (simp_all add: mates_def)
    then have "h \<in> N" "(h, f) \<in> (within d N)\<^sup>+" using backward_within [OF closed _ f] by blast+
    then show "h \<in> mates (within d N) f" using backward_within [OF closed h(1)] by (simp add: mates_def)
  qed (use sub in \<open>auto simp: mates_def\<close>)
qed

section \<open>An update is a rebuild\<close>

text \<open>What is kept at the clean nodes and solved at the dirty ones solves the new document.\<close>

lemma update_solves:
  assumes ids: "store_ids_ok d0" "store_ids_ok d" and tables: "tables_ok d"
    and g0: "graph_of d0 g0" and g: "graph_of d g" and listed: "edit_listed d0 d roots"
    and old: "solves lower d0 F0 V0"
    and N: "N = dirty_after d g0 g roots"
    and clean: "\<And>f. f \<notin> N \<Longrightarrow> bt_get F f = bt_get F0 f \<and> bt_get V f = bt_get V0 f"
    and dirty: "\<And>f. f \<in> N \<Longrightarrow> node_solved lower d (within d N) F V f"
  shows "solves lower d F V"
  unfolding solves_def
proof
  fix f
  have closed: "\<forall>f h. h \<in> N \<longrightarrow> (f, h) \<in> awaits d \<longrightarrow> f \<in> N"
    using dirty_closed [OF g0 g listed] unfolding N awaits_def by blast
  have schemas: "doc_schemas d0 = doc_schemas d" using listed by (simp add: edit_listed_def)
  have value_same: "calculation_value d0 f = calculation_value d f" "formula_at d0 f = formula_at d f"
    if "f \<notin> N" for f
  proof -
    have "f |\<notin>| with_column_total_roots d g0 roots" using that by (simp add: N dirty_after_def Let_def)
    from unpromoted(1,2) [OF g0 listed this]
    show "calculation_value d0 f = calculation_value d f" "formula_at d0 f = formula_at d f"
      by (simp_all add: calculation_value_at)
  qed
  have unseen: "unseen d0 d f" if "f \<notin> N" "calculation_value d f \<noteq> None" for f
    using clean_unseen [OF g0 g listed] that unfolding N by blast
  have elig: "eligible d0 f = eligible d f" if "f \<notin> N" for f
  proof (cases "calculation_value d f")
    case None
    then have "formula_at d f = None" by (simp add: formula_at_def)
    then show ?thesis using value_same(2) [OF that] by (simp add: eligible_def)
  next
    case (Some v)
    then show ?thesis using eligible_same [OF schemas unseen [OF that]] by simp
  qed
  have reads: "x \<notin> N" if "f \<notin> N" "formula_at d f = Some e" "x |\<in>| extract_dependencies d f e" for f e x
    using dirty_closed [OF g0 g listed _ that(2,3)] that(1) unfolding N by blast
  have edge: "(f, h) \<in> awaits d \<longleftrightarrow> (f, h) \<in> awaits d0" if f: "f \<notin> N" for f h
  proof (cases "formula_at d f")
    case None
    then show ?thesis using value_same(2) [OF f] by (simp add: awaits_def eligible_def)
  next
    case (Some e)
    then have "calculation_value d f \<noteq> None" by (simp add: formula_at_value)
    from dependencies_same [OF unseen [OF f this] Some]
    have deps: "extract_dependencies d0 f e = extract_dependencies d f e" .
    have "eligible d0 h = eligible d h" if "h |\<in>| extract_dependencies d f e"
      using elig [OF reads [OF f Some that]] .
    then show ?thesis using Some elig [OF f] value_same(2) [OF f] deps by (auto simp: awaits_def)
  qed
  have away: "h \<in> - N" if "f \<in> - N" "(f, h) \<in> awaits d" for f h
    using reads that unfolding awaits_def by blast
  show "node_solved lower d (awaits d) F V f"
  proof (cases "f \<in> N")
    case True
    from dirty [OF True] show ?thesis
      unfolding node_solved_def within_mates [OF closed True] .
  next
    case False
    have keep: "bt_get F f = bt_get F0 f" "bt_get V f = bt_get V0 f" using clean [OF False] by blast+
    have o: "node_solved lower d0 (awaits d0) F0 V0 f" using old by (simp add: solves_def)
    have cycles: "(f, f) \<in> (awaits d)\<^sup>+ \<longleftrightarrow> (f, f) \<in> (awaits d0)\<^sup>+" "mates (awaits d) f = mates (awaits d0) f"
    proof -
      have C: "f \<in> - N" using False by simp
      have E: "(f, h) \<in> awaits d \<longleftrightarrow> (f, h) \<in> awaits d0" if "f \<in> - N" for f h
        by (rule edge) (use that in simp)
      show "(f, f) \<in> (awaits d)\<^sup>+ \<longleftrightarrow> (f, f) \<in> (awaits d0)\<^sup>+"
        by (rule forward_same(1) [where C = "- N"], erule E, erule (1) away, rule C)
      show "mates (awaits d) f = mates (awaits d0) f"
        by (rule forward_same(2) [where C = "- N"], erule E, erule (1) away, rule C)
    qed
    show ?thesis
    proof (cases "calculation_value d f")
      case None
      then show ?thesis using o keep value_same(1) [OF False] by (simp add: node_solved_def)
    next
      case (Some v)
      then have u: "unseen d0 d f" using unseen False by blast
      have pre: "pre_failure d0 f v = pre_failure d f v" by (rule pre_failure_same [OF schemas u Some])
      consider n where "v = VNumber n" | e where "v = VFormula e" "formula_at d f = Some e"
        using calculation_value_cases [OF Some] by blast
      then show ?thesis
      proof cases
        case 1
        then show ?thesis
          using o keep value_same(1) [OF False] Some pre
          by (cases "pre_failure d f v") (simp_all add: node_solved_def)
      next
        case 2
        have "bt_get F0 x = bt_get F x \<and> bt_get V0 x = bt_get V x" if "x |\<in>| extract_dependencies d f e" for x
          using clean [OF reads [OF False 2(2) that]] by simp
        from outcome_same [OF ids schemas u 2(2) tables_okD [OF tables 2(2)] this]
        have out: "formula_outcome (owned lower d0 f V0) F0 e = formula_outcome (owned lower d f V) F e" .
        then have "solved_at lower d0 F0 V0 f e = solved_at lower d F V f e"
          by (simp add: solved_at_def keep split: sum.split)
        then show ?thesis
          using o keep value_same(1) [OF False] Some pre 2(1) cycles
          by (cases "pre_failure d f v") (simp_all add: node_solved_def split: if_splits)
      qed
    qed
  qed
qed

lemma bt_extend_get: "extended m n (bt_extend m n)"
  unfolding extended_def bt_extend_def
  by (simp add: bt_get_foldl_insert bt_get_def [of n])

lemma dirty_nodes_get: "bt_get (dirty_nodes d dirty) f = (if f |\<in>| dirty then calculation_value d f else None)"
proof -
  have "bt_get (foldl (\<lambda>m f. case calculation_value d f of None \<Rightarrow> m | Some v \<Rightarrow> bt_insert f v m) m fs) f =
      (if f \<in> set fs \<and> calculation_value d f \<noteq> None then calculation_value d f else bt_get m f)" for fs m
    by (induction fs arbitrary: m) (auto split: option.split)
  then show ?thesis by (simp add: dirty_nodes_def)
qed

lemma dirty_nodes_in: "nodes_in d (fset dirty) (dirty_nodes d dirty) (dirty_formulas (dirty_nodes d dirty))"
  by (auto simp: nodes_in_def dirty_nodes_get dirty_formulas_def formula_at_def split: option.split)

lemma refresh_nodes:
  "f |\<in>| foldl (refresh_node d) nodes roots \<longleftrightarrow>
     (if f \<in> set roots then calculation_value d f \<noteq> None else f |\<in>| nodes)"
  by (induction roots arbitrary: nodes) (auto simp: refresh_node_def)

lemma recompute_dirty_result:
  assumes ids: "store_ids_ok d" and g: "graph_of d (rs_graph st)" and tables: "tables_ok d"
  obtains F V where "recompute_dirty lower d roots dirty st =
      Some (st\<lparr>rs_nodes := foldl (refresh_node d) (rs_nodes st) (sorted_list_of_fset roots),
        rs_failures := F, rs_values := V\<rparr>)"
    "\<And>f. f |\<notin>| dirty \<Longrightarrow> bt_get F f = bt_get (rs_failures st) f \<and> bt_get V f = bt_get (rs_values st) f"
    "\<And>f. f |\<in>| dirty \<Longrightarrow> node_solved lower d (within d (fset dirty)) F V f"
proof -
  let ?nodes = "dirty_nodes d dirty"
  let ?formulas = "dirty_formulas ?nodes"
  let ?F = "bt_remove_all (sorted_list_of_fset dirty) (rs_failures st)"
  let ?V = "bt_remove_all (sorted_list_of_fset dirty) (rs_values st)"
  have kept: "bt_get ?F f = None \<and> bt_get ?V f = None" if "f \<in> fset dirty" for f
    using that by (simp add: bt_get_remove_all)
  obtain F1 where F1: "assign_cycle_failures ?formulas (rs_graph st)
        (bt_extend ?F (pregraph_failures d ?nodes ?formulas)) = Some F1"
    and run: "\<And>V1. extended ?V (initial_values ?nodes F1) V1 \<Longrightarrow>
       \<exists>F V. evaluate_remaining_formulas lower d ?formulas (rs_graph st) F1 V1 = Some (F, V) \<and>
         (\<forall>f. f \<notin> fset dirty \<longrightarrow> bt_get F f = bt_get ?F f \<and> bt_get V f = bt_get ?V f) \<and>
         (\<forall>f\<in>fset dirty. node_solved lower d (within d (fset dirty)) F V f)"
    by (rule node_pass [OF ids g tables dirty_nodes_in kept bt_extend_get, where lower = lower])
      (assumption, rule that, assumption+)
  from run [OF bt_extend_get] obtain F V where FV:
    "evaluate_remaining_formulas lower d ?formulas (rs_graph st) F1 (bt_extend ?V (initial_values ?nodes F1)) = Some (F, V)"
    "\<forall>f. f \<notin> fset dirty \<longrightarrow> bt_get F f = bt_get ?F f \<and> bt_get V f = bt_get ?V f"
    "\<forall>f\<in>fset dirty. node_solved lower d (within d (fset dirty)) F V f"
    by blast
  show thesis
  proof (rule that)
    show "recompute_dirty lower d roots dirty st =
      Some (st\<lparr>rs_nodes := foldl (refresh_node d) (rs_nodes st) (sorted_list_of_fset roots),
        rs_failures := F, rs_values := V\<rparr>)"
      by (simp add: recompute_dirty_def Let_def F1 FV(1))
    show "f |\<notin>| dirty \<Longrightarrow> bt_get F f = bt_get (rs_failures st) f \<and> bt_get V f = bt_get (rs_values st) f" for f
      using FV(2) by (simp add: bt_get_remove_all)
    show "f |\<in>| dirty \<Longrightarrow> node_solved lower d (within d (fset dirty)) F V f" for f
      using FV(3) by blast
  qed
qed

lemma dirty_of_impact:
  assumes "update_dependency_impact d (with_column_total_roots d g0 roots) g0 = (impact, g)"
  shows "fset (di_dirty impact) = dirty_after d g0 g roots"
    "g = update_graph d (sorted_list_of_fset (with_column_total_roots d g0 roots)) g0"
proof -
  let ?P = "with_column_total_roots d g0 roots"
  let ?g = "update_graph d (sorted_list_of_fset ?P) g0"
  show g: "g = ?g"
    using assms by (simp add: update_dependency_impact_def Let_def split: prod.splits)
  have reach: "fset (fst (reverse_closure h ?P False)) = (dependents_rel h)\<^sup>+ `` fset ?P - fset ?P" for h
    unfolding reverse_closure_reach by auto
  have "di_dirty impact = ?P |\<union>| fst (reverse_closure g0 ?P False) |\<union>| fst (reverse_closure ?g ?P False)"
    using assms by (auto simp: update_dependency_impact_def Let_def split: prod.splits)
  then have "fset (di_dirty impact) = fset ?P \<union> fset (fst (reverse_closure g0 ?P False)) \<union>
      fset (fst (reverse_closure ?g ?P False))" by simp
  then show "fset (di_dirty impact) = dirty_after d g0 g roots"
    unfolding reach dirty_after_def Let_def g by blast
qed

lemma listed_changes_covered:
  assumes g0: "graph_of d0 g0" and listed: "edit_listed d0 d roots"
  shows "changes_covered d0 d (fset (with_column_total_roots d g0 roots))"
proof -
  have "roots |\<subseteq>| with_column_total_roots d g0 roots" using in_promoted_roots [OF g0] by blast
  then have sub: "fset roots \<subseteq> fset (with_column_total_roots d g0 roots)" by (simp add: less_eq_fset.rep_eq)
  have "{i. schema_at d0 i \<noteq> schema_at d i} \<subseteq> fr_entity ` fset roots"
    using listed by (auto simp: edit_listed_def rows_listed_def)
  moreover have "{f. formula_uses d0 f \<noteq> formula_uses d f} \<subseteq> fset roots"
  proof
    fix f
    assume "f \<in> {f. formula_uses d0 f \<noteq> formula_uses d f}"
    then have "formula_at d0 f \<noteq> formula_at d f" by (auto simp: formula_uses_at)
    then have "value_at d0 f \<noteq> value_at d f" using formula_at_same by blast
    then show "f \<in> fset roots" using listed by (auto simp: edit_listed_def)
  qed
  ultimately show ?thesis using sub unfolding changes_covered_def by blast
qed

lemma empty_edit_graph:
  assumes listed: "edit_listed d0 d {||}" and g: "graph_of d0 g"
  shows "graph_of d g"
proof -
  have schema: "schema_at d0 i = schema_at d i" for i
    using listed by (auto simp: edit_listed_def rows_listed_def)
  have "value_at d0 f = value_at d f" for f using listed by (auto simp: edit_listed_def)
  then have "formula_uses d0 f = formula_uses d f" for f
    by (simp add: formula_uses_at formula_at_same [where ?d0.0 = d0 and d = d])
  then have uses: "formula_uses d0 = formula_uses d" by (rule ext)
  have "column_slots_in d0 c = column_slots_in d c" for c
    by (rule fset_cong [THEN iffD1]) (auto simp: in_column_slots_schema schema)
  then have slots: "slots_inv exact d0 g = slots_inv exact d g" by (simp add: slots_inv_def)
  have "graph_inv exact d (formula_uses d) g"
    using g unfolding graph_of_def graph_inv_def columns_inv_def uses slots by blast
  moreover have "bt_get (dg_entity_schemas g) i = schema_at d i" for i
    using g schema [of i] by (simp add: graph_of_def schema_at_def)
  ultimately show ?thesis by (simp add: graph_of_def schema_at_def)
qed

lemma set_graph_formulas: "graph_of d g \<Longrightarrow> set (graph_formulas g) = {f. formula_at d f \<noteq> None}"
  by (auto simp: graph_formulas_def set_bt_keys graph_of_def graph_inv_def formula_uses_at)

text \<open>What the transition reports as changed.\<close>

definition reported_changes :: "document \<Rightarrow> document \<Rightarrow> retained_state \<Rightarrow> retained_state \<Rightarrow> field_ref set" where
  "reported_changes d0 d before after =
     {f. (formula_at d0 f \<noteq> None \<or> formula_at d f \<noteq> None) \<and>
        (is_failed before \<noteq> is_failed after \<or> node_projection before f \<noteq> node_projection after f)}"

lemma changed_projections_set:
  assumes g: "graph_of d0 (rs_graph before)" "graph_of d (rs_graph after)"
    and clean: "\<And>f. f |\<notin>| dirty \<Longrightarrow> bt_get (rs_failures after) f = bt_get (rs_failures before) f \<and>
      bt_get (rs_values after) f = bt_get (rs_values before) f"
  shows "set (changed_projections before after dirty) = reported_changes d0 d before after"
proof -
  have same: "node_projection before f = node_projection after f"
    if "is_failed before = is_failed after" "f |\<notin>| dirty" for f
    using clean [OF that(2)] that(1) by (simp add: node_projection_def)
  have formulas: "fset (fset_of_list (graph_formulas (rs_graph before)) |\<union>|
      fset_of_list (graph_formulas (rs_graph after))) = {f. formula_at d0 f \<noteq> None \<or> formula_at d f \<noteq> None}"
    by (auto simp: fset_of_list.rep_eq set_graph_formulas [OF g(1)] set_graph_formulas [OF g(2)])
  show ?thesis
  proof (cases "is_failed before = is_failed after")
    case True
    then show ?thesis
      using same [OF True] formulas
      by (auto simp: changed_projections_def Let_def reported_changes_def)
  next
    case False
    then show ?thesis
      using formulas by (simp add: changed_projections_def Let_def reported_changes_def del: sup_fset.rep_eq)
  qed
qed

lemma update_rebuilds:
  assumes ids: "store_ids_ok d0" "store_ids_ok d" and tables: "tables_ok d"
    and g0: "graph_of d0 (rs_graph st0)" and nodes: "fset (rs_nodes st0) = {f. calculation_value d0 f \<noteq> None}"
    and old: "solves lower d0 (rs_failures st0) (rs_values st0)"
    and listed: "edit_listed d0 d roots"
  obtains st transition where "retained_update lower d roots st0 = Some (st, transition)"
    "graph_of d (rs_graph st)" "fset (rs_nodes st) = {f. calculation_value d f \<noteq> None}"
    "solves lower d (rs_failures st) (rs_values st)"
    "set (ct_changed_projections transition) = reported_changes d0 d st0 st"
proof (cases "roots = {||}")
  case True
  have "with_column_total_roots d (rs_graph st0) {||} = {||}"
    using in_promoted_roots [OF g0, of _ d "{||}"] by auto
  then have none: "dirty_after d (rs_graph st0) (rs_graph st0) {||} = {}" by (simp add: dirty_after_def)
  have g: "graph_of d (rs_graph st0)" using empty_edit_graph [OF _ g0] listed True by simp
  have "value_at d0 = value_at d" using listed True by (auto simp: edit_listed_def fun_eq_iff)
  then have "calculation_value d0 = calculation_value d" by (simp add: fun_eq_iff calculation_value_at)
  then have "fset (rs_nodes st0) = {f. calculation_value d f \<noteq> None}" using nodes by simp
  moreover have "solves lower d (rs_failures st0) (rs_values st0)"
    by (rule update_solves [OF ids tables g0 g _ old refl]) (use listed True none in auto)
  ultimately show thesis using that g True by (simp add: retained_update_def reported_changes_def)
next
  case False
  let ?P = "with_column_total_roots d (rs_graph st0) roots"
  obtain impact g where impact: "update_dependency_impact d ?P (rs_graph st0) = (impact, g)" by force
  note D = dirty_of_impact [OF impact]
  have P: "set (sorted_list_of_fset ?P) = fset ?P" by simp
  have g: "graph_of d g"
    unfolding D(2)
    by (rule update_graph_of [OF g0 store_entities_keyed [OF ids(2)]])
      (unfold P, rule listed_changes_covered [OF g0 listed])
  let ?st = "st0\<lparr>rs_graph := g\<rparr>"
  have "graph_of d (rs_graph ?st)" using g by simp
  then obtain F V where r: "recompute_dirty lower d ?P (di_dirty impact) ?st =
      Some (?st\<lparr>rs_nodes := foldl (refresh_node d) (rs_nodes ?st) (sorted_list_of_fset ?P),
        rs_failures := F, rs_values := V\<rparr>)"
    "\<And>f. f |\<notin>| di_dirty impact \<Longrightarrow> bt_get F f = bt_get (rs_failures ?st) f \<and> bt_get V f = bt_get (rs_values ?st) f"
    "\<And>f. f |\<in>| di_dirty impact \<Longrightarrow> node_solved lower d (within d (fset (di_dirty impact))) F V f"
    by (rule recompute_dirty_result [OF ids(2) _ tables, of ?st lower ?P "di_dirty impact"])
      (rule that, assumption+)
  have "solves lower d F V"
    by (rule update_solves [OF ids tables g0 g listed old refl]) (use r(2,3) D(1) in auto)
  moreover have "f |\<in>| foldl (refresh_node d) (rs_nodes st0) (sorted_list_of_fset ?P) \<longleftrightarrow> calculation_value d f \<noteq> None" for f
  proof (cases "f |\<in>| ?P")
    case True
    then show ?thesis by (simp add: refresh_nodes)
  next
    case clean: False
    have "value_at d0 f = value_at d f" by (rule unpromoted(1) [OF g0 listed clean])
    then have "calculation_value d0 f = calculation_value d f" by (simp add: calculation_value_at)
    then show ?thesis using nodes clean by (simp add: refresh_nodes set_eq_iff)
  qed
  moreover have "set (changed_projections st0 (?st\<lparr>rs_nodes := foldl (refresh_node d) (rs_nodes ?st) (sorted_list_of_fset ?P),
      rs_failures := F, rs_values := V\<rparr>) (di_dirty impact)) = reported_changes d0 d st0
        (?st\<lparr>rs_nodes := foldl (refresh_node d) (rs_nodes ?st) (sorted_list_of_fset ?P), rs_failures := F, rs_values := V\<rparr>)"
    by (rule changed_projections_set [OF g0]) (use g r(2) in simp_all)
  ultimately show thesis
    using that g by (simp add: retained_update_def False Let_def impact r(1) set_eq_iff)
qed

text \<open>A rebuild holds the solution of its document.\<close>

lemma rebuild_solves:
  assumes "store_ids_ok d" "tables_ok d"
  obtains st work where "retained_rebuild lower d = Some (st, work)"
    "graph_of d (rs_graph st)" "fset (rs_nodes st) = {f. calculation_value d f \<noteq> None}"
    "solves lower d (rs_failures st) (rs_values st)"
proof -
  obtain p where "full_calculation_parts lower d = Some p" "cp_graph p = document_graph d"
    "fset (cp_nodes p) = {f. calculation_value d f \<noteq> None}" "solves lower d (cp_failures p) (cp_values p)"
    using full_calculation_solves [OF assms] by blast
  then show thesis using that document_graph_of [of d] by (simp add: retained_rebuild_def)
qed

lemma retained_state_unique:
  assumes ok: "store_ids_ok d" "tables_ok d"
    and a: "graph_of d (rs_graph a)" "fset (rs_nodes a) = {f. calculation_value d f \<noteq> None}"
      "solves lower d (rs_failures a) (rs_values a)"
    and b: "graph_of d (rs_graph b)" "fset (rs_nodes b) = {f. calculation_value d f \<noteq> None}"
      "solves lower d (rs_failures b) (rs_values b)"
  shows "a = (b :: retained_state)"
proof (rule retained_state.equality)
  show "rs_nodes a = rs_nodes b" using a(2) b(2) by (intro fset_cong [THEN iffD1]) simp
  show "rs_graph a = rs_graph b" by (rule graph_of_unique [OF a(1) b(1)])
  show "rs_failures a = rs_failures b" "rs_values a = rs_values b"
    using solution_unique [OF ok a(3) b(3)] by simp_all
qed simp

section \<open>Properties\<close>

text \<open>C2. Updating the retained state after an edit that lists its roots ends in exactly the state a
  rebuild of the edited document makes: the same nodes, values, failures and graph.\<close>

theorem update_is_rebuild:
  assumes "store_ids_ok d0" "tables_ok d0" "store_ids_ok d" "tables_ok d" "edit_listed d0 d roots"
  shows "\<exists>st0 work0 st transition work. retained_rebuild lower d0 = Some (st0, work0) \<and>
    retained_update lower d roots st0 = Some (st, transition) \<and>
    retained_rebuild lower d = Some (st, work)"
proof -
  obtain st0 work0 where st0: "retained_rebuild lower d0 = Some (st0, work0)"
    "graph_of d0 (rs_graph st0)" "fset (rs_nodes st0) = {f. calculation_value d0 f \<noteq> None}"
    "solves lower d0 (rs_failures st0) (rs_values st0)"
    by (rule rebuild_solves [OF assms(1,2)]) (rule that, assumption+)
  obtain st1 work where st1: "retained_rebuild lower d = Some (st1, work)"
    "graph_of d (rs_graph st1)" "fset (rs_nodes st1) = {f. calculation_value d f \<noteq> None}"
    "solves lower d (rs_failures st1) (rs_values st1)"
    by (rule rebuild_solves [OF assms(3,4)]) (rule that, assumption+)
  obtain st transition where st: "retained_update lower d roots st0 = Some (st, transition)"
    "graph_of d (rs_graph st)" "fset (rs_nodes st) = {f. calculation_value d f \<noteq> None}"
    "solves lower d (rs_failures st) (rs_values st)"
    by (rule update_rebuilds [OF assms(1,3,4) st0(2-4) assms(5)]) (rule that, assumption+)
  have "st = st1" by (rule retained_state_unique [OF assms(3,4) st(2-4) st1(2-4)])
  then show ?thesis using st0(1) st(1) st1(1) by blast
qed


definition edited_sheet :: document where
  "edited_sheet = sample_sheet\<lparr>doc_entities := bt_insert ''q''
     (sample_new_row\<lparr>ent_fields := bt_insert ''a'' (VNumber (Number (F64 0x3FF0000000000000))) bt_empty\<rparr>)
     (doc_entities sample_sheet)\<rparr>"

lemma edited_sheet_ok: "store_ids_ok edited_sheet" "tables_ok edited_sheet"
proof -
  show "store_ids_ok edited_sheet"
    by (simp add: store_ids_ok_def edited_sheet_def sample_sheet_def sheet_schema_def sheet_number_def
        sample_after_def sample_before_def sample_new_row_def sample_total_row_def document_empty_def bt_eval)
  have "formula_at edited_sheet f = formula_at sample_sheet f" for f
    by (cases f) (auto simp: formula_at_def calculation_value_at value_at_def edited_sheet_def sample_sheet_def
        sample_after_def sample_new_row_def formula_of_def is_calculation_def)
  moreover obtain nodes formulas g where c: "collect_calculation_nodes edited_sheet = (nodes, formulas, g)" by (metis prod_cases3)
  ultimately show "tables_ok edited_sheet"
    using tables_okD [OF sample_sheet_ok(2)] collect_calculation_nodes_get(2) [OF c]
    by (auto simp: tables_ok_def c list_all_iff in_bt_values)
qed

lemma edited_sheet_listed: "edit_listed sample_sheet edited_sheet {|FieldRef ''q'' ''a''|}"
proof -
  have schema: "schema_at sample_sheet i = schema_at edited_sheet i" for i
    by (simp add: schema_at_def edited_sheet_def sample_sheet_def sample_after_def sample_new_row_def)
  have "value_at sample_sheet f = value_at edited_sheet f" if "f \<noteq> FieldRef ''q'' ''a''" for f
    using that by (cases f) (auto simp: value_at_def edited_sheet_def sample_sheet_def sample_after_def sample_new_row_def)
  then have "{f. value_at sample_sheet f \<noteq> value_at edited_sheet f} \<subseteq> {FieldRef ''q'' ''a''}" by auto
  moreover have "doc_schemas sample_sheet = doc_schemas edited_sheet" by (simp add: edited_sheet_def)
  ultimately show ?thesis by (simp add: edit_listed_def rows_listed_def references_kept_def schema)
qed

lemma update_is_rebuild_witness:
  "\<exists>st0 work0 st transition work. retained_rebuild ascii_lower sample_sheet = Some (st0, work0) \<and>
    retained_update ascii_lower edited_sheet {|FieldRef ''q'' ''a''|} st0 = Some (st, transition) \<and>
    retained_rebuild ascii_lower edited_sheet = Some (st, work)"
  by (rule update_is_rebuild [OF sample_sheet_ok edited_sheet_ok edited_sheet_listed])


end
