(* ===== verification/Formulas.thy ===== *)
theory Formulas
  imports Validation Evaluation
begin

text \<open>
  The formula language of \<open>formula-engine/src/parser.rs\<close> before its addresses are bound: the
  unbound expressions, their structural limits and the canonical text they are rendered to.
\<close>

section \<open>Unbound expressions\<close>

definition max_input_bytes :: nat where
  "max_input_bytes = 4096"

datatype unbound_aggregate = USum column_address | UAverage column_address | UCount

datatype unbound_expression =
    UNumber number
  | UReference field_address
  | USameRowReference string
  | UColumnTotal column_address
  | UColumnAggregate aggregate_function column_address
  | UColumnConditional unbound_aggregate "unbound_criterion list"
  | UAdd unbound_expression unbound_expression
  | USubtract unbound_expression unbound_expression
  | UMultiply unbound_expression unbound_expression
  | UDivide unbound_expression unbound_expression
  | UMinimum unbound_expression unbound_expression
  | UMaximum unbound_expression unbound_expression
  | UCompare comparison_operator unbound_expression unbound_expression
  | UIf unbound_expression unbound_expression unbound_expression
  | UAnd "unbound_expression list"
  | UOr "unbound_expression list"
  | UNot unbound_expression
  | URound unbound_expression unbound_expression
  | UIsBlank unbound_expression
and unbound_criterion =
  UCriterion (uc_column: column_address) (uc_operator: comparison_operator)
    (uc_value: "unbound_expression option")

fun unbound_children :: "unbound_expression \<Rightarrow> unbound_expression list" where
  "unbound_children (UIf c t e) = [c, t, e]"
| "unbound_children (UAnd xs) = xs"
| "unbound_children (UOr xs) = xs"
| "unbound_children (UNot v) = [v]"
| "unbound_children (UIsBlank v) = [v]"
| "unbound_children (UAdd l r) = [l, r]"
| "unbound_children (USubtract l r) = [l, r]"
| "unbound_children (UMultiply l r) = [l, r]"
| "unbound_children (UDivide l r) = [l, r]"
| "unbound_children (UMinimum l r) = [l, r]"
| "unbound_children (UMaximum l r) = [l, r]"
| "unbound_children (UCompare p l r) = [l, r]"
| "unbound_children (URound l r) = [l, r]"
| "unbound_children (UColumnConditional a cs) = List.map_filter uc_value cs"
| "unbound_children e = []"

text \<open>\<open>push_children\<close>: the stack's top is the head, so the first child is on top.\<close>

definition push_children ::
    "(unbound_expression \<times> nat) list \<Rightarrow> unbound_expression \<Rightarrow> nat \<Rightarrow> (unbound_expression \<times> nat) list" where
  "push_children stack e child_depth = map (\<lambda>child. (child, child_depth)) (unbound_children e) @ stack"

lemma in_criterion_list:
  "e \<in> set (List.map_filter uc_value cs) \<longleftrightarrow> (\<exists>c\<in>set cs. uc_value c = Some e)"
  by (force simp: List.map_filter_def)

lemma size_uc_value: "uc_value c = Some e \<Longrightarrow> size e < size c"
  by (cases c) simp

lemma size_unbound_criterion: "c \<in> set cs \<Longrightarrow> uc_value c = Some e \<Longrightarrow> size e < size_list size cs"
  using size_uc_value size_in_list [of c cs size] by (metis order.strict_trans2)

lemma unbound_children_size: "c \<in> set (unbound_children e) \<Longrightarrow> size c < size e"
  by (cases e) (auto simp: in_criterion_list dest: size_unbound_criterion size_in_list [where f = size])

lemma unbound_induct [case_names node]:
  "(\<And>e. (\<And>c. c \<in> set (unbound_children e) \<Longrightarrow> P c) \<Longrightarrow> P e) \<Longrightarrow> P e"
  by (rule measure_induct_rule [of size]) (blast intro: unbound_children_size)

function unbound_nodes :: "unbound_expression \<Rightarrow> nat" where
  "unbound_nodes e = Suc (sum_list (map unbound_nodes (unbound_children e)))"
  by auto
termination by (relation "measure size") (auto dest: unbound_children_size)

function unbound_depth :: "unbound_expression \<Rightarrow> nat" where
  "unbound_depth e = Suc (fold max (map unbound_depth (unbound_children e)) 0)"
  by auto
termination by (relation "measure size") (auto dest: unbound_children_size)

lemma unbound_nodes_children:
  "sum_list (map unbound_nodes (unbound_children e)) < unbound_nodes e"
  using unbound_nodes.simps [of e] by linarith

declare unbound_nodes.simps [simp del] unbound_depth.simps [simp del]

function (sequential) unbound_structure_loop ::
    "(unbound_expression \<times> nat) list \<Rightarrow> nat \<Rightarrow> complexity_error + unit" where
  "unbound_structure_loop [] nodes = Inr ()"
| "unbound_structure_loop ((node, depth) # stack) nodes =
     (if max_expression_depth < depth then Inl DepthLimit
      else if max_expression_nodes < nodes + 1 then Inl NodeLimit
      else unbound_structure_loop (push_children stack node (depth + 1)) (nodes + 1))"
  by pat_completeness auto
termination
  by (relation "measure (\<lambda>(stack, nodes). sum_list (map (\<lambda>x. unbound_nodes (fst x)) stack))")
    (simp_all add: push_children_def comp_def unbound_nodes_children)

declare unbound_structure_loop.simps [simp del]

fun complexity_message :: "complexity_error \<Rightarrow> string" where
  "complexity_message NodeLimit = ''expression exceeds 256-node limit''"
| "complexity_message DepthLimit = ''expression exceeds 64-depth limit''"
| "complexity_message CanonicalLengthLimit = ''canonical expression exceeds 4096-byte limit''"

section \<open>The canonical text\<close>

text \<open>\<open>format!("{value:e}")\<close>: the shortest digits, one before the point.\<close>

definition show_exponent :: "int \<Rightarrow> string" where
  "show_exponent e = (if e < 0 then ''-'' else []) @ show_nat (nat \<bar>e\<bar>)"

definition show_scientific :: "nat \<Rightarrow> int \<Rightarrow> string" where
  "show_scientific d e =
     (let s = show_nat d in
      take 1 s @ (if drop 1 s = [] then [] else CHR ''.'' # drop 1 s) @
      CHR ''e'' # show_exponent (e + int (length s - 1)))"

definition lower_exp_f64 :: "f64 \<Rightarrow> string" where
  "lower_exp_f64 x =
     (if f64_is_nan x then ''NaN''
      else (if f64_sign x then ''-'' else []) @
        (if f64_mag x = inf_mag then ''inf''
         else case shortest_decimal (f64_mag x) of (d, e) \<Rightarrow> show_scientific d e))"

definition format_number :: "number \<Rightarrow> string" where
  "format_number n =
     (let display = display_f64 (number_get n);
          scientific = lower_exp_f64 (number_get n);
          round_trips = (case parse_f64 scientific of
              None \<Rightarrow> False
            | Some parsed \<Rightarrow>
                (case number_new parsed of
                   None \<Rightarrow> False | Some p \<Rightarrow> f64_bits (number_get p) = f64_bits (number_get n)))
      in if length scientific < length display \<and> round_trips then scientific else display)"

definition format_column :: "column_address \<Rightarrow> string" where
  "format_column c = ''['' @ ca_schema c @ ''.'' @ ca_field c @ '':column]''"

definition format_string_literal :: "string \<Rightarrow> string" where
  "format_string_literal text = ''\"'' @ text @ ''\"''"

text \<open>\<open>join(", ")\<close>\<close>

fun join_arguments :: "string list \<Rightarrow> string" where
  "join_arguments [] = []"
| "join_arguments [x] = x"
| "join_arguments (x # y # ys) = x @ '', '' @ join_arguments (y # ys)"

definition call_text :: "string \<Rightarrow> string list \<Rightarrow> string" where
  "call_text name arguments = name @ ''('' @ join_arguments arguments @ '')''"

definition binary_text :: "string \<Rightarrow> string \<Rightarrow> string \<Rightarrow> string" where
  "binary_text left operator right = ''('' @ left @ '' '' @ operator @ '' '' @ right @ '')''"

definition conditional_name :: "unbound_aggregate \<Rightarrow> string" where
  "conditional_name a = (case a of USum c \<Rightarrow> ''SUMIFS'' | UAverage c \<Rightarrow> ''AVERAGEIFS'' | UCount \<Rightarrow> ''COUNTIFS'')"

definition conditional_values :: "unbound_aggregate \<Rightarrow> column_address list" where
  "conditional_values a = (case a of USum c \<Rightarrow> [c] | UAverage c \<Rightarrow> [c] | UCount \<Rightarrow> [])"

fun format_unbound :: "unbound_expression \<Rightarrow> string"
  and format_criterion :: "unbound_criterion \<Rightarrow> string" where
  "format_unbound (UNumber n) = format_number n"
| "format_unbound (UReference r) = ''['' @ fa_entity r @ ''.'' @ fa_field r @ '']''"
| "format_unbound (USameRowReference f) = ''[.'' @ f @ '']''"
| "format_unbound (UColumnTotal c) = ''['' @ ca_schema c @ ''.'' @ ca_field c @ '':total]''"
| "format_unbound (UColumnAggregate g c) =
     ''['' @ ca_schema c @ ''.'' @ ca_field c @ '':'' @ aggregate_suffix g @ '']''"
| "format_unbound (UColumnConditional a criteria) =
     call_text (conditional_name a)
       (map format_column (conditional_values a) @
        concat (map (\<lambda>c. [format_column (uc_column c), format_criterion c]) criteria))"
| "format_unbound (UAdd l r) = binary_text (format_unbound l) ''+'' (format_unbound r)"
| "format_unbound (USubtract l r) = binary_text (format_unbound l) ''-'' (format_unbound r)"
| "format_unbound (UMultiply l r) = binary_text (format_unbound l) ''*'' (format_unbound r)"
| "format_unbound (UDivide l r) = binary_text (format_unbound l) ''/'' (format_unbound r)"
| "format_unbound (UMinimum l r) = call_text ''min'' [format_unbound l, format_unbound r]"
| "format_unbound (UMaximum l r) = call_text ''max'' [format_unbound l, format_unbound r]"
| "format_unbound (UCompare p l r) = binary_text (format_unbound l) (comparison_as_str p) (format_unbound r)"
| "format_unbound (UIf c t e) = call_text ''IF'' [format_unbound c, format_unbound t, format_unbound e]"
| "format_unbound (UAnd xs) = call_text ''AND'' (map format_unbound xs)"
| "format_unbound (UOr xs) = call_text ''OR'' (map format_unbound xs)"
| "format_unbound (UNot v) = call_text ''NOT'' [format_unbound v]"
| "format_unbound (URound v d) = call_text ''ROUND'' [format_unbound v, format_unbound d]"
| "format_unbound (UIsBlank v) = call_text ''ISBLANK'' [format_unbound v]"
| "format_criterion (UCriterion col p v) =
     (case v of
        None \<Rightarrow> format_string_literal (if p = CmpEqual then [] else ''<>'')
      | Some e \<Rightarrow>
          if p = CmpEqual then format_unbound e
          else (case e of
             UNumber n \<Rightarrow> format_string_literal (comparison_as_str p @ format_number n)
           | _ \<Rightarrow> format_unbound e))"

definition validate_unbound_structure :: "unbound_expression \<Rightarrow> complexity_error + unit" where
  "validate_unbound_structure e =
     and_then (unbound_structure_loop [(e, 1)] 0) (\<lambda>u.
       if max_input_bytes < length (format_unbound e) then Inl CanonicalLengthLimit else Inr ())"

section \<open>What can be written\<close>

text \<open>
  The expressions the language has a spelling for: canonical numbers, valid keys, arguments where
  the functions need them, and criteria the parser can read back.
\<close>

definition column_writable :: "column_address \<Rightarrow> bool" where
  "column_writable c \<longleftrightarrow> is_valid_identifier (ca_schema c) \<and> is_valid_identifier (ca_field c)"

definition is_number_literal :: "unbound_expression \<Rightarrow> bool" where
  "is_number_literal e = (case e of UNumber n \<Rightarrow> True | _ \<Rightarrow> False)"

fun writable :: "unbound_expression \<Rightarrow> bool"
  and criterion_writable :: "unbound_criterion \<Rightarrow> bool" where
  "writable (UNumber n) \<longleftrightarrow> number_ok n"
| "writable (UReference r) \<longleftrightarrow> is_valid_identifier (fa_entity r) \<and> is_valid_identifier (fa_field r)"
| "writable (USameRowReference f) \<longleftrightarrow> is_valid_identifier f"
| "writable (UColumnTotal c) \<longleftrightarrow> column_writable c"
| "writable (UColumnAggregate g c) \<longleftrightarrow> column_writable c"
| "writable (UColumnConditional a criteria) \<longleftrightarrow>
     list_all column_writable (conditional_values a) \<and> criteria \<noteq> [] \<and>
     length criteria \<le> max_conditional_criteria \<and> list_all criterion_writable criteria"
| "writable (UAdd l r) \<longleftrightarrow> writable l \<and> writable r"
| "writable (USubtract l r) \<longleftrightarrow> writable l \<and> writable r"
| "writable (UMultiply l r) \<longleftrightarrow> writable l \<and> writable r"
| "writable (UDivide l r) \<longleftrightarrow> writable l \<and> writable r"
| "writable (UMinimum l r) \<longleftrightarrow> writable l \<and> writable r"
| "writable (UMaximum l r) \<longleftrightarrow> writable l \<and> writable r"
| "writable (UCompare p l r) \<longleftrightarrow> writable l \<and> writable r"
| "writable (UIf c t e) \<longleftrightarrow> writable c \<and> writable t \<and> writable e"
| "writable (UAnd xs) \<longleftrightarrow> xs \<noteq> [] \<and> list_all writable xs"
| "writable (UOr xs) \<longleftrightarrow> xs \<noteq> [] \<and> list_all writable xs"
| "writable (UNot v) \<longleftrightarrow> writable v"
| "writable (URound v d) \<longleftrightarrow> writable v \<and> writable d"
| "writable (UIsBlank v) \<longleftrightarrow> writable v"
| "criterion_writable (UCriterion col p v) \<longleftrightarrow> column_writable col \<and>
     (case v of
        None \<Rightarrow> p = CmpEqual \<or> p = CmpNotEqual
      | Some e \<Rightarrow> writable e \<and> (p = CmpEqual \<or> is_number_literal e))"

text \<open>The nodes the parser counts while it reads the canonical text: columns count, literals in quotes do not.\<close>

fun recorded :: "unbound_expression \<Rightarrow> nat"
  and criterion_recorded :: "unbound_criterion \<Rightarrow> nat" where
  "recorded (UColumnConditional a criteria) =
     Suc (length (conditional_values a) + sum_list (map criterion_recorded criteria))"
| "recorded (UAdd l r) = Suc (recorded l + recorded r)"
| "recorded (USubtract l r) = Suc (recorded l + recorded r)"
| "recorded (UMultiply l r) = Suc (recorded l + recorded r)"
| "recorded (UDivide l r) = Suc (recorded l + recorded r)"
| "recorded (UMinimum l r) = Suc (recorded l + recorded r)"
| "recorded (UMaximum l r) = Suc (recorded l + recorded r)"
| "recorded (UCompare p l r) = Suc (recorded l + recorded r)"
| "recorded (UIf c t e) = Suc (recorded c + recorded t + recorded e)"
| "recorded (UAnd xs) = Suc (sum_list (map recorded xs))"
| "recorded (UOr xs) = Suc (sum_list (map recorded xs))"
| "recorded (UNot v) = Suc (recorded v)"
| "recorded (URound v d) = Suc (recorded v + recorded d)"
| "recorded (UIsBlank v) = Suc (recorded v)"
| "recorded e = 1"
| "criterion_recorded (UCriterion col p v) =
     Suc (case v of None \<Rightarrow> 0 | Some e \<Rightarrow> if p = CmpEqual then recorded e else 0)"

end
