(* ===== verification/Compatibility.thy ===== *)
theory Compatibility
  imports Outcomes Formulas
begin

text \<open>
  The fail-first interface of \<open>formula-engine/src/lib.rs\<close>: \<open>calculate\<close> projects a failed calculation
  to one error, following failed dependencies from the first failed node, and shows a cycle as a
  path.  \<open>None\<close> is a panic; \<open>debug\<close> says whether debug assertions are compiled in.
\<close>

section \<open>The errors\<close>

datatype calculation_error =
    ErrMissingReference field_ref
  | ErrNonNumericReference field_ref
  | ErrDivisionByZero field_ref
  | ErrEmptyAggregate field_ref
  | ErrCycle "field_ref list"
  | ErrNonFiniteResult field_ref
  | ErrInvalidExpression field_ref string
  | ErrInvalidColumn column_ref string

fun column_message :: "column_failure \<Rightarrow> string" where
  "column_message ColMissingSchema = ''column schema does not exist''"
| "column_message ColMissingField = ''column field does not exist''"
| "column_message ColNonNumeric = ''column field is not numeric''"

section \<open>The path of a cycle\<close>

text \<open>The reverse path is kept with its last element at the head, so it ends up in order.\<close>

partial_function (option) trace_back ::
    "(field_ref, field_ref) btree \<Rightarrow> field_ref \<Rightarrow> field_ref \<Rightarrow> field_ref list \<Rightarrow> field_ref list option" where
  "trace_back parents next node path =
     (if node = next then Some (node # path)
      else case bt_get parents node of
        None \<Rightarrow> None | Some parent \<Rightarrow> trace_back parents next parent (node # path))"

record witness_state =
  ws_queue :: "field_ref list"
  ws_visited :: "field_ref fset"
  ws_parents :: "(field_ref, field_ref) btree"

text \<open>The dependencies of one node: \<open>Inl\<close> is the returned path.\<close>

fun witness_scan ::
    "field_ref \<Rightarrow> field_ref \<Rightarrow> field_ref \<Rightarrow> field_ref list \<Rightarrow> witness_state
     \<Rightarrow> field_ref list option + witness_state" where
  "witness_scan start next node [] st = Inr st"
| "witness_scan start next node (dependency # dependencies) st =
     (if dependency = start
      then Inl (map_option (\<lambda>path. start # path @ [start]) (trace_back (ws_parents st) next node []))
      else witness_scan start next node dependencies
        (if dependency |\<in>| ws_visited st then st
         else \<lparr>ws_queue = ws_queue st @ [dependency], ws_visited = finsert dependency (ws_visited st),
           ws_parents = bt_insert dependency node (ws_parents st)\<rparr>))"

definition pending_nodes :: "field_ref fset \<Rightarrow> witness_state \<Rightarrow> nat" where
  "pending_nodes members st = card (fset members - fset (ws_visited st)) + length (ws_queue st)"

lemma dependencies_members:
  "set (sorted_list_of_fset (formula_dependencies_within g node members)) \<subseteq> fset members"
  by (auto simp: in_formula_dependencies_within)

lemma pending_visit:
  assumes "dependency |\<in>| members"
  shows "pending_nodes members (if dependency |\<in>| ws_visited st then st
      else \<lparr>ws_queue = ws_queue st @ [dependency], ws_visited = finsert dependency (ws_visited st),
        ws_parents = P\<rparr>) = pending_nodes members st"
proof (cases "dependency |\<in>| ws_visited st")
  case False
  let ?M = "fset members" and ?V = "fset (ws_visited st)"
  have "?M - ?V - {dependency} = ?M - insert dependency ?V" by blast
  moreover have "dependency \<in> ?M - ?V" using assms False by simp
  ultimately have "card (?M - ?V) = Suc (card (?M - insert dependency ?V))"
    using card.remove [of "?M - ?V" dependency] by simp
  then show ?thesis using False by (simp add: pending_nodes_def)
qed simp

lemma witness_scan_pending:
  "witness_scan start next node dependencies st = Inr st' \<Longrightarrow> set dependencies \<subseteq> fset members \<Longrightarrow>
   pending_nodes members st' = pending_nodes members st"
proof (induction dependencies arbitrary: st)
  case (Cons dependency dependencies)
  let ?st = "if dependency |\<in>| ws_visited st then st
      else \<lparr>ws_queue = ws_queue st @ [dependency], ws_visited = finsert dependency (ws_visited st),
        ws_parents = bt_insert dependency node (ws_parents st)\<rparr>"
  have "witness_scan start next node dependencies ?st = Inr st'"
    using Cons.prems(1) by (cases "dependency = start") simp_all
  then have "pending_nodes members st' = pending_nodes members ?st" by (rule Cons.IH) (use Cons.prems(2) in simp)
  also have "\<dots> = pending_nodes members st" by (rule pending_visit) (use Cons.prems(2) in simp)
  finally show ?case .
qed simp

text \<open>The search is exhausted with \<open>Inr\<close>.\<close>

function witness_loop ::
    "dependency_graph \<Rightarrow> field_ref fset \<Rightarrow> field_ref \<Rightarrow> field_ref \<Rightarrow> witness_state
     \<Rightarrow> field_ref list option + unit" where
  "witness_loop g members start next st =
     (case ws_queue st of
        [] \<Rightarrow> Inr ()
      | node # queue \<Rightarrow>
          (case witness_scan start next node
               (sorted_list_of_fset (formula_dependencies_within g node members)) (st\<lparr>ws_queue := queue\<rparr>) of
             Inl found \<Rightarrow> Inl found
           | Inr st \<Rightarrow> witness_loop g members start next st))"
  by pat_completeness auto
termination
proof (relation "measure (\<lambda>(g, members, start, next, st). pending_nodes members st)", goal_cases)
  case (2 g members start stop st node queue st')
  from witness_scan_pending [OF 2(2) dependencies_members]
  show ?case using 2(1) by (simp add: pending_nodes_def)
qed simp

declare witness_loop.simps [simp del]

fun witness_from ::
    "bool \<Rightarrow> dependency_graph \<Rightarrow> field_ref fset \<Rightarrow> field_ref \<Rightarrow> field_ref list \<Rightarrow> field_ref list option" where
  "witness_from debug g members start [] =
     (if debug then None else Some (sorted_list_of_fset members @ [start]))"
| "witness_from debug g members start (next # outgoing) =
     (if next = start then Some [start, start]
      else case witness_loop g members start next
          \<lparr>ws_queue = [next], ws_visited = {|next|}, ws_parents = bt_empty\<rparr> of
        Inl found \<Rightarrow> found
      | Inr u \<Rightarrow> witness_from debug g members start outgoing)"

definition compatibility_cycle_witness ::
    "bool \<Rightarrow> dependency_graph \<Rightarrow> field_ref \<Rightarrow> field_ref fset \<Rightarrow> field_ref list option" where
  "compatibility_cycle_witness debug g selected members =
     Option.bind
       (if selected |\<in>| members then Some selected
        else case sorted_list_of_fset members of [] \<Rightarrow> None | m # ms \<Rightarrow> Some m)
       (\<lambda>start. witness_from debug g members start
          (sorted_list_of_fset (formula_dependencies_within g start members)))"

section \<open>The first error\<close>

fun find_failed :: "failure_map \<Rightarrow> field_ref list \<Rightarrow> (field_ref \<times> calculation_failure) option" where
  "find_failed failures [] = None"
| "find_failed failures (dependency # dependencies) =
     (case bt_get failures dependency of
        Some failure \<Rightarrow> Some (dependency, failure) | None \<Rightarrow> find_failed failures dependencies)"

lemma find_failed_get: "find_failed failures ds = Some (h, x) \<Longrightarrow> h \<in> set ds \<and> bt_get failures h = Some x"
  by (induction ds) (auto split: option.splits)

lemma find_failed_None: "find_failed failures ds = None \<longleftrightarrow> (\<forall>h\<in>set ds. bt_get failures h = None)"
  by (induction ds) (auto split: option.splits)

function compatibility_loop ::
    "bool \<Rightarrow> failure_map \<Rightarrow> dependency_graph \<Rightarrow> field_ref \<Rightarrow> calculation_failure \<Rightarrow> field_ref fset
     \<Rightarrow> calculation_error option" where
  "compatibility_loop debug failures g field failure visited =
     (if field |\<in>| visited then None
      else case failure of
        FailTypeMismatch \<Rightarrow> Some (ErrInvalidExpression field ''formula type mismatch'')
      | FailInvalidExpression error \<Rightarrow> Some (ErrInvalidExpression field (complexity_message error))
      | FailInvalidReferences targets \<Rightarrow>
          (case bt_entries targets of
             [] \<Rightarrow> None
           | (reference, RefMissing) # rest \<Rightarrow> Some (ErrMissingReference reference)
           | (reference, RefNonNumeric) # rest \<Rightarrow> Some (ErrNonNumericReference reference))
      | FailCycle members \<Rightarrow>
          map_option ErrCycle (compatibility_cycle_witness debug g field members)
      | FailDependencies dependencies \<Rightarrow>
          (case find_failed failures (sorted_list_of_fset dependencies) of
             None \<Rightarrow> Some (ErrMissingReference
               (case sorted_list_of_fset dependencies of [] \<Rightarrow> field | reference # rest \<Rightarrow> reference))
           | Some (dependency, failure) \<Rightarrow>
               compatibility_loop debug failures g dependency failure (finsert field visited))
      | FailEmptyAggregate \<Rightarrow> Some (ErrEmptyAggregate field)
      | FailDivisionByZero \<Rightarrow> Some (ErrDivisionByZero field)
      | FailNonFinite \<Rightarrow> Some (ErrNonFiniteResult field)
      | FailInvalidColumn columns \<Rightarrow>
          (case bt_entries columns of
             [] \<Rightarrow> None
           | (column, failure) # rest \<Rightarrow> Some (ErrInvalidColumn column (column_message failure))))"
  by pat_completeness auto
termination
proof (relation "measure (\<lambda>(debug, failures, g, field, failure, visited).
    card (insert field (set (bt_keys failures)) - fset visited))", goal_cases)
  case (2 debug failures g field failure visited dependencies found dependency failure')
  then have "bt_get failures dependency = Some failure'" using find_failed_get by metis
  then have "insert dependency (set (bt_keys failures)) - fset (finsert field visited)
      \<subset> insert field (set (bt_keys failures)) - fset visited"
    using 2(1) by (auto simp: set_bt_keys)
  then have "card (insert dependency (set (bt_keys failures)) - fset (finsert field visited))
      < card (insert field (set (bt_keys failures)) - fset visited)"
    by (intro psubset_card_mono) simp_all
  then show ?case by simp
qed simp

declare compatibility_loop.simps [simp del]

definition compatibility_error :: "bool \<Rightarrow> failure_map \<Rightarrow> dependency_graph \<Rightarrow> calculation_error option" where
  "compatibility_error debug failures g =
     (case bt_entries failures of
        [] \<Rightarrow> None
      | (field, failure) # rest \<Rightarrow> compatibility_loop debug failures g field failure {||})"

definition calculate ::
    "bool \<Rightarrow> (nat \<Rightarrow> nat list) \<Rightarrow> document
     \<Rightarrow> (calculation_error + (value_map \<times> dependency_graph)) option" where
  "calculate debug lower d =
     Option.bind (calculate_complete lower d) (\<lambda>outcome.
       case outcome of
         CalculationComplete vs g \<Rightarrow> Some (Inr (vs, g))
       | CalculationFailed failures g \<Rightarrow> map_option Inl (compatibility_error debug failures g))"

section \<open>The search finds a cycle\<close>

text \<open>Both properties are about the edges inside a set of members.\<close>

abbreviation inner_edges :: "dependency_graph \<Rightarrow> field_ref fset \<Rightarrow> (field_ref \<times> field_ref) set" where
  "inner_edges g members \<equiv> reads_within members g"

fun walk :: "('a \<times> 'a) set \<Rightarrow> 'a list \<Rightarrow> bool" where
  "walk E (x # y # zs) \<longleftrightarrow> (x, y) \<in> E \<and> walk E (y # zs)"
| "walk E xs \<longleftrightarrow> True"

inductive traced ::
    "(field_ref \<times> field_ref) set \<Rightarrow> (field_ref, field_ref) btree \<Rightarrow> field_ref \<Rightarrow> field_ref \<Rightarrow> field_ref list \<Rightarrow> bool"
  for E P root where
  traced_root: "traced E P root root [root]"
| traced_step: "traced E P root p path \<Longrightarrow> v \<notin> set path \<Longrightarrow> bt_get P v = Some p \<Longrightarrow> (p, v) \<in> E \<Longrightarrow>
    traced E P root v (path @ [v])"

lemma walk_snoc: "walk E (xs @ [v]) \<longleftrightarrow> walk E xs \<and> (xs = [] \<or> (last xs, v) \<in> E)"
  by (induction E xs rule: walk.induct) auto

lemma walk_Cons: "walk E (x # xs) \<longleftrightarrow> walk E xs \<and> (xs = [] \<or> (x, hd xs) \<in> E)"
  by (cases xs) auto

lemma traced_walk:
  "traced E P root v path \<Longrightarrow> path \<noteq> [] \<and> hd path = root \<and> last path = v \<and> distinct path \<and> walk E path"
  by (induction rule: traced.induct) (auto simp: walk_snoc)

lemma traced_back: "traced E P root v path \<Longrightarrow> trace_back P root v rest = Some (path @ rest)"
proof (induction arbitrary: rest rule: traced.induct)
  case traced_root
  then show ?case by (simp add: trace_back.simps)
next
  case (traced_step p path v)
  have "v \<noteq> root" using traced_walk [OF traced_step(1)] traced_step(2) hd_in_set by metis
  then show ?case using traced_step by (simp add: trace_back.simps [of P root v])
qed

lemma traced_mono:
  "traced E P root v path \<Longrightarrow> (\<And>k p. bt_get P k = Some p \<Longrightarrow> bt_get P' k = Some p) \<Longrightarrow> traced E P' root v path"
  by (induction rule: traced.induct) (auto intro: traced.intros)

definition search_ok :: "(field_ref \<times> field_ref) set \<Rightarrow> field_ref \<Rightarrow> field_ref \<Rightarrow> witness_state \<Rightarrow> bool" where
  "search_ok E start root st \<longleftrightarrow>
     root |\<in>| ws_visited st \<and> start |\<notin>| ws_visited st \<and> set (ws_queue st) \<subseteq> fset (ws_visited st) \<and>
     (\<forall>k. bt_get (ws_parents st) k \<noteq> None \<longrightarrow> k |\<in>| ws_visited st) \<and>
     (\<forall>v. v |\<in>| ws_visited st \<longrightarrow>
        (\<exists>path. traced E (ws_parents st) root v path \<and> set path \<subseteq> fset (ws_visited st)))"

definition cycle_path :: "(field_ref \<times> field_ref) set \<Rightarrow> field_ref \<Rightarrow> field_ref list \<Rightarrow> bool" where
  "cycle_path E start path \<longleftrightarrow>
     (\<exists>inner. path = start # inner @ [start] \<and> distinct (start # inner) \<and> walk E path)"

lemma search_visit:
  assumes ok: "search_ok E start root st" and node: "node |\<in>| ws_visited st"
    and dep: "(node, dep) \<in> E" "dep \<noteq> start" "dep |\<notin>| ws_visited st"
  shows "search_ok E start root \<lparr>ws_queue = ws_queue st @ [dep], ws_visited = finsert dep (ws_visited st),
    ws_parents = bt_insert dep node (ws_parents st)\<rparr>"
proof -
  have fresh: "bt_get (ws_parents st) dep = None" using ok dep(3) by (auto simp: search_ok_def)
  have keep: "bt_get (bt_insert dep node (ws_parents st)) k = Some p" if "bt_get (ws_parents st) k = Some p" for k p
    using that fresh by auto
  have old: "\<exists>path. traced E (bt_insert dep node (ws_parents st)) root v path \<and> set path \<subseteq> fset (ws_visited st)"
    if v: "v |\<in>| ws_visited st" for v
  proof -
    obtain path where path: "traced E (ws_parents st) root v path" "set path \<subseteq> fset (ws_visited st)"
      using ok v by (auto simp: search_ok_def)
    have "traced E (bt_insert dep node (ws_parents st)) root v path"
      by (rule traced_mono [OF path(1)]) (rule keep)
    then show ?thesis using path(2) by blast
  qed
  obtain path where path: "traced E (bt_insert dep node (ws_parents st)) root node path"
    "set path \<subseteq> fset (ws_visited st)" using old [OF node] by blast
  have "traced E (bt_insert dep node (ws_parents st)) root dep (path @ [dep])"
    by (rule traced_step [OF path(1)]) (use path(2) dep in auto)
  moreover have "set (path @ [dep]) \<subseteq> insert dep (fset (ws_visited st))" using path(2) by auto
  ultimately have new: "\<exists>path. traced E (bt_insert dep node (ws_parents st)) root dep path \<and>
      set path \<subseteq> insert dep (fset (ws_visited st))" by blast
  have "\<exists>path. traced E (bt_insert dep node (ws_parents st)) root v path \<and>
      set path \<subseteq> insert dep (fset (ws_visited st))" if "v = dep \<or> v |\<in>| ws_visited st" for v
    using that new old [of v] by blast
  then show ?thesis using ok dep by (auto simp: search_ok_def)
qed

lemma witness_scan_result:
  "search_ok E start root st \<Longrightarrow> node |\<in>| ws_visited st \<Longrightarrow> (start, root) \<in> E \<Longrightarrow>
   (\<And>dep. dep \<in> set deps \<Longrightarrow> (node, dep) \<in> E) \<Longrightarrow>
   (case witness_scan start root node deps st of
      Inl found \<Rightarrow> \<exists>path. found = Some path \<and> cycle_path E start path
    | Inr st' \<Rightarrow> start \<notin> set deps \<and> search_ok E start root st' \<and>
        fset (ws_visited st') = fset (ws_visited st) \<union> set deps \<and>
        fset (ws_visited st') - set (ws_queue st') \<subseteq> fset (ws_visited st) - set (ws_queue st))"
proof (induction deps arbitrary: st)
  case (Cons dep deps)
  show ?case
  proof (cases "dep = start")
    case True
    obtain path where path: "traced E (ws_parents st) root node path" "set path \<subseteq> fset (ws_visited st)"
      using Cons.prems(1,2) by (auto simp: search_ok_def)
    note w = traced_walk [OF path(1)]
    have "start \<notin> set path" using Cons.prems(1) path(2) by (auto simp: search_ok_def)
    then have "cycle_path E start (start # path @ [start])"
      using w Cons.prems(3,4) True by (auto simp: cycle_path_def walk_Cons walk_snoc hd_append)
    then show ?thesis using True traced_back [OF path(1), of "[]"] by simp
  next
    case False
    let ?st = "if dep |\<in>| ws_visited st then st
        else \<lparr>ws_queue = ws_queue st @ [dep], ws_visited = finsert dep (ws_visited st),
          ws_parents = bt_insert dep node (ws_parents st)\<rparr>"
    have ok: "search_ok E start root ?st"
      using Cons.prems(1) search_visit [OF Cons.prems(1,2) _ False, of] Cons.prems(4) by simp
    have visited: "fset (ws_visited ?st) = insert dep (fset (ws_visited st))"
      "fset (ws_visited ?st) - set (ws_queue ?st) \<subseteq> fset (ws_visited st) - set (ws_queue st)" by auto
    have "node |\<in>| ws_visited ?st" using Cons.prems(2) visited(1) by simp
    from Cons.IH [OF ok this Cons.prems(3)] Cons.prems(4)
    have step: "case witness_scan start root node deps ?st of
        Inl found \<Rightarrow> \<exists>path. found = Some path \<and> cycle_path E start path
      | Inr st' \<Rightarrow> start \<notin> set deps \<and> search_ok E start root st' \<and>
          fset (ws_visited st') = fset (ws_visited ?st) \<union> set deps \<and>
          fset (ws_visited st') - set (ws_queue st') \<subseteq> fset (ws_visited ?st) - set (ws_queue ?st)"
      by simp
    have "witness_scan start root node (dep # deps) st = witness_scan start root node deps ?st"
      using False by simp
    then show ?thesis
      using step visited False unfolding visited(1)
      by (auto simp del: witness_scan.simps split: sum.splits)
  qed
qed simp

lemma witness_loop_result:
  "search_ok (inner_edges g members) start root st \<Longrightarrow> fset (ws_visited st) \<subseteq> fset members \<Longrightarrow>
   (\<And>v h. v |\<in>| ws_visited st \<Longrightarrow> v \<notin> set (ws_queue st) \<Longrightarrow> (v, h) \<in> inner_edges g members \<Longrightarrow>
      h \<noteq> start \<and> h |\<in>| ws_visited st) \<Longrightarrow>
   (start, root) \<in> inner_edges g members \<Longrightarrow> (root, start) \<in> (inner_edges g members)\<^sup>* \<Longrightarrow>
   \<exists>path. witness_loop g members start root st = Inl (Some path) \<and> cycle_path (inner_edges g members) start path"
proof (induction g members start root st rule: witness_loop.induct)
  case (1 g members start root st)
  let ?E = "inner_edges g members"
  show ?case
  proof (cases "ws_queue st")
    case Nil
    have "v |\<in>| ws_visited st" if "(root, v) \<in> ?E\<^sup>*" for v
      using that
    proof (induction rule: rtrancl_induct)
      case base
      then show ?case using 1(2) by (simp add: search_ok_def)
    next
      case (step v h)
      then show ?case using 1(4) [of v h] Nil by simp
    qed
    then have "start |\<in>| ws_visited st" using 1(6) by blast
    then show ?thesis using 1(2) by (simp add: search_ok_def)
  next
    case (Cons node queue)
    let ?deps = "sorted_list_of_fset (formula_dependencies_within g node members)"
    let ?st = "st\<lparr>ws_queue := queue\<rparr>"
    have ok: "search_ok ?E start root ?st" using 1(2) Cons by (simp add: search_ok_def)
    have node: "node |\<in>| ws_visited ?st" using 1(2) Cons by (simp add: search_ok_def)
    then have member: "node |\<in>| members" using 1(3) by auto
    have deps: "h \<in> set ?deps \<longleftrightarrow> (node, h) \<in> ?E" for h
      using member by (simp add: reads_within_def)
    from witness_scan_result [OF ok node 1(5), of ?deps] deps
    have scan: "case witness_scan start root node ?deps ?st of
        Inl found \<Rightarrow> \<exists>path. found = Some path \<and> cycle_path ?E start path
      | Inr st' \<Rightarrow> start \<notin> set ?deps \<and> search_ok ?E start root st' \<and>
          fset (ws_visited st') = fset (ws_visited ?st) \<union> set ?deps \<and>
          fset (ws_visited st') - set (ws_queue st') \<subseteq> fset (ws_visited ?st) - set (ws_queue ?st)"
      by blast
    show ?thesis
    proof (cases "witness_scan start root node ?deps ?st")
      case (Inl found)
      then show ?thesis using scan Cons by (simp add: witness_loop.simps [of g members start root st])
    next
      case (Inr st')
      have visited: "fset (ws_visited st') = fset (ws_visited st) \<union> set ?deps" using scan Inr by simp
      have "fset (ws_visited st') - set (ws_queue st') \<subseteq> fset (ws_visited ?st) - set (ws_queue ?st)"
        using scan unfolding Inr sum.case by blast
      then have left: "fset (ws_visited st') - set (ws_queue st') \<subseteq> fset (ws_visited st) - set queue" by simp
      have start: "start \<notin> set ?deps" using scan Inr by simp
      have "\<exists>path. witness_loop g members start root st' = Inl (Some path) \<and> cycle_path ?E start path"
      proof (rule 1(1) [OF Cons Inr])
        show "search_ok ?E start root st'" using scan Inr by simp
        show "fset (ws_visited st') \<subseteq> fset members"
          using 1(3) dependencies_members [of g node members] unfolding visited by blast
        show "h \<noteq> start \<and> h |\<in>| ws_visited st'"
          if v: "v |\<in>| ws_visited st'" "v \<notin> set (ws_queue st')" and e: "(v, h) \<in> ?E" for v h
        proof (cases "v = node")
          case True
          then show ?thesis using deps [of h] e start visited by auto
        next
          case False
          have "v |\<in>| ws_visited st" "v \<notin> set (ws_queue st)" using left v False Cons by auto
          then show ?thesis using 1(4) [OF _ _ e] visited by auto
        qed
      qed (rule 1(5,6))+
      then show ?thesis using Cons Inr by (simp add: witness_loop.simps [of g members start root st])
    qed
  qed
qed

lemma cycle_witness_path:
  assumes "selected |\<in>| members"
    and "\<forall>m\<in>fset members. (selected, m) \<in> (reads_within members g)\<^sup>+ \<and> (m, selected) \<in> (reads_within members g)\<^sup>+"
  shows "\<exists>path. compatibility_cycle_witness debug g selected members = Some path \<and>
    cycle_path (reads_within members g) selected path"
proof -
  let ?E = "inner_edges g members"
  let ?deps = "sorted_list_of_fset (formula_dependencies_within g selected members)"
  have deps: "h \<in> set ?deps \<longleftrightarrow> (selected, h) \<in> ?E" for h
    using assms(1) by (simp add: reads_within_def)
  have "(selected, selected) \<in> ?E\<^sup>+" using assms by blast
  then obtain h where "(selected, h) \<in> ?E" by (meson tranclD)
  then obtain root rest where outgoing: "?deps = root # rest" using deps by (cases ?deps) auto
  have edge: "(selected, root) \<in> ?E" using deps [of root] outgoing by simp
  have member: "root |\<in>| members" using dependencies_members [of g selected members] outgoing by simp
  show ?thesis
  proof (cases "root = selected")
    case True
    have "cycle_path ?E selected [selected, selected]"
      unfolding cycle_path_def using edge True by (intro exI [of _ "[]"]) simp
    then show ?thesis using assms(1) True by (simp add: compatibility_cycle_witness_def outgoing)
  next
    case False
    let ?st = "\<lparr>ws_queue = [root], ws_visited = {|root|}, ws_parents = bt_empty\<rparr>"
    have "search_ok ?E selected root ?st"
      using False by (auto simp: search_ok_def intro: traced_root)
    moreover have "(root, selected) \<in> ?E\<^sup>*" using assms(2) member by (simp add: trancl_into_rtrancl)
    ultimately obtain path where "witness_loop g members selected root ?st = Inl (Some path)"
      "cycle_path ?E selected path"
      using witness_loop_result [where st = ?st, OF _ _ _ edge] member by auto
    then show ?thesis using assms(1) False by (simp add: compatibility_cycle_witness_def outgoing)
  qed
qed

section \<open>What an evaluation can fail with\<close>

definition only_fails :: "('e \<Rightarrow> bool) \<Rightarrow> 'e + 'a \<Rightarrow> bool" where
  "only_fails P r \<longleftrightarrow> (\<forall>x. r = Inl x \<longrightarrow> P x)"

lemma only_fails_Inr [simp]: "only_fails P (Inr v)"
  by (simp add: only_fails_def)

lemma only_fails_Inl [simp]: "only_fails P (Inl x) \<longleftrightarrow> P x"
  by (simp add: only_fails_def)

lemma only_fails_and_then: "only_fails P r \<Longrightarrow> (\<And>v. r = Inr v \<Longrightarrow> only_fails P (f v)) \<Longrightarrow> only_fails P (and_then r f)"
  by (cases r) simp_all

lemma only_fails_map_err: "(\<And>x. P (f x)) \<Longrightarrow> only_fails P (map_err f r)"
  by (cases r) simp_all

definition evaluation_failure :: "evaluation \<Rightarrow> calculation_failure \<Rightarrow> bool" where
  "evaluation_failure ev x \<longleftrightarrow>
     x \<in> {FailTypeMismatch, FailDivisionByZero, FailEmptyAggregate, FailNonFinite} \<or>
     (\<exists>r. x = FailDependencies {|r|} \<and> bt_get (ev_values ev) r = None)"

abbreviation evaluates :: "evaluation \<Rightarrow> calculation_failure + 'a \<Rightarrow> bool" where
  "evaluates ev \<equiv> only_fails (evaluation_failure ev)"

lemma evaluation_failures [simp]:
  "evaluation_failure ev FailTypeMismatch" "evaluation_failure ev FailDivisionByZero"
  "evaluation_failure ev FailEmptyAggregate" "evaluation_failure ev FailNonFinite"
  "bt_get (ev_values ev) r = None \<Longrightarrow> evaluation_failure ev (missing_value r)"
  by (auto simp: evaluation_failure_def missing_value_def)

lemma number_result_evaluates [simp]: "evaluates ev (number_result v)"
  unfolding number_result_def by (rule only_fails_map_err) simp

lemma read_reference_evaluates: "evaluates ev (read_reference ev r)"
  by (simp add: read_reference_def split: option.split)

definition missing_unset :: "value_map \<Rightarrow> column_values \<Rightarrow> bool" where
  "missing_unset V cv \<longleftrightarrow> (case cv_first_missing cv of None \<Rightarrow> True | Some r \<Rightarrow> bt_get V r = None)"

lemma read_cell_missing: "missing_unset V cv \<Longrightarrow> missing_unset V (read_cell V F cv r)"
  by (cases "bt_get V r") (simp_all add: missing_unset_def read_cell_def Let_def)

lemma read_cells_missing: "missing_unset V cv \<Longrightarrow> missing_unset V (foldl (read_cell V F) cv rs)"
  by (induction rs arbitrary: cv) (simp_all add: read_cell_missing)

lemma first_missing_value:
  "cv_first_missing (column_now ev c) = Some r \<Longrightarrow> bt_get (ev_values ev) r = None"
proof -
  have "missing_unset (ev_values ev) (column_now ev c)"
    unfolding column_now_def read_column_def by (rule read_cells_missing) (simp add: missing_unset_def)
  then show "cv_first_missing (column_now ev c) = Some r \<Longrightarrow> bt_get (ev_values ev) r = None"
    by (simp add: missing_unset_def)
qed

lemma column_evaluates:
  "evaluates ev (total_of (column_now ev c))" "evaluates ev (aggregate_of g (column_now ev c))"
  using first_missing_value [of ev c]
  by (simp_all add: total_of_def aggregate_of_def split: option.split)

lemma criterion_cell_evaluates: "evaluates ev (Evaluation.criterion_cell ev e field)"
  by (simp add: Evaluation.criterion_cell_def Let_def split: option.split val.split)

lemma row_matches_evaluates: "evaluates ev (row_matches ev tests e)"
proof (induction ev tests e rule: row_matches.induct)
  case (2 ev c t rest e)
  then show ?case
    by (simp only: row_matches.simps) (rule only_fails_and_then [OF criterion_cell_evaluates], simp)
qed simp

lemma conditional_row_evaluates: "evaluates ev (conditional_row ev a criteria tests e collected)"
  unfolding conditional_row_def
  by (rule only_fails_and_then [OF row_matches_evaluates])
    (simp add: Let_def split: list.split option.split)

lemma conditional_rows_evaluates:
  "(\<And>e collected. only_fails P (row e collected)) \<Longrightarrow> only_fails P (conditional_rows row es n collected)"
proof (induction row es n collected rule: conditional_rows.induct)
  case (2 row e es n collected)
  show ?case
    unfolding conditional_rows.simps
    by (rule only_fails_and_then [OF 2(2)]) (use 2 in \<open>simp split: prod.split\<close>)
qed simp

lemma plain_conditional_evaluates: "evaluates ev (plain_conditional ev a criteria tests)"
  unfolding plain_conditional_def
  by (rule only_fails_and_then [OF conditional_rows_evaluates [OF conditional_row_evaluates]])
    (simp add: conditional_result_def split: prod.split conditional_aggregate.split)

lemma plain_round_evaluates: "evaluates ev (plain_round digits n)"
  unfolding plain_round_def
  by (simp add: only_fails_map_err round_failure_def split: option.split numeric_failure.split)

lemma plain_binary_evaluates:
  "evaluates ev l \<Longrightarrow> evaluates ev r \<Longrightarrow> (\<And>x y. evaluates ev (f x y)) \<Longrightarrow> evaluates ev (plain_binary f l r)"
  unfolding plain_binary_def by (intro only_fails_and_then)

lemma reference_test_evaluates: "evaluates ev (reference_criterion_test ev r)"
  by (simp add: reference_criterion_test_def Let_def only_fails_map_err split: option.split val.split)

lemma is_blank_evaluates: "evaluates ev (is_blank ev v)"
  by (simp add: is_blank_def Let_def split: expression.split)

lemma divide_evaluates: "evaluates ev (divide x y)"
  by (simp add: divide_def)

lemma plain_test_evaluates:
  "(\<And>x. cc_value c = Some x \<Longrightarrow> evaluates ev (plain_number ev x)) \<Longrightarrow> evaluates ev (plain_test ev c)"
proof (cases c)
  case c: (ColumnCriterion col p v)
  assume number: "\<And>x. cc_value c = Some x \<Longrightarrow> evaluates ev (plain_number ev x)"
  show ?thesis
  proof (cases v)
    case None
    then show ?thesis by (simp add: c)
  next
    case (Some x)
    then have "evaluates ev (plain_number ev x)" using number c by simp
    then have "evaluates ev (and_then (plain_number ev x) (\<lambda>n. Inr (equal_number (number_get n)) :: calculation_failure + criterion_test))"
      by (rule only_fails_and_then) simp
    then show ?thesis
      by (cases x) (simp_all add: c Some reference_test_evaluates del: plain_number.simps)
  qed
qed

lemma plain_tests_evaluates:
  "(\<And>c. c \<in> set cs \<Longrightarrow> evaluates ev (plain_test ev c)) \<Longrightarrow> evaluates ev (plain_tests ev cs)"
proof (induction cs)
  case (Cons c cs)
  have "evaluates ev (plain_test ev c)" "evaluates ev (plain_tests ev cs)" using Cons by simp_all
  then show ?case unfolding plain_tests.simps by (intro only_fails_and_then) simp_all
qed simp

lemma plain_conditions_evaluates:
  "(\<And>x. x \<in> set xs \<Longrightarrow> evaluates ev (plain_condition ev x)) \<Longrightarrow> evaluates ev (plain_conditions ev both xs b)"
proof (induction xs arbitrary: b)
  case (Cons x xs)
  have "evaluates ev (plain_condition ev x)" using Cons.prems by simp
  moreover have "evaluates ev (plain_conditions ev both xs b)" for b
    by (rule Cons.IH) (simp add: Cons.prems)
  ultimately show ?case unfolding plain_conditions.simps by (intro only_fails_and_then)
qed simp

lemma plain_evaluates: "evaluates ev (plain_number ev e) \<and> evaluates ev (plain_condition ev e)"
proof (induction e rule: expression_induct)
  case (node e)
  have IH: "evaluates ev (plain_number ev c)" "evaluates ev (plain_condition ev c)"
    if "c \<in> set (children e)" for c
    using node.IH [OF that] by blast+
  note rules = only_fails_and_then plain_binary_evaluates plain_conditional_evaluates plain_round_evaluates
      read_reference_evaluates is_blank_evaluates divide_evaluates column_evaluates
  show ?case
  proof (cases e)
    case (EColumnConditional a cs)
    have "evaluates ev (plain_tests ev cs)"
    proof (rule plain_tests_evaluates, rule plain_test_evaluates)
      fix c x
      assume "c \<in> set cs" "cc_value c = Some x"
      then have "x \<in> set (children e)" using EColumnConditional by (auto simp: in_criterion_values)
      then show "evaluates ev (plain_number ev x)" by (rule IH)
    qed
    then have "evaluates ev (and_then (plain_tests ev cs) (plain_conditional ev a cs))"
      by (rule only_fails_and_then) (rule plain_conditional_evaluates)
    then show ?thesis by (simp add: EColumnConditional)
  next
    case (EAnd xs)
    then show ?thesis using IH by (simp add: plain_conditions_evaluates)
  next
    case (EOr xs)
    then show ?thesis using IH by (simp add: plain_conditions_evaluates)
  next
    case (EIf b t f)
    then show ?thesis using IH by (simp add: only_fails_and_then)
  qed (use IH in \<open>simp_all add: rules\<close>)
qed

section \<open>The failures of a solved calculation\<close>

text \<open>Where a failure comes from: a check, a cycle, or the evaluation of a formula on no cycle.\<close>

definition checked_failure :: "calculation_failure \<Rightarrow> bool" where
  "checked_failure x \<longleftrightarrow>
     (case x of
        FailTypeMismatch \<Rightarrow> True
      | FailInvalidExpression error \<Rightarrow> True
      | FailInvalidReferences targets \<Rightarrow> targets \<noteq> bt_empty
      | FailInvalidColumn columns \<Rightarrow> columns \<noteq> bt_empty
      | _ \<Rightarrow> False)"

lemma pre_failure_checked: "pre_failure d f v = Some x \<Longrightarrow> checked_failure x"
  by (auto simp: pre_failure_def or_else_def formula_failure_def structure_failure_def
      column_formula_failure_def checked_failure_def split: option.splits sum.splits if_splits)

text \<open>The failed dependencies of a formula are failed formulas it reads, or one that has no outcome.\<close>

definition evaluated_failure ::
    "document \<Rightarrow> failure_map \<Rightarrow> field_ref \<Rightarrow> calculation_failure \<Rightarrow> bool" where
  "evaluated_failure d F f x \<longleftrightarrow>
     (case x of
        FailDependencies ds \<Rightarrow>
          ds \<noteq> {||} \<and>
          (\<forall>h. h |\<in>| ds \<longrightarrow> bt_get F h \<noteq> None \<longrightarrow> eligible d h \<longrightarrow> (f, h) \<in> awaits d) \<and>
          ((\<forall>h. h |\<in>| ds \<longrightarrow> bt_get F h = None) \<longrightarrow> (\<exists>r. ds = {|r|} \<and> calculation_value d r = None))
      | _ \<Rightarrow> x \<in> {FailTypeMismatch, FailDivisionByZero, FailEmptyAggregate, FailNonFinite})"

lemma failed_required_dependencies:
  assumes "h |\<in>| failed_required (owned lower d f V) F e"
  shows "h |\<in>| extract_dependencies d f e"
proof -
  have "h \<in> set (required (owned lower d f V) F e)"
    using assms by (simp add: failed_required_def fset_of_list.rep_eq)
  then have "h \<in> refs_of f e \<or> (\<exists>c\<in>columns_of e. h \<in> set (column_cells d c))"
    using required_read [of "owned lower d f V" F e] by auto
  then show ?thesis unfolding dependency_cases using column_cells_slots by blast
qed

lemma missing_dependency:
  assumes ids: "store_ids_ok d" and e: "one_table e"
    and fails: "plain_number (owned lower d f V) e = Inl (FailDependencies {|r|})"
  shows "r |\<in>| extract_dependencies d f e"
proof (rule ccontr)
  assume r: "\<not> r |\<in>| extract_dependencies d f e"
  let ?V = "bt_insert r (Number f64_zero) V"
  have "agrees (owned lower d f V) bt_empty (owned lower d f ?V) bt_empty e"
    by (rule agrees_dependencies [OF ids e]) (use r in auto)
  then have "plain_number (owned lower d f ?V) e = Inl (FailDependencies {|r|})"
    using plain_agrees fails by metis
  then have "evaluation_failure (owned lower d f ?V) (FailDependencies {|r|})"
    using plain_evaluates [of "owned lower d f ?V" e] by (simp add: only_fails_def)
  then show False by (simp add: evaluation_failure_def)
qed

lemma solved_failure:
  assumes ids: "store_ids_ok d" and tables: "tables_ok d" and solves: "solves lower d F V"
    and x: "bt_get F f = Some x"
  shows "checked_failure x \<or>
    (\<exists>m. x = FailCycle m \<and> fset m = mates (awaits d) f \<and> (f, f) \<in> (awaits d)\<^sup>+) \<or>
    (eligible d f \<and> (f, f) \<notin> (awaits d)\<^sup>+ \<and> evaluated_failure d F f x)"
proof -
  have at: "node_solved lower d (awaits d) F V g" for g using solves by (simp add: solves_def)
  obtain v where v: "calculation_value d f = Some v"
    using at [of f] x by (auto simp: node_solved_def split: option.splits)
  show ?thesis
  proof (cases "pre_failure d f v")
    case (Some y)
    then show ?thesis using at [of f] v x pre_failure_checked by (simp add: node_solved_def)
  next
    case None
    then obtain e where e: "v = VFormula e" "formula_at d f = Some e"
      using calculation_value_cases [OF v] at [of f] v x by (auto simp: node_solved_def)
    have eligible: "eligible d f" using None e by (simp add: eligible_def)
    show ?thesis
    proof (cases "(f, f) \<in> (awaits d)\<^sup>+")
      case True
      then show ?thesis using at [of f] v None e(1) x by (auto simp: node_solved_def)
    next
      case False
      let ?ev = "owned lower d f V" and ?refs = "failed_required (owned lower d f V) F e"
      have "solved_at lower d F V f e" using at [of f] v None e(1) False by (simp add: node_solved_def)
      then have o: "formula_outcome ?ev F e = Inl x"
        using x by (auto simp: solved_at_def split: sum.splits)
      have reads: "(f, h) \<in> awaits d" if "h |\<in>| extract_dependencies d f e" "eligible d h" for h
        using that eligible e(2) by (auto simp: awaits_def)
      have "evaluated_failure d F f x"
      proof (cases "?refs = {||}")
        case True
        then have p: "plain_number ?ev e = Inl x" using o by (simp add: formula_outcome_def)
        then have "evaluation_failure ?ev x" using plain_evaluates [of ?ev e] by (simp add: only_fails_def)
        then consider "x \<in> {FailTypeMismatch, FailDivisionByZero, FailEmptyAggregate, FailNonFinite}"
          | r where "x = FailDependencies {|r|}" "bt_get V r = None" by (auto simp: evaluation_failure_def)
        then show ?thesis
        proof cases
          case 1
          then show ?thesis by (auto simp: evaluated_failure_def)
        next
          case (2 r)
          have "r |\<in>| extract_dependencies d f e"
            using missing_dependency [OF ids tables_okD [OF tables e(2)]] p unfolding 2(1) .
          moreover have "calculation_value d r = None" if "bt_get F r = None"
            using node_solved_once [OF at [of r]] that 2(2) by blast
          ultimately show ?thesis using reads [of r] by (simp add: evaluated_failure_def 2(1))
        qed
      next
        case False
        then have xr: "x = FailDependencies ?refs" using o by (simp add: formula_outcome_def)
        have failed: "bt_get F h \<noteq> None" if "h |\<in>| ?refs" for h
          using that by (auto simp: failed_required_def bt_contains_def fset_of_list.rep_eq)
        obtain h where "h |\<in>| ?refs" using False by blast
        then have "\<not> (\<forall>h. h |\<in>| ?refs \<longrightarrow> bt_get F h = None)" using failed by blast
        then show ?thesis
          using reads failed_required_dependencies False unfolding xr by (auto simp: evaluated_failure_def)
      qed
      then show ?thesis using eligible False by blast
    qed
  qed
qed

section \<open>The error of a failed calculation\<close>

text \<open>A formula that failed for its dependencies points to the first of them that failed.\<close>

definition blames :: "failure_map \<Rightarrow> (field_ref \<times> field_ref) set" where
  "blames F = {(f, h). \<exists>ds. bt_get F f = Some (FailDependencies ds) \<and> h |\<in>| ds \<and> bt_get F h \<noteq> None \<and>
     (\<forall>k. k |\<in>| ds \<longrightarrow> bt_get F k \<noteq> None \<longrightarrow> h \<le> k)}"

definition explains :: "document \<Rightarrow> field_ref \<Rightarrow> calculation_failure \<Rightarrow> calculation_error \<Rightarrow> bool" where
  "explains d f x err \<longleftrightarrow>
     (case x of
        FailTypeMismatch \<Rightarrow> err = ErrInvalidExpression f ''formula type mismatch''
      | FailInvalidExpression error \<Rightarrow> err = ErrInvalidExpression f (complexity_message error)
      | FailInvalidReferences targets \<Rightarrow>
          (\<exists>r. bt_get targets r = Some RefMissing \<and> err = ErrMissingReference r \<or>
               bt_get targets r = Some RefNonNumeric \<and> err = ErrNonNumericReference r)
      | FailCycle members \<Rightarrow>
          (\<exists>path. err = ErrCycle path \<and> cycle_path (awaits d \<inter> fset members \<times> fset members) f path)
      | FailDependencies ds \<Rightarrow> (\<exists>r. ds = {|r|} \<and> calculation_value d r = None \<and> err = ErrMissingReference r)
      | FailDivisionByZero \<Rightarrow> err = ErrDivisionByZero f
      | FailEmptyAggregate \<Rightarrow> err = ErrEmptyAggregate f
      | FailNonFinite \<Rightarrow> err = ErrNonFiniteResult f
      | FailInvalidColumn columns \<Rightarrow>
          (\<exists>c y. bt_get columns c = Some y \<and> err = ErrInvalidColumn c (column_message y)))"

lemma strict_sorted_fset: "sorted_wrt (<) (sorted_list_of_fset s)"
  by (simp add: sorted_list_of_fset.rep_eq)

lemma find_failed_least:
  "sorted_wrt (<) ds \<Longrightarrow> find_failed F ds = Some (h, x) \<Longrightarrow>
   h \<in> set ds \<and> bt_get F h = Some x \<and> (\<forall>k\<in>set ds. bt_get F k \<noteq> None \<longrightarrow> h \<le> k)"
  by (induction ds) (auto split: option.splits simp: less_imp_le)

lemma bt_first:
  assumes "m \<noteq> bt_empty"
  obtains k v rest where "bt_entries m = (k, v) # rest"
proof (cases "bt_entries m")
  case Nil
  then have "m = bt_empty" by (intro bt_entries_inject [THEN iffD1]) (simp add: bt_eval)
  then show thesis using assms by simp
next
  case (Cons kv rest)
  then show thesis using that by (cases kv) simp
qed

lemma mates_path:
  assumes "(x, y) \<in> E\<^sup>+" "x \<in> mates E f" "y \<in> mates E f"
  shows "(x, y) \<in> (E \<inter> mates E f \<times> mates E f)\<^sup>+"
  using assms
proof (induction rule: converse_trancl_induct)
  case (base x)
  then show ?case by blast
next
  case (step x z)
  have "(f, x) \<in> E\<^sup>+" "(y, f) \<in> E\<^sup>+" using step.prems by (auto simp: mates_def)
  then have z: "z \<in> mates E f" using step.hyps by (auto simp: mates_def intro: trancl_trans)
  then have "(x, z) \<in> E \<inter> mates E f \<times> mates E f" using step by blast
  then show ?case using step.IH [OF z] step.prems by (meson trancl_into_trancl2)
qed

lemma cycle_of_solution:
  assumes g: "graph_of d g" and m: "fset m = mates (awaits d) f" "(f, f) \<in> (awaits d)\<^sup>+"
  obtains path where "compatibility_cycle_witness debug g f m = Some path"
    "cycle_path (awaits d \<inter> fset m \<times> fset m) f path"
proof -
  have "h \<in> Collect (eligible d)" if "(f, h) \<in> (awaits d)\<^sup>+" for h
    using that by (induction rule: trancl_induct) (auto simp: awaits_def)
  then have "fset m \<subseteq> Collect (eligible d)" using m(1) by (auto simp: mates_def)
  note E = reads_within_awaits [OF g this]
  have f: "f \<in> mates (awaits d) f" using m(2) by (simp add: mates_def)
  have "(f, h) \<in> (reads_within m g)\<^sup>+ \<and> (h, f) \<in> (reads_within m g)\<^sup>+" if "h \<in> fset m" for h
  proof -
    have h: "h \<in> mates (awaits d) f" using that m(1) by simp
    then have "(f, h) \<in> (awaits d)\<^sup>+" "(h, f) \<in> (awaits d)\<^sup>+" by (simp_all add: mates_def)
    then show ?thesis using mates_path [OF _ f h] mates_path [OF _ h f] unfolding E m(1) by blast
  qed
  then obtain path where "compatibility_cycle_witness debug g f m = Some path" "cycle_path (reads_within m g) f path"
    using cycle_witness_path [of f m g debug] f m(1) by blast
  then show thesis using that unfolding E by blast
qed

text \<open>The walk along the failed dependencies reaches each node once.\<close>

definition is_dependency_failure :: "calculation_failure \<Rightarrow> bool" where
  "is_dependency_failure x \<longleftrightarrow> (\<exists>ds. x = FailDependencies ds)"

lemma compatibility_loop_result:
  assumes ids: "store_ids_ok d" and tables: "tables_ok d"
  shows "solves lower d F V \<Longrightarrow> graph_of d g \<Longrightarrow> bt_get F field = Some failure \<Longrightarrow>
    (\<And>v. v |\<in>| visited \<Longrightarrow> \<exists>y. bt_get F v = Some y \<and> is_dependency_failure y) \<Longrightarrow>
    (\<And>v. v |\<in>| visited \<Longrightarrow> is_dependency_failure failure \<Longrightarrow> (v, field) \<in> (awaits d)\<^sup>+) \<Longrightarrow>
    \<exists>err f x. compatibility_loop debug F g field failure visited = Some err \<and>
      (field, f) \<in> (blames F)\<^sup>* \<and> bt_get F f = Some x \<and> explains d f x err"
proof (induction debug F g field failure visited rule: compatibility_loop.induct)
  case (1 debug F g field failure visited)
  note solves = 1(2) and g = 1(3) and failure = 1(4) and visited = 1(5,6)
  note source = solved_failure [OF ids tables solves]
  have acyclic: "eligible d f \<and> (f, f) \<notin> (awaits d)\<^sup>+ \<and> evaluated_failure d F f y"
    if "bt_get F f = Some y" "is_dependency_failure y" for f y
    using source [OF that(1)] that(2) by (auto simp: is_dependency_failure_def checked_failure_def)
  have new: "field |\<notin>| visited"
  proof
    assume old: "field |\<in>| visited"
    then have "is_dependency_failure failure" using visited(1) [of field] failure by auto
    then show False using acyclic [OF failure] visited(2) [OF old] by blast
  qed
  have here: ?case
    if "compatibility_loop debug F g field failure visited = Some err" "explains d field failure err" for err
    using that failure by blast
  note step = compatibility_loop.simps [of debug F g field failure visited]
  show ?case
  proof (cases failure)
    case (FailInvalidReferences targets)
    have "targets \<noteq> bt_empty"
      using source [OF failure] FailInvalidReferences by (auto simp: checked_failure_def evaluated_failure_def)
    then obtain r y rest where entries: "bt_entries targets = (r, y) # rest" by (rule bt_first)
    then have get: "bt_get targets r = Some y" by (simp add: bt_entries_iff [symmetric])
    show ?thesis
    proof (cases y)
      case RefMissing
      have "compatibility_loop debug F g field failure visited = Some (ErrMissingReference r)"
        unfolding step by (simp add: new FailInvalidReferences entries RefMissing)
      then show ?thesis by (rule here) (use get in \<open>simp add: FailInvalidReferences explains_def RefMissing\<close>)
    next
      case RefNonNumeric
      have "compatibility_loop debug F g field failure visited = Some (ErrNonNumericReference r)"
        unfolding step by (simp add: new FailInvalidReferences entries RefNonNumeric)
      then show ?thesis by (rule here) (use get in \<open>simp add: FailInvalidReferences explains_def RefNonNumeric\<close>)
    qed
  next
    case (FailInvalidColumn columns)
    have "columns \<noteq> bt_empty"
      using source [OF failure] FailInvalidColumn by (auto simp: checked_failure_def evaluated_failure_def)
    then obtain c y rest where entries: "bt_entries columns = (c, y) # rest" by (rule bt_first)
    then have get: "bt_get columns c = Some y" by (simp add: bt_entries_iff [symmetric])
    have "compatibility_loop debug F g field failure visited = Some (ErrInvalidColumn c (column_message y))"
      unfolding step by (simp add: new FailInvalidColumn entries)
    then show ?thesis by (rule here) (use get in \<open>auto simp: FailInvalidColumn explains_def\<close>)
  next
    case (FailCycle m)
    have m: "fset m = mates (awaits d) field" "(field, field) \<in> (awaits d)\<^sup>+"
      using source [OF failure] FailCycle by (auto simp: checked_failure_def evaluated_failure_def)
    obtain path where path: "compatibility_cycle_witness debug g field m = Some path"
      "cycle_path (awaits d \<inter> fset m \<times> fset m) field path"
      by (rule cycle_of_solution [OF g m])
    have "compatibility_loop debug F g field failure visited = Some (ErrCycle path)"
      unfolding step by (simp add: new FailCycle path(1))
    then show ?thesis by (rule here) (use path(2) in \<open>simp add: FailCycle explains_def\<close>)
  next
    case (FailDependencies ds)
    have dep: "is_dependency_failure failure" using FailDependencies by (simp add: is_dependency_failure_def)
    have e: "evaluated_failure d F field (FailDependencies ds)" using acyclic [OF failure dep] FailDependencies by simp
    show ?thesis
    proof (cases "find_failed F (sorted_list_of_fset ds)")
      case None
      then have "\<forall>h. h |\<in>| ds \<longrightarrow> bt_get F h = None" by (simp add: find_failed_None)
      then obtain r where r: "ds = {|r|}" "calculation_value d r = None" using e by (auto simp: evaluated_failure_def)
      have "compatibility_loop debug F g field failure visited = Some (ErrMissingReference r)"
        unfolding step by (simp add: new FailDependencies None) (simp add: r(1) sorted_list_of_fset.rep_eq)
      then show ?thesis by (rule here) (use r in \<open>simp add: FailDependencies explains_def\<close>)
    next
      case (Some z)
      obtain h y where z: "find_failed F (sorted_list_of_fset ds) = Some (h, y)" using Some by (cases z) simp
      have least: "h |\<in>| ds" "bt_get F h = Some y" "\<forall>k. k |\<in>| ds \<longrightarrow> bt_get F k \<noteq> None \<longrightarrow> h \<le> k"
        using find_failed_least [OF strict_sorted_fset z] by simp_all
      have blame: "(field, h) \<in> blames F" using least failure by (auto simp: blames_def FailDependencies)
      have edge: "(field, h) \<in> awaits d" if "is_dependency_failure y"
        using e least(1,2) acyclic [OF least(2) that] by (auto simp: evaluated_failure_def)
      have "\<exists>err f x. compatibility_loop debug F g h y (finsert field visited) = Some err \<and>
          (h, f) \<in> (blames F)\<^sup>* \<and> bt_get F f = Some x \<and> explains d f x err"
      proof (rule 1(1) [OF new FailDependencies z refl solves g least(2)])
        show "\<exists>y. bt_get F v = Some y \<and> is_dependency_failure y" if "v |\<in>| finsert field visited" for v
          using that visited(1) failure dep by auto
        show "(v, h) \<in> (awaits d)\<^sup>+" if "v |\<in>| finsert field visited" "is_dependency_failure y" for v
          using that visited(2) [OF _ dep] edge by (auto intro: trancl_into_trancl)
      qed
      moreover have "compatibility_loop debug F g field failure visited =
          compatibility_loop debug F g h y (finsert field visited)"
        unfolding step by (simp add: new FailDependencies z)
      ultimately show ?thesis using blame by (metis converse_rtrancl_into_rtrancl)
    qed
  qed (rule here, subst step, simp add: new, simp add: explains_def)+
qed

section \<open>Properties\<close>

text \<open>C9. The search for the path of a cycle ends with a simple cycle through the selected formula,
  along reads of formulas inside the given members, whenever these are a strongly connected set
  that holds the formula.\<close>

theorem cycle_witness_found:
  assumes "selected |\<in>| members"
    and "\<forall>m\<in>fset members. (selected, m) \<in> (reads_within members g)\<^sup>+ \<and> (m, selected) \<in> (reads_within members g)\<^sup>+"
  shows "\<exists>path. compatibility_cycle_witness debug g selected members = Some path \<and>
    cycle_path (reads_within members g) selected path"
  by (rule cycle_witness_path [OF assms])

text \<open>C8. \<open>calculate\<close> answers on every document, with no panic: the complete values, or one error.  The
  error explains the failure of a node that the first failed node blames, directly or through
  other failed dependencies, and the cycle it may name is a cycle of the formulas.\<close>

theorem calculate_explains:
  assumes ids: "store_ids_ok d" and tables: "tables_ok d"
  shows "(\<exists>vs. calculate debug lower d = Some (Inr (vs, document_graph d)) \<and>
      calculate_complete lower d = Some (CalculationComplete vs (document_graph d))) \<or>
    (\<exists>F err f x. calculate debug lower d = Some (Inl err) \<and>
      calculate_complete lower d = Some (CalculationFailed F (document_graph d)) \<and>
      (hd (bt_keys F), f) \<in> (blames F)\<^sup>* \<and> bt_get F f = Some x \<and> explains d f x err)"
proof -
  obtain p where p: "full_calculation_parts lower d = Some p" "cp_graph p = document_graph d"
    "fset (cp_nodes p) = {f. calculation_value d f \<noteq> None}" "solves lower d (cp_failures p) (cp_values p)"
    by (rule full_calculation_solves [OF assms])
  show ?thesis
  proof (cases "cp_failures p = bt_empty")
    case True
    then show ?thesis by (simp add: calculate_def calculate_complete_def p(1,2))
  next
    case False
    then obtain f x rest where first: "bt_entries (cp_failures p) = (f, x) # rest" by (rule bt_first)
    then have "bt_get (cp_failures p) f = Some x" by (simp add: bt_entries_iff [symmetric])
    then obtain err h y where "compatibility_loop debug (cp_failures p) (document_graph d) f x {||} = Some err"
      "(f, h) \<in> (blames (cp_failures p))\<^sup>*" "bt_get (cp_failures p) h = Some y" "explains d h y err"
      using compatibility_loop_result [OF ids tables p(4) document_graph_of, of f x "{||}" debug] by auto
    then show ?thesis using False
      by (simp add: calculate_def calculate_complete_def p(1,2) compatibility_error_def first bt_keys_def) blast
  qed
qed

text \<open>Two formulas that read each other.\<close>

definition mutual_reads :: dependency_graph where
  "mutual_reads = graph_empty\<lparr>dg_reference_uses :=
     bt_insert (FieldRef ''a'' ''x'') {|FieldRef ''b'' ''x''|}
       (bt_insert (FieldRef ''b'' ''x'') {|FieldRef ''a'' ''x''|} bt_empty)\<rparr>"

lemma cycle_witness_found_witness:
  "\<exists>path. compatibility_cycle_witness True mutual_reads (FieldRef ''a'' ''x'')
      {|FieldRef ''a'' ''x'', FieldRef ''b'' ''x''|} = Some path \<and>
    cycle_path (reads_within {|FieldRef ''a'' ''x'', FieldRef ''b'' ''x''|} mutual_reads) (FieldRef ''a'' ''x'') path"
proof (rule cycle_witness_found)
  let ?a = "FieldRef ''a'' ''x''" and ?b = "FieldRef ''b'' ''x''"
  let ?E = "reads_within {|?a, ?b|} mutual_reads"
  have "(?a, ?b) \<in> ?E" "(?b, ?a) \<in> ?E"
    by (simp_all add: reads_within_def in_formula_dependencies_within mutual_reads_def graph_empty_def set_at_def)
  then have "(?a, ?b) \<in> ?E\<^sup>+" "(?b, ?a) \<in> ?E\<^sup>+" "(?a, ?a) \<in> ?E\<^sup>+" by (auto intro: trancl_into_trancl)
  then show "\<forall>m\<in>fset {|?a, ?b|}. (?a, m) \<in> ?E\<^sup>+ \<and> (m, ?a) \<in> ?E\<^sup>+" by simp
qed simp

lemma calculate_explains_witness:
  "(\<exists>vs. calculate True ascii_lower sample_sheet = Some (Inr (vs, document_graph sample_sheet)) \<and>
      calculate_complete ascii_lower sample_sheet = Some (CalculationComplete vs (document_graph sample_sheet))) \<or>
    (\<exists>F err f x. calculate True ascii_lower sample_sheet = Some (Inl err) \<and>
      calculate_complete ascii_lower sample_sheet = Some (CalculationFailed F (document_graph sample_sheet)) \<and>
      (hd (bt_keys F), f) \<in> (blames F)\<^sup>* \<and> bt_get F f = Some x \<and> explains sample_sheet f x err)"
  by (rule calculate_explains [OF sample_sheet_ok])

end
