(* ===== verification/Parser.thy ===== *)
theory Parser
  imports Formulas
begin

text \<open>
  The recursive-descent parser of \<open>formula-engine/src/parser.rs\<close>.  A step takes the state of the
  parser to a value and the next state, or stops: with the error of the source, with a panic, or
  with \<open>OutOfFuel\<close>.  The fuel of a loop is one more than the bytes of the input, that of the
  nesting two more than the nesting limit; \<open>ParserTotal\<close> shows that neither is ever used up.
  Slices of the input are taken next to ASCII bytes, so they never split a character.
\<close>

section \<open>States and steps\<close>

record parse_error =
  pe_position :: nat
  pe_message :: string

datatype parse_stop = Malformed parse_error | ParserPanics | OutOfFuel

record parser_state =
  pp_position :: nat
  pp_nodes :: nat
  pp_nesting :: nat

type_synonym 'a parser = "parser_state \<Rightarrow> parse_stop + 'a \<times> parser_state"

definition parse_error_new :: "nat \<Rightarrow> string \<Rightarrow> parse_stop" where
  "parse_error_new position message = Malformed \<lparr>pe_position = position, pe_message = message\<rparr>"

definition p_return :: "'a \<Rightarrow> 'a parser" where
  "p_return x st = Inr (x, st)"

definition p_bind :: "'a parser \<Rightarrow> ('a \<Rightarrow> 'b parser) \<Rightarrow> 'b parser" where
  "p_bind m f st = and_then (m st) (\<lambda>(x, st). f x st)"

definition p_fail :: "nat \<Rightarrow> string \<Rightarrow> 'a parser" where
  "p_fail position message st = Inl (parse_error_new position message)"

text \<open>\<open>self.error(message)\<close>\<close>

definition p_error :: "string \<Rightarrow> 'a parser" where
  "p_error message st = p_fail (pp_position st) message st"

definition p_panic :: "'a parser" where
  "p_panic st = Inl ParserPanics"

definition peek :: "string \<Rightarrow> parser_state \<Rightarrow> char option" where
  "peek input st = (if pp_position st < length input then Some (input ! pp_position st) else None)"

definition is_finished :: "string \<Rightarrow> parser_state \<Rightarrow> bool" where
  "is_finished input st \<longleftrightarrow> pp_position st = length input"

definition advance :: "nat \<Rightarrow> parser_state \<Rightarrow> parser_state" where
  "advance n st = st\<lparr>pp_position := pp_position st + n\<rparr>"

definition slice :: "string \<Rightarrow> nat \<Rightarrow> nat \<Rightarrow> string" where
  "slice input i j = take (j - i) (drop i input)"

text \<open>\<open>while self.peek().is_some_and(p) { self.position += 1 }\<close>\<close>

definition advance_while :: "(char \<Rightarrow> bool) \<Rightarrow> string \<Rightarrow> parser_state \<Rightarrow> parser_state" where
  "advance_while p input st = advance (length (takeWhile p (drop (pp_position st) input))) st"

definition is_ascii_whitespace :: "char \<Rightarrow> bool" where
  "is_ascii_whitespace c \<longleftrightarrow> byte c \<in> {9, 10, 12, 13, 32}"

definition is_ascii_alphabetic :: "char \<Rightarrow> bool" where
  "is_ascii_alphabetic c \<longleftrightarrow> is_ascii_lowercase c \<or> is_ascii_uppercase c"

definition to_ascii_uppercase :: "char \<Rightarrow> char" where
  "to_ascii_uppercase c = (if is_ascii_lowercase c then char_of (byte c - 32) else c)"

definition skip_whitespace :: "string \<Rightarrow> parser_state \<Rightarrow> parser_state" where
  "skip_whitespace input st = advance_while is_ascii_whitespace input st"

definition consume_digits :: "string \<Rightarrow> parser_state \<Rightarrow> bool \<times> parser_state" where
  "consume_digits input st =
     (let after = advance_while is_ascii_digit input st in (pp_position st < pp_position after, after))"

definition p_expect :: "string \<Rightarrow> char \<Rightarrow> string \<Rightarrow> unit parser" where
  "p_expect input expected message st =
     (let st = skip_whitespace input st in
      if peek input st = Some expected then Inr ((), advance 1 st) else p_error message st)"

definition with_nesting :: "nat \<Rightarrow> 'a parser \<Rightarrow> 'a parser" where
  "with_nesting position parse st =
     (if max_expression_depth \<le> pp_nesting st then p_fail position ''expression exceeds 64-nesting limit'' st
      else and_then (parse (st\<lparr>pp_nesting := pp_nesting st + 1\<rparr>)) (\<lambda>(x, st).
        Inr (x, st\<lparr>pp_nesting := pp_nesting st - 1\<rparr>)))"

definition record_node :: "nat \<Rightarrow> unit parser" where
  "record_node position st =
     (if max_expression_nodes \<le> pp_nodes st then p_fail position ''expression exceeds 256-node limit'' st
      else Inr ((), st\<lparr>pp_nodes := pp_nodes st + 1\<rparr>))"

section \<open>Numbers\<close>

definition is_exponent_mark :: "char \<Rightarrow> bool" where
  "is_exponent_mark c \<longleftrightarrow> c = CHR ''e'' \<or> c = CHR ''E''"

definition is_sign :: "char \<Rightarrow> bool" where
  "is_sign c \<longleftrightarrow> c = CHR ''+'' \<or> c = CHR ''-''"

text \<open>\<open>str::parse::<i64>\<close>\<close>

definition parse_i64 :: "string \<Rightarrow> int option" where
  "parse_i64 s =
     (case strip_sign s of (negative, ds) \<Rightarrow>
      if ds = [] \<or> \<not> list_all is_ascii_digit ds then None
      else let v = (if negative then -1 else 1) * int (digits_value ds) in
        if - (2 ^ 63) \<le> v \<and> v < 2 ^ 63 then Some v else None)"

text \<open>The literal with its exponent reduced by two.\<close>

definition scale_percent :: "string \<Rightarrow> string" where
  "scale_percent literal =
     (let mantissa = takeWhile (\<lambda>c. \<not> is_exponent_mark c) literal;
          exponent = (case dropWhile (\<lambda>c. \<not> is_exponent_mark c) literal of
            [] \<Rightarrow> ''0'' | mark # e \<Rightarrow> e);
          power = (case parse_i64 exponent of
            Some v \<Rightarrow> v
          | None \<Rightarrow> if take 1 exponent = ''-'' then - (2 ^ 63) else 2 ^ 63 - 1)
      in mantissa @ CHR ''e'' # show_exponent (max (- (2 ^ 63)) (power - 2)))"

definition number_end :: "string \<Rightarrow> nat parser" where
  "number_end input st =
     (let start = pp_position st;
          (has_digits, st) = consume_digits input st;
          (has_digits, st) = (if peek input st = Some (CHR ''.'')
            then case consume_digits input (advance 1 st) of (again, st) \<Rightarrow> (has_digits \<or> again, st)
            else (has_digits, st)) in
      if \<not> has_digits then p_fail start ''expected digits in numeric literal'' st
      else case peek input st of
        None \<Rightarrow> Inr (pp_position st, st)
      | Some c \<Rightarrow>
          if is_exponent_mark c
          then let st = advance 1 st;
              st = (case peek input st of
                None \<Rightarrow> st | Some c \<Rightarrow> if is_sign c then advance 1 st else st);
              exponent_start = pp_position st in
            (case consume_digits input st of (some, st) \<Rightarrow>
               if some then Inr (pp_position st, st)
               else p_fail exponent_start ''expected exponent digits'' st)
          else Inr (pp_position st, st))"

definition parse_number :: "string \<Rightarrow> unbound_expression parser" where
  "parse_number input st =
     (let start = pp_position st in
      and_then (number_end input st) (\<lambda>(stop, st).
        let literal = slice input start stop;
            percent = peek input st = Some (CHR ''%'');
            st = (if percent then advance 1 st else st);
            literal = (if percent then scale_percent literal else literal) in
        case parse_f64 literal of
          None \<Rightarrow> p_fail start ''invalid numeric literal'' st
        | Some v \<Rightarrow>
            (case number_new v of
               None \<Rightarrow> p_fail start ''numeric literal must convert to a finite Number'' st
             | Some n \<Rightarrow> p_bind (record_node start) (\<lambda>u. p_return (UNumber n)) st)))"

section \<open>References\<close>

definition find_char :: "char \<Rightarrow> string \<Rightarrow> nat option" where
  "find_char c s = (let n = length (takeWhile (\<lambda>x. x \<noteq> c) s) in if n < length s then Some n else None)"

text \<open>\<open>rsplit_once\<close>\<close>

definition rsplit_once :: "char \<Rightarrow> string \<Rightarrow> (string \<times> string) option" where
  "rsplit_once c s =
     (case find_char c (rev s) of
        None \<Rightarrow> None
      | Some n \<Rightarrow> Some (take (length s - n - 1) s, drop (length s - n) s))"

definition invalid_identifier_position :: "string \<Rightarrow> nat \<Rightarrow> nat" where
  "invalid_identifier_position identifier start =
     (case identifier of
        [] \<Rightarrow> start
      | c # cs \<Rightarrow>
          if \<not> is_ascii_lowercase c \<and> \<not> is_ascii_digit c then start
          else let good = takeWhile is_identifier_char cs in
            if length good < length cs then start + 1 + length good else start)"

definition p_fail_at :: "nat \<Rightarrow> string \<Rightarrow> 'a parser" where
  "p_fail_at position message st = p_error message (st\<lparr>pp_position := position\<rparr>)"

definition dot_message :: string where
  "dot_message = [CHR 39, CHR ''.'', CHR 39]"

text \<open>
  The two keys of an address that starts at \<open>inner_start\<close> and whose bracket closes at \<open>close\<close>;
  \<open>noun\<close> and \<open>kind\<close> are the words of the messages.
\<close>

definition split_address ::
    "string \<Rightarrow> string \<Rightarrow> string \<Rightarrow> nat \<Rightarrow> nat \<Rightarrow> (string \<times> string) parser" where
  "split_address noun kind inner inner_start close st =
     (case find_char (CHR ''.'') inner of
        None \<Rightarrow> p_fail_at close (noun @ '' must contain exactly one '' @ dot_message) st
      | Some dot \<Rightarrow>
          let entity = take dot inner; field = drop (dot + 1) inner in
          (case find_char (CHR ''.'') field of
             Some second \<Rightarrow>
               p_fail_at (inner_start + dot + 1 + second)
                 (noun @ '' must contain exactly one '' @ dot_message) st
           | None \<Rightarrow>
               if \<not> is_valid_identifier entity
               then p_fail_at (invalid_identifier_position entity inner_start)
                 (''invalid '' @ kind @ '' entity key'') st
               else if \<not> is_valid_identifier field
               then p_fail_at (invalid_identifier_position field (inner_start + dot + 1))
                 (''invalid '' @ kind @ '' field key'') st
               else Inr ((entity, field), st)))"

definition parse_same_row :: "string \<Rightarrow> nat \<Rightarrow> nat \<Rightarrow> nat \<Rightarrow> unbound_expression parser" where
  "parse_same_row field start inner_start close st =
     (if CHR ''.'' \<in> set field
      then p_fail_at close (''reference must contain exactly one '' @ dot_message) st
      else if \<not> is_valid_identifier field
      then p_fail_at (invalid_identifier_position field (inner_start + 1)) ''invalid reference field key'' st
      else p_bind (record_node start) (\<lambda>u. p_return (USameRowReference field))
        (st\<lparr>pp_position := close + 1\<rparr>))"

text \<open>What a bracketed reference names: a cell, or a column read by the named function.\<close>

datatype reference_kind = NamesCell | NamesTotal | NamesAggregate aggregate_function

definition reference_kind_of :: "string \<Rightarrow> (string \<times> reference_kind) option" where
  "reference_kind_of inner =
     (case rsplit_once (CHR '':'') inner of
        None \<Rightarrow> Some (inner, NamesCell)
      | Some (column, suffix) \<Rightarrow>
          if eq_ignore_ascii_case suffix ''total'' then Some (column, NamesTotal)
          else if eq_ignore_ascii_case suffix ''column'' then None
          else (case aggregate_from_suffix suffix of
             Some g \<Rightarrow> Some (column, NamesAggregate g) | None \<Rightarrow> Some (inner, NamesCell)))"

definition reference_of :: "reference_kind \<Rightarrow> string \<Rightarrow> string \<Rightarrow> unbound_expression" where
  "reference_of kind entity field =
     (case kind of
        NamesCell \<Rightarrow> UReference (FieldAddress entity field)
      | NamesTotal \<Rightarrow> UColumnTotal (ColumnAddress entity field)
      | NamesAggregate g \<Rightarrow> UColumnAggregate g (ColumnAddress entity field))"

definition parse_reference :: "string \<Rightarrow> unbound_expression parser" where
  "parse_reference input st =
     (let start = pp_position st; inner_start = start + 1 in
      case find_char (CHR '']'') (drop inner_start input) of
        None \<Rightarrow> p_fail_at (length input) (''expected '' @ [CHR 39, CHR '']'', CHR 39] @ '' after reference'') st
      | Some relative \<Rightarrow>
          let close = inner_start + relative; inner = slice input inner_start close in
          (case strip_prefix ''.'' inner of
             Some field \<Rightarrow> parse_same_row field start inner_start close st
           | None \<Rightarrow>
               (case reference_kind_of inner of
                  None \<Rightarrow> p_fail_at close
                    (''the '' @ [CHR 39] @ '':column'' @ [CHR 39] @
                     '' suffix is only legal as a conditional aggregate column argument'') st
                | Some (inner, kind) \<Rightarrow>
                    p_bind (split_address ''reference'' ''reference'' inner inner_start close)
                      (\<lambda>(entity, field) st.
                         p_bind (record_node start) (\<lambda>u. p_return (reference_of kind entity field))
                           (st\<lparr>pp_position := close + 1\<rparr>)) st)))"

section \<open>Operators\<close>

definition operator_at :: "string \<Rightarrow> comparison_operator option" where
  "operator_at rest =
     (if take 2 rest = ''<='' then Some CmpLessOrEqual
      else if take 2 rest = ''>='' then Some CmpGreaterOrEqual
      else if take 2 rest = ''<>'' then Some CmpNotEqual
      else if take 1 rest = ''='' then Some CmpEqual
      else if take 1 rest = ''<'' then Some CmpLess
      else if take 1 rest = ''>'' then Some CmpGreater
      else None)"

text \<open>The loop of \<open>parse_comparison\<close>: \<open>additive\<close> reads an operand.\<close>

fun comparison_loop ::
    "string \<Rightarrow> unbound_expression parser \<Rightarrow> nat \<Rightarrow> unbound_expression \<Rightarrow> unbound_expression parser" where
  "comparison_loop input additive 0 e st = Inl OutOfFuel"
| "comparison_loop input additive (Suc fuel) e st =
     (let st = skip_whitespace input st; start = pp_position st in
      case operator_at (drop start input) of
        None \<Rightarrow> Inr (e, st)
      | Some p \<Rightarrow>
          p_bind (record_node start) (\<lambda>u.
          p_bind additive (\<lambda>right.
          comparison_loop input additive fuel (UCompare p e right)))
          (advance (length (comparison_as_str p)) st))"

text \<open>The loops of \<open>parse_additive\<close> and \<open>parse_multiplicative\<close>, which differ in their operators.\<close>

definition additive_node :: "char \<Rightarrow> (unbound_expression \<Rightarrow> unbound_expression \<Rightarrow> unbound_expression) option" where
  "additive_node c = (if c = CHR ''+'' then Some UAdd else if c = CHR ''-'' then Some USubtract else None)"

definition multiplicative_node :: "char \<Rightarrow> (unbound_expression \<Rightarrow> unbound_expression \<Rightarrow> unbound_expression) option" where
  "multiplicative_node c = (if c = CHR ''*'' then Some UMultiply else if c = CHR ''/'' then Some UDivide else None)"

fun operator_loop ::
    "string \<Rightarrow> (char \<Rightarrow> (unbound_expression \<Rightarrow> unbound_expression \<Rightarrow> unbound_expression) option)
     \<Rightarrow> unbound_expression parser \<Rightarrow> nat \<Rightarrow> unbound_expression \<Rightarrow> unbound_expression parser" where
  "operator_loop input node operand 0 e st = Inl OutOfFuel"
| "operator_loop input node operand (Suc fuel) e st =
     (let st = skip_whitespace input st in
      case Option.bind (peek input st) node of
        None \<Rightarrow> Inr (e, st)
      | Some build \<Rightarrow>
          p_bind (record_node (pp_position st)) (\<lambda>u.
          p_bind operand (\<lambda>right.
          operator_loop input node operand fuel (build e right)))
          (advance 1 st))"

definition parse_multiplicative ::
    "string \<Rightarrow> unbound_expression parser \<Rightarrow> unbound_expression parser" where
  "parse_multiplicative input unary =
     p_bind unary (operator_loop input multiplicative_node unary (Suc (length input)))"

definition parse_additive ::
    "string \<Rightarrow> unbound_expression parser \<Rightarrow> unbound_expression parser" where
  "parse_additive input unary =
     p_bind (parse_multiplicative input unary)
       (operator_loop input additive_node (parse_multiplicative input unary) (Suc (length input)))"

definition parse_comparison ::
    "string \<Rightarrow> unbound_expression parser \<Rightarrow> unbound_expression parser" where
  "parse_comparison input unary =
     p_bind (parse_additive input unary)
       (comparison_loop input (parse_additive input unary) (Suc (length input)))"

section \<open>Conditional aggregates\<close>

definition parse_column_argument :: "string \<Rightarrow> column_address parser" where
  "parse_column_argument input st =
     (let st = skip_whitespace input st; start = pp_position st; inner_start = start + 1 in
      if peek input st \<noteq> Some (CHR ''['')
      then p_error ''expected a [schema.field:column] column argument'' st
      else case find_char (CHR '']'') (drop inner_start input) of
        None \<Rightarrow> p_fail_at (length input) (''expected '' @ [CHR 39, CHR '']'', CHR 39] @ '' after a column argument'') st
      | Some relative \<Rightarrow>
          let close = inner_start + relative;
              no_suffix = p_fail_at close
                (''column arguments require a '' @ [CHR 39] @ '':column'' @ [CHR 39] @ '' suffix'') st in
          (case rsplit_once (CHR '':'') (slice input inner_start close) of
             None \<Rightarrow> no_suffix
           | Some (inner, suffix) \<Rightarrow>
               if \<not> eq_ignore_ascii_case suffix ''column'' then no_suffix
               else p_bind (split_address ''column argument'' ''column'' inner inner_start close)
                 (\<lambda>(entity, field) st.
                    p_bind (record_node start) (\<lambda>u. p_return (ColumnAddress entity field))
                      (st\<lparr>pp_position := close + 1\<rparr>)) st))"

text \<open>The bytes of the character a byte leads.\<close>

definition char_len :: "char \<Rightarrow> nat" where
  "char_len c = (if byte c < 128 then 1 else if byte c < 224 then 2 else if byte c < 240 then 3 else 4)"

fun string_literal_loop :: "string \<Rightarrow> nat \<Rightarrow> string \<Rightarrow> string parser" where
  "string_literal_loop input 0 text st = Inl OutOfFuel"
| "string_literal_loop input (Suc fuel) text st =
     (case peek input st of
        None \<Rightarrow> p_fail_at (length input) ''unterminated string literal'' st
      | Some c \<Rightarrow>
          if c = CHR 34
          then if peek input (advance 1 st) = Some (CHR 34)
            then string_literal_loop input fuel (text @ [CHR 34]) (advance 2 st)
            else Inr (text, advance 1 st)
          else string_literal_loop input fuel
            (text @ slice input (pp_position st) (pp_position st + char_len c)) (advance (char_len c) st))"

type_synonym criterion_parts = "comparison_operator \<times> unbound_expression option"

definition parse_criterion_literal :: "string \<Rightarrow> criterion_parts parser" where
  "parse_criterion_literal input st =
     (let start = pp_position st in
      and_then (string_literal_loop input (Suc (length input)) [] (advance 1 st)) (\<lambda>(text, st).
        case criterion_parse text of
          Inl error \<Rightarrow> p_fail start (''invalid criterion literal: '' @ error) st
        | Inr test \<Rightarrow>
            if is_blank_test test then Inr ((ct_operator test, None), st)
            else case number_operand test of
              Some v \<Rightarrow>
                (case number_new v of
                   None \<Rightarrow> p_fail start ''criterion number is not finite'' st
                 | Some n \<Rightarrow> Inr ((ct_operator test, Some (UNumber n)), st))
            | None \<Rightarrow> p_fail start
                (''text, date and yes/no criteria can'' @ [CHR 39] @
                 ''t be written in the formula yet; put the value in a cell and reference it'') st))"

definition parse_criterion :: "string \<Rightarrow> unbound_expression parser \<Rightarrow> criterion_parts parser" where
  "parse_criterion input unary st =
     (let st = skip_whitespace input st in
      if peek input st = Some (CHR 34) then parse_criterion_literal input st
      else p_bind (parse_additive input unary) (\<lambda>e. p_return (CmpEqual, Some e)) st)"

definition after_column_argument :: "string \<Rightarrow> string \<Rightarrow> column_address parser" where
  "after_column_argument input message =
     p_bind (parse_column_argument input) (\<lambda>column.
     p_bind (p_expect input (CHR '','') message) (\<lambda>u. p_return column))"

definition parse_column_criterion :: "string \<Rightarrow> unbound_expression parser \<Rightarrow> unbound_criterion parser" where
  "parse_column_criterion input unary =
     p_bind (after_column_argument input (''expected '' @ [CHR 39, CHR '','', CHR 39] @ '' after the criterion column'')) (\<lambda>column.
     p_bind (parse_criterion input unary) (\<lambda>(p, v). p_return (UCriterion column p v)))"

definition starts_with :: "string \<Rightarrow> string \<Rightarrow> bool" where
  "starts_with p s \<longleftrightarrow> take (length p) s = p"

definition ends_with :: "string \<Rightarrow> string \<Rightarrow> bool" where
  "ends_with p s \<longleftrightarrow> length p \<le> length s \<and> drop (length s - length p) s = p"

definition conditional_node ::
    "string \<Rightarrow> column_address option \<Rightarrow> unbound_criterion list \<Rightarrow> unbound_expression parser" where
  "conditional_node name column_values criteria =
     (if starts_with ''COUNT'' name then p_return (UColumnConditional UCount criteria)
      else case (case column_values of
                   Some column \<Rightarrow> Some column
                 | None \<Rightarrow> (case criteria of [] \<Rightarrow> None | c # cs \<Rightarrow> Some (uc_column c))) of
        None \<Rightarrow> p_panic
      | Some column \<Rightarrow>
          p_return (UColumnConditional
            (if starts_with ''AVERAGE'' name then UAverage column else USum column) criteria))"

fun criteria_loop ::
    "string \<Rightarrow> unbound_expression parser \<Rightarrow> nat \<Rightarrow> unbound_criterion list \<Rightarrow> unbound_criterion list parser" where
  "criteria_loop input unary 0 criteria st = Inl OutOfFuel"
| "criteria_loop input unary (Suc fuel) criteria st =
     (if length criteria = max_conditional_criteria
      then p_error (''a conditional aggregate admits at most '' @ show_nat max_conditional_criteria @ '' criteria'') st
      else p_bind (parse_column_criterion input unary) (\<lambda>criterion st.
        let st = skip_whitespace input st; criteria = criteria @ [criterion] in
        if peek input st = Some (CHR '','') then criteria_loop input unary fuel criteria (advance 1 st)
        else Inr (criteria, st)) st)"

definition close_message :: string where
  "close_message = ''expected '' @ [CHR 39, CHR '')'', CHR 39] @ '' after function arguments''"

text \<open>The names that end in \<open>S\<close>: a value column unless it counts, then criteria.\<close>

definition parse_plural_arguments ::
    "string \<Rightarrow> unbound_expression parser \<Rightarrow> string \<Rightarrow> unbound_expression parser" where
  "parse_plural_arguments input unary name =
     p_bind
       (if starts_with ''COUNT'' name then p_return None
        else p_bind (after_column_argument input (''expected '' @ [CHR 39, CHR '','', CHR 39] @ '' after the value column''))
          (\<lambda>column. p_return (Some column)))
       (\<lambda>column_values.
          p_bind (criteria_loop input unary (Suc (length input)) []) (\<lambda>criteria.
          p_bind (p_expect input (CHR '')'') close_message) (\<lambda>u.
          conditional_node name column_values criteria)))"

text \<open>The optional value column after the one criterion.\<close>

definition parse_value_column :: "string \<Rightarrow> bool \<Rightarrow> column_address option parser" where
  "parse_value_column input counting st =
     (if peek input st = Some (CHR '','')
      then if counting then p_error ''COUNTIF takes exactly two arguments'' st
        else p_bind (parse_column_argument input) (\<lambda>column st.
          Inr (Some column, skip_whitespace input st)) (advance 1 st)
      else p_return None st)"

definition parse_single_arguments ::
    "string \<Rightarrow> unbound_expression parser \<Rightarrow> string \<Rightarrow> unbound_expression parser" where
  "parse_single_arguments input unary name =
     p_bind (parse_column_criterion input unary) (\<lambda>criterion st.
       p_bind (parse_value_column input (starts_with ''COUNT'' name)) (\<lambda>column_values.
       p_bind (p_expect input (CHR '')'') close_message) (\<lambda>u.
       conditional_node name column_values [criterion])) (skip_whitespace input st))"

definition parse_conditional_arguments ::
    "string \<Rightarrow> unbound_expression parser \<Rightarrow> string \<Rightarrow> unbound_expression parser" where
  "parse_conditional_arguments input unary name st =
     (let st = skip_whitespace input st in
      if peek input st = Some (CHR '')'') then p_error ''expected a column argument'' st
      else if ends_with ''S'' name then parse_plural_arguments input unary name st
      else parse_single_arguments input unary name st)"

section \<open>Functions\<close>

fun arguments_loop ::
    "string \<Rightarrow> unbound_expression parser \<Rightarrow> nat \<Rightarrow> unbound_expression list \<Rightarrow> unbound_expression list parser" where
  "arguments_loop input argument 0 arguments st = Inl OutOfFuel"
| "arguments_loop input argument (Suc fuel) arguments st =
     p_bind argument (\<lambda>x st.
       let st = skip_whitespace input st; arguments = arguments @ [x] in
       if peek input st = Some (CHR '','') then arguments_loop input argument fuel arguments (advance 1 st)
       else Inr (arguments, st)) st"

definition parse_arguments ::
    "string \<Rightarrow> unbound_expression parser \<Rightarrow> unbound_expression list parser" where
  "parse_arguments input unary st =
     (let st = skip_whitespace input st in
      p_bind
        (if peek input st = Some (CHR '')'') then p_return []
         else arguments_loop input (parse_comparison input unary) (Suc (length input)) [])
        (\<lambda>arguments. p_bind (p_expect input (CHR '')'') close_message) (\<lambda>u. p_return arguments)) st)"

text \<open>The node of an extended function; \<open>None\<close> is the wrong number of arguments.\<close>

definition extended_node :: "string \<Rightarrow> unbound_expression list \<Rightarrow> unbound_expression option" where
  "extended_node name arguments =
     (if name = ''IF'' then (case arguments of [c, t, e] \<Rightarrow> Some (UIf c t e) | _ \<Rightarrow> None)
      else if name = ''ROUND'' then (case arguments of [v, d] \<Rightarrow> Some (URound v d) | _ \<Rightarrow> None)
      else if name = ''NOT'' then (case arguments of [v] \<Rightarrow> Some (UNot v) | _ \<Rightarrow> None)
      else if name = ''ISBLANK'' then (case arguments of [v] \<Rightarrow> Some (UIsBlank v) | _ \<Rightarrow> None)
      else if arguments = [] then None
      else if name = ''AND'' then Some (UAnd arguments) else Some (UOr arguments))"

definition open_message :: string where
  "open_message = ''expected '' @ [CHR 39, CHR ''('', CHR 39] @ '' after function name''"

text \<open>What every function call starts with: the bracket, the node and one more level of nesting.\<close>

definition call_arguments :: "string \<Rightarrow> nat \<Rightarrow> 'a parser \<Rightarrow> 'a parser" where
  "call_arguments input start arguments st =
     (let st = skip_whitespace input st; opening = pp_position st in
      p_bind (p_expect input (CHR ''('') open_message) (\<lambda>u.
      p_bind (record_node start) (\<lambda>u.
      with_nesting opening arguments)) st)"

definition parse_extended_function ::
    "string \<Rightarrow> unbound_expression parser \<Rightarrow> nat \<Rightarrow> string \<Rightarrow> unbound_expression parser" where
  "parse_extended_function input unary start name =
     p_bind (call_arguments input start (parse_arguments input unary)) (\<lambda>arguments.
       case extended_node name arguments of
         None \<Rightarrow> p_fail start (''invalid arity for '' @ name)
       | Some e \<Rightarrow> p_return e)"

definition parse_conditional_function ::
    "string \<Rightarrow> unbound_expression parser \<Rightarrow> nat \<Rightarrow> string \<Rightarrow> unbound_expression parser" where
  "parse_conditional_function input unary start name =
     call_arguments input start (parse_conditional_arguments input unary name)"

definition parse_pair ::
    "string \<Rightarrow> unbound_expression parser \<Rightarrow> (unbound_expression \<times> unbound_expression) parser" where
  "parse_pair input unary =
     p_bind (parse_comparison input unary) (\<lambda>left.
     p_bind (p_expect input (CHR '','') (''expected '' @ [CHR 39, CHR '','', CHR 39] @ '' between function arguments'')) (\<lambda>u.
     p_bind (parse_comparison input unary) (\<lambda>right.
     p_bind (p_expect input (CHR '')'') close_message) (\<lambda>u. p_return (left, right)))))"

definition is_name_char :: "char \<Rightarrow> bool" where
  "is_name_char c \<longleftrightarrow> is_ascii_alphanumeric c \<or> c = CHR ''_''"

definition function_call ::
    "string \<Rightarrow> unbound_expression parser \<Rightarrow> nat \<Rightarrow> string \<Rightarrow> unbound_expression parser" where
  "function_call input unary start name =
     (let upper = map to_ascii_uppercase name in
      if upper \<in> {''IF'', ''AND'', ''OR'', ''NOT'', ''ROUND'', ''ISBLANK''}
      then parse_extended_function input unary start upper
      else if upper \<in> {''SUMIF'', ''SUMIFS'', ''AVERAGEIF'', ''AVERAGEIFS'', ''COUNTIF'', ''COUNTIFS''}
      then parse_conditional_function input unary start upper
      else if name = ''min'' \<or> name = ''MIN''
      then p_bind (call_arguments input start (parse_pair input unary)) (\<lambda>(l, r). p_return (UMinimum l r))
      else if name = ''max'' \<or> name = ''MAX''
      then p_bind (call_arguments input start (parse_pair input unary)) (\<lambda>(l, r). p_return (UMaximum l r))
      else p_fail start
        (''unknown function '' @ [CHR 39] @ name @ [CHR 39] @
         ''; expected min, max, IF, AND, OR, NOT, ROUND, ISBLANK, or a conditional aggregate''))"

definition parse_function ::
    "string \<Rightarrow> unbound_expression parser \<Rightarrow> unbound_expression parser" where
  "parse_function input unary st =
     (let start = pp_position st; st = advance_while is_name_char input (advance 1 st) in
      function_call input unary start (slice input start (pp_position st)) st)"

section \<open>Operands\<close>

definition parse_parenthesized ::
    "string \<Rightarrow> unbound_expression parser \<Rightarrow> unbound_expression parser" where
  "parse_parenthesized input unary st =
     with_nesting (pp_position st)
       (p_bind (parse_comparison input unary) (\<lambda>e.
        p_bind (p_expect input (CHR '')'') (''expected '' @ [CHR 39, CHR '')'', CHR 39] @ '' after expression''))
          (\<lambda>u. p_return e)))
       (advance 1 st)"

definition parse_primary ::
    "string \<Rightarrow> unbound_expression parser \<Rightarrow> unbound_expression parser" where
  "parse_primary input unary st =
     (let st = skip_whitespace input st in
      case peek input st of
        None \<Rightarrow> p_error ''expected expression'' st
      | Some c \<Rightarrow>
          if is_ascii_digit c \<or> c = CHR ''.'' then parse_number input st
          else if c = CHR ''['' then parse_reference input st
          else if c = CHR ''('' then parse_parenthesized input unary st
          else if is_ascii_alphabetic c then parse_function input unary st
          else p_error (''expected number, reference, function, or '' @ [CHR 39, CHR ''('', CHR 39]) st)"

definition negate_operand :: "nat \<Rightarrow> unbound_expression \<Rightarrow> unbound_expression parser" where
  "negate_operand operator_position operand =
     (case operand of
        UNumber n \<Rightarrow>
          (case number_new (f64_neg (number_get n)) of
             None \<Rightarrow> p_panic | Some m \<Rightarrow> p_return (UNumber m))
      | _ \<Rightarrow>
          p_bind (record_node operator_position) (\<lambda>u.
          p_bind (record_node operator_position) (\<lambda>u.
          p_return (USubtract (UNumber (Number f64_zero)) operand))))"

text \<open>
  \<open>unary\<close> is the same parser one level of nesting further down: the parser calls itself under
  \<open>with_nesting\<close> only, which bounds the recursion by the nesting limit.
\<close>

definition unary_step ::
    "string \<Rightarrow> unbound_expression parser \<Rightarrow> unbound_expression parser" where
  "unary_step input unary st =
     (let st = skip_whitespace input st; operator_position = pp_position st in
      case peek input st of
        Some c \<Rightarrow>
          if is_sign c
          then p_bind (with_nesting operator_position unary) (\<lambda>operand.
            if c = CHR ''+'' then p_return operand else negate_operand operator_position operand)
            (advance 1 st)
          else parse_primary input unary st
      | None \<Rightarrow> parse_primary input unary st)"

primrec parse_unary :: "string \<Rightarrow> nat \<Rightarrow> unbound_expression parser" where
  "parse_unary input 0 = (\<lambda>st. Inl OutOfFuel)"
| "parse_unary input (Suc n) = unary_step input (parse_unary input n)"

definition parser_new :: parser_state where
  "parser_new = \<lparr>pp_position = 0, pp_nodes = 0, pp_nesting = 0\<rparr>"

definition parse_all :: "string \<Rightarrow> parse_stop + unbound_expression" where
  "parse_all input =
     (let st = skip_whitespace input parser_new in
      if is_finished input st then Inl (parse_error_new (pp_position st) ''expected expression'')
      else and_then (parse_comparison input (parse_unary input (max_expression_depth + 2)) st) (\<lambda>(e, st).
        let st = skip_whitespace input st in
        if is_finished input st then Inr e
        else Inl (parse_error_new (pp_position st) ''unexpected trailing content'')))"

definition parse_expression :: "string \<Rightarrow> parse_stop + unbound_expression" where
  "parse_expression input =
     (if max_input_bytes < length input
      then Inl (parse_error_new max_input_bytes ''expression exceeds 4096-byte limit'')
      else and_then (parse_all input) (\<lambda>e.
        case validate_unbound_structure e of
          Inl error \<Rightarrow> Inl (parse_error_new (length input) (complexity_message error))
        | Inr u \<Rightarrow> Inr e))"

end
