(* ===== verification/ParserTotal.thy ===== *)
theory ParserTotal
  imports Parser
begin

text \<open>
  The parser answers every input: each step ends with a value or an error of the source, never
  with a panic or for want of fuel.  The proof follows the position, which a step that reads an
  operand moves forward and never past the end of the input, and the nesting, which every step
  leaves as it found it.
\<close>

section \<open>Steps that end well\<close>

definition ends_well ::
    "string \<Rightarrow> nat \<Rightarrow> nat \<Rightarrow> ('a \<Rightarrow> bool) \<Rightarrow> parse_stop + 'a \<times> parser_state \<Rightarrow> bool" where
  "ends_well input k p Q r \<longleftrightarrow>
     (case r of
        Inl stop \<Rightarrow> \<exists>e. stop = Malformed e
      | Inr (x, st) \<Rightarrow> p \<le> pp_position st \<and> pp_position st \<le> length input \<and> pp_nesting st = k \<and> Q x)"

definition inside :: "string \<Rightarrow> nat \<Rightarrow> parser_state \<Rightarrow> bool" where
  "inside input k st \<longleftrightarrow> pp_position st \<le> length input \<and> pp_nesting st = k"

text \<open>\<open>d\<close> is the least number of bytes the step reads.\<close>

definition steps :: "string \<Rightarrow> nat \<Rightarrow> nat \<Rightarrow> ('a \<Rightarrow> bool) \<Rightarrow> 'a parser \<Rightarrow> bool" where
  "steps input k d Q m \<longleftrightarrow> (\<forall>st. inside input k st \<longrightarrow> ends_well input k (pp_position st + d) Q (m st))"

named_theorems step_simps

lemma ends_well_fail [step_simps]:
  "ends_well input k p Q (p_fail position message st)" "ends_well input k p Q (p_error message st)"
  "ends_well input k p Q (p_fail_at position message st)"
  by (simp_all add: ends_well_def p_fail_def p_error_def p_fail_at_def parse_error_new_def)

lemma ends_well_Inr [step_simps]:
  "ends_well input k p Q (Inr (x, st)) \<longleftrightarrow> p \<le> pp_position st \<and> inside input k st \<and> Q x"
  by (auto simp: ends_well_def inside_def)

lemma ends_well_return [step_simps]:
  "ends_well input k p Q (p_return x st) \<longleftrightarrow> p \<le> pp_position st \<and> inside input k st \<and> Q x"
  by (simp add: p_return_def step_simps)

lemma ends_well_and_then:
  "ends_well input k' p' Q' r \<Longrightarrow>
   (\<And>x st. p' \<le> pp_position st \<Longrightarrow> inside input k' st \<Longrightarrow> Q' x \<Longrightarrow> ends_well input k p Q (f x st)) \<Longrightarrow>
   ends_well input k p Q (and_then r (\<lambda>(x, st). f x st))"
proof (cases r)
  case (Inr y)
  assume r: "ends_well input k' p' Q' r" and f: "\<And>x st. p' \<le> pp_position st \<Longrightarrow> inside input k' st \<Longrightarrow> Q' x \<Longrightarrow>
    ends_well input k p Q (f x st)"
  obtain x st where y: "y = (x, st)" by force
  have "ends_well input k p Q (f x st)" by (rule f) (use r in \<open>simp_all add: Inr y ends_well_def inside_def\<close>)
  then show ?thesis by (simp add: Inr y)
qed (simp add: ends_well_def)

lemma ends_well_bind:
  "ends_well input k' p' Q' (m st) \<Longrightarrow>
   (\<And>x st. p' \<le> pp_position st \<Longrightarrow> inside input k' st \<Longrightarrow> Q' x \<Longrightarrow> ends_well input k p Q (f x st)) \<Longrightarrow>
   ends_well input k p Q (p_bind m f st)"
  unfolding p_bind_def by (rule ends_well_and_then)

lemma stepsD: "steps input k d Q m \<Longrightarrow> inside input k st \<Longrightarrow> ends_well input k (pp_position st + d) Q (m st)"
  by (simp add: steps_def)

lemma stepsI:
  "(\<And>st. inside input k st \<Longrightarrow> ends_well input k (pp_position st + d) Q (m st)) \<Longrightarrow> steps input k d Q m"
  by (simp add: steps_def)

lemma ends_well_weaken:
  "ends_well input k p' Q' r \<Longrightarrow> p \<le> p' \<Longrightarrow> (\<And>x. Q' x \<Longrightarrow> Q x) \<Longrightarrow> ends_well input k p Q r"
  by (auto simp: ends_well_def split: sum.splits)

section \<open>The small steps\<close>

lemma advance_inside [step_simps]:
  "inside input k (advance n st) \<longleftrightarrow> pp_position st + n \<le> length input \<and> pp_nesting st = k"
  "pp_position (advance n st) = pp_position st + n" "pp_nesting (advance n st) = pp_nesting st"
  by (simp_all add: inside_def advance_def)

lemma advance_position: "pp_position (advance n st) = pp_position st + n"
  by (simp add: advance_def)

lemma inside_position [step_simps]:
  "inside input k (st\<lparr>pp_position := p\<rparr>) \<longleftrightarrow> p \<le> length input \<and> pp_nesting st = k"
  by (simp add: inside_def)

lemma advance_while_inside:
  "inside input k st \<Longrightarrow> inside input k (advance_while p input st)"
  "pp_position st \<le> pp_position (advance_while p input st)"
proof -
  have "length (takeWhile p (drop (pp_position st) input)) \<le> length input - pp_position st"
    using length_takeWhile_le [of p "drop (pp_position st) input"] by simp
  then show "inside input k st \<Longrightarrow> inside input k (advance_while p input st)"
    by (auto simp: advance_while_def step_simps inside_def)
  show "pp_position st \<le> pp_position (advance_while p input st)"
    by (simp add: advance_while_def step_simps)
qed

lemma skip_inside:
  "inside input k st \<Longrightarrow> inside input k (skip_whitespace input st)"
  "pp_position st \<le> pp_position (skip_whitespace input st)"
  by (simp_all add: skip_whitespace_def advance_while_inside)

lemma peek_Some: "peek input st = Some c \<Longrightarrow> pp_position st < length input"
  by (simp add: peek_def split: if_splits)

lemma peek_inside: "peek input st = Some c \<Longrightarrow> inside input k st \<Longrightarrow> inside input k (advance 1 st)"
  using peek_Some by (auto simp: step_simps inside_def Suc_le_eq)

lemma steps_expect: "steps input k 1 (\<lambda>u. True) (p_expect input expected message)"
proof (rule stepsI)
  fix st assume "inside input k st"
  note s = skip_inside(1) [OF this] skip_inside(2) [of st input]
  show "ends_well input k (pp_position st + 1) (\<lambda>u. True) (p_expect input expected message st)"
    using s peek_inside [OF _ s(1)] by (simp add: p_expect_def Let_def step_simps)
qed

lemma steps_record_node: "steps input k 0 (\<lambda>u. True) (record_node position)"
  by (rule stepsI) (simp add: record_node_def step_simps inside_def)

lemma steps_nesting:
  assumes "k < max_expression_depth \<Longrightarrow> steps input (Suc k) d Q m"
  shows "steps input k d Q (with_nesting position m)"
proof (rule stepsI)
  fix st assume st: "inside input k st"
  show "ends_well input k (pp_position st + d) Q (with_nesting position m st)"
  proof (cases "max_expression_depth \<le> k")
    case True
    then show ?thesis using st by (simp add: with_nesting_def inside_def step_simps)
  next
    case False
    let ?st = "st\<lparr>pp_nesting := pp_nesting st + 1\<rparr>"
    have "inside input (Suc k) ?st" using st by (simp add: inside_def)
    from stepsD [OF assms this] have "ends_well input (Suc k) (pp_position st + d) Q (m ?st)" using False by simp
    then have "ends_well input k (pp_position st + d) Q
        (and_then (m ?st) (\<lambda>(x, st). Inr (x, st\<lparr>pp_nesting := pp_nesting st - 1\<rparr>)))"
      by (rule ends_well_and_then) (simp add: step_simps inside_def)
    then show ?thesis using False st by (simp add: with_nesting_def inside_def)
  qed
qed

lemma steps_bind:
  "steps input k d' Q' m \<Longrightarrow> (\<And>x. Q' x \<Longrightarrow> steps input k d'' Q (f x)) \<Longrightarrow> d \<le> d' + d'' \<Longrightarrow>
   steps input k d Q (p_bind m f)"
proof (rule stepsI)
  fix st
  assume m: "steps input k d' Q' m" and f: "\<And>x. Q' x \<Longrightarrow> steps input k d'' Q (f x)"
    and d: "d \<le> d' + d''" and st: "inside input k st"
  show "ends_well input k (pp_position st + d) Q (p_bind m f st)"
  proof (rule ends_well_bind [where m = m, OF stepsD [OF m st]])
    fix x st'
    assume s: "pp_position st + d' \<le> pp_position st'" "inside input k st'" "Q' x"
    show "ends_well input k (pp_position st + d) Q (f x st')"
      by (rule ends_well_weaken [OF stepsD [OF f [OF s(3)] s(2)]]) (use s(1) d in simp_all)
  qed
qed

lemma steps_return: "Q x \<Longrightarrow> steps input k 0 Q (p_return x)"
  by (rule stepsI) (simp add: step_simps)

lemma steps_fail: "steps input k d Q (p_fail position message)" "steps input k d Q (p_error message)"
  by (rule stepsI, simp add: step_simps)+

lemma steps_weaken: "steps input k d' Q' m \<Longrightarrow> d \<le> d' \<Longrightarrow> (\<And>x. Q' x \<Longrightarrow> Q x) \<Longrightarrow> steps input k d Q m"
  by (rule stepsI, rule ends_well_weaken, erule stepsD) auto

text \<open>Skipping blanks first changes nothing.\<close>

lemma steps_skip:
  "steps input k d Q m \<Longrightarrow> steps input k d Q (\<lambda>st. m (skip_whitespace input st))"
proof (rule stepsI)
  fix st assume m: "steps input k d Q m" and st: "inside input k st"
  show "ends_well input k (pp_position st + d) Q (m (skip_whitespace input st))"
    by (rule ends_well_weaken [OF stepsD [OF m skip_inside(1) [OF st]]]) (use skip_inside(2) [of st input] in simp_all)
qed

section \<open>Numbers and references\<close>

lemma consume_inside:
  "inside input k st \<Longrightarrow> inside input k (snd (consume_digits input st))"
  "pp_position st \<le> pp_position (snd (consume_digits input st))"
  "fst (consume_digits input st) \<Longrightarrow> pp_position st < pp_position (snd (consume_digits input st))"
  using advance_while_inside [where p = is_ascii_digit] by (simp_all add: consume_digits_def Let_def)

lemma number_end_ends:
  assumes "inside input k st"
  shows "ends_well input k (pp_position st + 1) (\<lambda>n. True) (number_end input st)"
proof -
  obtain h1 s1 where c1: "consume_digits input st = (h1, s1)" by force
  note s1 = consume_inside [where input = input and st = st, unfolded c1 fst_conv snd_conv]
  obtain h2 s2 where c2: "(if peek input s1 = Some (CHR ''.'')
      then case consume_digits input (advance 1 s1) of (again, st) \<Rightarrow> (h1 \<or> again, st) else (h1, s1)) = (h2, s2)"
    by force
  have s2: "inside input k s2" "pp_position st \<le> pp_position s2" "h2 \<Longrightarrow> pp_position st < pp_position s2"
  proof -
    have "inside input k s2 \<and> pp_position st \<le> pp_position s2 \<and> (h2 \<longrightarrow> pp_position st < pp_position s2)"
    proof (cases "peek input s1 = Some (CHR ''.'')")
      case True
      obtain h s where c: "consume_digits input (advance 1 s1) = (h, s)" by force
      note s = consume_inside [where input = input and st = "advance 1 s1", unfolded c fst_conv snd_conv]
      have "inside input k (advance 1 s1)" using peek_inside [OF True s1(1) [OF assms]] .
      then show ?thesis
        using s s1 assms c2 True unfolding c prod.case by (auto simp: advance_position)
    next
      case False
      then show ?thesis using c2 s1 assms by auto
    qed
    then show "inside input k s2" "pp_position st \<le> pp_position s2" "h2 \<Longrightarrow> pp_position st < pp_position s2"
      by blast+
  qed
  have digits: "ends_well input k (pp_position st + 1) (\<lambda>n. True)
      (case consume_digits input s of (some, st) \<Rightarrow>
         if some then Inr (pp_position st, st) else p_fail p m st)"
    if "inside input k s" "pp_position st \<le> pp_position s" for s p m
  proof -
    obtain h t where c: "consume_digits input s = (h, t)" by force
    note t = consume_inside [where input = input and st = s, unfolded c fst_conv snd_conv]
    show ?thesis using that t by (auto simp: c step_simps)
  qed
  show ?thesis
  proof (cases "h2 \<and> (\<exists>c. peek input s2 = Some c \<and> is_exponent_mark c)")
    case False
    then show ?thesis
      using s2 unfolding number_end_def Let_def c1 prod.case c2
      by (auto simp: step_simps split: option.split)
  next
    case True
    then obtain c where c: "peek input s2 = Some c" "is_exponent_mark c" "h2" by blast
    have s3: "inside input k (advance 1 s2)" by (rule peek_inside [OF c(1) s2(1)])
    let ?s = "case peek input (advance 1 s2) of None \<Rightarrow> advance 1 s2
        | Some c \<Rightarrow> if is_sign c then advance 1 (advance 1 s2) else advance 1 s2"
    have s: "inside input k ?s" "pp_position st \<le> pp_position ?s"
      using s3 s2(2) peek_inside [OF _ s3] by (auto simp: advance_position split: option.split)
    show ?thesis
      using digits [OF s] c unfolding number_end_def Let_def c1 prod.case c2 by simp
  qed
qed

lemma ends_well_record:
  "p \<le> pp_position st \<Longrightarrow> inside input k st \<Longrightarrow> Q x \<Longrightarrow>
   ends_well input k p Q (p_bind (record_node q) (\<lambda>u. p_return x) st)"
  by (simp add: p_bind_def record_node_def p_fail_def parse_error_new_def ends_well_def p_return_def inside_def)

lemma steps_number: "steps input k 1 writable (parse_number input)"
proof (rule stepsI)
  fix st assume st: "inside input k st"
  show "ends_well input k (pp_position st + 1) writable (parse_number input st)"
    unfolding parse_number_def Let_def
  proof (rule ends_well_and_then [OF number_end_ends [OF st]], goal_cases)
    case (1 stop st')
    have "inside input k (if peek input st' = Some (CHR ''%'') then advance 1 st' else st')"
      "pp_position st + 1 \<le> pp_position (if peek input st' = Some (CHR ''%'') then advance 1 st' else st')"
      using 1(1,2) peek_inside [OF _ 1(2)] by (auto simp: advance_position)
    then show ?case
      by (auto simp: ends_well_fail dest: number_new_ok split: option.split
        intro!: ends_well_record simp del: One_nat_def)
  qed
qed

lemma find_char_less: "find_char c s = Some n \<Longrightarrow> n < length s"
  by (simp add: find_char_def Let_def split: if_splits)

lemma ends_well_split_address:
  "inside input k st \<Longrightarrow> ends_well input k (pp_position st)
     (\<lambda>(entity, field). is_valid_identifier entity \<and> is_valid_identifier field) (split_address noun kind inner a b st)"
  by (simp add: split_address_def Let_def step_simps split: option.split)

lemma steps_reference: "steps input k 1 writable (parse_reference input)"
proof (rule stepsI)
  fix st assume st: "inside input k st"
  let ?start = "pp_position st"
  show "ends_well input k (?start + 1) writable (parse_reference input st)"
  proof (cases "find_char (CHR '']'') (drop (?start + 1) input)")
    case None
    then show ?thesis by (simp add: parse_reference_def Let_def step_simps)
  next
    case (Some relative)
    let ?close = "?start + 1 + relative"
    have inside: "inside input k (st'\<lparr>pp_position := ?close + 1\<rparr>)" if "inside input k st'" for st'
      using find_char_less [OF Some] that by (simp add: inside_def)
    have same_row: "ends_well input k (?start + 1) writable (parse_same_row field ?start (?start + 1) ?close st)" for field
      unfolding parse_same_row_def
      by (auto simp: ends_well_fail intro!: ends_well_record inside [OF st] simp del: One_nat_def add_Suc_right)
    have address: "ends_well input k (?start + 1) writable
        (p_bind (split_address noun kind inner i j) (\<lambda>(entity, field) st.
           p_bind (record_node ?start) (\<lambda>u. p_return (reference_of r entity field))
             (st\<lparr>pp_position := ?close + 1\<rparr>)) st)" for noun kind inner i j r
      by (rule ends_well_bind, rule ends_well_split_address [OF st])
        (auto simp: reference_of_def column_writable_def split: reference_kind.split intro!: ends_well_record inside
          simp del: One_nat_def add_Suc_right)
    show ?thesis
      using same_row address Some
      by (auto simp: parse_reference_def Let_def ends_well_fail split: option.split)
  qed
qed

lemma steps_column_argument: "steps input k 1 column_writable (parse_column_argument input)"
proof -
  have "steps input k 1 column_writable (\<lambda>st. (let start = pp_position st; inner_start = start + 1 in
      if peek input st \<noteq> Some (CHR ''['')
      then p_error ''expected a [schema.field:column] column argument'' st
      else case find_char (CHR '']'') (drop inner_start input) of
        None \<Rightarrow> p_fail_at (length input) (''expected '' @ [CHR 39, CHR '']'', CHR 39] @ '' after a column argument'') st
      | Some relative \<Rightarrow>
          let close = inner_start + relative;
              no_suffix = p_fail_at close
                (''column arguments require a '' @ [CHR 39] @ '':column'' @ [CHR 39] @ '' suffix'') st in
          (case rsplit_once (CHR '':'') (slice input inner_start close) of
             None \<Rightarrow> no_suffix
           | Some (inner, suffix) \<Rightarrow>
               if \<not> eq_ignore_ascii_case suffix ''column'' then no_suffix
               else p_bind (split_address ''column argument'' ''column'' inner inner_start close)
                 (\<lambda>(entity, field) st.
                    p_bind (record_node start) (\<lambda>u. p_return (ColumnAddress entity field))
                      (st\<lparr>pp_position := close + 1\<rparr>)) st)))" (is "steps input k 1 _ ?body")
  proof (rule stepsI)
    fix st assume st: "inside input k st"
    let ?start = "pp_position st"
    show "ends_well input k (?start + 1) column_writable (?body st)"
    proof (cases "find_char (CHR '']'') (drop (?start + 1) input)")
      case None
      then show ?thesis by (simp add: Let_def step_simps)
    next
      case (Some relative)
      let ?close = "?start + 1 + relative"
      have inside: "inside input k (st'\<lparr>pp_position := ?close + 1\<rparr>)" if "inside input k st'" for st'
        using find_char_less [OF Some] that by (simp add: inside_def)
      have address: "ends_well input k (?start + 1) column_writable
          (p_bind (split_address noun kind inner i j) (\<lambda>(entity, field) st.
             p_bind (record_node ?start) (\<lambda>u. p_return (ColumnAddress entity field))
               (st\<lparr>pp_position := ?close + 1\<rparr>)) st)" for noun kind inner i j
        by (rule ends_well_bind, rule ends_well_split_address [OF st])
          (auto simp: column_writable_def intro!: ends_well_record inside simp del: One_nat_def add_Suc_right)
      show ?thesis
        using address Some by (auto simp: Let_def ends_well_fail split: option.split)
    qed
  qed
  then have "steps input k 1 column_writable (\<lambda>st. ?body (skip_whitespace input st))" by (rule steps_skip)
  then show ?thesis
    by (rule subst [where P = "steps input k 1 column_writable", rotated]) (rule ext, simp add: parse_column_argument_def Let_def)
qed

section \<open>Operators\<close>

text \<open>A loop has fuel for every byte that is left.\<close>

lemma operator_at_length:
  "operator_at s = Some p \<Longrightarrow> 1 \<le> length (comparison_as_str p) \<and> length (comparison_as_str p) \<le> length s"
  by (cases s; cases "tl s") (auto simp: operator_at_def split: if_splits)

lemma comparison_loop_ends:
  assumes additive: "steps input k 1 writable additive"
  shows "inside input k st \<Longrightarrow> length input - pp_position st < fuel \<Longrightarrow> writable e \<Longrightarrow>
    ends_well input k (pp_position st) writable (comparison_loop input additive fuel e st)"
proof (induction fuel arbitrary: st e)
  case (Suc fuel)
  let ?st = "skip_whitespace input st"
  note s = skip_inside(1) [OF Suc.prems(1)] skip_inside(2) [of st input]
  show ?case
  proof (cases "operator_at (drop (pp_position ?st) input)")
    case None
    then show ?thesis using s Suc.prems(3) by (simp add: Let_def ends_well_Inr)
  next
    case (Some p)
    let ?next = "advance (length (comparison_as_str p)) ?st"
    have "length (comparison_as_str p) \<le> length input - pp_position ?st" "1 \<le> length (comparison_as_str p)"
      using operator_at_length [OF Some] by simp_all
    then have n: "inside input k ?next" "pp_position st + 1 \<le> pp_position ?next"
      using s by (auto simp: step_simps inside_def)
    have "ends_well input k (pp_position st) writable
        (p_bind (record_node q) (\<lambda>u. p_bind additive (\<lambda>right. comparison_loop input additive fuel (UCompare p e right))) ?next)" for q
    proof (rule ends_well_bind, rule stepsD [OF steps_record_node n(1)], goal_cases)
      case (1 u st1)
      show ?case
      proof (rule ends_well_bind, rule stepsD [OF additive 1(2)], goal_cases)
        case (1 right st2)
        show ?case
          by (rule ends_well_weaken [OF Suc.IH [OF 1(2)]])
            (use 1 \<open>pp_position ?next + 0 \<le> pp_position st1\<close> n(2) Suc.prems(2,3) in
              \<open>auto simp: inside_def\<close>)
      qed
    qed
    then show ?thesis by (simp add: Let_def Some)
  qed
qed simp

lemma operator_loop_ends:
  assumes operand: "steps input k 1 writable operand"
    and node: "\<And>c f l r. node c = Some f \<Longrightarrow> writable l \<Longrightarrow> writable r \<Longrightarrow> writable (f l r)"
  shows "inside input k st \<Longrightarrow> length input - pp_position st < fuel \<Longrightarrow> writable e \<Longrightarrow>
    ends_well input k (pp_position st) writable (operator_loop input node operand fuel e st)"
proof (induction fuel arbitrary: st e)
  case (Suc fuel)
  let ?st = "skip_whitespace input st"
  note s = skip_inside(1) [OF Suc.prems(1)] skip_inside(2) [of st input]
  show ?case
  proof (cases "Option.bind (peek input ?st) node")
    case None
    then show ?thesis using s Suc.prems(3) by (simp add: Let_def ends_well_Inr)
  next
    case (Some f)
    then obtain c where c: "peek input ?st = Some c" "node c = Some f" by (auto simp: bind_eq_Some_conv)
    let ?next = "advance 1 ?st"
    have n: "inside input k ?next" "pp_position st + 1 \<le> pp_position ?next"
      using s peek_inside [OF c(1) s(1)] by (simp_all add: advance_position)
    have "ends_well input k (pp_position st) writable
        (p_bind (record_node q) (\<lambda>u. p_bind operand (\<lambda>right. operator_loop input node operand fuel (f e right))) ?next)" for q
    proof (rule ends_well_bind, rule stepsD [OF steps_record_node n(1)], goal_cases)
      case (1 u st1)
      show ?case
      proof (rule ends_well_bind, rule stepsD [OF operand 1(2)], goal_cases)
        case (1 right st2)
        show ?case
          by (rule ends_well_weaken [OF Suc.IH [OF 1(2)]])
            (use 1 \<open>pp_position ?next + 0 \<le> pp_position st1\<close> n(2) Suc.prems(2,3) node [OF c(2)] in
              \<open>auto simp: inside_def\<close>)
      qed
    qed
    then show ?thesis by (simp add: Let_def Some)
  qed
qed simp

lemma writable_nodes:
  "additive_node c = Some f \<Longrightarrow> writable l \<Longrightarrow> writable r \<Longrightarrow> writable (f l r)"
  "multiplicative_node c = Some f \<Longrightarrow> writable l \<Longrightarrow> writable r \<Longrightarrow> writable (f l r)"
  by (auto simp: additive_node_def multiplicative_node_def split: if_splits)

lemma steps_then_loop:
  assumes m: "steps input k 1 writable m"
    and loop: "\<And>st e. inside input k st \<Longrightarrow> writable e \<Longrightarrow> ends_well input k (pp_position st) writable (f e st)"
  shows "steps input k 1 writable (p_bind m f)"
proof (rule steps_bind [OF m])
  fix e assume "writable e"
  then show "steps input k 0 writable (f e)" by (intro stepsI) (simp add: loop)
qed simp

lemma fuel_enough: "length input - pp_position st < Suc (length input)"
  by simp

lemma steps_multiplicative:
  assumes "steps input k 1 writable unary"
  shows "steps input k 1 writable (parse_multiplicative input unary)"
  unfolding parse_multiplicative_def
  by (rule steps_then_loop [OF assms])
    (rule operator_loop_ends [OF assms], rule writable_nodes(2), assumption, assumption, assumption, assumption, rule fuel_enough, assumption)

lemma steps_additive:
  assumes "steps input k 1 writable unary"
  shows "steps input k 1 writable (parse_additive input unary)"
  unfolding parse_additive_def
  by (rule steps_then_loop [OF steps_multiplicative [OF assms]])
    (rule operator_loop_ends [OF steps_multiplicative [OF assms]], rule writable_nodes(1), assumption, assumption, assumption, assumption,
      rule fuel_enough, assumption)

lemma steps_comparison:
  assumes "steps input k 1 writable unary"
  shows "steps input k 1 writable (parse_comparison input unary)"
  unfolding parse_comparison_def
  by (rule steps_then_loop [OF steps_additive [OF assms]])
    (rule comparison_loop_ends [OF steps_additive [OF assms]], assumption, rule fuel_enough, assumption)

section \<open>Conditional aggregates\<close>

lemma string_literal_loop_ends:
  "pp_nesting st = k \<Longrightarrow> length input - pp_position st < fuel \<Longrightarrow>
   ends_well input k (pp_position st + 1) (\<lambda>s. True) (string_literal_loop input fuel t st)"
proof (induction fuel arbitrary: st t)
  case (Suc fuel)
  show ?case
  proof (cases "peek input st")
    case None
    then show ?thesis by (simp add: step_simps)
  next
    case (Some c)
    have c: "pp_position st < length input" using Some by (auto simp: peek_def split: if_splits)
    then have here: "inside input k (advance 1 st)" using Suc.prems(1) by (simp add: step_simps)
    have more: "ends_well input k (pp_position st + 1) (\<lambda>s. True) (string_literal_loop input fuel t' (advance n st))"
      if "1 \<le> n" for n t'
      by (rule ends_well_weaken [OF Suc.IH]) (use that Suc.prems c in \<open>auto simp: step_simps\<close>)
    have "1 \<le> char_len c" by (simp add: char_len_def)
    then show ?thesis
      using Some here more [of 2] more [of "char_len c"] by (auto simp: ends_well_Inr advance_position)
  qed
qed simp

definition criterion_parts_ok :: "criterion_parts \<Rightarrow> bool" where
  "criterion_parts_ok pv \<longleftrightarrow>
     (case pv of (p, v) \<Rightarrow>
      case v of
        None \<Rightarrow> p = CmpEqual \<or> p = CmpNotEqual
      | Some e \<Rightarrow> writable e \<and> (p = CmpEqual \<or> is_number_literal e))"

lemma blank_operator:
  "criterion_parse s = Inr t \<Longrightarrow> is_blank_test t \<Longrightarrow> ct_operator t = CmpEqual \<or> ct_operator t = CmpNotEqual"
  by (cases "ct_operator t") (auto simp: criterion_parse_def Let_def is_blank_test_def is_relational_def split: prod.splits if_splits
      comparison_operator.splits)

lemma steps_criterion_literal:
  assumes st: "inside input k st"
  shows "ends_well input k (pp_position st + 1) criterion_parts_ok (parse_criterion_literal input st)"
proof -
  have "ends_well input k (pp_position (advance 1 st) + 1) (\<lambda>s. True)
      (string_literal_loop input (Suc (length input)) [] (advance 1 st))"
    by (rule string_literal_loop_ends) (use st in \<open>simp_all add: inside_def advance_def\<close>)
  then have "ends_well input k (pp_position st + 1) (\<lambda>s. True)
      (string_literal_loop input (Suc (length input)) [] (advance 1 st))"
    by (rule ends_well_weaken) (simp_all add: advance_position)
  then show ?thesis
    unfolding parse_criterion_literal_def Let_def
    by (rule ends_well_and_then)
      (auto simp: ends_well_fail ends_well_Inr criterion_parts_ok_def is_number_literal_def
        dest: number_new_ok blank_operator split: sum.split option.split)
qed

lemma steps_criterion:
  assumes "steps input k 1 writable unary"
  shows "steps input k 1 criterion_parts_ok (parse_criterion input unary)"
proof -
  have "steps input k 1 criterion_parts_ok (\<lambda>st.
      if peek input st = Some (CHR 34) then parse_criterion_literal input st
      else p_bind (parse_additive input unary) (\<lambda>e. p_return (CmpEqual, Some e)) st)" (is "steps input k 1 _ ?body")
  proof (rule stepsI)
    fix st assume st: "inside input k st"
    have "steps input k 1 criterion_parts_ok (p_bind (parse_additive input unary) (\<lambda>e. p_return (CmpEqual, Some e)))"
      by (rule steps_bind [OF steps_additive [OF assms]], rule steps_return) (simp_all add: criterion_parts_ok_def)
    from stepsD [OF this st] show "ends_well input k (pp_position st + 1) criterion_parts_ok (?body st)"
      using steps_criterion_literal [OF st] by simp
  qed
  then have "steps input k 1 criterion_parts_ok (\<lambda>st. ?body (skip_whitespace input st))" by (rule steps_skip)
  moreover have "parse_criterion input unary = (\<lambda>st. ?body (skip_whitespace input st))"
    by (rule ext) (simp add: parse_criterion_def Let_def)
  ultimately show ?thesis by simp
qed

lemma steps_after_column: "steps input k 1 column_writable (after_column_argument input message)"
  unfolding after_column_argument_def
  by (rule steps_bind [where d'' = 0, OF steps_column_argument], rule steps_bind [OF steps_expect steps_return]) simp_all

lemma steps_column_criterion:
  assumes "steps input k 1 writable unary"
  shows "steps input k 1 criterion_writable (parse_column_criterion input unary)"
  unfolding parse_column_criterion_def
proof (rule steps_bind [OF steps_after_column])
  fix column assume "column_writable column"
  then show "steps input k 1 criterion_writable (p_bind (parse_criterion input unary) (\<lambda>(p, v). p_return (UCriterion column p v)))"
    by (intro steps_bind [OF steps_criterion [OF assms]]) (auto intro!: steps_return simp: criterion_parts_ok_def)
qed simp

definition criteria_ok :: "unbound_criterion list \<Rightarrow> bool" where
  "criteria_ok criteria \<longleftrightarrow>
     criteria \<noteq> [] \<and> length criteria \<le> max_conditional_criteria \<and> list_all criterion_writable criteria"

lemma criteria_loop_ends:
  assumes unary: "steps input k 1 writable unary"
  shows "inside input k st \<Longrightarrow> length input - pp_position st < fuel \<Longrightarrow>
    list_all criterion_writable criteria \<Longrightarrow> length criteria \<le> max_conditional_criteria \<Longrightarrow>
    ends_well input k (pp_position st + 1) criteria_ok (criteria_loop input unary fuel criteria st)"
proof (induction fuel arbitrary: st criteria)
  case (Suc fuel)
  show ?case
  proof (cases "length criteria = max_conditional_criteria")
    case True
    then show ?thesis by (simp add: ends_well_fail)
  next
    case False
    have step: "ends_well input k (pp_position st + 1) criteria_ok
        (let st = skip_whitespace input st'; criteria = criteria @ [c] in
         if peek input st = Some (CHR '','') then criteria_loop input unary fuel criteria (advance 1 st)
         else Inr (criteria, st))"
      if s: "pp_position st + 1 \<le> pp_position st'" "inside input k st'" "criterion_writable c" for c st'
    proof -
      let ?st = "skip_whitespace input st'"
      note t = skip_inside(1) [OF s(2)] skip_inside(2) [of st' input]
      have cs: "criteria_ok (criteria @ [c])"
        using s(3) Suc.prems(3,4) False by (auto simp: criteria_ok_def)
      have "ends_well input k (pp_position st + 1) criteria_ok
          (criteria_loop input unary fuel (criteria @ [c]) (advance 1 ?st))"
        if "peek input ?st = Some x" for x
        by (rule ends_well_weaken [OF Suc.IH [OF peek_inside [OF that t(1)]]])
          (use s t(2) Suc.prems(2) peek_Some [OF that] cs in \<open>auto simp: advance_position criteria_ok_def\<close>)
      then show ?thesis using s t cs by (simp add: Let_def ends_well_Inr)
    qed
    have "ends_well input k (pp_position st + 1) criteria_ok
        (p_bind (parse_column_criterion input unary) (\<lambda>c st.
           let st = skip_whitespace input st; criteria = criteria @ [c] in
           if peek input st = Some (CHR '','') then criteria_loop input unary fuel criteria (advance 1 st)
           else Inr (criteria, st)) st)"
      by (rule ends_well_bind, rule stepsD [OF steps_column_criterion [OF unary] Suc.prems(1)]) (rule step)
    then show ?thesis using False by simp
  qed
qed simp

definition value_column_ok :: "column_address option \<Rightarrow> bool" where
  "value_column_ok column_values \<longleftrightarrow> (\<forall>c. column_values = Some c \<longrightarrow> column_writable c)"

lemma steps_conditional_node:
  assumes "criteria_ok criteria" "value_column_ok column_values"
  shows "steps input k 0 writable (conditional_node name column_values criteria)"
proof -
  obtain c cs where cs: "criteria = c # cs" using assms(1) by (cases criteria) (auto simp: criteria_ok_def)
  then have "column_writable (uc_column c)" using assms(1) by (cases c) (simp add: criteria_ok_def)
  then show ?thesis
    using assms cs
    by (auto simp: conditional_node_def criteria_ok_def value_column_ok_def conditional_values_def
        split: option.split intro!: steps_return)
qed

lemma steps_conditional_finish:
  "criteria_ok criteria \<Longrightarrow> value_column_ok column_values \<Longrightarrow> steps input k 1 writable
     (p_bind (p_expect input c m) (\<lambda>u. conditional_node name column_values criteria))"
  by (rule steps_bind [OF steps_expect steps_conditional_node]) simp_all

lemma steps_plural_arguments:
  assumes unary: "steps input k 1 writable unary"
  shows "steps input k 1 writable (parse_plural_arguments input unary name)"
proof -
  have criteria: "steps input k 1 criteria_ok (criteria_loop input unary (Suc (length input)) [])"
    by (rule stepsI, rule criteria_loop_ends [OF unary]) (simp_all add: max_conditional_criteria_def)
  have "steps input k 1 value_column_ok (p_bind (after_column_argument input m) (\<lambda>column. p_return (Some column)))" for m
    by (rule steps_bind [OF steps_after_column steps_return]) (simp_all add: value_column_ok_def)
  then have "steps input k 0 value_column_ok (p_bind (after_column_argument input m) (\<lambda>column. p_return (Some column)))" for m
    by (rule steps_weaken) simp_all
  then show ?thesis
    unfolding parse_plural_arguments_def
    by (intro steps_bind [where d' = 0 and d'' = 1 and Q' = value_column_ok] steps_bind [OF criteria steps_conditional_finish])
      (auto intro: steps_return simp: value_column_ok_def)
qed

lemma steps_value_column: "steps input k 0 value_column_ok (parse_value_column input counting)"
proof (rule stepsI)
  fix st assume st: "inside input k st"
  have "ends_well input k (pp_position st) value_column_ok
      (p_bind (parse_column_argument input) (\<lambda>column st. Inr (Some column, skip_whitespace input st)) (advance 1 st))"
    if "peek input st = Some c" for c
  proof (rule ends_well_bind, rule stepsD [OF steps_column_argument peek_inside [OF that st]], goal_cases)
    case (1 column st')
    then show ?case
      using skip_inside(1) [OF 1(2)] skip_inside(2) [of st' input]
      by (simp add: ends_well_Inr advance_position value_column_ok_def)
  qed
  then show "ends_well input k (pp_position st + 0) value_column_ok (parse_value_column input counting st)"
    using st by (auto simp: parse_value_column_def ends_well_fail ends_well_return value_column_ok_def)
qed

lemma steps_single_arguments:
  assumes unary: "steps input k 1 writable unary"
  shows "steps input k 1 writable (parse_single_arguments input unary name)"
  unfolding parse_single_arguments_def
proof (rule steps_bind [where d'' = 0, OF steps_column_criterion [OF unary]])
  fix criterion assume "criterion_writable criterion"
  then have one: "criteria_ok [criterion]" by (simp add: criteria_ok_def max_conditional_criteria_def)
  let ?rest = "p_bind (parse_value_column input (starts_with ''COUNT'' name)) (\<lambda>column_values.
      p_bind (p_expect input (CHR '')'') close_message) (\<lambda>u. conditional_node name column_values [criterion]))"
  have "steps input k 0 writable ?rest"
    by (rule steps_bind [OF steps_value_column steps_conditional_finish [OF one]]) simp_all
  then show "steps input k 0 writable (\<lambda>st. ?rest (skip_whitespace input st))" by (rule steps_skip)
qed simp

lemma steps_conditional_arguments:
  assumes unary: "steps input k 1 writable unary"
  shows "steps input k 1 writable (parse_conditional_arguments input unary name)"
proof -
  have "steps input k 1 writable (\<lambda>st.
      if peek input st = Some (CHR '')'') then p_error ''expected a column argument'' st
      else if ends_with ''S'' name then parse_plural_arguments input unary name st
      else parse_single_arguments input unary name st)" (is "steps input k 1 _ ?body")
    using stepsD [OF steps_plural_arguments [OF unary]] stepsD [OF steps_single_arguments [OF unary]]
    by (intro stepsI) (simp add: ends_well_fail)
  then have "steps input k 1 writable (\<lambda>st. ?body (skip_whitespace input st))" by (rule steps_skip)
  moreover have "parse_conditional_arguments input unary name = (\<lambda>st. ?body (skip_whitespace input st))"
    by (rule ext) (simp only: parse_conditional_arguments_def Let_def)
  ultimately show ?thesis by simp
qed

section \<open>Functions\<close>

lemma arguments_loop_ends:
  assumes argument: "steps input k 1 writable argument"
  shows "inside input k st \<Longrightarrow> length input - pp_position st < fuel \<Longrightarrow>
    list_all writable arguments \<Longrightarrow>
    ends_well input k (pp_position st) (list_all writable) (arguments_loop input argument fuel arguments st)"
proof (induction fuel arbitrary: st arguments)
  case (Suc fuel)
  show ?case
    unfolding arguments_loop.simps
  proof (rule ends_well_bind, rule stepsD [OF argument Suc.prems(1)], goal_cases)
    case (1 x st')
    let ?st = "skip_whitespace input st'"
    note t = skip_inside(1) [OF 1(2)] skip_inside(2) [of st' input]
    have "ends_well input k (pp_position st) (list_all writable) (arguments_loop input argument fuel (arguments @ [x]) (advance 1 ?st))"
      if "peek input ?st = Some c" for c
      by (rule ends_well_weaken [OF Suc.IH [OF peek_inside [OF that t(1)]]])
        (use 1(1,3) t(2) Suc.prems(2,3) peek_Some [OF that] in \<open>auto simp: advance_position\<close>)
    then show ?case using 1(1,3) Suc.prems(3) t by (simp add: Let_def ends_well_Inr)
  qed
qed simp

lemma steps_arguments:
  assumes unary: "steps input k 1 writable unary"
  shows "steps input k 1 (list_all writable) (parse_arguments input unary)"
proof -
  have "steps input k 0 (list_all writable) (arguments_loop input (parse_comparison input unary) (Suc (length input)) [])"
    by (rule stepsI) (simp add: arguments_loop_ends [OF steps_comparison [OF unary]] del: arguments_loop.simps)
  then have step: "steps input k 1 (list_all writable) (p_bind (if b then p_return [] else
      arguments_loop input (parse_comparison input unary) (Suc (length input)) [])
      (\<lambda>arguments. p_bind (p_expect input c m) (\<lambda>u. p_return arguments)))" for b c m
    by (intro steps_bind [where d' = 0 and d'' = 1 and Q' = "list_all writable"] steps_bind [OF steps_expect steps_return])
      (auto intro: steps_return)
  have "steps input k 1 (list_all writable) (\<lambda>st. p_bind (if peek input st = Some (CHR '')'') then p_return [] else
      arguments_loop input (parse_comparison input unary) (Suc (length input)) [])
      (\<lambda>arguments. p_bind (p_expect input (CHR '')'') close_message) (\<lambda>u. p_return arguments)) st)"
    (is "steps input k 1 _ ?body")
    by (rule stepsI) (rule stepsD [OF step])
  then have "steps input k 1 (list_all writable) (\<lambda>st. ?body (skip_whitespace input st))" by (rule steps_skip)
  moreover have "parse_arguments input unary = (\<lambda>st. ?body (skip_whitespace input st))"
    by (rule ext) (simp only: parse_arguments_def Let_def)
  ultimately show ?thesis by simp
qed

lemma steps_call:
  assumes "k < max_expression_depth \<Longrightarrow> steps input (Suc k) 0 Q m"
  shows "steps input k 1 Q (call_arguments input start m)"
proof -
  have "steps input k 1 Q (\<lambda>st. p_bind (p_expect input (CHR ''('') open_message) (\<lambda>u.
      p_bind (record_node start) (\<lambda>u. with_nesting (pp_position st) m)) st)" (is "steps input k 1 Q ?body")
  proof (rule stepsI)
    fix st assume st: "inside input k st"
    have "steps input k 1 Q (p_bind (p_expect input (CHR ''('') open_message) (\<lambda>u.
        p_bind (record_node start) (\<lambda>u. with_nesting (pp_position st) m)))"
      by (rule steps_bind [where d'' = 0, OF steps_expect], rule steps_bind [OF steps_record_node steps_nesting])
        (use assms in simp_all)
    from stepsD [OF this st] show "ends_well input k (pp_position st + 1) Q (?body st)" .
  qed
  then have "steps input k 1 Q (\<lambda>st. ?body (skip_whitespace input st))" by (rule steps_skip)
  moreover have "call_arguments input start m = (\<lambda>st. ?body (skip_whitespace input st))"
    by (rule ext) (simp only: call_arguments_def Let_def)
  ultimately show ?thesis by simp
qed

lemma steps_pair:
  assumes unary: "steps input k 1 writable unary"
  shows "steps input k 0 (\<lambda>(l, r). writable l \<and> writable r) (parse_pair input unary)"
  unfolding parse_pair_def
  by (rule steps_bind [where d'' = 0, OF steps_comparison [OF unary]], rule steps_bind [where d'' = 0, OF steps_expect],
      rule steps_bind [where d'' = 0, OF steps_comparison [OF unary]], rule steps_bind [OF steps_expect steps_return])
    simp_all

text \<open>The parser one level down, if the nesting limit admits that level.\<close>

definition reads_below :: "string \<Rightarrow> nat \<Rightarrow> unbound_expression parser \<Rightarrow> bool" where
  "reads_below input k unary \<longleftrightarrow> (k < max_expression_depth \<longrightarrow> steps input (Suc k) 1 writable unary)"

lemma steps_extended_function:
  assumes "reads_below input k unary"
  shows "steps input k 1 writable (parse_extended_function input unary start name)"
  unfolding parse_extended_function_def
proof (rule steps_bind [where d'' = 0, OF steps_call])
  show "k < max_expression_depth \<Longrightarrow> steps input (Suc k) 0 (list_all writable) (parse_arguments input unary)"
    using assms by (intro steps_weaken [OF steps_arguments]) (simp_all add: reads_below_def)
  show "steps input k 0 writable (case extended_node name xs of
      None \<Rightarrow> p_fail start (''invalid arity for '' @ name) | Some e \<Rightarrow> p_return e)"
    if "list_all writable xs" for xs
  proof (cases "extended_node name xs")
    case (Some e)
    then have "writable e"
      using that by (auto simp: extended_node_def split: if_splits list.splits)
    then show ?thesis using Some by (simp add: steps_return)
  qed (simp add: steps_fail)
qed simp

lemma steps_conditional_function:
  assumes "reads_below input k unary"
  shows "steps input k 1 writable (parse_conditional_function input unary start name)"
  unfolding parse_conditional_function_def
  by (rule steps_call, rule steps_weaken [OF steps_conditional_arguments])
    (use assms in \<open>simp_all add: reads_below_def\<close>)

lemma steps_pair_function:
  assumes "reads_below input k unary" "\<And>l r. writable l \<Longrightarrow> writable r \<Longrightarrow> writable (f l r)"
  shows "steps input k 1 writable (p_bind (call_arguments input start (parse_pair input unary)) (\<lambda>(l, r). p_return (f l r)))"
proof (rule steps_bind [where d'' = 0, OF steps_call])
  show "k < max_expression_depth \<Longrightarrow> steps input (Suc k) 0 (\<lambda>(l, r). writable l \<and> writable r) (parse_pair input unary)"
    using assms(1) by (intro steps_pair) (simp add: reads_below_def)
  show "steps input k 0 writable (case x of (l, r) \<Rightarrow> p_return (f l r))"
    if "case x of (l, r) \<Rightarrow> writable l \<and> writable r" for x
    using that by (cases x) (simp add: steps_return assms(2))
qed simp

lemma function_ends:
  assumes below: "reads_below input k unary" and st: "inside input k st" "peek input st = Some c"
  shows "ends_well input k (pp_position st + 1) writable (parse_function input unary st)"
proof -
  let ?st = "advance_while is_name_char input (advance 1 st)"
  have s: "inside input k ?st" "pp_position st + 1 \<le> pp_position ?st"
    using advance_while_inside(1) [OF peek_inside [OF st(2,1)]] advance_while_inside(2) [of "advance 1 st" is_name_char input]
    by (simp_all add: advance_position)
  have weak: "ends_well input k (pp_position st + 1) writable (m ?st)" if "steps input k 1 writable m" for m
    by (rule ends_well_weaken [OF stepsD [OF that s(1)]]) (use s(2) in simp_all)
  have pair: "writable l \<Longrightarrow> writable r \<Longrightarrow> writable (UMinimum l r)"
    "writable l \<Longrightarrow> writable r \<Longrightarrow> writable (UMaximum l r)" for l r by simp_all
  show ?thesis
    unfolding parse_function_def function_call_def Let_def
    using weak [OF steps_extended_function [OF below]] weak [OF steps_conditional_function [OF below]]
      weak [OF steps_pair_function [OF below pair(1)]] weak [OF steps_pair_function [OF below pair(2)]]
    by (simp add: ends_well_fail)
qed

section \<open>Operands\<close>

lemma parenthesized_ends:
  assumes below: "reads_below input k unary" and st: "inside input k st" "peek input st = Some c"
  shows "ends_well input k (pp_position st + 1) writable (parse_parenthesized input unary st)"
proof -
  have "steps input k 0 writable (with_nesting p (p_bind (parse_comparison input unary) (\<lambda>e.
      p_bind (p_expect input c m) (\<lambda>u. p_return e))))" for p c m
  proof (rule steps_nesting)
    assume "k < max_expression_depth"
    then have "steps input (Suc k) 1 writable unary" using below by (simp add: reads_below_def)
    then show "steps input (Suc k) 0 writable (p_bind (parse_comparison input unary) (\<lambda>e.
        p_bind (p_expect input c m) (\<lambda>u. p_return e)))"
      by (intro steps_bind [where d'' = 0, OF steps_comparison] steps_bind [OF steps_expect steps_return]) simp_all
  qed
  from stepsD [OF this peek_inside [OF st(2,1)]] show ?thesis
    by (simp add: parse_parenthesized_def advance_position)
qed

lemma steps_primary:
  assumes below: "reads_below input k unary"
  shows "steps input k 1 writable (parse_primary input unary)"
proof -
  let ?body = "\<lambda>st. case peek input st of
      None \<Rightarrow> p_error ''expected expression'' st
    | Some c \<Rightarrow>
        if is_ascii_digit c \<or> c = CHR ''.'' then parse_number input st
        else if c = CHR ''['' then parse_reference input st
        else if c = CHR ''('' then parse_parenthesized input unary st
        else if is_ascii_alphabetic c then parse_function input unary st
        else p_error (''expected number, reference, function, or '' @ [CHR 39, CHR ''('', CHR 39]) st"
  have "steps input k 1 writable ?body"
  proof (rule stepsI)
    fix st assume st: "inside input k st"
    show "ends_well input k (pp_position st + 1) writable (?body st)"
      using stepsD [OF steps_number st] stepsD [OF steps_reference st] parenthesized_ends [OF below st]
        function_ends [OF below st]
      by (simp add: ends_well_fail split: option.split)
  qed
  then have "steps input k 1 writable (\<lambda>st. ?body (skip_whitespace input st))" by (rule steps_skip)
  moreover have "parse_primary input unary = (\<lambda>st. ?body (skip_whitespace input st))"
    by (rule ext) (simp only: parse_primary_def Let_def)
  ultimately show ?thesis by simp
qed

lemma steps_negate:
  assumes "writable operand"
  shows "steps input k 0 writable (negate_operand p operand)"
proof (cases operand)
  case (UNumber n)
  then have "f64_is_finite (number_get n)" using assms by (simp add: number_ok_def)
  then have "f64_is_finite (f64_neg (number_get n))"
    using f64_make_parts [OF f64_mag_less, of "\<not> f64_sign (number_get n)" "number_get n"]
    by (simp add: f64_neg_def f64_is_finite_def)
  then obtain m where m: "number_new (f64_neg (number_get n)) = Some m" by (auto simp: number_new_def)
  then show ?thesis
    using number_new_ok [OF m] by (simp add: negate_operand_def UNumber steps_return)
qed (use assms in \<open>auto simp: negate_operand_def number_ok_def f64_is_finite_def inf_mag_def
    intro!: steps_bind [where d' = 0 and d'' = 0, OF steps_record_node] steps_return\<close>)

lemma steps_unary_step:
  assumes below: "reads_below input k unary"
  shows "steps input k 1 writable (unary_step input unary)"
proof -
  let ?sign = "\<lambda>c p. p_bind (with_nesting p unary) (\<lambda>operand.
      if c = CHR ''+'' then p_return operand else negate_operand p operand)"
  let ?body = "\<lambda>st. case peek input st of
      Some c \<Rightarrow> if is_sign c then ?sign c (pp_position st) (advance 1 st) else parse_primary input unary st
    | None \<Rightarrow> parse_primary input unary st"
  have "steps input k 1 writable ?body"
  proof (rule stepsI)
    fix st assume st: "inside input k st"
    have "steps input k 0 writable (?sign c p)" for c p
      by (rule steps_bind [where d'' = 0 and Q' = writable, OF steps_nesting [where d = 1]])
        (use below in \<open>auto simp: reads_below_def intro: steps_return steps_negate\<close>)
    from stepsD [OF this] have "ends_well input k (pp_position st + 1) writable (?sign c p (advance 1 st))"
      if "peek input st = Some c" for c p
      using peek_inside [OF that st] by (metis add_0_right advance_position)
    then show "ends_well input k (pp_position st + 1) writable (?body st)"
      using stepsD [OF steps_primary [OF below] st] by (simp split: option.split)
  qed
  then have "steps input k 1 writable (\<lambda>st. ?body (skip_whitespace input st))" by (rule steps_skip)
  moreover have "unary_step input unary = (\<lambda>st. ?body (skip_whitespace input st))"
    by (rule ext) (simp only: unary_step_def Let_def)
  ultimately show ?thesis by simp
qed

lemma steps_unary:
  "k \<le> max_expression_depth \<Longrightarrow> max_expression_depth < k + n \<Longrightarrow> steps input k 1 writable (parse_unary input n)"
proof (induction n arbitrary: k)
  case (Suc n)
  have "reads_below input k (parse_unary input n)"
    using Suc.IH [of "Suc k"] Suc.prems by (simp add: reads_below_def)
  then show ?case unfolding parse_unary.simps by (rule steps_unary_step)
qed simp

section \<open>The parser\<close>

lemma parse_all_ends:
  "(\<exists>e. parse_all input = Inr e \<and> writable e) \<or> (\<exists>error. parse_all input = Inl (Malformed error))"
proof -
  let ?st = "skip_whitespace input parser_new"
  have st: "inside input 0 ?st" by (rule skip_inside) (simp add: inside_def parser_new_def)
  have "steps input 0 1 writable (parse_comparison input (parse_unary input (max_expression_depth + 2)))"
    by (intro steps_comparison steps_unary) simp_all
  from stepsD [OF this st] show ?thesis
    by (auto simp: parse_all_def Let_def ends_well_def parse_error_new_def split: sum.splits if_splits
        simp del: parse_unary.simps)
qed

text \<open>What is parsed can be written and is within the structural limits.\<close>

lemma parsed_writable:
  "parse_expression input = Inr e \<Longrightarrow> writable e \<and> validate_unbound_structure e = Inr ()"
  using parse_all_ends [of input] by (auto simp: parse_expression_def split: if_splits sum.splits)


end
