(* ===== verification/NumberText.thy ===== *)
theory NumberText
  imports Parser
begin

text \<open>
  The text of a number and how it is read back.  The shortest digits of a finite number parse to
  the number itself, and the text \<open>format_number\<close> chooses is a literal of the formula language.
\<close>

section \<open>The shortest digits\<close>

text \<open>The exponent of the least subnormal, kept opaque so that its powers are not computed.\<close>

definition least_exponent :: nat where
  "least_exponent = 1074"

lemma round_decimal_least:
  "0 \<le> e \<Longrightarrow> round_decimal d e = round_units (d * 10 ^ nat e * 2 ^ least_exponent) 1"
  "e < 0 \<Longrightarrow> round_decimal d e = round_units (d * 2 ^ least_exponent) (10 ^ nat (- e))"
  unfolding round_decimal_def least_exponent_def [symmetric] by simp_all

lemma exact_candidate:
  assumes "m < inf_mag"
  shows "candidate m (- int least_exponent) \<noteq> None"
proof -
  let ?k = least_exponent
  have pos: "0 < ?k" by (simp add: least_exponent_def)
  have ten: "(10::nat) ^ ?k = 5 ^ ?k * 2 ^ ?k" by (simp add: power_mult_distrib [symmetric])
  have lo: "mag_units m * 10 ^ ?k div 2 ^ ?k = mag_units m * 5 ^ ?k"
    unfolding ten mult.assoc [symmetric] by (rule nonzero_mult_div_cancel_right) simp
  have "round_decimal (mag_units m * 5 ^ ?k) (- int ?k) = round_units (mag_units m * 10 ^ ?k) (10 ^ ?k)"
    using pos by (simp add: round_decimal_least ten mult.assoc)
  also have "\<dots> = m" by (rule round_units_exact [OF assms]) simp
  finally have ok: "round_decimal (mag_units m * 5 ^ ?k) (- int ?k) = m" .
  have neg: "\<not> 0 \<le> - int ?k" using pos by simp
  show ?thesis
    unfolding candidate_def Let_def least_exponent_def [symmetric]
    using neg lo ok by simp
qed

lemma candidate_rounds: "candidate m e = Some d \<Longrightarrow> round_decimal d e = m"
  by (simp add: candidate_def Let_def split: if_splits)

lemma shortest_from_rounds: "shortest_from m e fuel = Some (d, e') \<Longrightarrow> round_decimal d e' = m"
  by (induction m e fuel rule: shortest_from.induct) (auto split: option.splits dest: candidate_rounds)

lemma shortest_from_finds:
  "candidate m (e - int k) \<noteq> None \<Longrightarrow> k < fuel \<Longrightarrow> shortest_from m e fuel \<noteq> None"
proof (induction fuel arbitrary: e k)
  case (Suc fuel)
  show ?case
  proof (cases k)
    case 0
    then show ?thesis using Suc.prems(1) by (auto split: option.split)
  next
    case (Suc j)
    then show ?thesis
      using Suc.IH [of "e - 1" j] Suc.prems by (auto split: option.split simp: algebra_simps)
  qed
qed simp

lemma shortest_decimal_rounds:
  assumes "m < inf_mag" "shortest_decimal m = (d, e)"
  shows "round_decimal d e = m"
proof (cases "m = 0")
  case True
  then have "d = 0" "e = 0" using assms(2) by (simp_all add: shortest_decimal_def)
  then show ?thesis
    using True by (simp add: round_decimal_def round_units_def round_half_even_def)
next
  case False
  have "candidate m (308 - int 1382) \<noteq> None"
    using exact_candidate [OF assms(1)] by (simp add: least_exponent_def)
  then have "shortest_from m 308 1400 \<noteq> None" by (rule shortest_from_finds) simp
  then show ?thesis
    using assms(2) False shortest_from_rounds [of m 308 1400] by (auto simp: shortest_decimal_def split: option.splits)
qed

section \<open>Literals\<close>

text \<open>Digits, an optional fraction and an optional exponent.\<close>

definition literal_text :: "string \<Rightarrow> string \<Rightarrow> string \<Rightarrow> string" where
  "literal_text whole fraction exponent = whole @ fraction @ exponent"

definition is_literal :: "string \<Rightarrow> string \<Rightarrow> string \<Rightarrow> bool" where
  "is_literal whole fraction exponent \<longleftrightarrow>
     whole \<noteq> [] \<and> list_all is_ascii_digit whole \<and>
     (fraction = [] \<or> (\<exists>ds. fraction = CHR ''.'' # ds \<and> list_all is_ascii_digit ds)) \<and>
     (exponent = [] \<or> (\<exists>s ds. exponent = CHR ''e'' # s @ ds \<and> (s = [] \<or> s = ''-'') \<and>
        ds \<noteq> [] \<and> list_all is_ascii_digit ds))"

lemma span_literal_digits:
  "list_all is_ascii_digit ds \<Longrightarrow> (rest = [] \<or> \<not> is_ascii_digit (hd rest)) \<Longrightarrow> span_digits (ds @ rest) = (ds, rest)"
proof (induction ds)
  case Nil
  then show ?case by (cases rest) simp_all
qed simp

lemma digit_chars:
  "\<not> is_ascii_digit (CHR ''.'')" "\<not> is_ascii_digit (CHR ''e'')" "\<not> is_ascii_digit (CHR ''E'')"
  "\<not> is_ascii_digit (CHR ''-'')" "\<not> is_ascii_digit (CHR ''+'')" "\<not> is_ascii_digit (CHR ''%'')"
  by (simp_all add: is_ascii_digit_def byte_def)

lemma digit_not_special:
  "is_ascii_digit c \<Longrightarrow> c \<noteq> CHR ''.'' \<and> c \<noteq> CHR ''e'' \<and> c \<noteq> CHR ''E'' \<and> c \<noteq> CHR ''-'' \<and> c \<noteq> CHR ''+''"
  using digit_chars by metis

lemma not_special_value:
  assumes "is_ascii_digit c"
  shows "\<not> eq_ignore_ascii_case (c # s) ''inf''" "\<not> eq_ignore_ascii_case (c # s) ''infinity''"
    "\<not> eq_ignore_ascii_case (c # s) ''nan''" "strip_sign (c # s) = (False, c # s)"
proof -
  have c: "to_ascii_lowercase c = c" "byte c \<le> 57"
    using assms by (auto simp: to_ascii_lowercase_def is_ascii_digit_def is_ascii_uppercase_def)
  have "to_ascii_lowercase (CHR ''i'') = CHR ''i''" "to_ascii_lowercase (CHR ''n'') = CHR ''n''"
    "byte (CHR ''i'') = 105" "byte (CHR ''n'') = 110"
    by (simp_all add: to_ascii_lowercase_def is_ascii_uppercase_def byte_def)
  then show "\<not> eq_ignore_ascii_case (c # s) ''inf''" "\<not> eq_ignore_ascii_case (c # s) ''infinity''"
    "\<not> eq_ignore_ascii_case (c # s) ''nan''"
    using c by (auto simp: eq_ignore_ascii_case_def)
  show "strip_sign (c # s) = (False, c # s)"
    using digit_not_special [OF assms] by (simp add: strip_sign_def)
qed

lemma parse_f64_digit: "is_ascii_digit c \<Longrightarrow> parse_f64 (c # s) = map_option (f64_make False) (parse_decimal (c # s))"
  by (simp add: parse_f64_def not_special_value)

lemma parse_plain_literal:
  assumes "is_literal whole fraction []"
  shows "parse_f64 (whole @ fraction) =
    Some (f64_make False (round_decimal (digits_value (whole @ drop 1 fraction)) (- int (length (drop 1 fraction)))))"
proof -
  obtain c cs where w: "whole = c # cs" "is_ascii_digit c" using assms by (cases whole) (auto simp: is_literal_def)
  have whole: "span_digits (whole @ fraction) = (whole, fraction)"
    using assms digit_chars(1) by (intro span_literal_digits) (auto simp: is_literal_def)
  have "parse_decimal (whole @ fraction) =
      Some (round_decimal (digits_value (whole @ drop 1 fraction)) (- int (length (drop 1 fraction))))"
  proof (cases fraction)
    case Nil
    then show ?thesis using whole w by (simp add: parse_decimal_def parse_exponent_def)
  next
    case (Cons d ds)
    then have d: "d = CHR ''.''" "list_all is_ascii_digit ds" using assms by (auto simp: is_literal_def)
    have "span_digits ds = (ds, [])" using span_literal_digits [of ds "[]"] d(2) by simp
    then show ?thesis using whole w Cons d by (simp add: parse_decimal_def parse_exponent_def)
  qed
  then show ?thesis using parse_f64_digit [OF w(2), of "cs @ fraction"] w(1) by simp
qed

lemma show_nat_nonempty: "show_nat n \<noteq> []"
  by (subst show_nat.simps) simp

lemma digits_value_replicate: "digits_value (s @ replicate k (CHR ''0'')) = digits_value s * 10 ^ k"
proof (induction k)
  case (Suc k)
  have "digits_value (s @ replicate (Suc k) (CHR ''0'')) = digits_value ((s @ replicate k (CHR ''0'')) @ [CHR ''0''])"
    by (simp add: replicate_append_same [symmetric])
  also have "\<dots> = digits_value s * 10 ^ Suc k" unfolding digits_value_snoc using Suc by simp
  finally show ?case .
qed simp

lemma digits_value_zero: "digits_value [CHR ''0''] = 0"
  by (simp add: digits_value_def)

text \<open>Positional notation is a literal of the value it shows.\<close>

lemma show_positional_literal:
  obtains whole fraction where "show_positional d e = whole @ fraction" "is_literal whole fraction []"
    "parse_f64 (show_positional d e) = Some (f64_make False (round_decimal d e))"
proof (cases "0 \<le> e")
  case True
  let ?w = "show_nat d @ (if d = 0 then [] else replicate (nat e) (CHR ''0''))"
  have lit: "is_literal ?w [] []"
    using show_nat_digits [of d] show_nat_nonempty [of d] by (auto simp: is_literal_def list_all_iff)
  have "digits_value ?w = d * 10 ^ nat e"
    by (simp add: digits_value_replicate digits_value_show_nat)
  moreover have "round_decimal (d * 10 ^ nat e) 0 = round_decimal d e"
    using True by (simp add: round_decimal_least)
  ultimately show thesis
    using that [of ?w "[]"] True lit parse_plain_literal [OF lit] by (simp add: show_positional_def)
next
  case False
  define k where "k = nat (- e)"
  define p where "p = show_padded (k + 1) d"
  define w where "w = length p - k"
  have len: "k + 1 \<le> length p" by (simp add: p_def show_padded_def)
  have digits: "list_all is_ascii_digit p" unfolding p_def by (rule show_padded_digits)
  have shape: "show_positional d e = take w p @ CHR ''.'' # drop w p"
    using False by (simp add: show_positional_def Let_def w_def p_def k_def)
  have "take w p \<noteq> []" using len by (auto simp: w_def)
  moreover have "list_all is_ascii_digit (take w p)" "list_all is_ascii_digit (drop w p)"
    using digits by (auto simp: list_all_iff dest: in_set_takeD in_set_dropD)
  ultimately have lit: "is_literal (take w p) (CHR ''.'' # drop w p) []" by (simp add: is_literal_def)
  have "length (drop w p) = k" using len by (simp add: w_def)
  moreover have "- int k = e" using False by (simp add: k_def)
  moreover have "digits_value p = d" unfolding p_def by (rule digits_value_padded)
  ultimately show thesis
    using that [OF shape lit] parse_plain_literal [OF lit] unfolding shape by simp
qed

lemma show_scientific_literal:
  obtains whole fraction exponent where "show_scientific d e = whole @ fraction @ exponent"
    "is_literal whole fraction exponent"
proof
  let ?s = "show_nat d"
  show "show_scientific d e = take 1 ?s @ (if drop 1 ?s = [] then [] else CHR ''.'' # drop 1 ?s) @
      CHR ''e'' # show_exponent (e + int (length ?s - 1))"
    by (simp add: show_scientific_def Let_def)
  have s: "?s \<noteq> []" "list_all is_ascii_digit ?s" by (rule show_nat_nonempty, rule show_nat_digits)
  have "take 1 ?s \<noteq> []" "list_all is_ascii_digit (take 1 ?s)" "list_all is_ascii_digit (drop 1 ?s)"
    using s by (auto simp: list_all_iff dest: in_set_takeD in_set_dropD)
  moreover have "\<exists>s ds. CHR ''e'' # show_exponent x = CHR ''e'' # s @ ds \<and> (s = [] \<or> s = ''-'') \<and>
      ds \<noteq> [] \<and> list_all is_ascii_digit ds" for x
    using show_nat_nonempty [of "nat \<bar>x\<bar>"] show_nat_digits [of "nat \<bar>x\<bar>"] unfolding show_exponent_def
    by (intro exI [of _ "if x < 0 then ''-'' else []"] exI [of _ "show_nat (nat \<bar>x\<bar>)"]) simp
  ultimately show "is_literal (take 1 ?s) (if drop 1 ?s = [] then [] else CHR ''.'' # drop 1 ?s)
      (CHR ''e'' # show_exponent (e + int (length ?s - 1)))"
    unfolding is_literal_def by auto
qed

section \<open>The text of a number\<close>

lemma finite_not_nan: "f64_is_finite x \<Longrightarrow> \<not> f64_is_nan x \<and> f64_mag x \<noteq> inf_mag \<and> f64_mag x < inf_mag"
  by (simp add: f64_is_finite_def f64_is_nan_def)

definition literal_of :: "f64 \<Rightarrow> string \<Rightarrow> bool" where
  "literal_of x s \<longleftrightarrow> (\<exists>whole fraction exponent. s = whole @ fraction @ exponent \<and> is_literal whole fraction exponent) \<and>
     Option.bind (parse_f64 s) number_new = Some (Number (f64_abs x))"

lemma parse_negative:
  assumes "(\<exists>whole fraction exponent. s = whole @ fraction @ exponent \<and> is_literal whole fraction exponent)"
  shows "parse_f64 (CHR ''-'' # s) = map_option f64_neg (parse_f64 s)"
proof -
  obtain c cs where s: "s = c # cs" "is_ascii_digit c"
    using assms by (auto simp: is_literal_def neq_Nil_conv)
  have mag: "f64_make True m = f64_neg (f64_make False m)" if "m < 2 ^ 63" for m
    using f64_make_parts [OF that, of False] by (simp add: f64_neg_def)
  have small: "m < 2 ^ 63" if "parse_decimal s = Some m" for m
  proof -
    have "round_decimal a b \<le> inf_mag" for a b by (simp add: round_decimal_def round_units_def Let_def)
    then have "m \<le> inf_mag" using that by (auto simp: parse_decimal_def split: prod.splits if_splits list.splits)
    then show ?thesis by (simp add: inf_mag_def)
  qed
  have "parse_f64 (CHR ''-'' # s) = map_option (f64_make True) (parse_decimal s)"
    using not_special_value [OF s(2)] by (simp add: parse_f64_def strip_sign_def s(1))
  then show ?thesis
    using parse_f64_digit [OF s(2), of cs] mag small by (cases "parse_decimal s") (simp_all add: s(1))
qed

lemma display_literal:
  assumes "f64_is_finite x"
  shows "literal_of x (display_f64 (f64_abs x))"
proof -
  note f = finite_not_nan [OF assms]
  have abs: "f64_mag (f64_abs x) = f64_mag x" "\<not> f64_sign (f64_abs x)"
    using f64_make_parts [OF f64_mag_less, of False x] by (simp_all add: f64_abs_def)
  obtain d e where de: "shortest_decimal (f64_mag x) = (d, e)" by force
  obtain whole fraction where p: "show_positional d e = whole @ fraction" "is_literal whole fraction []"
    "parse_f64 (show_positional d e) = Some (f64_make False (round_decimal d e))"
    by (rule show_positional_literal)
  have "display_f64 (f64_abs x) = show_positional d e"
    using f abs by (simp add: display_f64_def f64_is_nan_def de)
  moreover have "round_decimal d e = f64_mag x" using shortest_decimal_rounds de f by blast
  moreover have "number_new (f64_abs x) = Some (Number (f64_abs x))"
    using assms abs by (simp add: number_new_def f64_is_finite_def f64_is_zero_def f64_eqI)
  ultimately show ?thesis
    using p unfolding literal_of_def
    by (intro conjI exI [of _ whole] exI [of _ fraction] exI [of _ "[]"]) (simp_all add: f64_abs_def [symmetric])
qed

lemma scientific_literal:
  assumes "f64_is_finite x" "Option.bind (parse_f64 (lower_exp_f64 (f64_abs x))) number_new = Some (Number (f64_abs x))"
  shows "literal_of x (lower_exp_f64 (f64_abs x))"
proof -
  note f = finite_not_nan [OF assms(1)]
  have abs: "f64_mag (f64_abs x) = f64_mag x" "\<not> f64_sign (f64_abs x)"
    using f64_make_parts [OF f64_mag_less, of False x] by (simp_all add: f64_abs_def)
  obtain d e where de: "shortest_decimal (f64_mag x) = (d, e)" by force
  obtain whole fraction exponent where p: "show_scientific d e = whole @ fraction @ exponent"
    "is_literal whole fraction exponent" by (rule show_scientific_literal)
  have "lower_exp_f64 (f64_abs x) = show_scientific d e"
    using f abs by (simp add: lower_exp_f64_def f64_is_nan_def de)
  then show ?thesis using p assms(2) unfolding literal_of_def by auto
qed

lemma signed_texts:
  assumes "f64_is_finite x" "f64_sign x"
  shows "display_f64 x = CHR ''-'' # display_f64 (f64_abs x)" "lower_exp_f64 x = CHR ''-'' # lower_exp_f64 (f64_abs x)"
proof -
  have "f64_mag (f64_abs x) = f64_mag x" "\<not> f64_sign (f64_abs x)"
    using f64_make_parts [OF f64_mag_less, of False x] by (simp_all add: f64_abs_def)
  then show "display_f64 x = CHR ''-'' # display_f64 (f64_abs x)" "lower_exp_f64 x = CHR ''-'' # lower_exp_f64 (f64_abs x)"
    using finite_not_nan [OF assms(1)] assms(2)
    by (simp_all add: display_f64_def lower_exp_f64_def f64_is_nan_def)
qed

lemma scientific_shape:
  assumes "f64_is_finite x"
  shows "\<exists>whole fraction exponent. lower_exp_f64 (f64_abs x) = whole @ fraction @ exponent \<and>
    is_literal whole fraction exponent"
proof -
  have abs: "f64_mag (f64_abs x) = f64_mag x" "\<not> f64_sign (f64_abs x)"
    using f64_make_parts [OF f64_mag_less, of False x] by (simp_all add: f64_abs_def)
  obtain d e where de: "shortest_decimal (f64_mag x) = (d, e)" by force
  have "lower_exp_f64 (f64_abs x) = show_scientific d e"
    using finite_not_nan [OF assms] abs by (simp add: lower_exp_f64_def f64_is_nan_def de)
  then show ?thesis using show_scientific_literal [of d e] by metis
qed

text \<open>What \<open>format_number\<close> writes: a sign for a negative number, and a literal of its magnitude.\<close>

lemma format_number_literal:
  assumes n: "number_ok n"
  obtains s where "format_number n = (if f64_sign (number_get n) then CHR ''-'' # s else s)" "literal_of (number_get n) s"
proof -
  let ?x = "number_get n"
  have fin: "f64_is_finite ?x" and zero: "f64_sign ?x \<Longrightarrow> \<not> f64_is_zero ?x"
    using n by (auto simp: number_ok_def)
  have parts: "f64_mag (f64_abs ?x) = f64_mag ?x" "\<not> f64_sign (f64_abs ?x)"
    using f64_make_parts [OF f64_mag_less, of False ?x] by (simp_all add: f64_abs_def)
  have plain: "f64_abs ?x = ?x" if "\<not> f64_sign ?x" by (rule f64_eqI) (use parts that in simp_all)
  have sci: "literal_of ?x (lower_exp_f64 (f64_abs ?x))"
    if returns: "case parse_f64 (lower_exp_f64 ?x) of None \<Rightarrow> False
      | Some parsed \<Rightarrow> (case number_new parsed of
          None \<Rightarrow> False | Some p \<Rightarrow> f64_bits (number_get p) = f64_bits ?x)"
  proof (rule scientific_literal [OF fin])
    obtain v p where v: "parse_f64 (lower_exp_f64 ?x) = Some v" "number_new v = Some p" "number_get p = ?x"
      using returns by (auto split: option.splits simp: f64.expand)
    have p: "p = Number ?x" using v(3) by (cases p) simp
    show "Option.bind (parse_f64 (lower_exp_f64 (f64_abs ?x))) number_new = Some (Number (f64_abs ?x))"
    proof (cases "f64_sign ?x")
      case False
      then show ?thesis using v p plain by simp
    next
      case True
      obtain w where w: "parse_f64 (lower_exp_f64 (f64_abs ?x)) = Some w" "v = f64_neg w"
        using v(1) signed_texts(2) [OF fin True] parse_negative [OF scientific_shape [OF fin]] by auto
      have mag: "f64_mag (f64_neg w) = f64_mag w" "f64_sign (f64_neg w) = (\<not> f64_sign w)"
        using f64_make_parts [OF f64_mag_less, of "\<not> f64_sign w" w] by (simp_all add: f64_neg_def)
      have "f64_neg w = ?x"
        using v(2) w(2) p zero [OF True] True by (auto simp: number_new_def split: if_splits)
      then have "w = f64_abs ?x" using mag parts True by (intro f64_eqI) auto
      moreover have "number_new (f64_abs ?x) = Some (Number (f64_abs ?x))"
        using fin parts by (simp add: number_new_def f64_is_finite_def f64_is_zero_def f64_eqI)
      ultimately show ?thesis using w(1) by simp
    qed
  qed
  show thesis
  proof (cases "format_number n = display_f64 ?x")
    case True
    then show thesis
      using that [of "display_f64 (f64_abs ?x)"] display_literal [OF fin] signed_texts(1) [OF fin] plain
      by (cases "f64_sign ?x") simp_all
  next
    case False
    then have "format_number n = lower_exp_f64 ?x" "literal_of ?x (lower_exp_f64 (f64_abs ?x))"
      using sci by (auto simp: format_number_def Let_def split: if_splits)
    then show thesis
      using that [of "lower_exp_f64 (f64_abs ?x)"] signed_texts(2) [OF fin] plain
      by (cases "f64_sign ?x") simp_all
  qed
qed

text \<open>It parses back to the number as a whole too, sign included.\<close>

lemma format_number_parses:
  assumes n: "number_ok n"
  shows "Option.bind (parse_f64 (format_number n)) number_new = Some n"
proof -
  let ?x = "number_get n"
  obtain s where s: "format_number n = (if f64_sign ?x then CHR ''-'' # s else s)" "literal_of ?x s"
    by (rule format_number_literal [OF n])
  have parts: "f64_mag (f64_abs ?x) = f64_mag ?x" "\<not> f64_sign (f64_abs ?x)"
    using f64_make_parts [OF f64_mag_less, of False ?x] by (simp_all add: f64_abs_def)
  obtain v where v: "parse_f64 s = Some v" "number_new v = Some (Number (f64_abs ?x))"
    using s(2) by (auto simp: literal_of_def bind_eq_Some_conv)
  show ?thesis
  proof (cases "f64_sign ?x")
    case False
    then have "f64_abs ?x = ?x" using parts by (intro f64_eqI) simp_all
    then show ?thesis using s(1) v False by (cases n) simp
  next
    case True
    have nz: "\<not> f64_is_zero ?x" using n True by (auto simp: number_ok_def)
    have "f64_mag (f64_abs ?x) \<noteq> f64_mag f64_zero" using nz parts(1) by (simp add: f64_is_zero_def)
    then have "f64_abs ?x \<noteq> f64_zero" by metis
    then have "v = f64_abs ?x" using v(2) by (auto simp: number_new_def split: if_splits)
    then have "f64_neg v = ?x"
      using parts True f64_make_parts [OF f64_mag_less, of "\<not> f64_sign v" v] by (intro f64_eqI) (simp_all add: f64_neg_def)
    then show ?thesis
      using s v True parse_negative [of s] number_new_get [OF n] by (simp add: literal_of_def)
  qed
qed

end
