(* ===== verification/Reading.thy ===== *)
theory Reading
  imports ParserTotal NumberText
begin

text \<open>
  The parser followed along the text it consumes, with the nodes it records and the nesting it
  needs: literals, references, and the operators between operands.
\<close>

section \<open>Reading a text\<close>

text \<open>The nesting the canonical text needs.\<close>

fun nest :: "unbound_expression \<Rightarrow> nat"
  and criterion_nest :: "unbound_criterion \<Rightarrow> nat" where
  "nest (UNumber n) = (if f64_sign (number_get n) then 1 else 0)"
| "nest (UColumnConditional a criteria) = Suc (foldr max (map criterion_nest criteria) 0)"
| "nest (UAdd l r) = Suc (max (nest l) (nest r))"
| "nest (USubtract l r) = Suc (max (nest l) (nest r))"
| "nest (UMultiply l r) = Suc (max (nest l) (nest r))"
| "nest (UDivide l r) = Suc (max (nest l) (nest r))"
| "nest (UMinimum l r) = Suc (max (nest l) (nest r))"
| "nest (UMaximum l r) = Suc (max (nest l) (nest r))"
| "nest (UCompare p l r) = Suc (max (nest l) (nest r))"
| "nest (UIf c t e) = Suc (max (nest c) (max (nest t) (nest e)))"
| "nest (UAnd xs) = Suc (foldr max (map nest xs) 0)"
| "nest (UOr xs) = Suc (foldr max (map nest xs) 0)"
| "nest (UNot v) = Suc (nest v)"
| "nest (URound v d) = Suc (max (nest v) (nest d))"
| "nest (UIsBlank v) = Suc (nest v)"
| "nest e = 0"
| "criterion_nest (UCriterion col p v) =
     (case v of None \<Rightarrow> 0 | Some e \<Rightarrow> if p = CmpEqual then nest e else 0)"

definition read_on :: "nat \<Rightarrow> nat \<Rightarrow> parser_state \<Rightarrow> parser_state" where
  "read_on n c st = st\<lparr>pp_position := pp_position st + n, pp_nodes := pp_nodes st + c\<rparr>"

lemma read_on_parts [simp]:
  "pp_position (read_on n c st) = pp_position st + n" "pp_nodes (read_on n c st) = pp_nodes st + c"
  "pp_nesting (read_on n c st) = pp_nesting st" "read_on 0 0 st = st"
  "read_on n c (read_on m d st) = read_on (m + n) (d + c) st"
  "advance n st = read_on n 0 st"
  by (simp_all add: read_on_def advance_def add.assoc)

text \<open>
  \<open>m\<close> reads the text \<open>t\<close> as \<open>x\<close>, records \<open>c\<close> nodes and nests \<open>k\<close> deep, wherever the text is followed
  by one that \<open>S\<close> admits.
\<close>

definition reads ::
    "string \<Rightarrow> nat \<Rightarrow> nat \<Rightarrow> (string \<Rightarrow> bool) \<Rightarrow> string \<Rightarrow> 'a parser \<Rightarrow> 'a \<Rightarrow> bool" where
  "reads input k c S t m x \<longleftrightarrow>
     (\<forall>st rest. drop (pp_position st) input = t @ rest \<and> pp_nodes st + c \<le> max_expression_nodes \<and>
        pp_nesting st + k \<le> max_expression_depth \<and> S rest \<longrightarrow> m st = Inr (x, read_on (length t) c st))"

lemma readsI:
  "(\<And>st rest. drop (pp_position st) input = t @ rest \<Longrightarrow> pp_nodes st + c \<le> max_expression_nodes \<Longrightarrow>
      pp_nesting st + k \<le> max_expression_depth \<Longrightarrow> S rest \<Longrightarrow> length t \<le> length input \<Longrightarrow>
      m st = Inr (x, read_on (length t) c st)) \<Longrightarrow> reads input k c S t m x"
  unfolding reads_def by (metis length_append length_drop le_add1 diff_le_self le_trans)

lemma readsD:
  "reads input k c S t m x \<Longrightarrow> drop (pp_position st) input = t @ rest \<Longrightarrow>
   pp_nodes st + c \<le> max_expression_nodes \<Longrightarrow> pp_nesting st + k \<le> max_expression_depth \<Longrightarrow> S rest \<Longrightarrow>
   m st = Inr (x, read_on (length t) c st)"
  by (simp add: reads_def)

lemma reads_within_input: "(length t \<le> length input \<Longrightarrow> reads input k c S t m x) \<Longrightarrow> reads input k c S t m x"
  by (rule readsI) (auto dest: readsD)

lemma reads_weaken:
  "reads input k' c S' t m x \<Longrightarrow> k' \<le> k \<Longrightarrow> (\<And>rest. S rest \<Longrightarrow> S' rest) \<Longrightarrow> reads input k c S t m x"
  by (auto simp: reads_def)

lemma drop_read_on: "drop p input = t @ rest \<Longrightarrow> drop (p + length t) input = rest"
  by (metis add.commute append_eq_conv_conj drop_drop)

lemma reads_bind:
  assumes m: "reads input k1 c1 S1 t1 m x" and f: "reads input k2 c2 S2 t2 (f x) y"
    and follows: "\<And>rest. S2 rest \<Longrightarrow> S1 (t2 @ rest)"
    and parts: "t = t1 @ t2" "c = c1 + c2" "k1 \<le> k" "k2 \<le> k"
  shows "reads input k c S2 t (p_bind m f) y"
proof (rule readsI)
  fix st :: parser_state and rest
  assume at: "drop (pp_position st) input = t @ rest" "pp_nodes st + c \<le> max_expression_nodes"
    "pp_nesting st + k \<le> max_expression_depth" "S2 rest"
  have d1: "drop (pp_position st) input = t1 @ (t2 @ rest)" using at(1) parts(1) by simp
  have r1: "m st = Inr (x, read_on (length t1) c1 st)"
    by (rule readsD [OF m d1]) (use at parts follows in auto)
  have d2: "drop (pp_position (read_on (length t1) c1 st)) input = t2 @ rest"
    using drop_read_on [OF d1] by simp
  have "f x (read_on (length t1) c1 st) = Inr (y, read_on (length t2) c2 (read_on (length t1) c1 st))"
    by (rule readsD [OF f d2]) (use at parts in auto)
  then show "p_bind m f st = Inr (y, read_on (length t) c st)"
    using r1 parts by (simp add: p_bind_def)
qed

lemma reads_return: "reads input k 0 S [] (p_return x) x"
  by (rule readsI) (simp add: p_return_def)

lemma reads_record: "reads input k 1 S [] (record_node p) ()"
  by (rule readsI) (simp add: record_node_def read_on_def)

lemma reads_nesting:
  assumes "reads input k c S t m x"
  shows "reads input (Suc k) c S t (with_nesting p m) x"
proof (rule readsI)
  fix st :: parser_state and rest
  assume at: "drop (pp_position st) input = t @ rest" "pp_nodes st + c \<le> max_expression_nodes"
    "pp_nesting st + Suc k \<le> max_expression_depth" "S rest"
  have "m (st\<lparr>pp_nesting := pp_nesting st + 1\<rparr>) =
      Inr (x, read_on (length t) c (st\<lparr>pp_nesting := pp_nesting st + 1\<rparr>))"
    by (rule readsD [OF assms]) (use at in simp_all)
  then show "with_nesting p m st = Inr (x, read_on (length t) c st)"
    using at(3) by (simp add: with_nesting_def read_on_def)
qed

section \<open>Blanks and punctuation\<close>

definition blank :: "string \<Rightarrow> bool" where
  "blank w \<longleftrightarrow> list_all is_ascii_whitespace w"

definition no_blank :: "string \<Rightarrow> bool" where
  "no_blank s \<longleftrightarrow> (case s of [] \<Rightarrow> True | c # cs \<Rightarrow> \<not> is_ascii_whitespace c)"

lemma peek_at: "drop (pp_position st) input = s \<Longrightarrow> peek input st = (case s of [] \<Rightarrow> None | c # cs \<Rightarrow> Some c)"
  by (cases "pp_position st < length input") (auto simp: peek_def Cons_nth_drop_Suc [symmetric])

lemma skip_at:
  assumes "drop (pp_position st) input = w @ s" "blank w" "no_blank s"
  shows "skip_whitespace input st = read_on (length w) 0 st"
proof -
  have "takeWhile is_ascii_whitespace (w @ s) = w"
    using assms(2,3) by (cases s) (auto simp: blank_def no_blank_def list_all_iff takeWhile_append)
  then show ?thesis using assms(1) by (simp add: skip_whitespace_def advance_while_def)
qed

lemma reads_skip:
  assumes m: "reads input k c S t m x" and w: "blank w" "\<And>rest. S rest \<Longrightarrow> no_blank (t @ rest)"
  shows "reads input k c S (w @ t) (\<lambda>st. m (skip_whitespace input st)) x"
proof (rule readsI)
  fix st :: parser_state and rest
  assume at: "drop (pp_position st) input = (w @ t) @ rest" "pp_nodes st + c \<le> max_expression_nodes"
    "pp_nesting st + k \<le> max_expression_depth" "S rest"
  have d: "drop (pp_position st) input = w @ (t @ rest)" using at(1) by simp
  have skip: "skip_whitespace input st = read_on (length w) 0 st"
    by (rule skip_at [OF d w(1)]) (rule w(2) [OF at(4)])
  have "m (read_on (length w) 0 st) = Inr (x, read_on (length t) c (read_on (length w) 0 st))"
    by (rule readsD [OF m]) (use at drop_read_on [OF d] in auto)
  then show "m (skip_whitespace input st) = Inr (x, read_on (length (w @ t)) c st)"
    by (simp add: skip)
qed

lemma reads_expect:
  assumes "\<not> is_ascii_whitespace c"
  shows "reads input k 0 S [c] (p_expect input c message) ()"
proof (rule readsI)
  fix st :: parser_state and rest
  assume at: "drop (pp_position st) input = [c] @ rest"
  have "skip_whitespace input st = st" using skip_at [of st input "[]"] at assms by (simp add: blank_def no_blank_def)
  then show "p_expect input c message st = Inr ((), read_on (length [c]) 0 st)"
    using peek_at [OF at] by (simp add: p_expect_def Let_def)
qed

section \<open>Numbers\<close>

text \<open>What may follow an operand in the canonical text.\<close>

definition stop_number :: "string \<Rightarrow> bool" where
  "stop_number rest \<longleftrightarrow> rest = [] \<or> hd rest \<in> {CHR '' '', CHR '','', CHR '')''}"

lemma stop_chars:
  "\<not> is_ascii_digit (CHR '' '')" "\<not> is_ascii_digit (CHR '','')" "\<not> is_ascii_digit (CHR '')'')"
  by (simp_all add: is_ascii_digit_def byte_def)

lemma stop_not_digit: "stop_number rest \<Longrightarrow> rest = [] \<or> \<not> is_ascii_digit (hd rest)"
  using stop_chars by (auto simp: stop_number_def)

lemma consume_at:
  assumes "drop (pp_position st) input = ds @ rest" "list_all is_ascii_digit ds"
    "rest = [] \<or> \<not> is_ascii_digit (hd rest)"
  shows "consume_digits input st = (ds \<noteq> [], read_on (length ds) 0 st)"
proof -
  have "takeWhile is_ascii_digit (ds @ rest) = ds"
    using assms(2,3) by (cases rest) (auto simp: list_all_iff takeWhile_append)
  then show ?thesis using assms(1) by (simp add: consume_digits_def advance_while_def Let_def)
qed

lemma number_end_at:
  assumes lit: "is_literal whole fraction exponent" and stop: "stop_number rest"
    and at: "drop (pp_position st) input = whole @ fraction @ exponent @ rest"
  shows "number_end input st =
    Inr (pp_position st + length (whole @ fraction @ exponent), read_on (length (whole @ fraction @ exponent)) 0 st)"
proof -
  have whole: "whole \<noteq> []" "list_all is_ascii_digit whole" using lit by (auto simp: is_literal_def)
  have e: "exponent @ rest = [] \<or> \<not> is_ascii_digit (hd (exponent @ rest)) \<and> hd (exponent @ rest) \<noteq> CHR ''.''"
    using lit stop stop_not_digit [OF stop] digit_chars by (cases rest) (auto simp: is_literal_def stop_number_def)
  let ?s1 = "read_on (length whole) 0 st" and ?s2 = "read_on (length (whole @ fraction)) 0 st"
  have c1: "consume_digits input st = (True, ?s1)"
    using consume_at [OF at whole(2)] whole(1) lit e digit_chars by (auto simp: is_literal_def)
  have d1: "drop (pp_position ?s1) input = fraction @ exponent @ rest" using drop_read_on [OF at] by simp
  have "drop (pp_position st) input = (whole @ fraction) @ exponent @ rest" using at by simp
  from drop_read_on [OF this] have d2: "drop (pp_position ?s2) input = exponent @ rest" by simp
  have c2: "(if peek input ?s1 = Some (CHR ''.'')
      then case consume_digits input (advance 1 ?s1) of (again, st) \<Rightarrow> (True \<or> again, st) else (True, ?s1)) = (True, ?s2)"
  proof (cases fraction)
    case Nil
    then have "peek input ?s1 \<noteq> Some (CHR ''.'')" using peek_at [OF d1] e by (auto split: list.splits)
    then show ?thesis using Nil by simp
  next
    case (Cons c ds)
    then have f: "c = CHR ''.''" "list_all is_ascii_digit ds" using lit by (auto simp: is_literal_def)
    have "drop (pp_position ?s1) input = [c] @ (ds @ exponent @ rest)" using d1 Cons by simp
    from drop_read_on [OF this] have "drop (pp_position (advance 1 ?s1)) input = ds @ exponent @ rest" by simp
    then have "consume_digits input (advance 1 ?s1) = (ds \<noteq> [], read_on (length ds) 0 (advance 1 ?s1))"
      using f(2) e by (intro consume_at) auto
    then show ?thesis using peek_at [OF d1] Cons f(1) by (simp add: add.assoc)
  qed
  show ?thesis
  proof (cases exponent)
    case Nil
    have "\<not> is_exponent_mark c" if "peek input ?s2 = Some c" for c
      using that peek_at [OF d2] stop Nil
      by (auto simp: stop_number_def is_exponent_mark_def split: list.splits)
    then show ?thesis
      using Nil unfolding number_end_def Let_def c1 prod.case c2 by (auto split: option.split)
  next
    case (Cons c s)
    then obtain sign ds where x: "c = CHR ''e''" "s = sign @ ds" "sign = [] \<or> sign = ''-''" "ds \<noteq> []"
      "list_all is_ascii_digit ds" using lit by (auto simp: is_literal_def)
    have p2: "peek input ?s2 = Some (CHR ''e'')" using peek_at [OF d2] Cons x(1) by simp
    have "drop (pp_position ?s2) input = [c] @ (sign @ ds @ rest)" using d2 Cons x by simp
    from drop_read_on [OF this] have d3: "drop (pp_position (advance 1 ?s2)) input = sign @ ds @ rest" by simp
    let ?s4 = "read_on (length (whole @ fraction @ c # sign)) 0 st"
    have s4: "(case peek input (advance 1 ?s2) of None \<Rightarrow> advance 1 ?s2
        | Some c \<Rightarrow> if is_sign c then advance 1 (advance 1 ?s2) else advance 1 ?s2) = ?s4"
    proof (cases "sign = []")
      case True
      obtain d ds' where ds: "ds = d # ds'" "is_ascii_digit d" using x(4,5) by (cases ds) auto
      then show ?thesis
        using peek_at [OF d3] True digit_not_special [OF ds(2)] by (simp add: is_sign_def)
    next
      case False
      then show ?thesis using peek_at [OF d3] x(3) by (simp add: is_sign_def)
    qed
    have d4: "drop (pp_position ?s4) input = ds @ rest"
      using drop_read_on [OF d3] by (simp add: add.assoc)
    have c4: "consume_digits input ?s4 = (True, read_on (length ds) 0 ?s4)"
      using consume_at [OF d4 x(5) stop_not_digit [OF stop]] x(4) by simp
    show ?thesis
      using p2 Cons x unfolding number_end_def Let_def c1 prod.case c2
      by (simp add: is_exponent_mark_def s4 [simplified] c4 [simplified])
  qed
qed

lemma reads_number:
  assumes "literal_of x s"
  shows "reads input 0 1 stop_number s (parse_number input) (UNumber (Number (f64_abs x)))"
proof (rule readsI)
  fix st :: parser_state and rest
  assume at: "drop (pp_position st) input = s @ rest" "pp_nodes st + 1 \<le> max_expression_nodes" "stop_number rest"
  obtain whole fraction exponent v where s: "s = whole @ fraction @ exponent" "is_literal whole fraction exponent"
    "parse_f64 s = Some v" "number_new v = Some (Number (f64_abs x))"
    using assms by (auto simp: literal_of_def bind_eq_Some_conv)
  have stop: "number_end input st = Inr (pp_position st + length s, read_on (length s) 0 st)"
    using number_end_at [OF s(2) at(3)] at(1) s(1) by simp
  have "slice input (pp_position st) (pp_position st + length s) = s" using at(1) by (simp add: slice_def)
  moreover have "peek input (read_on (length s) 0 st) \<noteq> Some (CHR ''%'')"
    using peek_at [of "read_on (length s) 0 st" input rest] drop_read_on [OF at(1)] at(3)
    by (auto simp: stop_number_def split: list.splits)
  ultimately show "parse_number input st = Inr (UNumber (Number (f64_abs x)), read_on (length s) 1 st)"
    using stop s(3,4) at(2)
    by (simp add: parse_number_def p_bind_def record_node_def p_return_def read_on_def)
qed

section \<open>References\<close>

lemma take_until: "c \<notin> set s \<Longrightarrow> takeWhile (\<lambda>x. x \<noteq> c) s = s"
  by (simp add: takeWhile_eq_all_conv) metis

lemma find_char_at: "c \<notin> set s \<Longrightarrow> find_char c (s @ c # t) = Some (length s)"
  by (simp add: find_char_def Let_def take_until takeWhile_tail)

lemma find_char_absent: "c \<notin> set s \<Longrightarrow> find_char c s = None"
  by (simp add: find_char_def take_until Let_def)

lemma rsplit_once_at:
  assumes "c \<notin> set t"
  shows "rsplit_once c (s @ c # t) = Some (s, t)"
proof -
  have "find_char c (rev t @ c # rev s) = Some (length t)" using find_char_at [of c "rev t"] assms by simp
  then show ?thesis by (simp add: rsplit_once_def)
qed

lemma rsplit_once_absent: "c \<notin> set s \<Longrightarrow> rsplit_once c s = None"
  by (simp add: rsplit_once_def find_char_absent)

lemma identifier_plain:
  assumes "is_valid_identifier k"
  shows "k \<noteq> []" "CHR ''.'' \<notin> set k" "CHR '':'' \<notin> set k" "CHR '']'' \<notin> set k"
proof -
  have "is_identifier_char c" if "c \<in> set k" for c
    using assms that by (auto simp: is_valid_identifier_def list_all_iff is_identifier_char_def split: list.splits)
  moreover have "\<not> is_identifier_char (CHR ''.'')" "\<not> is_identifier_char (CHR '':'')" "\<not> is_identifier_char (CHR '']'')"
    by (simp_all add: is_identifier_char_def is_ascii_lowercase_def is_ascii_digit_def byte_def)
  ultimately show "CHR ''.'' \<notin> set k" "CHR '':'' \<notin> set k" "CHR '']'' \<notin> set k" by metis+
  show "k \<noteq> []" using assms by (auto simp: is_valid_identifier_def)
qed

lemma split_address_at:
  assumes "is_valid_identifier entity" "is_valid_identifier field"
  shows "split_address noun kind (entity @ CHR ''.'' # field) i j st = Inr ((entity, field), st)"
  using assms identifier_plain
  by (simp add: split_address_def find_char_at find_char_absent)

text \<open>A bracketed text and where it closes.\<close>

lemma bracket_at:
  assumes at: "drop (pp_position st) input = CHR ''['' # inner @ CHR '']'' # rest" and inner: "CHR '']'' \<notin> set inner"
  shows "find_char (CHR '']'') (drop (pp_position st + 1) input) = Some (length inner)"
    "slice input (pp_position st + 1) (pp_position st + 1 + length inner) = inner"
    "peek input st = Some (CHR ''['')"
proof -
  have "drop (pp_position st + 1) input = inner @ CHR '']'' # rest"
    using drop_read_on [of "pp_position st" input "''[''"] at by simp
  then show "find_char (CHR '']'') (drop (pp_position st + 1) input) = Some (length inner)"
    "slice input (pp_position st + 1) (pp_position st + 1 + length inner) = inner"
    using find_char_at [OF inner] by (simp_all add: slice_def)
  show "peek input st = Some (CHR ''['')" using peek_at [OF at] by simp
qed

lemma reads_bracket:
  assumes kind: "reference_kind_of inner = Some (entity @ CHR ''.'' # field, kind)"
    and keys: "is_valid_identifier entity" "is_valid_identifier field"
    and inner: "CHR '']'' \<notin> set inner" "strip_prefix ''.'' inner = None"
  shows "reads input k 1 S (CHR ''['' # inner @ '']'') (parse_reference input) (reference_of kind entity field)"
proof (rule readsI)
  fix st :: parser_state and rest
  assume at: "drop (pp_position st) input = (CHR ''['' # inner @ '']'') @ rest" "pp_nodes st + 1 \<le> max_expression_nodes"
  have "drop (pp_position st) input = CHR ''['' # inner @ CHR '']'' # rest" using at(1) by simp
  note b = bracket_at [OF this inner(1)]
  show "parse_reference input st = Inr (reference_of kind entity field, read_on (length (CHR ''['' # inner @ '']'')) 1 st)"
    unfolding parse_reference_def Let_def b(1) option.case b(2) inner(2) kind prod.case
    using at(2) by (simp add: p_bind_def split_address_at [OF keys] record_node_def p_return_def read_on_def)
qed

lemma strip_dot: "is_valid_identifier entity \<Longrightarrow> strip_prefix ''.'' (entity @ s) = None"
  using identifier_plain(1,2) [of entity] by (cases entity) (auto simp: strip_prefix_def)

lemma aggregate_suffix_kind:
  "reference_kind_of (inner @ CHR '':'' # aggregate_suffix g) = Some (inner, NamesAggregate g)"
  "CHR '']'' \<notin> set (aggregate_suffix g)"
proof -
  have plain: "CHR '':'' \<notin> set (aggregate_suffix g)" by (cases g) simp_all
  show "reference_kind_of (inner @ CHR '':'' # aggregate_suffix g) = Some (inner, NamesAggregate g)"
    unfolding reference_kind_of_def rsplit_once_at [OF plain]
    by (cases g) (simp_all add: eq_ignore_ascii_case_def to_ascii_lowercase_def is_ascii_uppercase_def byte_def aggregate_from_suffix_def)
  show "CHR '']'' \<notin> set (aggregate_suffix g)" by (cases g) simp_all
qed

lemma reads_reference_text:
  assumes "writable e"
    "(\<exists>r. e = UReference r) \<or> (\<exists>c. e = UColumnTotal c) \<or> (\<exists>g c. e = UColumnAggregate g c)"
  shows "reads input k 1 S (format_unbound e) (parse_reference input) e"
proof -
  consider (cell) r where "e = UReference r" | (total) c where "e = UColumnTotal c"
    | (aggregate) g c where "e = UColumnAggregate g c" using assms(2) by blast
  then show ?thesis
  proof cases
    case cell
    obtain en fi where r: "r = FieldAddress en fi" by (cases r)
    have keys: "is_valid_identifier en" "is_valid_identifier fi" using assms(1) cell r by simp_all
    have "reference_kind_of (en @ CHR ''.'' # fi) = Some (en @ CHR ''.'' # fi, NamesCell)"
      using identifier_plain(3) keys by (simp add: reference_kind_of_def rsplit_once_absent)
    from reads_bracket [OF this keys _ strip_dot [OF keys(1)], of input k S] show ?thesis
      using identifier_plain(4) keys by (simp add: cell r reference_of_def)
  next
    case total
    obtain en fi where c: "c = ColumnAddress en fi" by (cases c)
    have keys: "is_valid_identifier en" "is_valid_identifier fi" using assms(1) total c by (simp_all add: column_writable_def)
    have "rsplit_once (CHR '':'') ((en @ CHR ''.'' # fi) @ CHR '':'' # ''total'') = Some (en @ CHR ''.'' # fi, ''total'')"
      by (rule rsplit_once_at) simp
    then have "reference_kind_of (en @ CHR ''.'' # fi @ '':total'') = Some (en @ CHR ''.'' # fi, NamesTotal)"
      by (simp add: reference_kind_of_def eq_ignore_ascii_case_def)
    from reads_bracket [OF this keys _ strip_dot [OF keys(1)], of input k S] show ?thesis
      using identifier_plain(4) keys by (simp add: total c reference_of_def)
  next
    case aggregate
    obtain en fi where c: "c = ColumnAddress en fi" by (cases c)
    have keys: "is_valid_identifier en" "is_valid_identifier fi" using assms(1) aggregate c by (simp_all add: column_writable_def)
    have "reference_kind_of (en @ CHR ''.'' # fi @ CHR '':'' # aggregate_suffix g) = Some (en @ CHR ''.'' # fi, NamesAggregate g)"
      using aggregate_suffix_kind(1) [of "en @ CHR ''.'' # fi" g] by simp
    from reads_bracket [OF this keys _ strip_dot [OF keys(1)], of input k S] show ?thesis
      using identifier_plain(4) keys aggregate_suffix_kind(2) by (simp add: aggregate c reference_of_def)
  qed
qed

lemma reads_same_row:
  assumes "is_valid_identifier field"
  shows "reads input k 1 S (format_unbound (USameRowReference field)) (parse_reference input) (USameRowReference field)"
proof (rule readsI)
  fix st :: parser_state and rest
  assume at: "drop (pp_position st) input = format_unbound (USameRowReference field) @ rest"
    "pp_nodes st + 1 \<le> max_expression_nodes"
  have "drop (pp_position st) input = CHR ''['' # (CHR ''.'' # field) @ CHR '']'' # rest" using at(1) by simp
  note b = bracket_at [OF this]
  have "CHR '']'' \<notin> set (CHR ''.'' # field)" using identifier_plain(4) [OF assms] by simp
  note b = b [OF this]
  show "parse_reference input st = Inr (USameRowReference field,
      read_on (length (format_unbound (USameRowReference field))) 1 st)"
    unfolding parse_reference_def Let_def b(1) option.case b(2)
    using at(2) assms identifier_plain(2) [OF assms]
    by (simp add: strip_prefix_def parse_same_row_def p_bind_def record_node_def p_return_def read_on_def)
qed

lemma reads_column:
  assumes "column_writable column" "blank w"
  shows "reads input k 1 S (w @ format_column column) (parse_column_argument input) column"
proof -
  obtain en fi where c: "column = ColumnAddress en fi" by (cases column)
  have keys: "is_valid_identifier en" "is_valid_identifier fi" using assms(1) c by (simp_all add: column_writable_def)
  let ?inner = "en @ CHR ''.'' # fi @ '':column''"
  have split: "rsplit_once (CHR '':'') ?inner = Some (en @ CHR ''.'' # fi, ''column'')"
    using rsplit_once_at [of "CHR '':''" "''column''" "en @ CHR ''.'' # fi"] by simp
  have plain: "CHR '']'' \<notin> set ?inner" using identifier_plain(4) keys by simp
  show ?thesis
  proof (rule readsI)
    fix st :: parser_state and rest
    assume at: "drop (pp_position st) input = (w @ format_column column) @ rest" "pp_nodes st + 1 \<le> max_expression_nodes"
    have d: "drop (pp_position st) input = w @ (format_column column @ rest)" using at(1) by simp
    have skip: "skip_whitespace input st = read_on (length w) 0 st"
      by (rule skip_at [OF d assms(2)]) (simp add: no_blank_def format_column_def is_ascii_whitespace_def byte_def)
    have "drop (pp_position (read_on (length w) 0 st)) input = CHR ''['' # ?inner @ CHR '']'' # rest"
      using drop_read_on [OF d] by (simp add: format_column_def c)
    note b = bracket_at [OF this plain]
    show "parse_column_argument input st = Inr (column, read_on (length (w @ format_column column)) 1 st)"
      unfolding parse_column_argument_def Let_def skip b(1) b(3) option.case b(2) split prod.case
      using at(2) by (simp add: eq_ignore_ascii_case_def p_bind_def split_address_at [OF keys] record_node_def p_return_def
        read_on_def format_column_def c)
  qed
qed

section \<open>Operators\<close>

text \<open>
  An operand followed by the blanks \<open>v\<close> ends where no operator of \<open>operators\<close> follows; \<open>closed\<close>
  follows an argument or a group.
\<close>

definition ends_operand :: "string \<Rightarrow> string \<Rightarrow> string \<Rightarrow> bool" where
  "ends_operand operators v rest \<longleftrightarrow> no_blank rest \<and> (rest = [] \<or> hd rest \<notin> set operators) \<and> stop_number (v @ rest)"

definition closed :: "string \<Rightarrow> bool" where
  "closed rest \<longleftrightarrow> rest = [] \<or> hd rest \<in> {CHR '','', CHR '')''}"

lemma no_blank_chars:
  "\<not> is_ascii_whitespace (CHR '','')" "\<not> is_ascii_whitespace (CHR '')'')" "\<not> is_ascii_whitespace (CHR ''('')"
  "\<not> is_ascii_whitespace (CHR ''['')" "\<not> is_ascii_whitespace (CHR ''+'')" "\<not> is_ascii_whitespace (CHR ''-'')"
  "\<not> is_ascii_whitespace (CHR ''*'')" "\<not> is_ascii_whitespace (CHR ''/'')" "\<not> is_ascii_whitespace (CHR ''<'')"
  "\<not> is_ascii_whitespace (CHR ''>'')" "\<not> is_ascii_whitespace (CHR ''='')" "\<not> is_ascii_whitespace (CHR 34)"
  by (simp_all add: is_ascii_whitespace_def byte_def)

lemma blank_space: "blank '' ''" "blank []"
  by (simp_all add: blank_def is_ascii_whitespace_def byte_def)

lemma closed_ends: "closed rest \<Longrightarrow> ends_operand ''*/+-<>='' [] rest"
  using no_blank_chars by (cases rest) (auto simp: closed_def ends_operand_def no_blank_def stop_number_def)

lemma ends_operand_fewer: "ends_operand ops v rest \<Longrightarrow> set ops' \<subseteq> set ops \<Longrightarrow> ends_operand ops' v rest"
  by (auto simp: ends_operand_def)

lemma peek_quiet:
  assumes "drop (pp_position st) input = rest" "rest = [] \<or> node (hd rest) = None"
  shows "Option.bind (peek input st) node = None"
  using assms peek_at [OF assms(1)] by (cases rest) simp_all

lemma loop_quiet:
  assumes v: "blank v" and quiet: "\<And>rest. S rest \<Longrightarrow> no_blank rest \<and> (rest = [] \<or> node (hd rest) = None)"
  shows "reads input k 0 S v (operator_loop input node operand (Suc n) e) e"
proof (rule readsI)
  fix st :: parser_state and rest
  assume at: "drop (pp_position st) input = v @ rest" and S: "S rest"
  have skip: "skip_whitespace input st = read_on (length v) 0 st" by (rule skip_at [OF at v]) (use quiet [OF S] in simp)
  have "Option.bind (peek input (read_on (length v) 0 st)) node = None"
    using drop_read_on [OF at] quiet [OF S] by (intro peek_quiet [of _ _ rest]) simp_all
  then show "operator_loop input node operand (Suc n) e st = Inr (e, read_on (length v) 0 st)"
    by (simp add: skip Let_def)
qed

lemma operator_at_None: "rest = [] \<or> hd rest \<notin> set ''<>='' \<Longrightarrow> operator_at rest = None"
  by (cases rest) (auto simp: operator_at_def)

lemma operator_at_text: "operator_at (comparison_as_str p @ CHR '' '' # rest) = Some p"
  by (cases p) (simp_all add: operator_at_def)

lemma comparison_quiet:
  assumes v: "blank v" and quiet: "\<And>rest. S rest \<Longrightarrow> no_blank rest \<and> (rest = [] \<or> hd rest \<notin> set ''<>='')"
  shows "reads input k 0 S v (comparison_loop input additive (Suc n) e) e"
proof (rule readsI)
  fix st :: parser_state and rest
  assume at: "drop (pp_position st) input = v @ rest" and S: "S rest"
  have skip: "skip_whitespace input st = read_on (length v) 0 st" by (rule skip_at [OF at v]) (use quiet [OF S] in simp)
  have "operator_at (drop (pp_position (read_on (length v) 0 st)) input) = None"
    using drop_read_on [OF at] operator_at_None [of rest] quiet [OF S] by simp
  then show "comparison_loop input additive (Suc n) e st = Inr (e, read_on (length v) 0 st)"
    by (simp add: skip Let_def)
qed

text \<open>A loop that reads one operator and its right operand.\<close>

lemma loop_one:
  assumes node: "node c = Some build" and c: "\<not> is_ascii_whitespace c" and v: "blank v"
    and operand: "reads input k n S t operand r"
    and quiet: "\<And>rest. S rest \<Longrightarrow> no_blank rest \<and> (rest = [] \<or> node (hd rest) = None)"
  shows "reads input k (Suc n) S (v @ c # t) (operator_loop input node operand (Suc (Suc m)) e) (build e r)"
proof (rule readsI)
  fix st :: parser_state and rest
  assume at: "drop (pp_position st) input = (v @ c # t) @ rest" "pp_nodes st + Suc n \<le> max_expression_nodes"
    "pp_nesting st + k \<le> max_expression_depth" "S rest"
  let ?s = "read_on (length v) 0 st"
  have d: "drop (pp_position st) input = v @ (c # t @ rest)" using at(1) by simp
  have skip: "skip_whitespace input st = ?s" by (rule skip_at [OF d v]) (simp add: no_blank_def c)
  have p: "peek input ?s = Some c" using peek_at [of ?s] drop_read_on [OF d] by simp
  have "reads input k (0 + n) S (t @ []) (p_bind operand (\<lambda>right. operator_loop input node operand (Suc m) (build e right))) (build e r)"
    by (rule reads_bind [OF operand loop_quiet [OF blank_space(2)]]) (use quiet in auto)
  then have "reads input k (1 + n) S ([] @ t) (p_bind (record_node (pp_position ?s)) (\<lambda>u.
      p_bind operand (\<lambda>right. operator_loop input node operand (Suc m) (build e right)))) (build e r)"
    by (intro reads_bind [OF reads_record]) auto
  moreover have "drop (pp_position (advance 1 ?s)) input = ([] @ t) @ rest"
    using drop_read_on [of "pp_position ?s" input "[c]"] drop_read_on [OF d] by simp
  ultimately have "p_bind (record_node (pp_position ?s)) (\<lambda>u.
      p_bind operand (\<lambda>right. operator_loop input node operand (Suc m) (build e right))) (advance 1 ?s) =
      Inr (build e r, read_on (length ([] @ t)) (1 + n) (advance 1 ?s))"
    by (rule readsD) (use at in simp_all)
  then show "operator_loop input node operand (Suc (Suc m)) e st = Inr (build e r, read_on (length (v @ c # t)) (Suc n) st)"
    unfolding operator_loop.simps(2) [of input node operand "Suc m"] Let_def skip p
    by (simp add: node del: operator_loop.simps)
qed

lemma comparison_one:
  assumes v: "blank v" and operand: "reads input k n S (CHR '' '' # t) additive r"
    and quiet: "\<And>rest. S rest \<Longrightarrow> no_blank rest \<and> (rest = [] \<or> hd rest \<notin> set ''<>='')"
  shows "reads input k (Suc n) S (v @ comparison_as_str p @ CHR '' '' # t)
    (comparison_loop input additive (Suc (Suc m)) e) (UCompare p e r)"
proof (rule readsI)
  fix st :: parser_state and rest
  assume at: "drop (pp_position st) input = (v @ comparison_as_str p @ CHR '' '' # t) @ rest"
    "pp_nodes st + Suc n \<le> max_expression_nodes" "pp_nesting st + k \<le> max_expression_depth" "S rest"
  let ?s = "read_on (length v) 0 st"
  have d: "drop (pp_position st) input = v @ (comparison_as_str p @ CHR '' '' # t @ rest)" using at(1) by simp
  have skip: "skip_whitespace input st = ?s"
    by (rule skip_at [OF d v]) (cases p; simp add: no_blank_def no_blank_chars)
  have op: "operator_at (drop (pp_position ?s) input) = Some p"
    using drop_read_on [OF d] operator_at_text by simp
  have "reads input k (0 + n) S ((CHR '' '' # t) @ []) (p_bind additive (\<lambda>right. comparison_loop input additive (Suc m) (UCompare p e right))) (UCompare p e r)"
    by (rule reads_bind [OF operand comparison_quiet [OF blank_space(2)]]) (use quiet in auto)
  then have "reads input k (1 + n) S ([] @ CHR '' '' # t) (p_bind (record_node (pp_position ?s)) (\<lambda>u.
      p_bind additive (\<lambda>right. comparison_loop input additive (Suc m) (UCompare p e right)))) (UCompare p e r)"
    by (intro reads_bind [OF reads_record]) auto
  moreover have "drop (pp_position (advance (length (comparison_as_str p)) ?s)) input = ([] @ CHR '' '' # t) @ rest"
    using drop_read_on [of "pp_position ?s" input "comparison_as_str p"] drop_read_on [OF d] by (simp add: add.assoc)
  ultimately have "p_bind (record_node (pp_position ?s)) (\<lambda>u.
      p_bind additive (\<lambda>right. comparison_loop input additive (Suc m) (UCompare p e right))) (advance (length (comparison_as_str p)) ?s) =
      Inr (UCompare p e r, read_on (length ([] @ CHR '' '' # t)) (1 + n) (advance (length (comparison_as_str p)) ?s))"
    by (rule readsD) (use at in simp_all)
  then show "comparison_loop input additive (Suc (Suc m)) e st =
      Inr (UCompare p e r, read_on (length (v @ comparison_as_str p @ CHR '' '' # t)) (Suc n) st)"
    unfolding comparison_loop.simps(2) [of input additive "Suc m"] Let_def skip op
    by (simp add: add.assoc del: comparison_loop.simps)
qed

section \<open>Expressions over an operand parser\<close>

text \<open>\<open>unary\<close> reads the canonical text of \<open>e\<close>, with blanks before it.\<close>

definition reads_operand :: "string \<Rightarrow> nat \<Rightarrow> unbound_expression parser \<Rightarrow> unbound_expression \<Rightarrow> bool" where
  "reads_operand input k unary e \<longleftrightarrow>
     (\<forall>w. blank w \<longrightarrow> reads input k (recorded e) stop_number (w @ format_unbound e) unary e)"

lemma reads_operandD:
  "reads_operand input k unary e \<Longrightarrow> blank w \<Longrightarrow> k \<le> k' \<Longrightarrow>
   reads input k' (recorded e) stop_number (w @ format_unbound e) unary e"
  by (rule reads_weaken [of input k _ stop_number]) (simp_all add: reads_operand_def)

lemma ends_operandD:
  "ends_operand operators v rest \<Longrightarrow> no_blank rest"
  "ends_operand operators v rest \<Longrightarrow> rest = [] \<or> hd rest \<notin> set operators"
  "ends_operand operators v rest \<Longrightarrow> stop_number (v @ rest)"
  by (simp_all add: ends_operand_def)

lemma ends_quiet:
  "ends_operand ''*/'' v rest \<Longrightarrow> no_blank rest \<and> (rest = [] \<or> multiplicative_node (hd rest) = None)"
  "ends_operand ''*/+-'' v rest \<Longrightarrow> no_blank rest \<and> (rest = [] \<or> additive_node (hd rest) = None)"
  "ends_operand ''*/+-<>='' v rest \<Longrightarrow> no_blank rest \<and> (rest = [] \<or> hd rest \<notin> set ''<>='')"
  "ends_operand ''*/+-'' v rest \<Longrightarrow> ends_operand ''*/'' v rest"
  "ends_operand ''*/+-<>='' v rest \<Longrightarrow> ends_operand ''*/+-'' v rest"
  by (cases rest; auto simp: multiplicative_node_def additive_node_def ends_operand_def)+

lemma mult_operand:
  assumes "reads input k c stop_number t unary x" "blank v"
  shows "reads input k c (ends_operand ''*/'' v) (t @ v) (parse_multiplicative input unary) x"
  unfolding parse_multiplicative_def
  by (rule reads_bind [OF assms(1) loop_quiet [where k = k, OF assms(2)]]) (simp_all add: ends_quiet ends_operandD)

lemma additive_over:
  assumes "reads input k c (ends_operand ''*/'' v) t (parse_multiplicative input unary) x"
  shows "reads input k c (ends_operand ''*/+-'' v) t (parse_additive input unary) x"
  unfolding parse_additive_def
  by (rule reads_bind [OF assms loop_quiet [where k = k, OF blank_space(2)]]) (simp_all add: ends_quiet)

lemma comparison_over:
  assumes "reads input k c (ends_operand ''*/+-'' v) t (parse_additive input unary) x"
  shows "reads input k c (ends_operand ''*/+-<>='' v) t (parse_comparison input unary) x"
  unfolding parse_comparison_def
  by (rule reads_bind [OF assms comparison_quiet [where k = k, OF blank_space(2)]]) (auto dest: ends_quiet(3) simp: ends_quiet)

lemma additive_operand:
  "reads input k c stop_number t unary x \<Longrightarrow> blank v \<Longrightarrow>
   reads input k c (ends_operand ''*/+-'' v) (t @ v) (parse_additive input unary) x"
  by (intro additive_over mult_operand)

lemma comparison_operand:
  "reads input k c stop_number t unary x \<Longrightarrow> blank v \<Longrightarrow>
   reads input k c (ends_operand ''*/+-<>='' v) (t @ v) (parse_comparison input unary) x"
  by (intro comparison_over additive_operand)

text \<open>One operator between two operands, read at its own level.\<close>

lemma space_stops: "stop_number (CHR '' '' # s)"
  by (simp add: stop_number_def)

lemma fuel_two: "s \<noteq> [] \<Longrightarrow> length s \<le> length input \<Longrightarrow> \<exists>m. Suc (length input) = Suc (Suc m)"
  by (cases input) auto

lemma mult_one:
  assumes node: "multiplicative_node c = Some build"
    and l: "reads input k n1 stop_number t1 unary l" and r: "reads input k n2 stop_number t2 unary r"
  shows "reads input k (Suc (n1 + n2)) (ends_operand ''*/'' []) (t1 @ CHR '' '' # c # t2) (parse_multiplicative input unary) (build l r)"
proof (rule reads_within_input)
  assume "length (t1 @ CHR '' '' # c # t2) \<le> length input"
  then obtain m where m: "Suc (length input) = Suc (Suc m)" using fuel_two [of "t1 @ CHR '' '' # c # t2" input] by blast
  have c: "\<not> is_ascii_whitespace c" using node no_blank_chars by (auto simp: multiplicative_node_def split: if_splits)
  have r': "reads input k n2 (ends_operand ''*/'' []) t2 unary r"
    by (rule reads_weaken [OF r]) (auto simp: ends_operand_def)
  have "reads input k (Suc n2) (ends_operand ''*/'' []) ('' '' @ c # t2)
      (operator_loop input multiplicative_node unary (Suc (Suc m)) l) (build l r)"
    by (rule loop_one [where node = multiplicative_node]) (use node c r' blank_space(1) ends_quiet(1) in simp_all)
  then show ?thesis
    unfolding parse_multiplicative_def m
    by (intro reads_bind [OF l]) (auto simp: space_stops)
qed

lemma additive_one:
  assumes node: "additive_node c = Some build"
    and l: "reads input k n1 stop_number t1 unary l" and r: "reads input k n2 stop_number t2 unary r"
  shows "reads input k (Suc (n1 + n2)) (ends_operand ''*/+-'' []) (t1 @ CHR '' '' # c # t2) (parse_additive input unary) (build l r)"
proof (rule reads_within_input)
  assume "length (t1 @ CHR '' '' # c # t2) \<le> length input"
  then obtain m where m: "Suc (length input) = Suc (Suc m)" using fuel_two [of "t1 @ CHR '' '' # c # t2" input] by blast
  have c: "\<not> is_ascii_whitespace c" "c \<notin> set ''*/''"
    using node no_blank_chars by (auto simp: additive_node_def split: if_splits)
  have r': "reads input k n2 (ends_operand ''*/+-'' []) t2 (parse_multiplicative input unary) r"
    using mult_operand [OF r blank_space(2)] unfolding append_Nil2 by (rule reads_weaken) (simp_all add: ends_quiet)
  have "reads input k (Suc n2) (ends_operand ''*/+-'' []) ([] @ c # t2)
      (operator_loop input additive_node (parse_multiplicative input unary) (Suc (Suc m)) l) (build l r)"
    by (rule loop_one [where node = additive_node]) (use node c r' blank_space(2) ends_quiet(2) in simp_all)
  then show ?thesis
    unfolding parse_additive_def m
    by (intro reads_bind [OF mult_operand [OF l blank_space(1)]]) (use c in \<open>auto simp: space_stops ends_operand_def no_blank_def\<close>)
qed

lemma compare_one:
  assumes l: "reads input k n1 stop_number t1 unary l" and r: "reads input k n2 stop_number (CHR '' '' # t2) unary r"
  shows "reads input k (Suc (n1 + n2)) (ends_operand ''*/+-<>='' []) (t1 @ CHR '' '' # comparison_as_str p @ CHR '' '' # t2)
    (parse_comparison input unary) (UCompare p l r)"
proof (rule reads_within_input)
  assume "length (t1 @ CHR '' '' # comparison_as_str p @ CHR '' '' # t2) \<le> length input"
  then obtain m where m: "Suc (length input) = Suc (Suc m)"
    using fuel_two [of "t1 @ CHR '' '' # comparison_as_str p @ CHR '' '' # t2" input] by blast
  have r': "reads input k n2 (ends_operand ''*/+-<>='' []) (CHR '' '' # t2) (parse_additive input unary) r"
    using additive_operand [OF r blank_space(2)] unfolding append_Nil2 by (rule reads_weaken) (simp_all add: ends_quiet)
  have "reads input k (Suc n2) (ends_operand ''*/+-<>='' []) ([] @ comparison_as_str p @ CHR '' '' # t2)
      (comparison_loop input (parse_additive input unary) (Suc (Suc m)) l) (UCompare p l r)"
    by (rule comparison_one [OF blank_space(2) r' ends_quiet(3)])
  moreover have "ends_operand ''*/+-'' '' '' (comparison_as_str p @ s)" for s
    by (cases p) (auto simp: ends_operand_def space_stops no_blank_def no_blank_chars)
  ultimately show ?thesis
    unfolding parse_comparison_def m
    by (intro reads_bind [OF additive_operand [OF l blank_space(1)]]) auto
qed

text \<open>The binary nodes.\<close>

lemma reads_binary:
  assumes l: "reads_operand input k unary l" and r: "reads_operand input k unary r"
  shows "reads input k (recorded (UAdd l r)) closed (format_unbound l @ '' + '' @ format_unbound r) (parse_comparison input unary) (UAdd l r)"
    "reads input k (recorded (USubtract l r)) closed (format_unbound l @ '' - '' @ format_unbound r) (parse_comparison input unary) (USubtract l r)"
    "reads input k (recorded (UMultiply l r)) closed (format_unbound l @ '' * '' @ format_unbound r) (parse_comparison input unary) (UMultiply l r)"
    "reads input k (recorded (UDivide l r)) closed (format_unbound l @ '' / '' @ format_unbound r) (parse_comparison input unary) (UDivide l r)"
    "reads input k (recorded (UCompare p l r)) closed
       (format_unbound l @ CHR '' '' # comparison_as_str p @ CHR '' '' # format_unbound r) (parse_comparison input unary) (UCompare p l r)"
proof -
  have l': "reads input k (recorded l) stop_number (format_unbound l) unary l"
    using reads_operandD [OF l blank_space(2), of k] by simp
  have r': "reads input k (recorded r) stop_number (CHR '' '' # format_unbound r) unary r"
    using reads_operandD [OF r blank_space(1), of k] by simp
  have close: "reads input k n closed t m x" if "reads input k n (ends_operand ''*/+-<>='' []) t m x" for n t m and x :: unbound_expression
    by (rule reads_weaken [OF that]) (simp_all add: closed_ends)
  note mult = comparison_over [OF additive_over [OF mult_one [OF _ l' r']]]
  note add = comparison_over [OF additive_one [OF _ l' r']]
  show "reads input k (recorded (UAdd l r)) closed (format_unbound l @ '' + '' @ format_unbound r) (parse_comparison input unary) (UAdd l r)"
    using close [OF add [of "CHR ''+''" UAdd]] by (simp add: additive_node_def)
  show "reads input k (recorded (USubtract l r)) closed (format_unbound l @ '' - '' @ format_unbound r) (parse_comparison input unary) (USubtract l r)"
    using close [OF add [of "CHR ''-''" USubtract]] by (simp add: additive_node_def)
  show "reads input k (recorded (UMultiply l r)) closed (format_unbound l @ '' * '' @ format_unbound r) (parse_comparison input unary) (UMultiply l r)"
    using close [OF mult [of "CHR ''*''" UMultiply]] by (simp add: multiplicative_node_def)
  show "reads input k (recorded (UDivide l r)) closed (format_unbound l @ '' / '' @ format_unbound r) (parse_comparison input unary) (UDivide l r)"
    using close [OF mult [of "CHR ''/''" UDivide]] by (simp add: multiplicative_node_def)
  show "reads input k (recorded (UCompare p l r)) closed
       (format_unbound l @ CHR '' '' # comparison_as_str p @ CHR '' '' # format_unbound r) (parse_comparison input unary) (UCompare p l r)"
    using close [OF compare_one [OF l' r', of p]] by simp
qed

lemma reads_argument:
  assumes "reads_operand input k unary e" "blank w"
  shows "reads input k (recorded e) closed (w @ format_unbound e) (parse_comparison input unary) e"
proof -
  have "reads input k (recorded e) (ends_operand ''*/+-<>='' []) ((w @ format_unbound e) @ []) (parse_comparison input unary) e"
    by (rule comparison_operand [OF reads_operandD [OF assms] blank_space(2)]) simp
  then show ?thesis unfolding append_Nil2 by (rule reads_weaken) (simp_all add: closed_ends)
qed

section \<open>Operands\<close>

text \<open>The parser an operand is handed to by its first byte.\<close>

definition operand_parser :: "string \<Rightarrow> unbound_expression parser \<Rightarrow> char \<Rightarrow> unbound_expression parser" where
  "operand_parser input unary c =
     (if is_ascii_digit c \<or> c = CHR ''.'' then parse_number input
      else if c = CHR ''['' then parse_reference input
      else if c = CHR ''('' then parse_parenthesized input unary
      else if is_ascii_alphabetic c then parse_function input unary
      else p_error (''expected number, reference, function, or '' @ [CHR 39, CHR ''('', CHR 39]))"

lemma parse_primary_at:
  "skip_whitespace input st = st \<Longrightarrow> peek input st = Some c \<Longrightarrow> parse_primary input unary st = operand_parser input unary c st"
  by (simp add: parse_primary_def Let_def operand_parser_def)

lemma reads_unary_step:
  assumes m: "reads input k n S (c # t) (operand_parser input unary c) x"
    and c: "\<not> is_ascii_whitespace c" "\<not> is_sign c" and w: "blank w"
  shows "reads input k n S (w @ c # t) (unary_step input unary) x"
proof (rule readsI)
  fix st :: parser_state and rest
  assume at: "drop (pp_position st) input = (w @ c # t) @ rest" "pp_nodes st + n \<le> max_expression_nodes"
    "pp_nesting st + k \<le> max_expression_depth" "S rest"
  let ?s = "read_on (length w) 0 st"
  have d: "drop (pp_position st) input = w @ (c # t @ rest)" using at(1) by simp
  have skip: "skip_whitespace input st = ?s" by (rule skip_at [OF d w]) (simp add: no_blank_def c(1))
  have d': "drop (pp_position ?s) input = [] @ (c # t @ rest)" using drop_read_on [OF d] by simp
  have skip': "skip_whitespace input ?s = read_on (length ([] :: string)) 0 ?s"
    by (rule skip_at [OF d' blank_space(2)]) (simp add: no_blank_def c(1))
  have p: "peek input ?s = Some c" using peek_at [OF d'] by simp
  have "operand_parser input unary c ?s = Inr (x, read_on (length (c # t)) n ?s)"
    by (rule readsD [OF m]) (use d' at in simp_all)
  then have "parse_primary input unary ?s = Inr (x, read_on (length (c # t)) n ?s)"
    using parse_primary_at [of input ?s c unary] skip' p by simp
  then show "unary_step input unary st = Inr (x, read_on (length (w @ c # t)) n st)"
    by (simp add: unary_step_def skip p c(2))
qed

lemma reads_after:
  assumes "\<And>p q. reads input k n S t (m p q) x"
  shows "reads input k n S (c # t) (\<lambda>st. m (pp_position st) (pp_position st + 1) (advance 1 st)) x"
proof (rule readsI)
  fix st :: parser_state and rest
  assume at: "drop (pp_position st) input = (c # t) @ rest" "pp_nodes st + n \<le> max_expression_nodes"
    "pp_nesting st + k \<le> max_expression_depth" "S rest"
  have d: "drop (pp_position (advance 1 st)) input = t @ rest"
    using drop_read_on [of "pp_position st" input "[c]" "t @ rest"] at(1) by simp
  have "m (pp_position st) (pp_position st + 1) (advance 1 st) = Inr (x, read_on (length t) n (advance 1 st))"
    by (rule readsD [OF assms d]) (use at in simp_all)
  then show "m (pp_position st) (pp_position st + 1) (advance 1 st) = Inr (x, read_on (length (c # t)) n st)" by simp
qed

lemma reads_close:
  assumes "\<not> is_ascii_whitespace c"
  shows "reads input k 0 S [c] (p_bind (p_expect input c message) (\<lambda>u. p_return x)) x"
  by (rule reads_bind [OF reads_expect [OF assms, where k = k and S = "\<lambda>rest. True"] reads_return [where k = k]]) simp_all

lemma reads_parenthesized:
  assumes "reads input k n closed t (parse_comparison input unary) x"
  shows "reads input (Suc k) n S (CHR ''('' # t @ '')'') (parse_parenthesized input unary) x"
proof -
  have "reads input (Suc k) n S (t @ '')'') (with_nesting p (p_bind (parse_comparison input unary) (\<lambda>e.
        p_bind (p_expect input (CHR '')'') message) (\<lambda>u. p_return e)))) x" for p message
    by (rule reads_nesting, rule reads_bind [OF assms reads_close [OF no_blank_chars(2), where k = k]])
      (simp_all add: closed_def)
  from reads_after [OF this] show ?thesis unfolding parse_parenthesized_def .
qed

text \<open>A number, its sign read by the operand parser one level further down.\<close>

lemma reads_literal:
  assumes lit: "literal_of x s" and w: "blank w"
  shows "reads input 0 1 stop_number (w @ s) (unary_step input unary) (UNumber (Number (f64_abs x)))"
proof -
  obtain c t where s: "s = c # t" "is_ascii_digit c"
    using lit by (auto simp: literal_of_def is_literal_def neq_Nil_conv)
  have c: "\<not> is_ascii_whitespace c" "\<not> is_sign c"
    using s(2) digit_not_special [OF s(2)] by (auto simp: is_ascii_whitespace_def is_ascii_digit_def is_sign_def)
  show ?thesis
    unfolding s(1) by (rule reads_unary_step [OF _ c w])
      (use reads_number [OF lit, of input] s in \<open>simp add: operand_parser_def\<close>)
qed

lemma reads_negative:
  assumes unary: "reads input k n S t unary (UNumber (Number x))" and w: "blank w"
    and m: "number_new (f64_neg x) = Some m"
  shows "reads input (Suc k) n S (w @ CHR ''-'' # t) (unary_step input unary) (UNumber m)"
proof (rule readsI)
  fix st :: parser_state and rest
  assume at: "drop (pp_position st) input = (w @ CHR ''-'' # t) @ rest" "pp_nodes st + n \<le> max_expression_nodes"
    "pp_nesting st + Suc k \<le> max_expression_depth" "S rest"
  let ?s = "read_on (length w) 0 st"
  have d: "drop (pp_position st) input = w @ (CHR ''-'' # t @ rest)" using at(1) by simp
  have skip: "skip_whitespace input st = ?s" by (rule skip_at [OF d w]) (simp add: no_blank_def no_blank_chars)
  have p: "peek input ?s = Some (CHR ''-'')" using peek_at [of ?s] drop_read_on [OF d] by simp
  have "reads input (Suc k) (n + 0) S (t @ []) (p_bind (with_nesting (pp_position ?s) unary) (\<lambda>operand.
      if CHR ''-'' = CHR ''+'' then p_return operand else negate_operand (pp_position ?s) operand)) (UNumber m)"
    by (rule reads_bind [OF reads_nesting [OF unary]])
      (auto simp: negate_operand_def m intro: reads_return)
  moreover have "drop (pp_position (advance 1 ?s)) input = (t @ []) @ rest"
    using drop_read_on [of "pp_position ?s" input "''-''"] drop_read_on [OF d] by simp
  ultimately have "p_bind (with_nesting (pp_position ?s) unary) (\<lambda>operand.
      if CHR ''-'' = CHR ''+'' then p_return operand else negate_operand (pp_position ?s) operand) (advance 1 ?s) =
      Inr (UNumber m, read_on (length (t @ [])) (n + 0) (advance 1 ?s))"
    by (rule readsD) (use at in simp_all)
  then show "unary_step input unary st = Inr (UNumber m, read_on (length (w @ CHR ''-'' # t)) n st)"
    unfolding unary_step_def Let_def skip p by (simp add: is_sign_def)
qed

end
