(* ===== verification/RoundTrip.thy ===== *)
theory RoundTrip
  imports Reading
begin

text \<open>
  The parser reads the canonical text back: calls, conditional aggregates, and by induction every
  expression the language can write.
\<close>

section \<open>Calls\<close>

lemma reads_call:
  assumes "reads input k n S t arguments x"
  shows "reads input (Suc k) (Suc n) S (CHR ''('' # t) (call_arguments input start arguments) x"
proof (rule readsI)
  fix st :: parser_state and rest
  assume at: "drop (pp_position st) input = (CHR ''('' # t) @ rest" "pp_nodes st + Suc n \<le> max_expression_nodes"
    "pp_nesting st + Suc k \<le> max_expression_depth" "S rest"
  have skip: "skip_whitespace input st = st"
    using skip_at [of st input "[]"] at(1) by (simp add: blank_def no_blank_def no_blank_chars)
  have body: "reads input (Suc k) (1 + n) S ([] @ t) (p_bind (record_node start) (\<lambda>u. with_nesting (pp_position st) arguments)) x"
    by (rule reads_bind [OF reads_record [where k = k] reads_nesting [OF assms]]) simp_all
  have "reads input (Suc k) (0 + (1 + n)) S ([CHR ''(''] @ ([] @ t)) (p_bind (p_expect input (CHR ''('') open_message) (\<lambda>u.
      p_bind (record_node start) (\<lambda>u. with_nesting (pp_position st) arguments))) x"
    by (rule reads_bind [OF reads_expect [OF no_blank_chars(3), where k = k and S = "\<lambda>rest. True"] body]) simp_all
  then have "p_bind (p_expect input (CHR ''('') open_message) (\<lambda>u. p_bind (record_node start) (\<lambda>u.
      with_nesting (pp_position st) arguments)) st = Inr (x, read_on (length ([CHR ''(''] @ ([] @ t))) (0 + (1 + n)) st)"
    by (rule readsD) (use at in simp_all)
  then show "call_arguments input start arguments st = Inr (x, read_on (length (CHR ''('' # t)) (Suc n) st)"
    unfolding call_arguments_def Let_def skip by simp
qed

lemma reads_function:
  assumes name: "name = c # cs" "list_all is_name_char cs"
    and m: "\<And>p. reads input k n S (CHR ''('' # t) (function_call input unary p name) x"
  shows "reads input k n S (name @ CHR ''('' # t) (parse_function input unary) x"
proof (rule readsI)
  fix st :: parser_state and rest
  assume at: "drop (pp_position st) input = (name @ CHR ''('' # t) @ rest" "pp_nodes st + n \<le> max_expression_nodes"
    "pp_nesting st + k \<le> max_expression_depth" "S rest"
  have d: "drop (pp_position (advance 1 st)) input = cs @ CHR ''('' # t @ rest"
    using drop_read_on [of "pp_position st" input "[c]"] at(1) name(1) by simp
  have open_bracket: "\<not> is_name_char (CHR ''('')"
    by (simp add: is_name_char_def is_ascii_alphanumeric_def is_ascii_lowercase_def is_ascii_uppercase_def is_ascii_digit_def byte_def)
  have "takeWhile is_name_char (cs @ CHR ''('' # t @ rest) = cs"
    using name(2) open_bracket by (simp add: takeWhile_append list_all_iff)
  then have skip: "advance_while is_name_char input (advance 1 st) = read_on (length name) 0 st"
    unfolding advance_while_def d by (simp add: name(1))
  have d2: "drop (pp_position (read_on (length name) 0 st)) input = (CHR ''('' # t) @ rest"
    using drop_read_on [of "pp_position st" input name] at(1) by simp
  have name_slice: "slice input (pp_position st) (pp_position (read_on (length name) 0 st)) = name"
    using at(1) by (simp add: slice_def)
  have "function_call input unary (pp_position st) name (read_on (length name) 0 st) =
      Inr (x, read_on (length (CHR ''('' # t)) n (read_on (length name) 0 st))"
    by (rule readsD [OF m d2]) (use at in simp_all)
  then show "parse_function input unary st = Inr (x, read_on (length (name @ CHR ''('' # t)) n st)"
    unfolding parse_function_def Let_def skip name_slice by simp
qed

text \<open>After an argument: another one, or the closing bracket.\<close>

definition close_follows :: "string \<Rightarrow> bool" where
  "close_follows rest \<longleftrightarrow> (\<exists>r. rest = CHR '')'' # r)"

lemma reads_no_more:
  "reads input k 0 close_follows []
     (\<lambda>st. let st = skip_whitespace input st in if peek input st = Some (CHR '','') then m (advance 1 st) else Inr (y, st)) y"
proof (rule readsI)
  fix st :: parser_state and rest
  assume at: "drop (pp_position st) input = [] @ rest" "close_follows rest"
  obtain r where r: "rest = CHR '')'' # r" using at(2) by (auto simp: close_follows_def)
  have skip: "skip_whitespace input st = st"
    using skip_at [of st input "[]"] at(1) r by (simp add: blank_def no_blank_def no_blank_chars)
  have "peek input st = Some (CHR '')'')" using peek_at [OF at(1)] r by simp
  then show "(let st = skip_whitespace input st in if peek input st = Some (CHR '','') then m (advance 1 st) else Inr (y, st)) =
      Inr (y, read_on (length ([] :: string)) 0 st)" by (simp add: skip)
qed

lemma reads_one_more:
  assumes "reads input k n S t m x"
  shows "reads input k n S (CHR '','' # t)
     (\<lambda>st. let st = skip_whitespace input st in if peek input st = Some (CHR '','') then m (advance 1 st) else Inr (y, st)) x"
proof (rule readsI)
  fix st :: parser_state and rest
  assume at: "drop (pp_position st) input = (CHR '','' # t) @ rest" "pp_nodes st + n \<le> max_expression_nodes"
    "pp_nesting st + k \<le> max_expression_depth" "S rest"
  have skip: "skip_whitespace input st = st"
    using skip_at [of st input "[]"] at(1) by (simp add: blank_def no_blank_def no_blank_chars)
  have p: "peek input st = Some (CHR '','')" using peek_at [OF at(1)] by simp
  have d: "drop (pp_position (advance 1 st)) input = t @ rest"
    using drop_read_on [of "pp_position st" input "'',''"] at(1) by simp
  have "m (advance 1 st) = Inr (x, read_on (length t) n (advance 1 st))"
    by (rule readsD [OF assms d]) (use at in simp_all)
  then show "(let st = skip_whitespace input st in if peek input st = Some (CHR '','') then m (advance 1 st) else Inr (y, st)) =
      Inr (x, read_on (length (CHR '','' # t)) n st)" by (simp add: skip p)
qed

lemma join_Cons: "xs \<noteq> [] \<Longrightarrow> join_arguments (x # xs) = x @ CHR '','' # '' '' @ join_arguments xs"
  by (cases xs) simp_all

lemma join_length: "length xs \<le> Suc (length (join_arguments xs))"
  by (induction xs rule: join_arguments.induct) simp_all

lemma arguments_loop_reads:
  assumes "\<forall>x\<in>set xs. \<forall>w. blank w \<longrightarrow> reads input k (recorded x) closed (w @ format_unbound x) argument x"
    "xs \<noteq> []" "length xs \<le> fuel" "blank w"
  shows "reads input k (sum_list (map recorded xs)) close_follows (w @ join_arguments (map format_unbound xs))
    (arguments_loop input argument fuel acc) (acc @ xs)"
  using assms
proof (induction xs arbitrary: acc fuel w)
  case (Cons x xs)
  then obtain fuel' where fuel: "fuel = Suc fuel'" by (cases fuel) auto
  have x: "reads input k (recorded x) closed (w @ format_unbound x) argument x" using Cons.prems by simp
  let ?next = "\<lambda>m st. let st = skip_whitespace input st in
      if peek input st = Some (CHR '','') then m (advance 1 st) else Inr (acc @ [x], st)"
  have step: "arguments_loop input argument fuel acc = p_bind argument (\<lambda>x st.
      let st = skip_whitespace input st in
      if peek input st = Some (CHR '','') then arguments_loop input argument fuel' (acc @ [x]) (advance 1 st)
      else Inr (acc @ [x], st))"
    by (simp add: fuel fun_eq_iff Let_def)
  have close: "close_follows rest \<Longrightarrow> closed rest" for rest by (auto simp: close_follows_def closed_def)
  show ?case
  proof (cases "xs = []")
    case True
    have "reads input k (recorded x + 0) close_follows ((w @ format_unbound x) @ [])
        (arguments_loop input argument fuel acc) (acc @ [x])"
      unfolding step by (rule reads_bind [OF x reads_no_more [where k = k]]) (simp_all add: close)
    then show ?thesis using True by simp
  next
    case False
    have "reads input k (sum_list (map recorded xs)) close_follows ('' '' @ join_arguments (map format_unbound xs))
        (arguments_loop input argument fuel' (acc @ [x])) ((acc @ [x]) @ xs)"
      by (rule Cons.IH) (use Cons.prems False fuel blank_space in simp_all)
    note more = reads_one_more [OF this]
    have "reads input k (recorded x + sum_list (map recorded xs)) close_follows
        ((w @ format_unbound x) @ CHR '','' # '' '' @ join_arguments (map format_unbound xs))
        (arguments_loop input argument fuel acc) ((acc @ [x]) @ xs)"
      unfolding step by (rule reads_bind [OF x], rule more) (simp_all add: closed_def)
    then show ?thesis using join_Cons [of "map format_unbound xs"] False by simp
  qed
qed simp

section \<open>Function calls\<close>

lemma alphabetic_first:
  assumes "is_ascii_alphabetic c"
  shows "\<not> is_ascii_whitespace c" "\<not> is_sign c" "operand_parser input unary c = parse_function input unary"
    "c \<noteq> CHR '')''" "c \<noteq> CHR 34" "c \<noteq> CHR '',''"
proof -
  have b: "64 < byte c" "byte c < 91 \<or> 96 < byte c"
    using assms by (auto simp: is_ascii_alphabetic_def is_ascii_lowercase_def is_ascii_uppercase_def)
  have "byte (CHR ''.'') = 46" "byte (CHR ''['') = 91" "byte (CHR ''('') = 40" "byte (CHR '')'') = 41"
    "byte (CHR 34) = 34" "byte (CHR '','') = 44" "byte (CHR ''+'') = 43" "byte (CHR ''-'') = 45"
    by (simp_all add: byte_def)
  then show "\<not> is_ascii_whitespace c" "\<not> is_sign c" "operand_parser input unary c = parse_function input unary"
    "c \<noteq> CHR '')''" "c \<noteq> CHR 34" "c \<noteq> CHR '',''"
    using b assms by (auto simp: is_ascii_whitespace_def is_sign_def operand_parser_def is_ascii_digit_def)
qed

lemma format_number_first:
  assumes "number_ok n"
  obtains c s where "format_number n = c # s" "is_ascii_digit c \<or> c = CHR ''-''"
proof -
  obtain s where s: "format_number n = (if f64_sign (number_get n) then CHR ''-'' # s else s)" "literal_of (number_get n) s"
    using format_number_literal [OF assms] .
  obtain c t where "s = c # t" "is_ascii_digit c"
    using s(2) by (auto simp: literal_of_def is_literal_def neq_Nil_conv)
  then show ?thesis using s(1) that by (cases "f64_sign (number_get n)") auto
qed

lemma format_first:
  assumes "writable e"
  obtains c s where "format_unbound e = c # s" "\<not> is_ascii_whitespace c" "c \<notin> {CHR '')'', CHR 34, CHR '',''}"
proof (cases e)
  case (UNumber n)
  then obtain c s where c: "format_unbound e = c # s" "is_ascii_digit c \<or> c = CHR ''-''"
    using format_number_first [of n] assms by auto
  have "\<not> is_ascii_whitespace c" "c \<notin> {CHR '')'', CHR 34, CHR '',''}"
    using c(2) no_blank_chars by (auto simp: is_ascii_whitespace_def is_ascii_digit_def byte_def)
  then show ?thesis using that c by blast
next
  case (UColumnConditional a criteria)
  then show ?thesis
    using that by (cases a) (auto simp: call_text_def conditional_name_def is_ascii_whitespace_def byte_def)
qed (use that no_blank_chars in \<open>auto simp: call_text_def binary_text_def is_ascii_whitespace_def byte_def\<close>)

lemma reads_arguments:
  assumes xs: "\<forall>x\<in>set xs. writable x \<and> reads_operand input k unary x" "xs \<noteq> []"
  shows "reads input k (sum_list (map recorded xs)) S (join_arguments (map format_unbound xs) @ '')'') (parse_arguments input unary) xs"
proof (rule reads_within_input)
  assume "length (join_arguments (map format_unbound xs) @ '')'') \<le> length input"
  then have fuel: "length xs \<le> Suc (length input)" using join_length [of "map format_unbound xs"] by simp
  let ?loop = "arguments_loop input (parse_comparison input unary) (Suc (length input)) []"
  have "reads input k (sum_list (map recorded xs)) close_follows ([] @ join_arguments (map format_unbound xs)) ?loop ([] @ xs)"
    by (rule arguments_loop_reads [OF _ xs(2) fuel blank_space(2)]) (use xs(1) reads_argument in blast)
  then have loop: "reads input k (sum_list (map recorded xs)) close_follows (join_arguments (map format_unbound xs)) ?loop xs" by simp
  obtain x xs' where x: "xs = x # xs'" using xs(2) by (cases xs) auto
  then obtain c s where c: "format_unbound x = c # s" "\<not> is_ascii_whitespace c" "c \<notin> {CHR '')'', CHR 34, CHR '',''}"
    using format_first xs(1) by auto
  obtain s' where first: "join_arguments (map format_unbound xs) = c # s'"
    using c(1) x join_Cons [of "map format_unbound xs'" "format_unbound x"] by (cases xs') auto
  let ?rest = "\<lambda>arguments. p_bind (p_expect input (CHR '')'') close_message) (\<lambda>u. p_return arguments)"
  have "reads input k (sum_list (map recorded xs) + 0) S (join_arguments (map format_unbound xs) @ '')'') (p_bind ?loop ?rest) xs"
    by (rule reads_bind [OF loop reads_close [OF no_blank_chars(2), where k = k]]) (simp_all add: close_follows_def)
  note body = readsD [OF this]
  show "reads input k (sum_list (map recorded xs)) S (join_arguments (map format_unbound xs) @ '')'') (parse_arguments input unary) xs"
  proof (rule readsI)
    fix st :: parser_state and rest
    assume at: "drop (pp_position st) input = (join_arguments (map format_unbound xs) @ '')'') @ rest"
      "pp_nodes st + sum_list (map recorded xs) \<le> max_expression_nodes"
      "pp_nesting st + k \<le> max_expression_depth" "S rest"
    have skip: "skip_whitespace input st = st"
      using skip_at [of st input "[]"] at(1) first c(2) by (simp add: blank_def no_blank_def)
    have "peek input st \<noteq> Some (CHR '')'')" using peek_at [OF at(1)] first c(3) by simp
    then have "parse_arguments input unary st = p_bind ?loop ?rest st"
      by (simp add: parse_arguments_def Let_def skip)
    then show "parse_arguments input unary st =
        Inr (xs, read_on (length (join_arguments (map format_unbound xs) @ '')'')) (sum_list (map recorded xs)) st)"
      using body [OF at(1)] at by simp
  qed
qed

lemma reads_named_call:
  assumes name: "name = c # cs" "is_ascii_alphabetic c" "list_all is_name_char cs"
    and m: "\<And>p. reads input k n S (CHR ''('' # t) (function_call input unary p name) x" and w: "blank w"
  shows "reads input k n S (w @ name @ CHR ''('' # t) (unary_step input unary) x"
proof -
  have "reads input k n S (c # cs @ CHR ''('' # t) (operand_parser input unary c) x"
    using reads_function [OF name(1,3) m] alphabetic_first(3) [OF name(2)] name(1) by simp
  from reads_unary_step [OF this alphabetic_first(1,2) [OF name(2)] w] show ?thesis using name(1) by simp
qed

text \<open>The names of the canonical text are read back as they are.\<close>

definition extended_names :: "string set" where
  "extended_names = {''IF'', ''AND'', ''OR'', ''NOT'', ''ROUND'', ''ISBLANK''}"

definition plural_names :: "string set" where
  "plural_names = {''SUMIFS'', ''AVERAGEIFS'', ''COUNTIFS''}"

lemma upper_names:
  "name \<in> extended_names \<union> plural_names \<Longrightarrow> map to_ascii_uppercase name = name"
  "map to_ascii_uppercase ''min'' = ''MIN''" "map to_ascii_uppercase ''max'' = ''MAX''"
  unfolding extended_names_def plural_names_def
  by (elim UnE insertE emptyE; simp add: to_ascii_uppercase_def is_ascii_lowercase_def byte_def char_of_def)
    (simp_all add: to_ascii_uppercase_def is_ascii_lowercase_def byte_def char_of_def bit_Suc_0_iff)

lemma name_shape:
  "name \<in> extended_names \<union> plural_names \<union> {''min'', ''max''} \<Longrightarrow>
   \<exists>c cs. name = c # cs \<and> is_ascii_alphabetic c \<and> list_all is_name_char cs"
  unfolding extended_names_def plural_names_def
  by (elim UnE insertE emptyE; simp add: is_ascii_alphabetic_def is_name_char_def is_ascii_alphanumeric_def
    is_ascii_lowercase_def is_ascii_uppercase_def byte_def)

lemma function_call_extended:
  "name \<in> extended_names \<Longrightarrow> function_call input unary p name = parse_extended_function input unary p name"
  using upper_names(1) [of name]
  by (simp add: function_call_def Let_def if_P extended_names_def [symmetric] del: insert_iff)

lemma reads_extended:
  assumes name: "name \<in> extended_names"
    and xs: "\<forall>x\<in>set xs. writable x \<and> reads_operand input k unary x" "xs \<noteq> []"
    and e: "extended_node name xs = Some e" and w: "blank w"
  shows "reads input (Suc k) (Suc (sum_list (map recorded xs))) S (w @ call_text name (map format_unbound xs)) (unary_step input unary) e"
proof -
  let ?t = "join_arguments (map format_unbound xs) @ '')''"
  have call: "reads input (Suc k) (Suc (sum_list (map recorded xs)) + 0) S ((CHR ''('' # ?t) @ []) (function_call input unary p name) e" for p
  proof -
    have node: "reads input k 0 S [] (case extended_node name xs of
        None \<Rightarrow> p_fail p (''invalid arity for '' @ name) | Some e \<Rightarrow> p_return e) e"
      by (simp add: e reads_return)
    show ?thesis
      unfolding function_call_extended [OF name] parse_extended_function_def
      by (rule reads_bind [OF reads_call [OF reads_arguments [OF xs, where S = "\<lambda>rest. True"]]], rule node) simp_all
  qed
  have "\<exists>c cs. name = c # cs \<and> is_ascii_alphabetic c \<and> list_all is_name_char cs" by (rule name_shape) (simp add: name)
  then obtain c cs where c: "name = c # cs" "is_ascii_alphabetic c" "list_all is_name_char cs" by blast
  have "reads input (Suc k) (Suc (sum_list (map recorded xs)) + 0) S (w @ name @ CHR ''('' # ?t) (unary_step input unary) e"
    by (rule reads_named_call [OF c _ w]) (use call in simp)
  then show ?thesis by (simp add: call_text_def)
qed

lemma reads_pair:
  assumes l: "reads_operand input k unary l" and r: "reads_operand input k unary r"
  shows "reads input k (recorded l + recorded r) S (format_unbound l @ '', '' @ format_unbound r @ '')'') (parse_pair input unary) (l, r)"
proof -
  note r' = reads_argument [OF r blank_space(1)]
  have "reads input k (recorded r + 0) S (('' '' @ format_unbound r) @ '')'') (p_bind (parse_comparison input unary) (\<lambda>right.
      p_bind (p_expect input (CHR '')'') close_message) (\<lambda>u. p_return (l, right)))) (l, r)"
    by (rule reads_bind [OF r' reads_close [OF no_blank_chars(2), where k = k]]) (simp_all add: closed_def)
  then have "reads input k (0 + (recorded r + 0)) S ('','' @ (('' '' @ format_unbound r) @ '')''))
      (p_bind (p_expect input (CHR '','') message) (\<lambda>u. p_bind (parse_comparison input unary) (\<lambda>right.
        p_bind (p_expect input (CHR '')'') close_message) (\<lambda>u. p_return (l, right))))) (l, r)" for message
    by (rule reads_bind [OF reads_expect [OF no_blank_chars(1), where k = k and S = "\<lambda>rest. True"]]) simp_all
  note comma = this
  have "reads input k (recorded l + (0 + (recorded r + 0))) S
      (([] @ format_unbound l) @ ('','' @ (('' '' @ format_unbound r) @ '')''))) (parse_pair input unary) (l, r)"
    unfolding parse_pair_def
    by (rule reads_bind [OF reads_argument [OF l blank_space(2)]], rule comma) (simp_all add: closed_def)
  then show ?thesis by simp
qed

lemma reads_extreme:
  assumes l: "reads_operand input k unary l" and r: "reads_operand input k unary r" and w: "blank w"
  shows "reads input (Suc k) (recorded (UMinimum l r)) S (w @ format_unbound (UMinimum l r)) (unary_step input unary) (UMinimum l r)"
    "reads input (Suc k) (recorded (UMaximum l r)) S (w @ format_unbound (UMaximum l r)) (unary_step input unary) (UMaximum l r)"
proof -
  let ?t = "format_unbound l @ '', '' @ format_unbound r @ '')''"
  have call: "reads input (Suc k) (Suc (recorded l + recorded r) + 0) S ((CHR ''('' # ?t) @ [])
      (p_bind (call_arguments input p (parse_pair input unary)) (\<lambda>(l, r). p_return (build l r))) (build l r)" for p build
    by (rule reads_bind [OF reads_call [OF reads_pair [OF l r, where S = "\<lambda>rest. True"]]], simp,
      rule reads_return [where k = k]) simp_all
  have fn: "function_call input unary p ''min'' = p_bind (call_arguments input p (parse_pair input unary)) (\<lambda>(l, r). p_return (UMinimum l r))"
    "function_call input unary p ''max'' = p_bind (call_arguments input p (parse_pair input unary)) (\<lambda>(l, r). p_return (UMaximum l r))" for p
    unfolding function_call_def upper_names(2,3) Let_def by simp_all
  have shape: "\<exists>c cs. name = c # cs \<and> is_ascii_alphabetic c \<and> list_all is_name_char cs" if "name \<in> {''min'', ''max''}" for name
    by (rule name_shape, rule UnI2, rule that)
  have named: "reads input (Suc k) (Suc (recorded l + recorded r) + 0) S (w @ name @ CHR ''('' # ?t) (unary_step input unary) (build l r)"
    if name: "name \<in> {''min'', ''max''}"
      and f: "\<And>p. function_call input unary p name = p_bind (call_arguments input p (parse_pair input unary)) (\<lambda>(l, r). p_return (build l r))"
    for name build
  proof -
    obtain c cs where c: "name = c # cs" "is_ascii_alphabetic c" "list_all is_name_char cs" using shape [OF name] by blast
    show ?thesis by (rule reads_named_call [OF c _ w]) (use call f in simp)
  qed
  show "reads input (Suc k) (recorded (UMinimum l r)) S (w @ format_unbound (UMinimum l r)) (unary_step input unary) (UMinimum l r)"
    using named [OF _ fn(1)] by (simp add: call_text_def)
  show "reads input (Suc k) (recorded (UMaximum l r)) S (w @ format_unbound (UMaximum l r)) (unary_step input unary) (UMaximum l r)"
    using named [OF _ fn(2)] by (simp add: call_text_def)
qed

section \<open>Criteria\<close>

text \<open>A text in quotes, free of quotes and of wide characters.\<close>

definition plain_text :: "string \<Rightarrow> bool" where
  "plain_text s \<longleftrightarrow> list_all (\<lambda>c. byte c < 128 \<and> c \<noteq> CHR 34) s"

lemma string_literal_at:
  assumes "drop (pp_position st) input = s @ CHR 34 # rest" "plain_text s" "length s < fuel"
    "rest = [] \<or> hd rest \<noteq> CHR 34"
  shows "string_literal_loop input fuel acc st = Inr (acc @ s, read_on (length s + 1) 0 st)"
  using assms
proof (induction s arbitrary: fuel acc st)
  case Nil
  then obtain fuel' where fuel: "fuel = Suc fuel'" by (cases fuel) auto
  have p: "peek input st = Some (CHR 34)" using peek_at [OF Nil.prems(1)] by simp
  have d: "drop (pp_position (advance 1 st)) input = rest"
    using drop_read_on [of "pp_position st" input "[CHR 34]"] Nil.prems(1) by simp
  have "peek input (advance 1 st) \<noteq> Some (CHR 34)" using peek_at [OF d] Nil.prems(4) by (cases rest) auto
  then show ?case by (simp add: fuel p)
next
  case (Cons c s)
  then obtain fuel' where fuel: "fuel = Suc fuel'" "length s < fuel'" by (cases fuel) auto
  have p: "peek input st = Some c" using peek_at [OF Cons.prems(1)] by simp
  have c: "c \<noteq> CHR 34" "char_len c = 1" using Cons.prems(2) by (auto simp: plain_text_def char_len_def)
  have d: "drop (pp_position (read_on 1 0 st)) input = s @ CHR 34 # rest"
    using drop_read_on [of "pp_position st" input "[c]"] Cons.prems(1) by simp
  have "slice input (pp_position st) (pp_position st + 1) = [c]"
    using Cons.prems(1) by (simp add: slice_def)
  then have "string_literal_loop input fuel acc st = string_literal_loop input fuel' (acc @ [c]) (read_on 1 0 st)"
    using p c by (simp add: fuel)
  also have "\<dots> = Inr ((acc @ [c]) @ s, read_on (length s + 1) 0 (read_on 1 0 st))"
    by (rule Cons.IH [OF d]) (use Cons.prems fuel in \<open>simp_all add: plain_text_def\<close>)
  finally show ?case by simp
qed

lemma reads_criterion_literal:
  assumes s: "plain_text s" "criterion_parse s = Inr test"
    and parts: "is_blank_test test \<and> v = None \<or>
      \<not> is_blank_test test \<and> (\<exists>x n. number_operand test = Some x \<and> number_new x = Some n \<and> v = Some (UNumber n))"
  shows "reads input k 0 closed (CHR 34 # s @ [CHR 34]) (parse_criterion_literal input) (ct_operator test, v)"
proof (rule readsI)
  fix st :: parser_state and rest
  assume at: "drop (pp_position st) input = (CHR 34 # s @ [CHR 34]) @ rest" "closed rest"
    "length (CHR 34 # s @ [CHR 34]) \<le> length input"
  have d: "drop (pp_position (advance 1 st)) input = s @ CHR 34 # rest"
    using drop_read_on [of "pp_position st" input "[CHR 34]"] at(1) by simp
  have "string_literal_loop input (Suc (length input)) [] (advance 1 st) = Inr ([] @ s, read_on (length s + 1) 0 (advance 1 st))"
    by (rule string_literal_at [OF d s(1)]) (use at in \<open>auto simp: closed_def\<close>)
  then show "parse_criterion_literal input st = Inr ((ct_operator test, v), read_on (length (CHR 34 # s @ [CHR 34])) 0 st)"
    using parts s(2) by (auto simp: parse_criterion_literal_def Let_def)
qed

lemma literal_chars:
  assumes "literal_of x s"
  shows "plain_text s"
proof -
  have "plain_text t" if "list_all is_ascii_digit t" for t
    using that by (auto simp: plain_text_def list_all_iff is_ascii_digit_def byte_def)
  moreover have "plain_text (CHR ''.'' # t) = plain_text t" "plain_text (CHR ''e'' # t) = plain_text t"
    "plain_text (CHR ''-'' # t) = plain_text t" "plain_text (t @ u) \<longleftrightarrow> plain_text t \<and> plain_text u" "plain_text []" for t u
    by (auto simp: plain_text_def byte_def)
  ultimately show ?thesis using assms by (auto simp: literal_of_def is_literal_def)
qed

lemma format_number_plain: "number_ok n \<Longrightarrow> plain_text (format_number n)"
  by (rule format_number_literal [of n]) (auto dest: literal_chars simp: plain_text_def byte_def)

lemma criterion_parse_number:
  assumes n: "number_ok n" and p: "p \<noteq> CmpEqual"
  shows "\<exists>x. number_new x = Some n \<and>
    criterion_parse (comparison_as_str p @ format_number n) = Inr \<lparr>ct_operator = p, ct_operand = OpNumber x, ct_text = format_number n\<rparr>"
proof -
  obtain x where x: "parse_f64 (format_number n) = Some x" "number_new x = Some n"
    using format_number_parses [OF n] by (auto simp: bind_eq_Some_conv)
  obtain c s where c: "format_number n = c # s" "is_ascii_digit c \<or> c = CHR ''-''" using format_number_first [OF n] .
  have cell: "parse_number_cell (format_number n) = Some x"
    using x c by (auto simp: parse_number_cell_def number_new_def split: if_splits)
  have split: "split_operator (comparison_as_str p @ format_number n) = (p, format_number n)"
  proof -
    have "c \<noteq> CHR ''='' \<and> c \<noteq> CHR ''>''" using c(2) by (auto simp: is_ascii_digit_def byte_def)
    then show ?thesis using p c(1) by (cases p) (simp_all add: split_operator_def strip_prefix_def)
  qed
  show ?thesis using x(2) cell by (simp add: criterion_parse_def split classify_def Let_def)
qed

lemma criterion_parse_blank:
  "criterion_parse [] = Inr (blank_test CmpEqual)" "criterion_parse ''<>'' = Inr (blank_test CmpNotEqual)"
  by (simp_all add: criterion_parse_def split_operator_def strip_prefix_def classify_def parse_number_cell_def
    date_parse_def eq_ignore_ascii_case_def is_relational_def blank_test_def)

definition value_recorded :: "comparison_operator \<Rightarrow> unbound_expression option \<Rightarrow> nat" where
  "value_recorded p v = (case v of None \<Rightarrow> 0 | Some e \<Rightarrow> if p = CmpEqual then recorded e else 0)"

lemma reads_quoted:
  assumes m: "reads input k 0 closed (CHR 34 # s @ [CHR 34]) (parse_criterion_literal input) x" and w: "blank w"
  shows "reads input k 0 closed (w @ CHR 34 # s @ [CHR 34]) (parse_criterion input unary) x"
proof (rule readsI)
  fix st :: parser_state and rest
  assume at: "drop (pp_position st) input = (w @ CHR 34 # s @ [CHR 34]) @ rest" "pp_nodes st + 0 \<le> max_expression_nodes"
    "pp_nesting st + k \<le> max_expression_depth" "closed rest"
  let ?s = "read_on (length w) 0 st"
  have d: "drop (pp_position st) input = w @ (CHR 34 # s @ CHR 34 # rest)" using at(1) by simp
  have skip: "skip_whitespace input st = ?s" by (rule skip_at [OF d w]) (simp add: no_blank_def no_blank_chars)
  have d': "drop (pp_position ?s) input = (CHR 34 # s @ [CHR 34]) @ rest" using drop_read_on [OF d] by simp
  have p: "peek input ?s = Some (CHR 34)" using peek_at [OF d'] by simp
  have "parse_criterion_literal input ?s = Inr (x, read_on (length (CHR 34 # s @ [CHR 34])) 0 ?s)"
    by (rule readsD [OF m d']) (use at in simp_all)
  then show "parse_criterion input unary st = Inr (x, read_on (length (w @ CHR 34 # s @ [CHR 34])) 0 st)"
    by (simp add: parse_criterion_def skip p)
qed

lemma reads_criterion_expression:
  assumes e: "writable e" "reads_operand input k unary e" and w: "blank w"
  shows "reads input k (recorded e) closed (w @ format_unbound e) (parse_criterion input unary) (CmpEqual, Some e)"
proof (rule readsI)
  fix st :: parser_state and rest
  assume at: "drop (pp_position st) input = (w @ format_unbound e) @ rest" "pp_nodes st + recorded e \<le> max_expression_nodes"
    "pp_nesting st + k \<le> max_expression_depth" "closed rest"
  obtain c s where c: "format_unbound e = c # s" "\<not> is_ascii_whitespace c" "c \<notin> {CHR '')'', CHR 34, CHR '',''}"
    using format_first [OF e(1)] .
  let ?s = "read_on (length w) 0 st"
  have d: "drop (pp_position st) input = w @ (format_unbound e @ rest)" using at(1) by simp
  have skip: "skip_whitespace input st = ?s" by (rule skip_at [OF d w]) (simp add: no_blank_def c)
  have d': "drop (pp_position ?s) input = (([] @ format_unbound e) @ []) @ rest" using drop_read_on [OF d] by simp
  have p: "peek input ?s \<noteq> Some (CHR 34)" using peek_at [OF d'] c by simp
  have "parse_additive input unary ?s = Inr (e, read_on (length (([] @ format_unbound e) @ [])) (recorded e) ?s)"
    by (rule readsD [OF additive_operand [OF reads_operandD [OF e(2) blank_space(2) order_refl] blank_space(2)] d'])
      (use at closed_ends [OF at(4)] ends_quiet(5) in simp_all)
  then show "parse_criterion input unary st = Inr ((CmpEqual, Some e), read_on (length (w @ format_unbound e)) (recorded e) st)"
    using p by (simp add: parse_criterion_def skip p_bind_def p_return_def)
qed

lemma reads_criterion:
  assumes ok: "criterion_writable (UCriterion column p v)"
    and e: "\<And>e. v = Some e \<Longrightarrow> p = CmpEqual \<Longrightarrow> reads_operand input k unary e" and w: "blank w"
  shows "reads input k (value_recorded p v) closed (w @ format_criterion (UCriterion column p v)) (parse_criterion input unary) (p, v)"
proof (cases v)
  case None
  let ?s = "if p = CmpEqual then [] else ''<>''"
  have test: "criterion_parse ?s = Inr (blank_test p)" "plain_text ?s"
    using ok None criterion_parse_blank by (auto simp: plain_text_def byte_def)
  have "reads input k 0 closed (CHR 34 # ?s @ [CHR 34]) (parse_criterion_literal input) (ct_operator (blank_test p), v)"
    by (rule reads_criterion_literal [OF test(2,1)]) (simp add: None is_blank_test_def blank_test_def)
  from reads_quoted [OF this w] show ?thesis
    by (auto simp: None value_recorded_def format_string_literal_def blank_test_def)
next
  case (Some x)
  show ?thesis
  proof (cases "p = CmpEqual")
    case True
    then show ?thesis using reads_criterion_expression [OF _ e w, of x] ok Some by (simp add: value_recorded_def)
  next
    case False
    then obtain n where n: "x = UNumber n" "number_ok n"
      using ok Some by (auto simp: is_number_literal_def split: unbound_expression.splits)
    obtain y where y: "number_new y = Some n" "criterion_parse (comparison_as_str p @ format_number n) =
        Inr \<lparr>ct_operator = p, ct_operand = OpNumber y, ct_text = format_number n\<rparr>"
      using criterion_parse_number [OF n(2) False] by blast
    have plain: "plain_text (comparison_as_str p @ format_number n)"
      using format_number_plain [OF n(2)] by (cases p) (simp_all add: plain_text_def byte_def)
    let ?test = "\<lparr>ct_operator = p, ct_operand = OpNumber y, ct_text = format_number n\<rparr>"
    have "reads input k 0 closed (CHR 34 # (comparison_as_str p @ format_number n) @ [CHR 34])
        (parse_criterion_literal input) (ct_operator ?test, v)"
      by (rule reads_criterion_literal [OF plain y(2)]) (simp add: Some n y(1) is_blank_test_def number_operand_def)
    from reads_quoted [OF this w] show ?thesis
      using False by (simp add: Some n value_recorded_def format_string_literal_def)
  qed
qed

definition criterion_text :: "unbound_criterion \<Rightarrow> string" where
  "criterion_text c = format_column (uc_column c) @ '', '' @ format_criterion c"

definition reads_values :: "string \<Rightarrow> nat \<Rightarrow> unbound_expression parser \<Rightarrow> unbound_criterion \<Rightarrow> bool" where
  "reads_values input k unary c \<longleftrightarrow>
     (\<forall>e. uc_value c = Some e \<longrightarrow> uc_operator c = CmpEqual \<longrightarrow> reads_operand input k unary e)"

lemma reads_comma:
  assumes "reads input k n S t m x"
  shows "reads input k n S (CHR '','' # t) (p_bind (p_expect input (CHR '','') message) (\<lambda>u. m)) x"
proof -
  have "reads input k (0 + n) S ('','' @ t) (p_bind (p_expect input (CHR '','') message) (\<lambda>u. m)) x"
    by (rule reads_bind [OF reads_expect [OF no_blank_chars(1), where k = k and S = "\<lambda>rest. True"] assms]) simp_all
  then show ?thesis by simp
qed

lemma reads_after_column:
  assumes "column_writable column" "blank w"
  shows "reads input k 1 S (w @ format_column column @ '','') (after_column_argument input message) column"
proof -
  have "reads input k (1 + 0) S ((w @ format_column column) @ '','') (after_column_argument input message) column"
    unfolding after_column_argument_def
    by (rule reads_bind [OF reads_column [OF assms, where k = k and S = "\<lambda>rest. True"] reads_comma [OF reads_return [where k = k]]])
      simp_all
  then show ?thesis by simp
qed

lemma reads_column_criterion:
  assumes ok: "criterion_writable c" and e: "reads_values input k unary c" and w: "blank w"
  shows "reads input k (criterion_recorded c) closed (w @ criterion_text c) (parse_column_criterion input unary) c"
proof -
  obtain column p v where c: "c = UCriterion column p v" by (cases c)
  have column: "column_writable column" using ok c by simp
  have "reads input k (value_recorded p v) closed ('' '' @ format_criterion c) (parse_criterion input unary) (p, v)"
    unfolding c by (rule reads_criterion) (use ok e blank_space c in \<open>simp_all add: reads_values_def\<close>)
  then have criterion: "reads input k (value_recorded p v + 0) closed (('' '' @ format_criterion c) @ [])
      (p_bind (parse_criterion input unary) (\<lambda>(p, v). p_return (UCriterion column p v))) c"
    by (rule reads_bind [where k = k and ?k2.0 = k]) (simp_all add: c reads_return)
  have "reads input k (1 + (value_recorded p v + 0)) closed ((w @ format_column column @ '','') @ (('' '' @ format_criterion c) @ []))
      (parse_column_criterion input unary) c"
    unfolding parse_column_criterion_def
    by (rule reads_bind [OF reads_after_column [OF column w, where k = k and S = "\<lambda>rest. True"]], rule criterion) simp_all
  then show ?thesis by (simp add: c criterion_text_def value_recorded_def)
qed

lemma criteria_loop_reads:
  assumes "\<forall>c\<in>set cs. criterion_writable c \<and> reads_values input k unary c"
    "cs \<noteq> []" "length cs \<le> fuel" "blank w" "length acc + length cs \<le> max_conditional_criteria"
  shows "reads input k (sum_list (map criterion_recorded cs)) close_follows (w @ join_arguments (map criterion_text cs))
    (criteria_loop input unary fuel acc) (acc @ cs)"
  using assms
proof (induction cs arbitrary: acc fuel w)
  case (Cons c cs)
  then obtain fuel' where fuel: "fuel = Suc fuel'" by (cases fuel) auto
  have c: "reads input k (criterion_recorded c) closed (w @ criterion_text c) (parse_column_criterion input unary) c"
    by (rule reads_column_criterion) (use Cons.prems in simp_all)
  have step: "criteria_loop input unary fuel acc = p_bind (parse_column_criterion input unary) (\<lambda>c st.
      let st = skip_whitespace input st in
      if peek input st = Some (CHR '','') then criteria_loop input unary fuel' (acc @ [c]) (advance 1 st)
      else Inr (acc @ [c], st))"
    using Cons.prems(5) by (simp add: fuel fun_eq_iff Let_def)
  have close: "close_follows rest \<Longrightarrow> closed rest" for rest by (auto simp: close_follows_def closed_def)
  show ?case
  proof (cases "cs = []")
    case True
    have "reads input k (criterion_recorded c + 0) close_follows ((w @ criterion_text c) @ [])
        (criteria_loop input unary fuel acc) (acc @ [c])"
      unfolding step by (rule reads_bind [OF c reads_no_more [where k = k]]) (simp_all add: close)
    then show ?thesis using True by simp
  next
    case False
    have "reads input k (sum_list (map criterion_recorded cs)) close_follows ('' '' @ join_arguments (map criterion_text cs))
        (criteria_loop input unary fuel' (acc @ [c])) ((acc @ [c]) @ cs)"
      by (rule Cons.IH) (use Cons.prems False fuel blank_space in simp_all)
    note more = reads_one_more [OF this]
    have "reads input k (criterion_recorded c + sum_list (map criterion_recorded cs)) close_follows
        ((w @ criterion_text c) @ CHR '','' # '' '' @ join_arguments (map criterion_text cs))
        (criteria_loop input unary fuel acc) ((acc @ [c]) @ cs)"
      unfolding step by (rule reads_bind [OF c], rule more) (simp_all add: closed_def)
    then show ?thesis using join_Cons [of "map criterion_text cs"] False by simp
  qed
qed simp

lemma join_criteria:
  "join_arguments (concat (map (\<lambda>c. [format_column (uc_column c), format_criterion c]) cs)) = join_arguments (map criterion_text cs)"
proof (induction cs)
  case (Cons c cs)
  then show ?case
    using join_Cons [of "concat (map (\<lambda>c. [format_column (uc_column c), format_criterion c]) cs)" "format_criterion c"]
      join_Cons [of "map criterion_text cs" "criterion_text c"]
    by (cases cs) (simp_all add: criterion_text_def)
qed simp

text \<open>The canonical text of a conditional aggregate, its value column first where it has one.\<close>

lemma conditional_text:
  assumes "criteria \<noteq> []"
  shows "format_unbound (UColumnConditional a criteria) =
    conditional_name a @ CHR ''('' #
    concat (map (\<lambda>c. format_column c @ '', '') (conditional_values a)) @ join_arguments (map criterion_text criteria) @ '')''"
proof -
  have "concat (map (\<lambda>c. [format_column (uc_column c), format_criterion c]) criteria) \<noteq> []" using assms by (cases criteria) auto
  then show ?thesis
    using join_Cons [of "concat (map (\<lambda>c. [format_column (uc_column c), format_criterion c]) criteria)"]
    by (cases a) (simp_all add: call_text_def conditional_values_def join_criteria)
qed

lemma conditional_names:
  "conditional_name a \<in> plural_names" "ends_with ''S'' (conditional_name a)"
  "starts_with ''COUNT'' (conditional_name a) \<longleftrightarrow> conditional_values a = []"
  "(\<lambda>st. conditional_node (conditional_name a) (case conditional_values a of [] \<Rightarrow> None | c # cs \<Rightarrow> Some c) criteria st) =
   p_return (UColumnConditional a criteria)"
  by (cases a; simp add: conditional_name_def plural_names_def ends_with_def starts_with_def conditional_values_def
    conditional_node_def fun_eq_iff)+

lemma function_call_conditional:
  assumes "name \<in> plural_names"
  shows "function_call input unary p name = parse_conditional_function input unary p name"
proof -
  have "name \<notin> {''IF'', ''AND'', ''OR'', ''NOT'', ''ROUND'', ''ISBLANK''}"
    "name \<in> {''SUMIF'', ''SUMIFS'', ''AVERAGEIF'', ''AVERAGEIFS'', ''COUNTIF'', ''COUNTIFS''}"
    using assms by (auto simp: plural_names_def)
  then show ?thesis using upper_names(1) [of name] assms by (simp add: function_call_def Let_def del: insert_iff)
qed

definition value_column :: "unbound_aggregate \<Rightarrow> column_address option" where
  "value_column a = (case conditional_values a of [] \<Rightarrow> None | c # cs \<Rightarrow> Some c)"

lemma value_column_cases:
  obtains "conditional_values a = []" "value_column a = None"
  | c where "conditional_values a = [c]" "value_column a = Some c"
  by (cases a) (simp_all add: value_column_def conditional_values_def)

definition conditional_arguments_text :: "unbound_aggregate \<Rightarrow> unbound_criterion list \<Rightarrow> string" where
  "conditional_arguments_text a criteria =
     concat (map (\<lambda>c. format_column c @ '', '') (conditional_values a)) @ join_arguments (map criterion_text criteria) @ '')''"

lemma reads_plural:
  assumes columns: "list_all column_writable (conditional_values a)"
    and criteria: "\<forall>c\<in>set criteria. criterion_writable c \<and> reads_values input k unary c" "criteria \<noteq> []"
      "length criteria \<le> max_conditional_criteria"
  shows "reads input k (length (conditional_values a) + sum_list (map criterion_recorded criteria)) S
    (conditional_arguments_text a criteria) (parse_plural_arguments input unary (conditional_name a)) (UColumnConditional a criteria)"
proof (rule reads_within_input)
  assume "length (conditional_arguments_text a criteria) \<le> length input"
  then have fuel: "length criteria \<le> Suc (length input)"
    using join_length [of "map criterion_text criteria"] by (simp add: conditional_arguments_text_def)
  let ?n = "sum_list (map criterion_recorded criteria)" and ?name = "conditional_name a"
  let ?node = "\<lambda>column criteria. p_bind (p_expect input (CHR '')'') close_message) (\<lambda>u. conditional_node ?name column criteria)"
  let ?rest = "\<lambda>column. p_bind (criteria_loop input unary (Suc (length input)) []) (?node column)"
  have build: "conditional_node ?name (value_column a) criteria = p_return (UColumnConditional a criteria)"
    using conditional_names(4) [of a criteria] by (simp add: value_column_def)
  have rest: "reads input k (?n + 0) S ((w @ join_arguments (map criterion_text criteria)) @ '')'') (?rest (value_column a))
      (UColumnConditional a criteria)" if "blank w" for w
  proof -
    have loop: "reads input k ?n close_follows (w @ join_arguments (map criterion_text criteria))
        (criteria_loop input unary (Suc (length input)) []) criteria"
      using criteria_loop_reads [OF criteria(1,2) fuel that, of "[]"] criteria(3) by simp
    have close: "reads input k 0 S '')'' (?node (value_column a) criteria) (UColumnConditional a criteria)"
      unfolding build by (rule reads_close [OF no_blank_chars(2)])
    show ?thesis by (rule reads_bind [OF loop], rule close) (simp_all add: close_follows_def)
  qed
  show "reads input k (length (conditional_values a) + ?n) S (conditional_arguments_text a criteria)
      (parse_plural_arguments input unary ?name) (UColumnConditional a criteria)"
  proof (cases rule: value_column_cases [of a])
    case 1
    have start: "starts_with ''COUNT'' ?name" using 1 conditional_names(3) by simp
    have rest': "reads input k (?n + 0) S (([] @ join_arguments (map criterion_text criteria)) @ '')'') (?rest None) (UColumnConditional a criteria)"
      using rest [OF blank_space(2)] 1 by simp
    have "reads input k (0 + (?n + 0)) S ([] @ ([] @ join_arguments (map criterion_text criteria)) @ '')'')
        (parse_plural_arguments input unary ?name) (UColumnConditional a criteria)"
      unfolding parse_plural_arguments_def if_P [OF start]
      by (rule reads_bind [OF reads_return [where k = k and S = "\<lambda>rest. True"]], rule rest') simp_all
    then show ?thesis using 1 by (simp add: conditional_arguments_text_def)
  next
    case (2 c)
    have start: "\<not> starts_with ''COUNT'' ?name" using 2 conditional_names(3) by simp
    have c: "column_writable c" using columns 2 by simp
    have column: "reads input k (1 + 0) S' (([] @ format_column c @ '','') @ [])
        (p_bind (after_column_argument input message) (\<lambda>column. p_return (Some column))) (Some c)" for S' message
      by (rule reads_bind [OF reads_after_column [OF c blank_space(2), where k = k and S = "\<lambda>rest. True"] reads_return [where k = k]])
        simp_all
    have rest': "reads input k (?n + 0) S (('' '' @ join_arguments (map criterion_text criteria)) @ '')'') (?rest (Some c)) (UColumnConditional a criteria)"
      using rest [OF blank_space(1)] 2 by simp
    have "reads input k ((1 + 0) + (?n + 0)) S ((([] @ format_column c @ '','') @ []) @ ('' '' @ join_arguments (map criterion_text criteria)) @ '')'')
        (parse_plural_arguments input unary ?name) (UColumnConditional a criteria)"
      unfolding parse_plural_arguments_def if_not_P [OF start]
      by (rule reads_bind [OF column [of "\<lambda>rest. True"]], rule rest') simp_all
    then show ?thesis using 2 by (simp add: conditional_arguments_text_def)
  qed
qed

lemma conditional_arguments_first:
  assumes "criteria \<noteq> []"
  obtains s where "conditional_arguments_text a criteria = CHR ''['' # s"
proof -
  obtain c cs where c: "criteria = c # cs" using assms by (cases criteria) auto
  have "\<exists>s. join_arguments (map criterion_text criteria) = CHR ''['' # s"
    using join_Cons [of "map criterion_text cs" "criterion_text c"] c
    by (cases "cs = []") (simp_all add: criterion_text_def format_column_def)
  then show ?thesis
    using that by (cases rule: value_column_cases [of a]) (auto simp: conditional_arguments_text_def format_column_def)
qed

lemma reads_conditional:
  assumes columns: "list_all column_writable (conditional_values a)"
    and criteria: "\<forall>c\<in>set criteria. criterion_writable c \<and> reads_values input k unary c" "criteria \<noteq> []"
      "length criteria \<le> max_conditional_criteria" and w: "blank w"
  shows "reads input (Suc k) (recorded (UColumnConditional a criteria)) S
    (w @ format_unbound (UColumnConditional a criteria)) (unary_step input unary) (UColumnConditional a criteria)"
proof -
  let ?n = "length (conditional_values a) + sum_list (map criterion_recorded criteria)" and ?t = "conditional_arguments_text a criteria"
  let ?name = "conditional_name a"
  obtain s where s: "?t = CHR ''['' # s" using conditional_arguments_first [OF criteria(2)] .
  have args: "reads input k ?n S ?t (parse_conditional_arguments input unary ?name) (UColumnConditional a criteria)"
  proof (rule readsI)
    fix st :: parser_state and rest
    assume at: "drop (pp_position st) input = ?t @ rest" "pp_nodes st + ?n \<le> max_expression_nodes"
      "pp_nesting st + k \<le> max_expression_depth" "S rest"
    have skip: "skip_whitespace input st = st"
      using skip_at [of st input "[]"] at(1) s by (simp add: blank_def no_blank_def no_blank_chars)
    have p: "peek input st = Some (CHR ''['')" using peek_at [OF at(1)] s by simp
    have "parse_plural_arguments input unary ?name st = Inr (UColumnConditional a criteria, read_on (length ?t) ?n st)"
      by (rule readsD [OF reads_plural [OF columns criteria, where S = S]]) (rule at)+
    then show "parse_conditional_arguments input unary ?name st = Inr (UColumnConditional a criteria, read_on (length ?t) ?n st)"
      by (simp add: parse_conditional_arguments_def skip p conditional_names(2))
  qed
  have call: "reads input (Suc k) (Suc ?n) S (CHR ''('' # ?t) (function_call input unary p ?name) (UColumnConditional a criteria)" for p
    unfolding function_call_conditional [OF conditional_names(1)] parse_conditional_function_def by (rule reads_call [OF args])
  have "\<exists>c cs. ?name = c # cs \<and> is_ascii_alphabetic c \<and> list_all is_name_char cs"
    by (rule name_shape) (simp add: conditional_names(1))
  then obtain c cs where c: "?name = c # cs" "is_ascii_alphabetic c" "list_all is_name_char cs" by blast
  have "reads input (Suc k) (Suc ?n) S (w @ ?name @ CHR ''('' # ?t) (unary_step input unary) (UColumnConditional a criteria)"
    by (rule reads_named_call [OF c call w])
  then show ?thesis using conditional_text [OF criteria(2), of a] by (simp add: conditional_arguments_text_def)
qed

section \<open>Every expression\<close>

lemma negate_abs:
  assumes n: "number_ok n" and sign: "f64_sign (number_get n)"
  shows "number_new (f64_neg (f64_abs (number_get n))) = Some n"
proof -
  let ?x = "number_get n"
  have parts: "f64_mag (f64_abs ?x) = f64_mag ?x" "\<not> f64_sign (f64_abs ?x)"
    using f64_make_parts [OF f64_mag_less, of False ?x] by (simp_all add: f64_abs_def)
  have "f64_neg (f64_abs ?x) = ?x"
    using parts sign f64_make_parts [OF f64_mag_less, of "\<not> f64_sign (f64_abs ?x)" "f64_abs ?x"]
    by (intro f64_eqI) (simp_all add: f64_neg_def)
  then show ?thesis using number_new_get [OF n] by simp
qed

lemma reads_number_text:
  assumes n: "number_ok n" and depth: "nest (UNumber n) \<le> m" and w: "blank w"
  shows "reads input (nest (UNumber n)) 1 stop_number (w @ format_unbound (UNumber n)) (parse_unary input (Suc m)) (UNumber n)"
proof -
  let ?x = "number_get n"
  obtain s where s: "format_number n = (if f64_sign ?x then CHR ''-'' # s else s)" "literal_of ?x s"
    using format_number_literal [OF n] .
  show ?thesis
  proof (cases "f64_sign ?x")
    case True
    then obtain m' where m: "m = Suc m'" using depth by (cases m) auto
    have "reads input 0 1 stop_number ([] @ s) (parse_unary input m) (UNumber (Number (f64_abs ?x)))"
      unfolding m by (simp only: parse_unary.simps reads_literal [OF s(2) blank_space(2)])
    from reads_negative [OF this w negate_abs [OF n True]] show ?thesis using True s(1) by simp
  next
    case False
    have "f64_mag (f64_abs ?x) = f64_mag ?x" "\<not> f64_sign (f64_abs ?x)"
      using f64_make_parts [OF f64_mag_less, of False ?x] by (simp_all add: f64_abs_def)
    then have "f64_abs ?x = ?x" using False by (intro f64_eqI) simp_all
    then have "UNumber (Number (f64_abs ?x)) = UNumber n" by (cases n) simp
    then show ?thesis using reads_literal [OF s(2) w, of input "parse_unary input m"] False s(1) by simp
  qed
qed

lemma reads_bracketed:
  assumes "reads input k c S (format_unbound e) (parse_reference input) e" "format_unbound e = CHR ''['' # s" "blank w"
  shows "reads input k c S (w @ format_unbound e) (unary_step input unary) e"
proof -
  have "operand_parser input unary (CHR ''['') = parse_reference input"
    by (simp add: operand_parser_def is_ascii_digit_def byte_def)
  then have "reads input k c S (CHR ''['' # s) (operand_parser input unary (CHR ''['')) e" using assms(1,2) by simp
  then show ?thesis
    unfolding assms(2) by (rule reads_unary_step) (simp_all add: no_blank_chars is_sign_def assms(3))
qed

lemma reads_group:
  assumes "reads input k c closed t (parse_comparison input unary) e" "format_unbound e = CHR ''('' # t @ '')''" "blank w"
  shows "reads input (Suc k) c S (w @ format_unbound e) (unary_step input unary) e"
proof -
  have "operand_parser input unary (CHR ''('') = parse_parenthesized input unary"
    by (simp add: operand_parser_def is_ascii_digit_def byte_def)
  then have "reads input (Suc k) c S (CHR ''('' # t @ '')'') (operand_parser input unary (CHR ''('')) e"
    using reads_parenthesized [OF assms(1)] by simp
  then show ?thesis
    unfolding assms(2) by (rule reads_unary_step) (simp_all add: no_blank_chars is_sign_def assms(3))
qed

lemma reads_operand_mono: "reads_operand input k unary e \<Longrightarrow> k \<le> k' \<Longrightarrow> reads_operand input k' unary e"
  unfolding reads_operand_def using reads_operandD [of input k unary e] by (simp add: reads_operand_def)

lemma foldr_max: "x \<in> set xs \<Longrightarrow> f x \<le> foldr max (map f xs) (0 :: nat)"
  by (induction xs) (auto simp: le_max_iff_disj)

lemma canonical_read:
  "writable e \<Longrightarrow> nest e < n \<Longrightarrow> reads_operand input (nest e) (parse_unary input n) e"
proof (induction e arbitrary: n rule: unbound_induct)
  case (node e)
  obtain m where n: "n = Suc m" using node.prems(2) by (cases n) auto
  let ?u = "parse_unary input m"
  have child: "reads_operand input k ?u c" if "c \<in> set (unbound_children e)" "writable c" "nest c \<le> k" "Suc k \<le> nest e" for c k
    by (rule reads_operand_mono [OF node.IH [OF that(1,2)] that(3)]) (use that node.prems(2) n in simp)
  have "reads input (nest e) (recorded e) stop_number (w @ format_unbound e) (parse_unary input (Suc m)) e" if w: "blank w" for w
  proof (cases e)
    case (UNumber x)
    then show ?thesis using reads_number_text [of x m w input] node.prems n w by simp
  next
    case (UReference r)
    have "reads input (nest e) 1 stop_number (format_unbound e) (parse_reference input) e"
      by (rule reads_reference_text) (use node.prems UReference in auto)
    from reads_bracketed [OF this _ w] show ?thesis by (simp add: UReference)
  next
    case (USameRowReference f)
    have "reads input (nest e) 1 stop_number (format_unbound e) (parse_reference input) e"
      unfolding USameRowReference by (rule reads_same_row) (use node.prems USameRowReference in simp)
    from reads_bracketed [OF this _ w] show ?thesis by (simp add: USameRowReference)
  next
    case (UColumnTotal c)
    have "reads input (nest e) 1 stop_number (format_unbound e) (parse_reference input) e"
      by (rule reads_reference_text) (use node.prems UColumnTotal in auto)
    from reads_bracketed [OF this _ w] show ?thesis by (simp add: UColumnTotal)
  next
    case (UColumnAggregate g c)
    have "reads input (nest e) 1 stop_number (format_unbound e) (parse_reference input) e"
      by (rule reads_reference_text) (use node.prems UColumnAggregate in auto)
    from reads_bracketed [OF this _ w] show ?thesis by (simp add: UColumnAggregate)
  next
    case (UColumnConditional a criteria)
    let ?k = "foldr max (map criterion_nest criteria) 0"
    have values_read: "reads_values input ?k ?u c" if c: "c \<in> set criteria" for c
      unfolding reads_values_def
    proof (intro allI impI)
      fix x assume x: "uc_value c = Some x" "uc_operator c = CmpEqual"
      have "criterion_nest c = nest x" using x by (cases c) simp
      then have "nest x \<le> ?k" using foldr_max [OF c, of criterion_nest] by simp
      moreover have "writable x"
        using x c node.prems(1) UColumnConditional by (cases c) (auto simp: list_all_iff)
      ultimately show "reads_operand input ?k ?u x"
        using child [of x ?k] x c UColumnConditional by (auto simp: in_criterion_list)
    qed
    show ?thesis
      unfolding UColumnConditional parse_unary.simps nest.simps
      by (rule reads_conditional) (use node.prems(1) UColumnConditional values_read w in \<open>auto simp: list_all_iff\<close>)
  next
    case (UAdd l r)
    let ?k = "max (nest l) (nest r)"
    have c: "reads_operand input ?k ?u l" "reads_operand input ?k ?u r" using child node.prems UAdd by simp_all
    show ?thesis unfolding UAdd parse_unary.simps nest.simps
      by (rule reads_group [OF reads_binary(1) [OF c] _ w]) (simp add: binary_text_def)
  next
    case (USubtract l r)
    let ?k = "max (nest l) (nest r)"
    have c: "reads_operand input ?k ?u l" "reads_operand input ?k ?u r" using child node.prems USubtract by simp_all
    show ?thesis unfolding USubtract parse_unary.simps nest.simps
      by (rule reads_group [OF reads_binary(2) [OF c] _ w]) (simp add: binary_text_def)
  next
    case (UMultiply l r)
    let ?k = "max (nest l) (nest r)"
    have c: "reads_operand input ?k ?u l" "reads_operand input ?k ?u r" using child node.prems UMultiply by simp_all
    show ?thesis unfolding UMultiply parse_unary.simps nest.simps
      by (rule reads_group [OF reads_binary(3) [OF c] _ w]) (simp add: binary_text_def)
  next
    case (UDivide l r)
    let ?k = "max (nest l) (nest r)"
    have c: "reads_operand input ?k ?u l" "reads_operand input ?k ?u r" using child node.prems UDivide by simp_all
    show ?thesis unfolding UDivide parse_unary.simps nest.simps
      by (rule reads_group [OF reads_binary(4) [OF c] _ w]) (simp add: binary_text_def)
  next
    case (UCompare p l r)
    let ?k = "max (nest l) (nest r)"
    have c: "reads_operand input ?k ?u l" "reads_operand input ?k ?u r" using child node.prems UCompare by simp_all
    show ?thesis unfolding UCompare parse_unary.simps nest.simps
      by (rule reads_group [OF reads_binary(5) [OF c] _ w]) (simp add: binary_text_def)
  next
    case (UMinimum l r)
    let ?k = "max (nest l) (nest r)"
    have c: "reads_operand input ?k ?u l" "reads_operand input ?k ?u r" using child node.prems UMinimum by simp_all
    show ?thesis unfolding UMinimum parse_unary.simps nest.simps by (rule reads_extreme(1) [OF c w])
  next
    case (UMaximum l r)
    let ?k = "max (nest l) (nest r)"
    have c: "reads_operand input ?k ?u l" "reads_operand input ?k ?u r" using child node.prems UMaximum by simp_all
    show ?thesis unfolding UMaximum parse_unary.simps nest.simps by (rule reads_extreme(2) [OF c w])
  next
    case (UIf c t x)
    let ?k = "max (nest c) (max (nest t) (nest x))"
    have "\<forall>y\<in>set [c, t, x]. writable y \<and> reads_operand input ?k ?u y" using child node.prems UIf by simp
    from reads_extended [OF _ this _ _ w, where name = "''IF''" and e = e and S = stop_number] show ?thesis
      by (simp add: UIf extended_node_def extended_names_def add.assoc)
  next
    case (UAnd xs)
    let ?k = "foldr max (map nest xs) 0"
    have "\<forall>y\<in>set xs. writable y \<and> reads_operand input ?k ?u y"
      using child node.prems UAnd foldr_max [of _ xs nest] by (simp add: list_all_iff)
    from reads_extended [OF _ this _ _ w, where name = "''AND''" and e = e and S = stop_number] show ?thesis
      using node.prems by (simp add: UAnd extended_node_def extended_names_def)
  next
    case (UOr xs)
    let ?k = "foldr max (map nest xs) 0"
    have "\<forall>y\<in>set xs. writable y \<and> reads_operand input ?k ?u y"
      using child node.prems UOr foldr_max [of _ xs nest] by (simp add: list_all_iff)
    from reads_extended [OF _ this _ _ w, where name = "''OR''" and e = e and S = stop_number] show ?thesis
      using node.prems by (simp add: UOr extended_node_def extended_names_def)
  next
    case (UNot v)
    have "\<forall>y\<in>set [v]. writable y \<and> reads_operand input (nest v) ?u y" using child node.prems UNot by simp
    from reads_extended [OF _ this _ _ w, where name = "''NOT''" and e = e and S = stop_number] show ?thesis
      by (simp add: UNot extended_node_def extended_names_def)
  next
    case (URound v d)
    let ?k = "max (nest v) (nest d)"
    have "\<forall>y\<in>set [v, d]. writable y \<and> reads_operand input ?k ?u y" using child node.prems URound by simp
    from reads_extended [OF _ this _ _ w, where name = "''ROUND''" and e = e and S = stop_number] show ?thesis
      by (simp add: URound extended_node_def extended_names_def)
  next
    case (UIsBlank v)
    have "\<forall>y\<in>set [v]. writable y \<and> reads_operand input (nest v) ?u y" using child node.prems UIsBlank by simp
    from reads_extended [OF _ this _ _ w, where name = "''ISBLANK''" and e = e and S = stop_number] show ?thesis
      by (simp add: UIsBlank extended_node_def extended_names_def)
  qed
  then show ?case unfolding n reads_operand_def by blast
qed

section \<open>The round trip\<close>

lemma structure_loop_depth:
  "unbound_structure_loop stack nodes = Inr () \<Longrightarrow> (e, d) \<in> set stack \<Longrightarrow> d + unbound_depth e \<le> Suc max_expression_depth"
proof (induction stack nodes arbitrary: e d rule: unbound_structure_loop.induct)
  case (2 node depth stack nodes)
  have ok: "depth \<le> max_expression_depth" "unbound_structure_loop (push_children stack node (depth + 1)) (nodes + 1) = Inr ()"
    using "2.prems"(1) by (simp_all add: unbound_structure_loop.simps(2) split: if_splits)
  note IH = "2.IH" [OF _ _ ok(2)]
  have children: "depth + 1 + unbound_depth c \<le> Suc max_expression_depth" if "c \<in> set (unbound_children node)" for c
    by (rule IH) (use ok "2.prems" that in \<open>auto simp: push_children_def unbound_structure_loop.simps(2) split: if_splits\<close>)
  have max: "fold max ns m \<le> n" if "\<forall>x\<in>set ns. x \<le> n" "m \<le> n" for ns m and n :: nat
    using that by (induction ns arbitrary: m) auto
  have "fold max (map unbound_depth (unbound_children node)) 0 \<le> max_expression_depth - depth"
    by (rule max) (use children in fastforce)+
  then have "depth + unbound_depth node \<le> Suc max_expression_depth" using ok(1) unbound_depth.simps [of node] by simp
  moreover have "d + unbound_depth e \<le> Suc max_expression_depth" if "(e, d) \<in> set stack"
    by (rule IH) (use ok "2.prems" that in \<open>auto simp: push_children_def unbound_structure_loop.simps(2) split: if_splits\<close>)
  ultimately show ?case using "2.prems"(2) by auto
qed simp

lemma child_depth: "c \<in> set (unbound_children e) \<Longrightarrow> unbound_depth c < unbound_depth e"
proof -
  have "x \<in> set ns \<Longrightarrow> x \<le> fold max ns m" for x m and ns :: "nat list"
  proof (induction ns arbitrary: m)
    case (Cons n ns)
    have le: "m \<le> fold max ns m" for m :: nat and ns by (induction ns arbitrary: m) (simp, metis fold_simps(2) max.bounded_iff max.cobounded2)
    show ?case using Cons le [of "max n m" ns] by auto
  qed simp
  then show "c \<in> set (unbound_children e) \<Longrightarrow> unbound_depth c < unbound_depth e"
    unfolding unbound_depth.simps [of e] by (simp add: less_Suc_eq_le)
qed

lemma nest_depth: "nest e \<le> unbound_depth e"
proof (induction e rule: unbound_induct)
  case (node e)
  have child: "nest c < unbound_depth e" if "c \<in> set (unbound_children e)" for c
    using node [OF that] child_depth [OF that] by simp
  have pos: "0 < unbound_depth e" using unbound_depth.simps [of e] by simp
  have fold_less: "foldr max ns 0 < n" if "\<forall>x\<in>set ns. x < n" "0 < n" for ns and n :: nat
    using that by (induction ns) auto
  show ?case
  proof (cases e)
    case (UColumnConditional a criteria)
    have "criterion_nest c < unbound_depth e" if "c \<in> set criteria" for c
    proof (cases "uc_value c")
      case None
      then show ?thesis using pos by (cases c) simp
    next
      case (Some x)
      then have "nest x < unbound_depth e" using child [of x] that UColumnConditional by (auto simp: in_criterion_list)
      then show ?thesis using Some pos by (cases c) simp
    qed
    then show ?thesis using fold_less [of "map criterion_nest criteria" "unbound_depth e"] pos UColumnConditional by (simp add: Suc_le_eq)
  next
    case (UAnd xs)
    then show ?thesis using fold_less [of "map nest xs" "unbound_depth e"] child pos by (simp add: Suc_le_eq)
  next
    case (UOr xs)
    then show ?thesis using fold_less [of "map nest xs" "unbound_depth e"] child pos by (simp add: Suc_le_eq)
  qed (use child pos in \<open>simp_all add: Suc_le_eq\<close>)
qed

lemma canonical_parses:
  assumes e: "writable e" "validate_unbound_structure e = Inr ()" "recorded e \<le> max_expression_nodes"
  shows "parse_expression (format_unbound e) = Inr e"
proof -
  let ?input = "format_unbound e"
  have limits: "unbound_structure_loop [(e, 1)] 0 = Inr ()" "length ?input \<le> max_input_bytes"
    using e(2) by (cases "unbound_structure_loop [(e, 1)] 0"; simp add: validate_unbound_structure_def split: if_splits)+
  have depth: "nest e \<le> max_expression_depth"
    using structure_loop_depth [OF limits(1), of e 1] nest_depth [of e] by simp
  obtain c s where c: "?input = c # s" "\<not> is_ascii_whitespace c" using format_first [OF e(1)] by metis
  have at: "drop (pp_position parser_new) ?input = ([] @ ?input) @ []" by (simp add: parser_new_def)
  have skip: "skip_whitespace ?input parser_new = parser_new"
    using skip_at [of parser_new ?input "[]"] at c by (simp add: blank_def no_blank_def)
  have "reads ?input (nest e) (recorded e) closed ([] @ ?input)
      (parse_comparison ?input (parse_unary ?input (max_expression_depth + 2))) e"
    by (rule reads_argument [OF canonical_read [OF e(1)] blank_space(2)]) (use depth in simp)
  from readsD [OF this at]
  have parsed: "parse_comparison ?input (parse_unary ?input (max_expression_depth + 2)) parser_new =
      Inr (e, read_on (length ?input) (recorded e) parser_new)"
    using e(3) depth by (simp add: parser_new_def closed_def)
  have "skip_whitespace ?input (read_on (length ?input) (recorded e) parser_new) = read_on (length ?input) (recorded e) parser_new"
    using skip_at [of "read_on (length ?input) (recorded e) parser_new" ?input "[]" "[]"] by (simp add: parser_new_def blank_def no_blank_def)
  then have "parse_all ?input = Inr e"
    unfolding parse_all_def Let_def skip parsed by (simp add: c(1) is_finished_def parser_new_def)
  then show ?thesis using limits(2) e(2) by (simp add: parse_expression_def)
qed

text \<open>C6. The canonical text of an expression the language can write, within its limits and the nodes
  the parser counts, parses back to that expression.\<close>

theorem canonical_round_trip:
  assumes "writable e" "validate_unbound_structure e = Inr ()" "recorded e \<le> max_expression_nodes"
  shows "parse_expression (format_unbound e) = Inr e"
  by (rule canonical_parses [OF assms])

lemma canonical_round_trip_witness:
  "parse_expression (format_unbound (UAnd [UCompare CmpLess (USameRowReference ''a'') (UReference (FieldAddress ''t'' ''b'')),
       UColumnConditional UCount [UCriterion (ColumnAddress ''t'' ''b'') CmpNotEqual None]])) =
   Inr (UAnd [UCompare CmpLess (USameRowReference ''a'') (UReference (FieldAddress ''t'' ''b'')),
       UColumnConditional UCount [UCriterion (ColumnAddress ''t'' ''b'') CmpNotEqual None]])"
proof (rule canonical_round_trip)
  have ident: "is_valid_identifier ''t''" "is_valid_identifier ''b''" "is_valid_identifier ''a''"
    by (simp_all add: is_valid_identifier_def is_ascii_lowercase_def is_identifier_char_def byte_def)
  let ?e = "UAnd [UCompare CmpLess (USameRowReference ''a'') (UReference (FieldAddress ''t'' ''b'')),
       UColumnConditional UCount [UCriterion (ColumnAddress ''t'' ''b'') CmpNotEqual None]]"
  show "writable ?e"
    using ident by (simp add: column_writable_def conditional_values_def max_conditional_criteria_def)
  show "validate_unbound_structure ?e = Inr ()"
    by (simp add: validate_unbound_structure_def unbound_structure_loop.simps push_children_def List.map_filter_def
      max_expression_depth_def max_expression_nodes_def max_input_bytes_def call_text_def binary_text_def
      conditional_values_def conditional_name_def format_column_def format_string_literal_def)
  show "recorded ?e \<le> max_expression_nodes" by (simp add: conditional_values_def max_expression_nodes_def)
qed

text \<open>C7. What the parser accepts is rendered to a text that it reads as the same expression, if that
  text does not hold more nodes than the parser counts: the canonical spelling of a conditional
  aggregate can have one column more than the spelling that was read.\<close>

theorem parsed_round_trip:
  assumes "parse_expression input = Inr e" "recorded e \<le> max_expression_nodes"
  shows "parse_expression (format_unbound e) = Inr e"
  using parsed_writable [OF assms(1)] assms(2) by (intro canonical_parses) simp_all

lemma loose_text_parses:
  "parse_expression ''if( [.a]<[t.b] , [.a], [t.b:TOTAL])'' =
   Inr (UIf (UCompare CmpLess (USameRowReference ''a'') (UReference (FieldAddress ''t'' ''b'')))
     (USameRowReference ''a'') (UColumnTotal (ColumnAddress ''t'' ''b'')))"
  by code_simp

lemma parsed_round_trip_witness:
  "parse_expression ''IF(([.a] < [t.b]), [.a], [t.b:total])'' =
   Inr (UIf (UCompare CmpLess (USameRowReference ''a'') (UReference (FieldAddress ''t'' ''b'')))
     (USameRowReference ''a'') (UColumnTotal (ColumnAddress ''t'' ''b'')))"
  using parsed_round_trip [OF loose_text_parses]
  by (simp add: max_expression_nodes_def call_text_def binary_text_def)

end
