(* ===== verification/Spec2Isabelle.thy ===== *)
theory Spec2Isabelle
  imports Prelude RustStr Binary64 Scalars Expressions Documents Names Addresses Diagnostics
    Validation Criteria GroupedSums Presentation Merge Arithmetic Evaluation CachedEvaluation Graph GraphInvariant GraphUpdate DepthFirst Cycles Calculation Locality Scheduling Outcomes Retained Formulas Compatibility Parser ParserTotal NumberText Reading RoundTrip
begin

text \<open>
  A verification library for the semantic core of the Tachiko Work repository: a typed
  document of schemas, entities and formulas, its validation, its presentation store and
  its three-way merge.  Paths below are relative to \<open>src/crates/\<close>.

  The parts and how they interact.  \<open>semantic-core\<close> owns the document model; every other crate
  reads and rewrites documents of that model.  The validator reports what is wrong with a
  document as a sorted list of diagnostics; the address index turns the human keys of a
  document into stable ids and back; the presentation store refers to a document and is
  pruned when the document changes; \<open>merge-engine\<close> combines two documents over a common base;
  \<open>formula-engine\<close> evaluates the formulas a document stores.

  The theories.

    \<^item> \<open>Prelude\<close>: results with the early return of the \<open>?\<close> operator, ordered sets, and
      \<open>('k, 'v) btree\<close>, the \<open>BTreeMap\<close> of the source as its strictly sorted entries.
    \<^item> \<open>RustStr\<close>: what the code uses of \<open>str\<close> and \<open>char\<close>; a string is its UTF-8 bytes.
    \<^item> \<open>Binary64\<close>: what the code uses of \<open>f64\<close>: bits, comparison, correctly rounded parsing and
      shortest printing.
    \<^item> \<open>Scalars\<close>: \<open>Number\<close> and \<open>Date\<close> of \<open>semantic-core/src/model.rs\<close>.
    \<^item> \<open>Expressions\<close>: the expression tree of \<open>model.rs\<close> and its explicit-stack walks; the
      locale \<open>stack_walk\<close> is the contract the four walks share.
    \<^item> \<open>Documents\<close>: the document records of \<open>model.rs\<close> with their operations.
    \<^item> \<open>Names\<close>, \<open>Addresses\<close>, \<open>Diagnostics\<close>, \<open>Validation\<close>, \<open>Criteria\<close>, \<open>GroupedSums\<close>,
      \<open>Presentation\<close>: the files \<open>display_name.rs\<close>, \<open>address.rs\<close>, \<open>diagnostic.rs\<close>,
      \<open>validation.rs\<close>, \<open>criterion.rs\<close>, \<open>keyed_grouped_sum.rs\<close> and \<open>presentation.rs\<close> of
      \<open>semantic-core/src\<close>, definition by definition, under the names of the source.
    \<^item> \<open>Arithmetic\<close>: the \<open>f64\<close> operations and the numeric routines of
      \<open>formula-engine/src/evaluation.rs\<close>: decimal rounding, exact summation, averages.
    \<^item> \<open>Evaluation\<close>: the rest of \<open>evaluation.rs\<close>, the evaluator of one formula with the caches
      of a calculation pass threaded as a state.
    \<^item> \<open>CachedEvaluation\<close>: the plain evaluation without caches, and the proof that the evaluator
      computes it; the locale \<open>memo_table\<close> is the contract of the three tables of the cache.
    \<^item> \<open>Graph\<close>: the dependency graph of \<open>formula-engine/src/lib.rs\<close>, how it is built, changed and
      queried.
    \<^item> \<open>GraphInvariant\<close>: what a graph must satisfy for the uses of a set of formulas, that every
      operation on it keeps this, and that it determines the graph.
    \<^item> \<open>GraphUpdate\<close>: the calculation nodes of a document, the answers of its graph, and the
      update of a graph after an edit.
    \<^item> \<open>DepthFirst\<close>, \<open>Cycles\<close>: the two searches of \<open>cyclic_components\<close> in \<open>lib.rs\<close>, and that its
      components are those of the formulas over their dependencies.
    \<^item> \<open>Calculation\<close>: the phases of \<open>full_calculation_parts\<close> in \<open>lib.rs\<close>: the failures before the
      graph, the cycles, the initial values and the pass that evaluates the rest dependency first.
    \<^item> \<open>Locality\<close>: a formula sees only the cells it names and the rows of the columns it reads.
    \<^item> \<open>Scheduling\<close>: the pass counts what each formula awaits, resolves all of them and ends.
    \<^item> \<open>Outcomes\<close>: the equations of a document, that they have one solution, and that the
      calculation finds it.
    \<^item> \<open>Retained\<close>: the retained calculation state of \<open>lib.rs\<close>, rebuilt from a document or updated
      after an edit, and that both ways end in the same state.
    \<^item> \<open>Compatibility\<close>: \<open>calculate\<close> of \<open>lib.rs\<close>, the one error it makes of a failed calculation, and
      the path it shows for a cycle.
    \<^item> \<open>Formulas\<close>: the unbound expressions of \<open>formula-engine/src/parser.rs\<close>, their limits and their
      canonical text.
    \<^item> \<open>Parser\<close>: the recursive-descent parser of \<open>parser.rs\<close>, step by step.
    \<^item> \<open>ParserTotal\<close>: the parser answers every input, and what it answers can be written.
    \<^item> \<open>NumberText\<close>: the canonical text of a number is a literal that parses back to it.
    \<^item> \<open>Reading\<close>, \<open>RoundTrip\<close>: the parser followed along the canonical text, which it reads back.
    \<^item> \<open>Merge\<close>: \<open>merge-engine/src/lib.rs\<close>; the locale \<open>three_way\<close> is the contract of a choice
      between three values.

  What the lemmas show.  Each checker is proved equivalent to a declarative statement of
  what it admits (\<open>document_ok\<close>, \<open>presentation_ok\<close>, \<open>definition_ok\<close>, \<open>display_name_ok\<close>);
  loops over an explicit stack equal recursive traversals; the address index inverts the
  keys of a document; pruning re-establishes the validity of a presentation store; dates
  round-trip; the criterion index loses no match; rounding answers the half-up value of the
  displayed decimal; the caches of a calculation pass are invisible; the cycles reported are the
  strongly connected components; a calculation ends and is the one solution of its equations; an
  update of the retained state is a rebuild, and reports exactly what it changed; the parser answers
  every input and reads back the canonical text of what it accepts;
  and the merge never panics and answers
  exactly the three-way merge of its inputs.

  Bounds.  Sizes the source keeps in \<open>usize\<close> count elements of values in memory and are
  natural numbers here; the one fixed-width integer with a meaning of its own, the decimals
  of a number format, is an 8-bit word.  Most loops are terminating functions.  The pass over
  the remaining formulas and the walk back along a cycle are partial functions, and that they
  end is a theorem.  The loops of the parser carry fuel, one more than the bytes of the input,
  and its recursion two more than the nesting limit; that neither is used up, because every
  turn reads a byte and every descent nests, is a theorem as well.

  Not modelled: the human text of diagnostics and errors, serde encodings, Unicode case
  tables (a parameter of the criterion definitions), and the crates listed as not modelled
  in the manifest.
\<close>

end
